(* ===== verification/Prelude.thy ===== *)
theory Prelude
  imports Main "HOL-Library.Word"
begin

text \<open>
  The prelude of the development: the machine types of the C sources (an LP64 target, as every
  64-bit Apple platform is), the arithmetic of \<open>size_t\<close>, big-endian byte strings as numbers, and
  the facts on words, lists and options which the component theories share. Two collections carry
  the component proofs: \<open>word_facts\<close> holds the rules that turn a shift-and-or expression on
  words into arithmetic on \<^typ>\<open>nat\<close>, and \<open>split_rules\<close> the case splits of the error paths.
\<close>

unbundle bit_operations_syntax

section \<open>Types\<close>

type_synonym byte = "8 word"
type_synonym u16 = "16 word"
type_synonym u32 = "32 word"
type_synonym u64 = "64 word"

text \<open>A C function that reports failure returns \<open>None\<close> here, and its outputs otherwise.\<close>

type_synonym 'a result = "'a option"

named_theorems word_facts \<open>shift-and-or expressions as arithmetic\<close>
named_theorems split_rules \<open>case splits of the error paths\<close>

declare if_splits [split_rules] option.splits [split_rules] prod.splits [split_rules]
  list.splits [split_rules]

section \<open>The arithmetic of size_t\<close>

text \<open>
  A \<open>size_t\<close> is a \<^typ>\<open>nat\<close> below \<open>SIZE_BOUND\<close>; the operators wrap around as the C ones do.
\<close>

abbreviation (input) SIZE_BOUND :: nat where
  "SIZE_BOUND \<equiv> 2 ^ 64"

definition size_add :: "nat \<Rightarrow> nat \<Rightarrow> nat" where
  "size_add a b = (a + b) mod SIZE_BOUND"

definition size_mul :: "nat \<Rightarrow> nat \<Rightarrow> nat" where
  "size_mul a b = (a * b) mod SIZE_BOUND"

lemma size_add_less [simp]: "size_add a b < SIZE_BOUND"
  by (simp add: size_add_def)

lemma size_add_small: "a + b < SIZE_BOUND \<Longrightarrow> size_add a b = a + b"
  by (simp add: size_add_def)

text \<open>The idiom \<open>x + y < x\<close> detects exactly the additions that wrap.\<close>

lemma size_add_overflow:
  assumes "a < SIZE_BOUND" "b < SIZE_BOUND"
  shows "size_add a b < a \<longleftrightarrow> SIZE_BOUND \<le> a + b"
proof (cases "a + b < SIZE_BOUND")
  case True
  then show ?thesis by (simp add: size_add_def)
next
  case False
  have "(a + b - SIZE_BOUND) < SIZE_BOUND" using assms by linarith
  then have "(a + b) mod SIZE_BOUND = a + b - SIZE_BOUND"
    using False by (metis le_mod_geq mod_less not_le)
  then show ?thesis using False assms by (auto simp: size_add_def)
qed

section \<open>Words\<close>

lemma bit_nat_less:
  fixes n :: nat
  assumes "n < 2 ^ k" and "bit n i"
  shows "i < k"
proof -
  from assms(1) have "take_bit k n = n" by (rule take_bit_nat_eq_self)
  with assms(2) show ?thesis by (metis bit_take_bit_iff)
qed

lemma bit_unat_iff: "bit (unat w) n = bit w n" for w :: "'a::len word"
  by (auto simp: bit_simps dest: bit_imp_le_length)

lemma unat_less_bit:
  fixes w :: "'a::len word"
  assumes "unat w < 2 ^ k" and "bit w i"
  shows "i < k"
  using bit_nat_less [OF assms(1)] assms(2) by (simp add: bit_unat_iff)

lemma push_bit_or_add:
  fixes r x :: "'a::len word"
  assumes "unat x < 2 ^ k"
  shows "push_bit k r OR x = r * 2 ^ k + x"
proof -
  have "push_bit k r AND x = 0"
    by (rule bit_word_eqI) (auto simp: bit_simps dest: unat_less_bit [OF assms])
  then show ?thesis
    by (simp add: disjunctive_add_eq_or [symmetric] push_bit_eq_mult)
qed

lemma unat_push_bit_or:
  fixes r x :: "'a::len word"
  assumes "unat x < 2 ^ k"
  shows "unat (push_bit k r OR x) = (unat r * 2 ^ k + unat x) mod 2 ^ LENGTH('a)"
proof -
  have "push_bit k r OR x = word_of_nat (unat r * 2 ^ k + unat x)"
    by (simp add: push_bit_or_add [OF assms])
  then have "unat (push_bit k r OR x) = unat (word_of_nat (unat r * 2 ^ k + unat x) :: 'a word)"
    by (rule arg_cong)
  then show ?thesis by (simp only: unsigned_of_nat take_bit_eq_mod of_nat_id)
qed

lemma unat_ucast_mod:
  fixes w :: "'a::len word"
  shows "unat (ucast w :: 'b::len word) = unat w mod 2 ^ LENGTH('b)"
  by (simp add: unsigned_ucast_eq take_bit_eq_mod)

lemma unat_less_power: "unat w < 2 ^ LENGTH('a)" for w :: "'a::len word"
  by (rule unsigned_less)

lemma unat_ucast_up:
  fixes w :: "'a::len word"
  assumes "LENGTH('a) \<le> LENGTH('b::len)"
  shows "unat (ucast w :: 'b word) = unat w"
proof -
  have "unat w < 2 ^ LENGTH('b)"
    using unat_less_power [of w] power_increasing [OF assms, of "2 :: nat"] by linarith
  then show ?thesis by (simp add: unat_ucast_mod)
qed

lemma unat_and_mask:
  fixes w :: "'a::len word"
  shows "unat (w AND mask k) = unat w mod 2 ^ k"
proof -
  have "unat (take_bit k w) = unat w mod 2 ^ k"
    by (simp only: unsigned_take_bit_eq) (simp add: take_bit_eq_mod)
  then show ?thesis by (simp add: take_bit_eq_mask)
qed

lemma unat_drop_bit: "unat (drop_bit k w) = unat w div 2 ^ k" for w :: "'a::len word"
  by (simp only: unat_drop_bit_eq) (simp add: drop_bit_eq_div)

lemma byte_less [simp]: "unat b < 256" for b :: byte
  using unat_less_power [of b] by simp

lemma unat_word_of_nat: "unat (word_of_nat n :: 'a::len word) = n mod 2 ^ LENGTH('a)"
  by (simp add: unsigned_of_nat take_bit_eq_mod)

lemma byte_word_of_nat: "n < 256 \<Longrightarrow> unat (word_of_nat n :: byte) = n"
  and u32_word_of_nat: "n < 2 ^ 32 \<Longrightarrow> unat (word_of_nat n :: u32) = n"
  and u64_word_of_nat: "n < 2 ^ 64 \<Longrightarrow> unat (word_of_nat n :: u64) = n"
  by (simp_all add: unat_word_of_nat)

lemma byte_eq_iff: "b = c \<longleftrightarrow> unat b = unat c" for b c :: byte
  by (simp add: word_unat_eq_iff)

lemma word_eqI_unat: "unat v = unat w \<Longrightarrow> v = w" for v w :: "'a::len word"
  by (simp add: word_unat_eq_iff)

lemma word_of_nat_mod: "word_of_nat (n mod 2 ^ LENGTH('a)) = (word_of_nat n :: 'a::len word)"
  by (rule word_eqI_unat) (simp add: unat_word_of_nat)

lemma byte_of_nat_unat: "word_of_nat (unat b + 256 * n) = b" for b :: byte
  by (rule word_eqI_unat) (simp only: unat_word_of_nat, simp)

lemma push_byte_or_add [word_facts]: "push_bit 8 r OR ucast b = r * 256 + ucast b"
  for r :: u64 and b :: byte
  using push_bit_or_add [of "ucast b" 8 r] by (simp add: unat_ucast_up)

lemma drop_bit_eq_0_iff: "drop_bit k w = 0 \<longleftrightarrow> unat w < 2 ^ k" for w :: "'a::len word"
  by (metis unat_drop_bit unat_eq_zero div_eq_0_iff power_eq_0_iff zero_neq_numeral)

lemma and_0x7f: "unat (b AND 0x7f) = unat b mod 128" for b :: byte
  using unat_and_mask [of b 7] by (simp add: mask_eq_exp_minus_1)

lemma and_0x80_eq_0_iff: "b AND 0x80 = 0 \<longleftrightarrow> unat b < 128" for b :: byte
proof -
  have "b AND 0x80 = 0 \<longleftrightarrow> \<not> bit b 7"
    using and_exp_eq_0_iff_not_bit [of b 7] by simp
  also have "\<dots> \<longleftrightarrow> \<not> odd (unat b div 128)"
    by (simp flip: bit_unat_iff) (simp add: bit_iff_odd)
  also have "\<dots> \<longleftrightarrow> unat b < 128"
  proof -
    have "unat b div 128 < 2" using byte_less [of b] by linarith
    then have "unat b div 128 = 0 \<or> unat b div 128 = 1" by linarith
    then show ?thesis by (auto simp: div_eq_0_iff) 
  qed
  finally show ?thesis .
qed

lemma push_7_or:
  fixes v :: u64 and b :: byte
  assumes "unat v < 2 ^ 57"
  shows "unat (push_bit 7 v OR ucast (b AND 0x7f)) = unat v * 128 + unat b mod 128"
  using assms unat_push_bit_or [of "ucast (b AND 0x7f) :: u64" 7 v] and_0x7f [of b]
  by (simp add: unat_ucast_up)

lemma unat_push_bit:
  fixes w :: "'a::len word"
  shows "unat (push_bit k w) = (unat w * 2 ^ k) mod 2 ^ LENGTH('a)"
    using unat_push_bit_or [of "0 :: 'a word" k w] by simp

lemma unat_and_high:
  fixes w :: "'a::len word"
  assumes "unat w < 2 ^ (k + j)"
  shows "unat (w AND push_bit k (mask j)) = unat w div 2 ^ k * 2 ^ k"
proof -
  have "w AND push_bit k (mask j) = push_bit k (drop_bit k w)"
    by (rule bit_word_eqI) (auto simp: bit_simps dest: unat_less_bit [OF assms])
  also have "unat \<dots> = (unat w div 2 ^ k * 2 ^ k) mod 2 ^ LENGTH('a)"
    using unat_push_bit_or [of "0 :: 'a word" k "drop_bit k w"] by (simp add: unat_drop_bit)
  also have "\<dots> = unat w div 2 ^ k * 2 ^ k"
    using unat_less_power [of w] div_times_less_eq_dividend [of "unat w" "2 ^ k"] by (intro mod_less) linarith
  finally show ?thesis .
qed

lemma unat_or_add:
  fixes u v :: "'a::len word"
  assumes "unat v < 2 ^ k" and "2 ^ k dvd unat u"
  shows "unat (u OR v) = (unat u + unat v) mod 2 ^ LENGTH('a)"
proof -
  have "unat (push_bit k (drop_bit k u)) = unat u"
    using assms(2) unat_less_power [of u] by (simp only: unat_push_bit unat_drop_bit) simp
  then have "u = push_bit k (drop_bit k u)" by (intro word_eqI_unat) simp
  then have "unat (u OR v) = (unat (drop_bit k u) * 2 ^ k + unat v) mod 2 ^ LENGTH('a)"
    using unat_push_bit_or [OF assms(1), of "drop_bit k u"] by simp
  then show ?thesis using assms(2) by (simp add: unat_drop_bit)
qed

section \<open>Byte strings as big-endian numbers\<close>

fun be_val :: "byte list \<Rightarrow> nat" where
  "be_val [] = 0"
| "be_val (b # bs) = unat b * 256 ^ length bs + be_val bs"

fun be_bytes :: "nat \<Rightarrow> nat \<Rightarrow> byte list" where
  "be_bytes 0 v = []"
| "be_bytes (Suc n) v = be_bytes n (v div 256) @ [word_of_nat v]"

lemma length_be_bytes [simp]: "length (be_bytes n v) = n"
  by (induction n arbitrary: v) auto

lemma be_val_append: "be_val (xs @ ys) = be_val xs * 256 ^ length ys + be_val ys"
  by (induction xs) (auto simp: algebra_simps power_add)

lemma be_val_snoc [simp]: "be_val (xs @ [b]) = be_val xs * 256 + unat b"
  by (simp add: be_val_append)

lemma be_val_less: "be_val bs < 256 ^ length bs"
proof (induction bs)
  case (Cons b bs)
  have "unat b * 256 ^ length bs + be_val bs < (unat b + 1) * 256 ^ length bs"
    using Cons.IH by (simp add: algebra_simps)
  also have "\<dots> \<le> 256 * 256 ^ length bs"
    using byte_less [of b] by (intro mult_le_mono1) linarith
  finally show ?case by simp
qed simp

lemma be_val_be_bytes [simp]: "be_val (be_bytes n v) = v mod 256 ^ n"
proof (induction n arbitrary: v)
  case (Suc n)
  have "v mod 256 ^ Suc n = (v div 256) mod 256 ^ n * 256 + v mod 256"
    by (simp add: mod_mult2_eq)
  then show ?case by (simp add: Suc unat_word_of_nat)
qed simp

lemma be_bytes_be_val [simp]: "be_bytes (length bs) (be_val bs) = bs"
proof (induction bs rule: rev_induct)
  case (snoc b bs)
  have "(be_val bs * 256 + unat b) div 256 = be_val bs"
    using byte_less [of b] by simp
  then show ?case
    using snoc byte_of_nat_unat [of b "be_val bs"] by (simp add: algebra_simps)
qed simp

lemma be_val_inj: "length xs = length ys \<Longrightarrow> be_val xs = be_val ys \<Longrightarrow> xs = ys"
  by (metis be_bytes_be_val)

text \<open>The accumulation loop \<open>result = result << 8 | data[i]\<close> computes the big-endian value.\<close>

lemma foldl_shift_or:
  "foldl (\<lambda>r b. push_bit 8 r OR ucast b) acc bs
     = (acc * 256 ^ length bs + word_of_nat (be_val bs) :: u64)"
proof (induction bs arbitrary: acc)
  case (Cons b bs)
  have "(word_of_nat (unat b) :: u64) = ucast b" 
    by (rule word_eqI_unat) (simp add: unat_word_of_nat unat_ucast_mod)
  then show ?case
    unfolding foldl.simps Cons by (simp add: push_byte_or_add algebra_simps)
qed simp

section \<open>Lists\<close>

lemma take_append_exact [simp]: "length xs = n \<Longrightarrow> take n (xs @ ys) = xs"
  and drop_append_exact [simp]: "length xs = n \<Longrightarrow> drop n (xs @ ys) = ys"
  by auto

end
