(* ===== verification/Mem.thy ===== *)
theory Mem
  imports Prelude
begin

text \<open>
  The memory and string helpers of BoringSSL (\<^verbatim>\<open>crypto/mem.c\<close>). The C library's \<open>malloc\<close> is
  a parameter: an allocator takes a size and returns the contents of the fresh block, or \<open>None\<close>
  for a null pointer; \<open>alloc_spec\<close> states what the library documents of it. A block of memory is
  the list of its bytes, and a C string is a block that holds a zero byte.
\<close>

section \<open>Allocation\<close>

type_synonym allocator = "nat \<Rightarrow> byte list option"

definition alloc_spec :: "allocator \<Rightarrow> bool" where
  "alloc_spec al \<longleftrightarrow> (\<forall>n bs. al n = Some bs \<longrightarrow> length bs = n)"

text \<open>An allocator that never fails, for the theorems on success.\<close>

definition alloc_total :: "allocator \<Rightarrow> bool" where
  "alloc_total al \<longleftrightarrow> alloc_spec al \<and> (\<forall>n < SIZE_BOUND. al n \<noteq> None)"

abbreviation (input) OPENSSL_MALLOC_PREFIX :: nat where
  "OPENSSL_MALLOC_PREFIX \<equiv> 8"

text \<open>
  The hooks \<open>OPENSSL_memory_alloc\<close>, \<open>OPENSSL_memory_free\<close> and \<open>OPENSSL_memory_get_size\<close> are null
  unless the embedding program defines them; the definitions follow that build.
\<close>

definition OPENSSL_malloc :: "allocator \<Rightarrow> nat \<Rightarrow> byte list option" where
  "OPENSSL_malloc al sz =
     (if size_add sz OPENSSL_MALLOC_PREFIX < sz then None
      else case al (size_add sz OPENSSL_MALLOC_PREFIX) of
        None \<Rightarrow> None
      | Some ptr \<Rightarrow> Some (drop OPENSSL_MALLOC_PREFIX ptr))"

definition OPENSSL_realloc :: "allocator \<Rightarrow> byte list option \<Rightarrow> nat \<Rightarrow> byte list option" where
  "OPENSSL_realloc al orig_ptr new_size =
     (case orig_ptr of
        None \<Rightarrow> OPENSSL_malloc al new_size
      | Some old \<Rightarrow>
          (case OPENSSL_malloc al new_size of
             None \<Rightarrow> None
           | Some ret \<Rightarrow>
               let old_size = length old;
                   to_copy = (if old_size < new_size then old_size else new_size)
               in Some (take to_copy old @ drop to_copy ret)))"

definition OPENSSL_memdup :: "allocator \<Rightarrow> byte list \<Rightarrow> nat \<Rightarrow> byte list option" where
  "OPENSSL_memdup al data sz =
     (if sz = 0 then None
      else case OPENSSL_malloc al sz of
        None \<Rightarrow> None
      | Some ret \<Rightarrow> Some (take sz data @ drop sz ret))"

text \<open>An allocator that keeps its contract: it never fails and clears the memory.\<close>

definition zero_alloc :: allocator where
  "zero_alloc n = Some (replicate n 0)"

lemma zero_alloc_spec [simp]: "alloc_spec zero_alloc"
  by (simp add: alloc_spec_def zero_alloc_def)

section \<open>Comparison and hashing\<close>

fun CRYPTO_memcmp_loop :: "byte \<Rightarrow> byte list \<Rightarrow> byte list \<Rightarrow> nat \<Rightarrow> nat \<Rightarrow> byte" where
  "CRYPTO_memcmp_loop x a b i 0 = x"
| "CRYPTO_memcmp_loop x a b i (Suc n) =
     CRYPTO_memcmp_loop (x OR (a ! i XOR b ! i)) a b (Suc i) n"

definition CRYPTO_memcmp :: "byte list \<Rightarrow> byte list \<Rightarrow> nat \<Rightarrow> byte" where
  "CRYPTO_memcmp in_a in_b len = CRYPTO_memcmp_loop 0 in_a in_b 0 len"

definition OPENSSL_hash32 :: "byte list \<Rightarrow> nat \<Rightarrow> u32" where
  "OPENSSL_hash32 ptr len = foldl (\<lambda>h b. (h XOR ucast b) * 16777619) 2166136261 (take len ptr)"

section \<open>C strings\<close>

text \<open>\<open>strlen\<close> of the C library: the number of bytes before the first zero byte.\<close>

definition c_strlen :: "byte list \<Rightarrow> nat" where
  "c_strlen s = length (takeWhile (\<lambda>b. b \<noteq> 0) s)"

definition is_c_string :: "byte list \<Rightarrow> bool" where
  "is_c_string s \<longleftrightarrow> 0 \<in> set s"

definition OPENSSL_strhash :: "byte list \<Rightarrow> u32" where
  "OPENSSL_strhash s = OPENSSL_hash32 s (c_strlen s)"

fun OPENSSL_strnlen_loop :: "byte list \<Rightarrow> nat \<Rightarrow> nat \<Rightarrow> nat" where
  "OPENSSL_strnlen_loop s i 0 = i"
| "OPENSSL_strnlen_loop s i (Suc n) = (if s ! i = 0 then i else OPENSSL_strnlen_loop s (Suc i) n)"

definition OPENSSL_strnlen :: "byte list \<Rightarrow> nat \<Rightarrow> nat" where
  "OPENSSL_strnlen s len = OPENSSL_strnlen_loop s 0 len"

definition OPENSSL_strdup :: "allocator \<Rightarrow> byte list option \<Rightarrow> byte list option" where
  "OPENSSL_strdup al s =
     (case s of
        None \<Rightarrow> None
      | Some str \<Rightarrow>
          (let len = c_strlen str + 1 in
           case OPENSSL_malloc al len of
             None \<Rightarrow> None
           | Some ret \<Rightarrow> Some (take len str @ drop len ret)))"

definition OPENSSL_strndup :: "allocator \<Rightarrow> byte list \<Rightarrow> nat \<Rightarrow> byte list option" where
  "OPENSSL_strndup al str max_len =
     (let sz = OPENSSL_strnlen str max_len;
          alloc_size = size_add sz 1
      in if alloc_size < sz then None
         else case OPENSSL_malloc al alloc_size of
           None \<Rightarrow> None
         | Some ret \<Rightarrow> Some ((take sz str @ drop sz ret) [sz := 0]))"

text \<open>\<open>int\<close> values of the type \<open>char\<close>, which is signed on the target.\<close>

definition OPENSSL_tolower :: "int \<Rightarrow> int" where
  "OPENSSL_tolower c = (if 65 \<le> c \<and> c \<le> 90 then c + (97 - 65) else c)"

fun OPENSSL_strncasecmp_loop :: "byte list \<Rightarrow> byte list \<Rightarrow> nat \<Rightarrow> nat \<Rightarrow> int" where
  "OPENSSL_strncasecmp_loop a b i 0 = 0"
| "OPENSSL_strncasecmp_loop a b i (Suc n) =
     (let aa = OPENSSL_tolower (sint (a ! i)); bb = OPENSSL_tolower (sint (b ! i))
      in if aa < bb then - 1 else if bb < aa then 1 else if aa = 0 then 0
         else OPENSSL_strncasecmp_loop a b (Suc i) n)"

definition OPENSSL_strncasecmp :: "byte list \<Rightarrow> byte list \<Rightarrow> nat \<Rightarrow> int" where
  "OPENSSL_strncasecmp a b n = OPENSSL_strncasecmp_loop a b 0 n"

text \<open>
  \<open>OPENSSL_strlcpy\<close> returns the length of the string it tried to create, with the destination
  as it leaves it: \<open>dst_size\<close> bytes at \<open>dst\<close>, of which the loop writes the first ones.
\<close>

fun OPENSSL_strlcpy_loop :: "byte list \<Rightarrow> nat \<Rightarrow> byte list \<Rightarrow> nat \<Rightarrow> byte list \<times> nat \<times> byte list \<times> nat"
where
  "OPENSSL_strlcpy_loop dst l src 0 = (dst, l, src, 0)"
| "OPENSSL_strlcpy_loop dst l src (Suc dst_size) =
     (if dst_size > 0 \<and> src \<noteq> [] \<and> hd src \<noteq> 0
      then OPENSSL_strlcpy_loop (dst [l := hd src]) (Suc l) (tl src) dst_size
      else (dst, l, src, Suc dst_size))"

definition OPENSSL_strlcpy :: "byte list \<Rightarrow> byte list \<Rightarrow> nat \<Rightarrow> nat \<times> byte list" where
  "OPENSSL_strlcpy dst src dst_size =
     (case OPENSSL_strlcpy_loop dst 0 src dst_size of
        (dst', l, src', rest) \<Rightarrow>
          (l + c_strlen src', if rest > 0 then dst' [l := 0] else dst'))"

definition OPENSSL_strlcat :: "byte list \<Rightarrow> byte list \<Rightarrow> nat \<Rightarrow> nat \<times> byte list" where
  "OPENSSL_strlcat dst src dst_size =
     (let l = length (takeWhile (\<lambda>b. b \<noteq> 0) (take dst_size dst)) in
      case OPENSSL_strlcpy (drop l dst) src (dst_size - l) of
        (n, tail) \<Rightarrow> (l + n, take l dst @ tail))"

section \<open>Facts\<close>

lemma malloc_length:
  assumes "alloc_spec al" and "OPENSSL_malloc al n = Some bs" and "n < SIZE_BOUND"
  shows "length bs = n"
proof -
  from assms(2) obtain ptr where no: "\<not> size_add n 8 < n" and al: "al (size_add n 8) = Some ptr"
    and bs: "bs = drop 8 ptr"
    by (auto simp: OPENSSL_malloc_def split: split_rules)
  have "size_add n 8 = n + 8"
    using no size_add_overflow [OF assms(3), of 8] by (intro size_add_small) simp
  then show ?thesis using assms(1) al bs by (auto simp: alloc_spec_def)
qed

lemma realloc_length:
  assumes "alloc_spec al" and "OPENSSL_realloc al p n = Some bs" and "n < SIZE_BOUND"
  shows "length bs = n"
  using assms malloc_length [OF assms(1) _ assms(3)]
  by (fastforce simp: OPENSSL_realloc_def Let_def split: split_rules)

lemma realloc_keeps:
  assumes "alloc_spec al" and "OPENSSL_realloc al (Some old) n = Some bs" and "length old \<le> n"
    and "n < SIZE_BOUND"
  shows "take (length old) bs = old"
  using assms malloc_length [OF assms(1) _ assms(4)]
  by (fastforce simp: OPENSSL_realloc_def Let_def split: split_rules)

lemma xor_eq_0_word: "u XOR v = 0 \<longleftrightarrow> u = v" for u v :: "'a::len word"
proof
  assume "u XOR v = 0"
  then have "bit u n \<noteq> bit v n \<longleftrightarrow> False" for n by (metis bit_0_eq bit_xor_iff bot_apply bot_bool_def)
  then show "u = v" by (simp add: bit_eq_iff)
qed simp

lemma memcmp_loop_zero:
  "CRYPTO_memcmp_loop x a b i n = 0 \<longleftrightarrow> x = 0 \<and> (\<forall>j < n. a ! (i + j) = b ! (i + j))"
proof (induction n arbitrary: x i)
  case (Suc n)
  have "x OR (a ! i XOR b ! i) = 0 \<longleftrightarrow> x = 0 \<and> a ! i = b ! i"
    by (simp add: or_eq_0_iff xor_eq_0_word)
  then show ?case using Suc by (auto simp: less_Suc_eq_0_disj)
qed simp

lemma memcmp_eq_iff:
  assumes "n \<le> length a" and "n \<le> length b"
  shows "CRYPTO_memcmp a b n = 0 \<longleftrightarrow> take n a = take n b"
  using assms by (auto simp: CRYPTO_memcmp_def memcmp_loop_zero list_eq_iff_nth_eq)

end
