(* ===== verification/Cbs.thy ===== *)
theory Cbs
  imports Mem
begin

text \<open>
  The byte-string reader of BoringSSL (\<^verbatim>\<open>crypto/bytestring/cbs.c\<close>). A \<open>CBS\<close> is a pointer and a
  length into memory nobody writes while it is read; it is modelled by the list of the bytes it
  spans, so \<open>CBS_len\<close> is the length of the list. A reader takes the \<open>CBS\<close> and returns \<open>None\<close> where
  the C function returns 0, and otherwise its outputs and the advanced \<open>CBS\<close>; what a failing call
  leaves behind is not observed. The second half of the theory holds the DER reader: identifier
  and length octets, INTEGER, BOOLEAN, BIT STRING and the optional elements.
\<close>

type_synonym CBS = "byte list"

section \<open>Fixed-width reads\<close>

definition CBS_init :: "byte list \<Rightarrow> nat \<Rightarrow> CBS" where
  "CBS_init data len = take len data"

abbreviation (input) CBS_len :: "CBS \<Rightarrow> nat" where
  "CBS_len cbs \<equiv> length cbs"

definition cbs_get :: "CBS \<Rightarrow> nat \<Rightarrow> (byte list \<times> CBS) result" where
  "cbs_get cbs n = (if CBS_len cbs < n then None else Some (take n cbs, drop n cbs))"

definition CBS_skip :: "CBS \<Rightarrow> nat \<Rightarrow> CBS result" where
  "CBS_skip cbs len = (case cbs_get cbs len of None \<Rightarrow> None | Some (dummy, cbs') \<Rightarrow> Some cbs')"

definition CBS_stow :: "allocator \<Rightarrow> CBS \<Rightarrow> (byte list option \<times> nat) result" where
  "CBS_stow al cbs =
     (if CBS_len cbs = 0 then Some (None, 0)
      else case OPENSSL_memdup al cbs (CBS_len cbs) of
        None \<Rightarrow> None
      | Some ptr \<Rightarrow> Some (Some ptr, CBS_len cbs))"

definition CBS_strdup :: "allocator \<Rightarrow> CBS \<Rightarrow> byte list result" where
  "CBS_strdup al cbs = OPENSSL_strndup al cbs (CBS_len cbs)"

text \<open>\<open>memchr\<close>: the offset of the first byte equal to \<open>c\<close>.\<close>

fun c_memchr :: "byte list \<Rightarrow> byte \<Rightarrow> nat option" where
  "c_memchr [] c = None"
| "c_memchr (b # bs) c = (if b = c then Some 0 else map_option Suc (c_memchr bs c))"

definition CBS_contains_zero_byte :: "CBS \<Rightarrow> bool" where
  "CBS_contains_zero_byte cbs \<longleftrightarrow> c_memchr cbs 0 \<noteq> None"

definition CBS_mem_equal :: "CBS \<Rightarrow> byte list \<Rightarrow> nat \<Rightarrow> bool" where
  "CBS_mem_equal cbs data len =
     (if len \<noteq> CBS_len cbs then False else CRYPTO_memcmp cbs data len = 0)"

definition cbs_get_u :: "CBS \<Rightarrow> nat \<Rightarrow> (u64 \<times> CBS) result" where
  "cbs_get_u cbs len =
     (case cbs_get cbs len of
        None \<Rightarrow> None
      | Some (data, cbs') \<Rightarrow> Some (foldl (\<lambda>result b. push_bit 8 result OR ucast b) 0 data, cbs'))"

definition CBS_get_u8 :: "CBS \<Rightarrow> (byte \<times> CBS) result" where
  "CBS_get_u8 cbs = (case cbs_get cbs 1 of None \<Rightarrow> None | Some (v, cbs') \<Rightarrow> Some (v ! 0, cbs'))"

definition CBS_get_u16 :: "CBS \<Rightarrow> (u16 \<times> CBS) result" where
  "CBS_get_u16 cbs = (case cbs_get_u cbs 2 of None \<Rightarrow> None | Some (v, cbs') \<Rightarrow> Some (ucast v, cbs'))"

definition CRYPTO_bswap2 :: "u16 \<Rightarrow> u16" where
  "CRYPTO_bswap2 x = drop_bit 8 x OR push_bit 8 x"

definition CRYPTO_bswap4 :: "u32 \<Rightarrow> u32" where
  "CRYPTO_bswap4 x0 =
     (let x = drop_bit 16 x0 OR push_bit 16 x0
      in drop_bit 8 (x AND 0xff00ff00) OR push_bit 8 (x AND 0x00ff00ff))"

definition CRYPTO_bswap8 :: "u64 \<Rightarrow> u64" where
  "CRYPTO_bswap8 x =
     ucast (CRYPTO_bswap4 (ucast (drop_bit 32 x))) OR push_bit 32 (ucast (CRYPTO_bswap4 (ucast x)))"

definition CBS_get_u16le :: "CBS \<Rightarrow> (u16 \<times> CBS) result" where
  "CBS_get_u16le cbs =
     (case CBS_get_u16 cbs of None \<Rightarrow> None | Some (v, cbs') \<Rightarrow> Some (CRYPTO_bswap2 v, cbs'))"

definition CBS_get_u24 :: "CBS \<Rightarrow> (u32 \<times> CBS) result" where
  "CBS_get_u24 cbs = (case cbs_get_u cbs 3 of None \<Rightarrow> None | Some (v, cbs') \<Rightarrow> Some (ucast v, cbs'))"

definition CBS_get_u32 :: "CBS \<Rightarrow> (u32 \<times> CBS) result" where
  "CBS_get_u32 cbs = (case cbs_get_u cbs 4 of None \<Rightarrow> None | Some (v, cbs') \<Rightarrow> Some (ucast v, cbs'))"

definition CBS_get_u32le :: "CBS \<Rightarrow> (u32 \<times> CBS) result" where
  "CBS_get_u32le cbs =
     (case CBS_get_u32 cbs of None \<Rightarrow> None | Some (v, cbs') \<Rightarrow> Some (CRYPTO_bswap4 v, cbs'))"

definition CBS_get_u64 :: "CBS \<Rightarrow> (u64 \<times> CBS) result" where
  "CBS_get_u64 cbs = cbs_get_u cbs 8"

definition CBS_get_u64le :: "CBS \<Rightarrow> (u64 \<times> CBS) result" where
  "CBS_get_u64le cbs =
     (case cbs_get_u cbs 8 of None \<Rightarrow> None | Some (v, cbs') \<Rightarrow> Some (CRYPTO_bswap8 v, cbs'))"

definition CBS_get_last_u8 :: "CBS \<Rightarrow> (byte \<times> CBS) result" where
  "CBS_get_last_u8 cbs =
     (if CBS_len cbs = 0 then None
      else Some (cbs ! (CBS_len cbs - 1), take (CBS_len cbs - 1) cbs))"

definition CBS_get_bytes :: "CBS \<Rightarrow> nat \<Rightarrow> (CBS \<times> CBS) result" where
  "CBS_get_bytes cbs len =
     (case cbs_get cbs len of None \<Rightarrow> None | Some (v, cbs') \<Rightarrow> Some (CBS_init v len, cbs'))"

definition CBS_copy_bytes :: "CBS \<Rightarrow> nat \<Rightarrow> (byte list \<times> CBS) result" where
  "CBS_copy_bytes cbs len =
     (case cbs_get cbs len of None \<Rightarrow> None | Some (v, cbs') \<Rightarrow> Some (take len v, cbs'))"

definition cbs_get_length_prefixed :: "CBS \<Rightarrow> nat \<Rightarrow> (CBS \<times> CBS) result" where
  "cbs_get_length_prefixed cbs len_len =
     (case cbs_get_u cbs len_len of
        None \<Rightarrow> None
      | Some (len, cbs') \<Rightarrow> CBS_get_bytes cbs' (unat len))"

definition CBS_get_u8_length_prefixed :: "CBS \<Rightarrow> (CBS \<times> CBS) result" where
  "CBS_get_u8_length_prefixed cbs = cbs_get_length_prefixed cbs 1"

definition CBS_get_u16_length_prefixed :: "CBS \<Rightarrow> (CBS \<times> CBS) result" where
  "CBS_get_u16_length_prefixed cbs = cbs_get_length_prefixed cbs 2"

definition CBS_get_u24_length_prefixed :: "CBS \<Rightarrow> (CBS \<times> CBS) result" where
  "CBS_get_u24_length_prefixed cbs = cbs_get_length_prefixed cbs 3"

definition CBS_get_until_first :: "CBS \<Rightarrow> byte \<Rightarrow> (CBS \<times> CBS) result" where
  "CBS_get_until_first cbs c =
     (case c_memchr cbs c of None \<Rightarrow> None | Some split \<Rightarrow> CBS_get_bytes cbs split)"

section \<open>DER identifier and length octets\<close>

abbreviation (input) CBS_ASN1_TAG_SHIFT :: nat where
  "CBS_ASN1_TAG_SHIFT \<equiv> 24"
abbreviation (input) CBS_ASN1_CONSTRUCTED :: u32 where
  "CBS_ASN1_CONSTRUCTED \<equiv> 0x20000000"
abbreviation (input) CBS_ASN1_TAG_NUMBER_MASK :: u32 where
  "CBS_ASN1_TAG_NUMBER_MASK \<equiv> 0x1fffffff"
abbreviation (input) CBS_ASN1_BOOLEAN :: u32 where
  "CBS_ASN1_BOOLEAN \<equiv> 0x1"
abbreviation (input) CBS_ASN1_INTEGER :: u32 where
  "CBS_ASN1_INTEGER \<equiv> 0x2"
abbreviation (input) CBS_ASN1_OCTETSTRING :: u32 where
  "CBS_ASN1_OCTETSTRING \<equiv> 0x4"

lemma cbs_get_Some: "cbs_get cbs n = Some (d, cbs') \<longleftrightarrow> n \<le> length cbs \<and> d = take n cbs \<and> cbs' = drop n cbs"
  by (auto simp: cbs_get_def)

lemma CBS_get_u8_Nil [simp]: "CBS_get_u8 [] = None"
  and CBS_get_u8_Cons [simp]: "CBS_get_u8 (b # cbs) = Some (b, cbs)"
  by (simp_all add: CBS_get_u8_def cbs_get_def)

lemma CBS_get_u8_Some: "CBS_get_u8 cbs = Some (b, cbs') \<longleftrightarrow> cbs = b # cbs'"
  by (cases cbs) auto

text \<open>The \<open>do\<close> loop of \<open>parse_base128_integer\<close>: \<open>v\<close> is the value read so far.\<close>

function parse_base128_loop :: "u64 \<Rightarrow> CBS \<Rightarrow> (u64 \<times> CBS) result" where
  "parse_base128_loop v cbs =
     (case CBS_get_u8 cbs of
        None \<Rightarrow> None
      | Some (b, cbs') \<Rightarrow>
          if drop_bit (64 - 7) v \<noteq> 0 then None
          else if v = 0 \<and> b = 0x80 then None
          else let v' = push_bit 7 v OR ucast (b AND 0x7f)
               in if b AND 0x80 \<noteq> 0 then parse_base128_loop v' cbs' else Some (v', cbs'))"
  by pat_completeness auto
termination
  by (relation "measure (\<lambda>(v, cbs). length cbs)") (auto simp: CBS_get_u8_Some)

declare parse_base128_loop.simps [simp del]

definition parse_base128_integer :: "CBS \<Rightarrow> (u64 \<times> CBS) result" where
  "parse_base128_integer cbs = parse_base128_loop 0 cbs"

definition parse_asn1_tag :: "CBS \<Rightarrow> (u32 \<times> CBS) result" where
  "parse_asn1_tag cbs =
     (case CBS_get_u8 cbs of
        None \<Rightarrow> None
      | Some (tag_byte, cbs') \<Rightarrow>
          let tag = push_bit CBS_ASN1_TAG_SHIFT (ucast tag_byte AND 0xe0) :: u32;
              tag_number = ucast (tag_byte AND 0x1f) :: u32
          in if tag_number = 0x1f
             then (case parse_base128_integer cbs' of
                     None \<Rightarrow> None
                   | Some (v, cbs'') \<Rightarrow>
                       if v > ucast CBS_ASN1_TAG_NUMBER_MASK \<or> v < 0x1f then None
                       else Some (tag OR ucast v, cbs''))
             else Some (tag OR tag_number, cbs'))"

text \<open>
  The outputs of \<open>cbs_get_any_asn1_element\<close>: the element with its header, the tag, the length of
  the header and whether the encoding was BER only. The advanced \<open>CBS\<close> is returned beside them.
\<close>

record asn1_element =
  el_out :: CBS
  el_tag :: u32
  el_header_len :: nat
  el_ber_found :: bool

definition asn1_take ::
  "CBS \<Rightarrow> nat \<Rightarrow> u32 \<Rightarrow> nat \<Rightarrow> bool \<Rightarrow> (asn1_element \<times> CBS) result" where
  "asn1_take cbs len tag header_len ber_found =
     (case CBS_get_bytes cbs len of
        None \<Rightarrow> None
      | Some (out, cbs') \<Rightarrow>
          Some (\<lparr>el_out = out, el_tag = tag, el_header_len = header_len,
                 el_ber_found = ber_found\<rparr>, cbs'))"

definition cbs_get_any_asn1_element :: "CBS \<Rightarrow> bool \<Rightarrow> (asn1_element \<times> CBS) result" where
  "cbs_get_any_asn1_element cbs ber_ok =
     (case parse_asn1_tag cbs of
        None \<Rightarrow> None
      | Some (tag, header1) \<Rightarrow>
     (case CBS_get_u8 header1 of
        None \<Rightarrow> None
      | Some (length_byte, header) \<Rightarrow>
          let header_len = CBS_len cbs - CBS_len header in
          if length_byte AND 0x80 = 0
          then asn1_take cbs (size_add (unat length_byte) header_len) tag header_len False
          else
            let num_bytes = unat (length_byte AND 0x7f) in
            if ber_ok \<and> tag AND CBS_ASN1_CONSTRUCTED \<noteq> 0 \<and> num_bytes = 0
            then asn1_take cbs header_len tag header_len True
            else if num_bytes = 0 \<or> num_bytes > 4 then None
            else (case cbs_get_u header num_bytes of
                    None \<Rightarrow> None
                  | Some (len64, header') \<Rightarrow>
                      if len64 < 128 \<and> \<not> ber_ok then None
                      else if drop_bit ((num_bytes - 1) * 8) len64 = 0 \<and> \<not> ber_ok then None
                      else
                        let ber_found =
                              (len64 < 128 \<or> drop_bit ((num_bytes - 1) * 8) len64 = 0);
                            len = unat len64
                        in if size_add len (size_add header_len num_bytes) < len then None
                           else asn1_take cbs (size_add len (size_add header_len num_bytes)) tag
                                  (header_len + num_bytes) ber_found)))"

definition CBS_get_any_asn1_element :: "CBS \<Rightarrow> (asn1_element \<times> CBS) result" where
  "CBS_get_any_asn1_element cbs = cbs_get_any_asn1_element cbs False"

definition CBS_get_any_ber_asn1_element :: "CBS \<Rightarrow> (asn1_element \<times> CBS) result" where
  "CBS_get_any_ber_asn1_element cbs = cbs_get_any_asn1_element cbs True"

definition CBS_get_any_asn1 :: "CBS \<Rightarrow> (CBS \<times> u32 \<times> CBS) result" where
  "CBS_get_any_asn1 cbs =
     (case CBS_get_any_asn1_element cbs of
        None \<Rightarrow> None
      | Some (el, cbs') \<Rightarrow>
          (case CBS_skip (el_out el) (el_header_len el) of
             None \<Rightarrow> None
           | Some out \<Rightarrow> Some (out, el_tag el, cbs')))"

definition cbs_get_asn1 :: "CBS \<Rightarrow> u32 \<Rightarrow> bool \<Rightarrow> (CBS \<times> CBS) result" where
  "cbs_get_asn1 cbs tag_value skip_header =
     (case CBS_get_any_asn1_element cbs of
        None \<Rightarrow> None
      | Some (el, cbs') \<Rightarrow>
          if el_tag el \<noteq> tag_value then None
          else if skip_header
            then (case CBS_skip (el_out el) (el_header_len el) of
                    None \<Rightarrow> None
                  | Some out \<Rightarrow> Some (out, cbs'))
            else Some (el_out el, cbs'))"

definition CBS_get_asn1 :: "CBS \<Rightarrow> u32 \<Rightarrow> (CBS \<times> CBS) result" where
  "CBS_get_asn1 cbs tag_value = cbs_get_asn1 cbs tag_value True"

definition CBS_get_asn1_element :: "CBS \<Rightarrow> u32 \<Rightarrow> (CBS \<times> CBS) result" where
  "CBS_get_asn1_element cbs tag_value = cbs_get_asn1 cbs tag_value False"

definition CBS_peek_asn1_tag :: "CBS \<Rightarrow> u32 \<Rightarrow> bool" where
  "CBS_peek_asn1_tag cbs tag_value =
     (if CBS_len cbs < 1 then False
      else case parse_asn1_tag cbs of
        None \<Rightarrow> False
      | Some (actual_tag, copy) \<Rightarrow> tag_value = actual_tag)"

section \<open>INTEGER, BOOLEAN and BIT STRING\<close>

text \<open>The result carries \<open>*out_is_negative\<close>; \<open>None\<close> is the return value 0.\<close>

definition CBS_is_valid_asn1_integer :: "CBS \<Rightarrow> bool result" where
  "CBS_is_valid_asn1_integer cbs =
     (case CBS_get_u8 cbs of
        None \<Rightarrow> None
      | Some (first_byte, copy) \<Rightarrow>
          (case CBS_get_u8 copy of
             None \<Rightarrow> Some (first_byte AND 0x80 \<noteq> 0)
           | Some (second_byte, copy') \<Rightarrow>
               if (first_byte = 0x00 \<and> second_byte AND 0x80 = 0) \<or>
                  (first_byte = 0xff \<and> second_byte AND 0x80 \<noteq> 0)
               then None
               else Some (first_byte AND 0x80 \<noteq> 0)))"

definition CBS_is_unsigned_asn1_integer :: "CBS \<Rightarrow> bool" where
  "CBS_is_unsigned_asn1_integer cbs =
     (case CBS_is_valid_asn1_integer cbs of None \<Rightarrow> False | Some is_negative \<Rightarrow> \<not> is_negative)"

fun asn1_uint64_loop :: "u64 \<Rightarrow> byte list \<Rightarrow> u64 result" where
  "asn1_uint64_loop out [] = Some out"
| "asn1_uint64_loop out (b # data) =
     (if drop_bit 56 out \<noteq> 0 then None
      else asn1_uint64_loop (push_bit 8 out OR ucast b) data)"

definition CBS_get_asn1_uint64 :: "CBS \<Rightarrow> (u64 \<times> CBS) result" where
  "CBS_get_asn1_uint64 cbs =
     (case CBS_get_asn1 cbs CBS_ASN1_INTEGER of
        None \<Rightarrow> None
      | Some (bytes, cbs') \<Rightarrow>
          if \<not> CBS_is_unsigned_asn1_integer bytes then None
          else (case asn1_uint64_loop 0 bytes of
                  None \<Rightarrow> None
                | Some out \<Rightarrow> Some (out, cbs')))"

text \<open>
  The union of \<open>CBS_get_asn1_int64\<close>: eight bytes filled with the sign, then the content octets
  stored from the last to the first, read back as a little-endian \<open>int64_t\<close>.
\<close>

fun int64_union_loop :: "byte list \<Rightarrow> byte list \<Rightarrow> nat \<Rightarrow> nat \<Rightarrow> byte list" where
  "int64_union_loop u data i 0 = u"
| "int64_union_loop u data i (Suc n) =
     int64_union_loop (u [i := data ! (length data - i - 1)]) data (Suc i) n"

definition int64_of_union :: "byte list \<Rightarrow> int" where
  "int64_of_union u = sint (word_of_nat (be_val (rev u)) :: 64 word)"

definition CBS_get_asn1_int64 :: "CBS \<Rightarrow> (int \<times> CBS) result" where
  "CBS_get_asn1_int64 cbs =
     (case CBS_get_asn1 cbs CBS_ASN1_INTEGER of
        None \<Rightarrow> None
      | Some (bytes, cbs') \<Rightarrow>
          (case CBS_is_valid_asn1_integer bytes of
             None \<Rightarrow> None
           | Some is_negative \<Rightarrow>
               if CBS_len bytes > 8 then None
               else let u = replicate 8 (if is_negative then 0xff else 0)
                    in Some (int64_of_union (int64_union_loop u bytes 0 (CBS_len bytes)), cbs')))"

definition CBS_get_asn1_bool :: "CBS \<Rightarrow> (bool \<times> CBS) result" where
  "CBS_get_asn1_bool cbs =
     (case CBS_get_asn1 cbs CBS_ASN1_BOOLEAN of
        None \<Rightarrow> None
      | Some (bytes, cbs') \<Rightarrow>
          if CBS_len bytes \<noteq> 1 then None
          else let value = bytes ! 0
               in if value \<noteq> 0 \<and> value \<noteq> 0xff then None else Some (value \<noteq> 0, cbs'))"

definition CBS_is_valid_asn1_bitstring :: "CBS \<Rightarrow> bool" where
  "CBS_is_valid_asn1_bitstring cbs =
     (case CBS_get_u8 cbs of
        None \<Rightarrow> False
      | Some (num_unused_bits, in1) \<Rightarrow>
          if num_unused_bits > 7 then False
          else if num_unused_bits = 0 then True
          else (case CBS_get_last_u8 in1 of
                  None \<Rightarrow> False
                | Some (last_byte, in2) \<Rightarrow> last_byte AND (push_bit (unat num_unused_bits) 1 - 1) = 0))"

definition CBS_asn1_bitstring_has_bit :: "CBS \<Rightarrow> u32 \<Rightarrow> bool" where
  "CBS_asn1_bitstring_has_bit cbs bit_ix =
     (if \<not> CBS_is_valid_asn1_bitstring cbs then False
      else let byte_num = unat (drop_bit 3 bit_ix + 1);
               bit_num = 7 - unat (bit_ix AND 7)
           in byte_num < CBS_len cbs \<and> (cbs ! byte_num) AND push_bit bit_num 1 \<noteq> 0)"

section \<open>Optional elements\<close>

text \<open>The output is \<open>None\<close> when the element is absent, that is when \<open>*out_present\<close> is 0.\<close>

definition CBS_get_optional_asn1 :: "CBS \<Rightarrow> u32 \<Rightarrow> (CBS option \<times> CBS) result" where
  "CBS_get_optional_asn1 cbs tag =
     (if CBS_peek_asn1_tag cbs tag
      then (case CBS_get_asn1 cbs tag of
              None \<Rightarrow> None
            | Some (out, cbs') \<Rightarrow> Some (Some out, cbs'))
      else Some (None, cbs))"

definition CBS_get_optional_asn1_octet_string :: "CBS \<Rightarrow> u32 \<Rightarrow> (CBS \<times> bool \<times> CBS) result" where
  "CBS_get_optional_asn1_octet_string cbs tag =
     (case CBS_get_optional_asn1 cbs tag of
        None \<Rightarrow> None
      | Some (None, cbs') \<Rightarrow> Some (CBS_init [] 0, False, cbs')
      | Some (Some child, cbs') \<Rightarrow>
          (case CBS_get_asn1 child CBS_ASN1_OCTETSTRING of
             None \<Rightarrow> None
           | Some (out, child') \<Rightarrow>
               if CBS_len child' \<noteq> 0 then None else Some (out, True, cbs')))"

definition CBS_get_optional_asn1_uint64 :: "CBS \<Rightarrow> u32 \<Rightarrow> u64 \<Rightarrow> (u64 \<times> CBS) result" where
  "CBS_get_optional_asn1_uint64 cbs tag default_value =
     (case CBS_get_optional_asn1 cbs tag of
        None \<Rightarrow> None
      | Some (None, cbs') \<Rightarrow> Some (default_value, cbs')
      | Some (Some child, cbs') \<Rightarrow>
          (case CBS_get_asn1_uint64 child of
             None \<Rightarrow> None
           | Some (out, child') \<Rightarrow>
               if CBS_len child' \<noteq> 0 then None else Some (out, cbs')))"

definition CBS_get_optional_asn1_bool :: "CBS \<Rightarrow> u32 \<Rightarrow> int \<Rightarrow> (int \<times> CBS) result" where
  "CBS_get_optional_asn1_bool cbs tag default_value =
     (case CBS_get_optional_asn1 cbs tag of
        None \<Rightarrow> None
      | Some (None, cbs') \<Rightarrow> Some (default_value, cbs')
      | Some (Some child, cbs') \<Rightarrow>
          (case CBS_get_asn1 child CBS_ASN1_BOOLEAN of
             None \<Rightarrow> None
           | Some (child2, child') \<Rightarrow>
               if CBS_len child2 \<noteq> 1 \<or> CBS_len child' \<noteq> 0 then None
               else let boolean = child2 ! 0
                    in if boolean = 0 then Some (0, cbs')
                       else if boolean = 0xff then Some (1, cbs')
                       else None))"

end
