(* ===== verification/Codec.thy ===== *)
theory Codec
  imports Prelude
begin

text \<open>
  The contracts between a writer and a reader of byte strings. A \<open>codec\<close> is an encoder and a decoder
  that reads one value from the front of its input and returns the rest, such that every value in
  the range \<open>ok\<close> is read back; a \<open>canonical_codec\<close> moreover accepts nothing but encodings, so that
  each value has one encoding. The instances are readers of DER: base-128 integers, tags and elements
  (theory \<open>Der\<close>), INTEGER and BOOLEAN (\<open>DerInt\<close>). A \<open>stream\<close> is a writer or reader that consumes its
  input in chunks; its instances are the two coders of \<open>Base64\<close>.
\<close>

type_synonym 'a decoder = "byte list \<Rightarrow> ('a \<times> byte list) option"

locale codec =
  fixes enc :: "'a \<Rightarrow> byte list" and dec :: "'a decoder" and ok :: "'a \<Rightarrow> bool"
  assumes dec_enc: "ok x \<Longrightarrow> dec (enc x @ rest) = Some (x, rest)"
begin

lemma dec_enc_exact: "ok x \<Longrightarrow> dec (enc x) = Some (x, [])"
  using dec_enc [of x "[]"] by simp

lemma prefix_free:
  assumes "ok x" and "ok y" and "enc x @ xs = enc y @ ys"
  shows "x = y \<and> xs = ys"
proof -
  have "Some (x, xs) = dec (enc y @ ys)" using dec_enc [OF assms(1), of xs] assms(3) by metis
  also have "\<dots> = Some (y, ys)" by (rule dec_enc [OF assms(2)])
  finally show ?thesis by simp
qed

lemma enc_inj: "ok x \<Longrightarrow> ok y \<Longrightarrow> enc x = enc y \<Longrightarrow> x = y"
  using prefix_free [of x y "[]" "[]"] by simp

end

locale canonical_codec = codec +
  assumes dec_canonical: "dec cbs = Some (x, rest) \<Longrightarrow> ok x \<and> cbs = enc x @ rest"
begin

lemma dec_iff: "dec cbs = Some (x, rest) \<longleftrightarrow> ok x \<and> cbs = enc x @ rest"
  using dec_enc dec_canonical by blast

end

section \<open>Streams\<close>

text \<open>
  A streaming interface consumes its input in chunks of any size. The contract says that after
  the bytes \<open>xs\<close> the total output is \<open>spec xs\<close>, however \<open>xs\<close> was cut, as long as the whole input
  is \<open>good\<close>.
\<close>

fun feed_all :: "('s \<Rightarrow> 'a list \<Rightarrow> 's \<times> 'b list) \<Rightarrow> 's \<Rightarrow> 'a list list \<Rightarrow> 's \<times> 'b list" where
  "feed_all step s [] = (s, [])"
| "feed_all step s (c # cs) =
     (case step s c of (s1, out1) \<Rightarrow> case feed_all step s1 cs of (s2, out2) \<Rightarrow> (s2, out1 @ out2))"

locale stream =
  fixes step :: "'s \<Rightarrow> 'a list \<Rightarrow> 's \<times> 'b list" and consumed :: "'s \<Rightarrow> 'a list \<Rightarrow> bool"
    and spec :: "'a list \<Rightarrow> 'b list" and good :: "'a list \<Rightarrow> bool"
  assumes good_prefix: "good (xs @ ys) \<Longrightarrow> good xs"
    and step_consumes: "consumed s xs \<Longrightarrow> good (xs @ ys) \<Longrightarrow> step s ys = (s', out) \<Longrightarrow>
      consumed s' (xs @ ys) \<and> spec (xs @ ys) = spec xs @ out"
begin

lemma feed_all_spec:
  assumes "consumed s xs" and "good (xs @ concat cs)" and "feed_all step s cs = (s', out)"
  shows "consumed s' (xs @ concat cs) \<and> spec (xs @ concat cs) = spec xs @ out"
  using assms
proof (induction cs arbitrary: s xs out)
  case (Cons c cs)
  obtain s1 out1 where 1: "step s c = (s1, out1)" by fastforce
  obtain s2 out2 where 2: "feed_all step s1 cs = (s2, out2)" by fastforce
  have "good (xs @ c)" using Cons.prems(2) good_prefix [of "xs @ c" "concat cs"] by simp
  with step_consumes [OF Cons.prems(1) _ 1]
  have s1: "consumed s1 (xs @ c)" "spec (xs @ c) = spec xs @ out1" by simp_all
  from Cons.prems(2,3) 1 2 have "good ((xs @ c) @ concat cs)" and "s2 = s'" "out = out1 @ out2"
    by simp_all
  with Cons.IH [OF s1(1), of out2] 2 s1(2) show ?case by simp
qed simp

end

end
