(* ===== verification/Der.thy ===== *)
theory Der
  imports Cbs Codec
begin

text \<open>
  What a DER encoding is, stated without reference to the reader or the writer: base-128 numbers,
  identifier octets, length octets and type-length-value elements. The theorems show that the
  reader of \<^verbatim>\<open>crypto/bytestring/cbs.c\<close> accepts exactly these encodings, each in one way only.
\<close>

section \<open>The encodings\<close>

fun base128_hi :: "nat \<Rightarrow> byte list" where
  "base128_hi n = (if n = 0 then [] else base128_hi (n div 128) @ [word_of_nat (128 + n mod 128)])"

declare base128_hi.simps [simp del]

definition base128_enc :: "nat \<Rightarrow> byte list" where
  "base128_enc n = base128_hi (n div 128) @ [word_of_nat (n mod 128)]"

definition der_tag :: "u32 \<Rightarrow> byte list" where
  "der_tag t =
     (let cls = unat t div 2 ^ 29; number = unat t mod 2 ^ 29
      in if number < 31 then [word_of_nat (32 * cls + number)]
         else word_of_nat (32 * cls + 31) # base128_enc number)"

fun nbytes :: "nat \<Rightarrow> nat" where
  "nbytes n = (if n = 0 then 0 else Suc (nbytes (n div 256)))"

declare nbytes.simps [simp del]

definition der_len :: "nat \<Rightarrow> byte list" where
  "der_len n =
     (if n < 128 then [word_of_nat n] else word_of_nat (128 + nbytes n) # be_bytes (nbytes n) n)"

definition der_tlv :: "u32 \<Rightarrow> byte list \<Rightarrow> byte list" where
  "der_tlv t body = der_tag t @ der_len (length body) @ body"

section \<open>Base-128 numbers\<close>

lemma base128_hi_0 [simp]: "base128_hi 0 = []"
  by (simp add: base128_hi.simps)

lemma base128_hi_pos:
  "0 < n \<Longrightarrow> base128_hi n = base128_hi (n div 128) @ [word_of_nat (128 + n mod 128)]"
  by (subst base128_hi.simps) simp

text \<open>One turn of the loop, in arithmetic.\<close>

lemma parse_base128_loop_Nil [simp]: "parse_base128_loop v [] = None"
  by (subst parse_base128_loop.simps) simp

lemma parse_base128_loop_Cons:
  "parse_base128_loop v (b # cbs) =
     (if 2 ^ 57 \<le> unat v \<or> (unat v = 0 \<and> unat b = 128) then None
      else let v' = word_of_nat (unat v * 128 + unat b mod 128)
           in if 128 \<le> unat b then parse_base128_loop v' cbs else Some (v', cbs))"
proof (cases "unat v < 2 ^ 57")
  case True
  have "push_bit 7 v OR ucast (b AND 0x7f) = word_of_nat (unat v * 128 + unat b mod 128)"
    using True push_7_or [OF True, of b]
    by (intro word_eqI_unat) (simp add: u64_word_of_nat del: of_nat_add of_nat_mult)
  moreover have "drop_bit 57 v = 0" using True by (simp add: drop_bit_eq_0_iff)
  moreover have "v = 0 \<longleftrightarrow> unat v = 0" "b = 0x80 \<longleftrightarrow> unat b = 128"
    by (simp_all add: byte_eq_iff unat_eq_zero)
  ultimately show ?thesis
    using True by (subst parse_base128_loop.simps) (auto simp: Let_def and_0x80_eq_0_iff)
next
  case False
  then have "drop_bit 57 v \<noteq> 0" by (simp add: drop_bit_eq_0_iff)
  then show ?thesis using False by (subst parse_base128_loop.simps) simp
qed

lemma parse_base128_loop_hi:
  "m < 2 ^ 64 \<Longrightarrow>
   parse_base128_loop 0 (base128_hi m @ rest) = parse_base128_loop (word_of_nat m) rest"
proof (induction m arbitrary: rest rule: base128_hi.induct)
  case (1 m)
  show ?case
  proof (cases "m = 0")
    case False
    have small: "m div 128 < 2 ^ 57" using 1(2) by (simp add: div_less_iff_less_mult)
    then have v: "unat (word_of_nat (m div 128) :: u64) = m div 128" by (simp add: unat_word_of_nat)
    have b: "unat (word_of_nat (128 + m mod 128) :: byte) = 128 + m mod 128"
      using mod_less_divisor [of 128 m] by (intro byte_word_of_nat) linarith
    have nz: "\<not> (m div 128 = 0 \<and> m mod 128 = 0)" using False by (metis div_mod_decomp add_0 mult_0)
    have "parse_base128_loop 0 (base128_hi m @ rest)
        = parse_base128_loop (word_of_nat (m div 128)) (word_of_nat (128 + m mod 128) # rest)"
      using 1(1) [OF False] 1(2) False by (simp add: base128_hi_pos)
    also have "\<dots> = parse_base128_loop (word_of_nat (m div 128 * 128 + m mod 128)) rest"
      using small nz by (auto simp: parse_base128_loop_Cons v b Let_def simp del: of_nat_add of_nat_mult)
    finally show ?thesis by (simp del: of_nat_add of_nat_mult)
  qed simp
qed

lemma parse_base128_enc:
  assumes "n < 2 ^ 64"
  shows "parse_base128_integer (base128_enc n @ rest) = Some (word_of_nat n, rest)"
proof -
  have small: "n div 128 < 2 ^ 57" using assms by (simp add: div_less_iff_less_mult)
  then have v: "unat (word_of_nat (n div 128) :: u64) = n div 128" by (simp add: unat_word_of_nat)
  have lt: "\<not> 128 \<le> n mod 128" by (simp add: not_le)
  then have b: "unat (word_of_nat (n mod 128) :: byte) = n mod 128"
    by (intro byte_word_of_nat) linarith
  have "parse_base128_integer (base128_enc n @ rest)
      = parse_base128_loop (word_of_nat (n div 128)) (word_of_nat (n mod 128) # rest)"
    using small by (simp add: parse_base128_integer_def base128_enc_def parse_base128_loop_hi)
  also have "\<dots> = Some (word_of_nat (n div 128 * 128 + n mod 128), rest)"
    using small lt by (simp add: parse_base128_loop_Cons v b Let_def del: of_nat_add of_nat_mult)
  finally show ?thesis by (simp del: of_nat_add of_nat_mult)
qed

lemma parse_base128_loop_canonical:
  "parse_base128_loop v cbs = Some (w, rest) \<Longrightarrow>
   base128_hi (unat v) @ cbs = base128_enc (unat w) @ rest"
proof (induction cbs arbitrary: v)
  case (Cons b cbs)
  let ?n = "unat v * 128 + unat b mod 128"
  from Cons.prems have v: "unat v < 2 ^ 57" and nz: "\<not> (unat v = 0 \<and> unat b = 128)"
    and step: "(if 128 \<le> unat b then parse_base128_loop (word_of_nat ?n) cbs
                else Some (word_of_nat ?n, cbs)) = Some (w, rest)"
    by (auto simp: parse_base128_loop_Cons Let_def split: if_splits)
  have lt: "unat b mod 128 < 128" by simp
  have n: "unat (word_of_nat ?n :: u64) = ?n"
    using v lt by (simp add: unat_word_of_nat del: of_nat_add of_nat_mult)
  have d: "?n div 128 = unat v" "?n mod 128 = unat b mod 128" by simp_all
  show ?case
  proof (cases "128 \<le> unat b")
    case True
    moreover have "unat b - 128 < 128" using byte_less [of b] by linarith
    ultimately have b: "unat b = 128 + unat b mod 128" by (simp add: le_mod_geq)
    then have "0 < ?n" using nz by auto
    then have "base128_hi ?n = base128_hi (unat v) @ [b]"
      using b d by (subst base128_hi_pos) (simp_all add: byte_eq_iff byte_word_of_nat)
    then show ?thesis using Cons.IH [of "word_of_nat ?n"] step True n by simp
  next
    case False
    then have "word_of_nat (unat b mod 128) = b" by (simp add: byte_eq_iff byte_word_of_nat)
    then show ?thesis using step False n d by (auto simp: base128_enc_def)
  qed
qed simp

section \<open>Identifier octets\<close>

lemma tag_byte_split:
  fixes b :: byte
  shows "unat (ucast (b AND 0x1f) :: u32) = unat b mod 32"
    and "unat (push_bit 24 (ucast b AND 0xe0) :: u32) = unat b div 32 * 2 ^ 29"
proof -
  show "unat (ucast (b AND 0x1f) :: u32) = unat b mod 32"
    using unat_and_mask [of b 5] by (simp add: mask_eq_exp_minus_1 unat_ucast_up)
  have m: "(0xe0 :: u32) = push_bit 5 (mask 3)" by (simp add: mask_eq_exp_minus_1 push_bit_eq_mult)
  have "unat (ucast b AND 0xe0 :: u32) = unat b div 32 * 32"
    unfolding m using unat_and_high [of "ucast b :: u32" 5 3] by (simp add: unat_ucast_up)
  moreover have "unat b div 32 < 8" using byte_less [of b] by linarith
  ultimately show "unat (push_bit 24 (ucast b AND 0xe0) :: u32) = unat b div 32 * 2 ^ 29"
    by (simp only: unat_push_bit) simp
qed

lemma u32_eqI: "unat v = unat w \<Longrightarrow> v = w" for v w :: u32
  by (rule word_eqI_unat)

text \<open>The reader's tag is \<open>2 ^ 29\<close> times the class and constructed bits plus the tag number.\<close>

lemma unat_tag_or:
  fixes b :: byte and w :: u32
  assumes "unat w < 2 ^ 29"
  shows "unat (push_bit 24 (ucast b AND 0xe0) OR w) = unat b div 32 * 2 ^ 29 + unat w"
proof -
  have "unat b div 32 < 8" using byte_less [of b] by linarith
  then have "unat b div 32 * 2 ^ 29 + unat w < 2 ^ 32" using assms by simp
  then show ?thesis
    using unat_or_add [OF assms, of "push_bit 24 (ucast b AND 0xe0)"]
    by (simp only: tag_byte_split) simp
qed

lemma parse_asn1_tag_Cons:
  "parse_asn1_tag (b # cbs) =
     (if unat b mod 32 = 31
      then (case parse_base128_integer cbs of
              None \<Rightarrow> None
            | Some (v, cbs') \<Rightarrow>
                if 31 \<le> unat v \<and> unat v < 2 ^ 29
                then Some (word_of_nat (unat b div 32 * 2 ^ 29 + unat v), cbs') else None)
      else Some (word_of_nat (unat b div 32 * 2 ^ 29 + unat b mod 32), cbs))"
proof -
  have lo: "unat (ucast (b AND 0x1f) :: u32) < 2 ^ 29"
    using tag_byte_split(1) [of b] by (simp add: less_trans [OF mod_less_divisor])
  have c: "unat b div 32 < 8" using byte_less [of b] by linarith
  have cmp: "ucast (b AND 0x1f) = (0x1f :: u32) \<longleftrightarrow> unat b mod 32 = 31"
    by (simp add: word_unat_eq_iff tag_byte_split(1))
  have small: "push_bit 24 (ucast b AND 0xe0) OR ucast (b AND 0x1f)
      = (word_of_nat (unat b div 32 * 2 ^ 29 + unat b mod 32) :: u32)"
    using c unat_tag_or [OF lo, of b] tag_byte_split(1) [of b]
    by (intro u32_eqI) (simp add: u32_word_of_nat del: of_nat_add of_nat_mult)
  have big: "push_bit 24 (ucast b AND 0xe0) OR ucast v
      = (word_of_nat (unat b div 32 * 2 ^ 29 + unat v) :: u32)" if "unat v < 2 ^ 29" for v :: u64
  proof -
    have v: "unat (ucast v :: u32) = unat v" using that by (simp add: unat_ucast_mod)
    then show ?thesis
      using c that unat_tag_or [of "ucast v" b]
      by (intro u32_eqI) (simp add: u32_word_of_nat del: of_nat_add of_nat_mult)
  qed
  have bounds: "ucast (0x1fffffff :: u32) < v \<longleftrightarrow> \<not> unat v < 2 ^ 29"
    "v < 0x1f \<longleftrightarrow> \<not> 31 \<le> unat v" for v :: u64
    by (auto simp: word_less_nat_alt)
  have high: "(if \<not> unat v < 2 ^ 29 \<or> \<not> 31 \<le> unat v then None
               else Some (push_bit 24 (ucast b AND 0xe0) OR ucast v, c))
      = (if 31 \<le> unat v \<and> unat v < 2 ^ 29
         then Some (word_of_nat (unat b div 32 * 2 ^ 29 + unat v) :: u32, c) else None)"
    for v :: u64 and c :: CBS
    using big [of v] by presburger
  show ?thesis
    unfolding parse_asn1_tag_def CBS_get_u8_Cons option.case prod.case Let_def cmp small bounds high ..
qed

lemma parse_asn1_tag_der_tag: "parse_asn1_tag (der_tag t @ rest) = Some (t, rest)"
proof -
  let ?c = "unat t div 2 ^ 29" and ?n = "unat t mod 2 ^ 29"
  have "unat t < 2 ^ 32" using unat_less_power [of t] by simp
  then have c: "?c < 8" by (simp add: div_less_iff_less_mult)
  have n: "?n < 2 ^ 29" by simp
  have t: "word_of_nat (?c * 2 ^ 29 + ?n) = t"
    by (rule word_eqI_unat) (simp add: unat_word_of_nat del: of_nat_add of_nat_mult)
  show ?thesis
  proof (cases "?n < 31")
    case True
    have b: "unat (word_of_nat (32 * ?c + ?n) :: byte) = 32 * ?c + ?n"
      using c True by (intro byte_word_of_nat) linarith
    then have "unat (word_of_nat (32 * ?c + ?n) :: byte) div 32 = ?c"
      "unat (word_of_nat (32 * ?c + ?n) :: byte) mod 32 = ?n"
      using True by (simp_all del: of_nat_add of_nat_mult)
    then show ?thesis
      using True t by (simp add: der_tag_def Let_def parse_asn1_tag_Cons del: of_nat_add of_nat_mult)
  next
    case False
    have b: "unat (word_of_nat (32 * ?c + 31) :: byte) = 32 * ?c + 31"
      using c by (intro byte_word_of_nat) linarith
    then have d: "unat (word_of_nat (32 * ?c + 31) :: byte) div 32 = ?c"
      "unat (word_of_nat (32 * ?c + 31) :: byte) mod 32 = 31"
      by (simp_all del: of_nat_add of_nat_mult)
    have v: "unat (word_of_nat ?n :: u64) = ?n" using n by (intro u64_word_of_nat) simp
    have p: "parse_base128_integer (base128_enc ?n @ rest) = Some (word_of_nat ?n, rest)"
      using n by (intro parse_base128_enc) simp
    show ?thesis
      using False t n d p v
      by (simp add: der_tag_def Let_def parse_asn1_tag_Cons del: of_nat_add of_nat_mult)
  qed
qed

lemma parse_asn1_tag_canonical:
  assumes "parse_asn1_tag cbs = Some (t, rest)"
  shows "cbs = der_tag t @ rest"
proof -
  from assms obtain b cbs' where cbs: "cbs = b # cbs'"
    by (cases cbs) (auto simp: parse_asn1_tag_def)
  let ?c = "unat b div 32"
  have c: "?c < 8" using byte_less [of b] by linarith
  have b: "32 * ?c + unat b mod 32 = unat b" by simp
  have val: "unat (word_of_nat (?c * 2 ^ 29 + n) :: u32) = ?c * 2 ^ 29 + n" if "n < 2 ^ 29" for n
    using c that by (intro u32_word_of_nat) simp
  show ?thesis
  proof (cases "unat b mod 32 = 31")
    case True
    from assms True obtain v where p: "parse_base128_integer cbs' = Some (v, rest)"
      and v: "31 \<le> unat v" "unat v < 2 ^ 29" and t: "t = word_of_nat (?c * 2 ^ 29 + unat v)"
      unfolding cbs parse_asn1_tag_Cons by (simp only: if_True split: option.splits prod.splits if_splits) auto
    have "cbs' = base128_enc (unat v) @ rest"
      using parse_base128_loop_canonical [of 0 cbs'] p by (simp add: parse_base128_integer_def)
    moreover have "unat t div 2 ^ 29 = ?c" "unat t mod 2 ^ 29 = unat v"
      using v val [of "unat v"] t by (simp_all del: of_nat_add of_nat_mult)
    moreover have "word_of_nat (32 * ?c + 31) = b"
      using b True by (intro word_eqI_unat) (simp add: byte_word_of_nat del: of_nat_add of_nat_mult)
    ultimately show ?thesis using v cbs by (simp add: der_tag_def Let_def del: of_nat_add of_nat_mult)
  next
    case False
    then have lt: "unat b mod 32 < 31" by presburger
    have t: "t = word_of_nat (?c * 2 ^ 29 + unat b mod 32)" and "rest = cbs'"
      using assms False unfolding cbs parse_asn1_tag_Cons by (simp_all del: of_nat_add of_nat_mult)
    moreover have "unat t div 2 ^ 29 = ?c" "unat t mod 2 ^ 29 = unat b mod 32"
      using lt val [of "unat b mod 32"] t by (simp_all del: of_nat_add of_nat_mult)
    moreover have "word_of_nat (32 * ?c + unat b mod 32) = b"
      using b by (intro word_eqI_unat) (simp add: byte_word_of_nat del: of_nat_add of_nat_mult)
    ultimately show ?thesis using lt cbs by (simp add: der_tag_def Let_def del: of_nat_add of_nat_mult)
  qed
qed

section \<open>Length octets\<close>

lemma nbytes_0 [simp]: "nbytes 0 = 0"
  by (simp add: nbytes.simps)

lemma nbytes_pos: "0 < n \<Longrightarrow> nbytes n = Suc (nbytes (n div 256))"
  by (subst nbytes.simps) simp

lemma nbytes_le_iff: "nbytes n \<le> k \<longleftrightarrow> n < 256 ^ k"
proof (induction k arbitrary: n)
  case 0
  then show ?case by (cases "n = 0") (simp_all add: nbytes_pos)
next
  case (Suc k)
  show ?case
  proof (cases "n = 0")
    case False
    then show ?thesis using Suc [of "n div 256"] by (simp add: nbytes_pos div_less_iff_less_mult mult.commute)
  qed simp
qed

lemma nbytes_bound: "n < 256 ^ nbytes n"
  using nbytes_le_iff [of n "nbytes n"] by simp

lemma nbytes_unique:
  assumes "n < 256 ^ k" and "256 ^ (k - 1) \<le> n" and "0 < k"
  shows "nbytes n = k"
proof -
  have "nbytes n \<le> k" using assms(1) by (simp add: nbytes_le_iff)
  moreover have "\<not> nbytes n \<le> k - 1" using assms(2) by (simp add: nbytes_le_iff)
  ultimately show ?thesis using assms(3) by linarith
qed

lemma be_bytes_nbytes:
  assumes "h \<noteq> []" and "256 ^ (length h - 1) \<le> be_val h"
  shows "nbytes (be_val h) = length h" and "be_bytes (nbytes (be_val h)) (be_val h) = h"
proof -
  show "nbytes (be_val h) = length h"
    using assms be_val_less [of h] by (intro nbytes_unique) auto
  then show "be_bytes (nbytes (be_val h)) (be_val h) = h" by simp
qed

text \<open>The reader's length octets, in arithmetic.\<close>

fun der_len_parse :: "byte list \<Rightarrow> (nat \<times> byte list) option" where
  "der_len_parse [] = None"
| "der_len_parse (b # h) =
     (if unat b < 128 then Some (unat b, h)
      else let k = unat b - 128; n = be_val (take k h)
           in if k = 0 \<or> 4 < k \<or> length h < k \<or> n < 128 \<or> n < 256 ^ (k - 1) then None
              else Some (n, drop k h))"

lemma der_len_parse_iff: "der_len_parse h = Some (n, r) \<longleftrightarrow> n < 2 ^ 32 \<and> h = der_len n @ r"
proof
  assume a: "der_len_parse h = Some (n, r)"
  then obtain b h' where h: "h = b # h'" by (cases h) auto
  show "n < 2 ^ 32 \<and> h = der_len n @ r"
  proof (cases "unat b < 128")
    case True
    then show ?thesis using a h by (auto simp: der_len_def byte_eq_iff)
  next
    case False
    let ?k = "unat b - 128" and ?d = "take (unat b - 128) h'"
    from a h False have k: "?k \<noteq> 0" "?k \<le> 4" "?k \<le> length h'" and n: "n = be_val ?d"
      and ge: "128 \<le> n" "256 ^ (?k - 1) \<le> n" and r: "r = drop ?k h'"
      by (auto simp: Let_def split: if_splits)
    have len: "length ?d = ?k" using k by simp
    then have ne: "?d \<noteq> []" using k by (metis list.size(3))
    have "256 ^ ?k \<le> (256 :: nat) ^ 4" using k by (intro power_increasing) auto
    then have "n < 2 ^ 32" using be_val_less [of ?d] len n by simp
    moreover have "nbytes n = ?k" "be_bytes (nbytes n) n = ?d"
      using be_bytes_nbytes [OF ne] len ge n by simp_all
    moreover have "word_of_nat (128 + ?k) = b" using False by (simp add: byte_eq_iff byte_word_of_nat)
    ultimately show ?thesis using h r ge by (auto simp: der_len_def simp del: of_nat_add)
  qed
next
  assume a: "n < 2 ^ 32 \<and> h = der_len n @ r"
  show "der_len_parse h = Some (n, r)"
  proof (cases "n < 128")
    case True
    then show ?thesis using a by (simp add: der_len_def byte_word_of_nat)
  next
    case False
    let ?k = "nbytes n"
    have k: "?k \<le> 4" "?k \<noteq> 0" using a False nbytes_le_iff [of n 4] by (auto simp: nbytes_pos)
    have b: "unat (word_of_nat (128 + ?k) :: byte) = 128 + ?k"
      using k by (intro byte_word_of_nat) simp
    have m: "n mod 256 ^ ?k = n" using nbytes_bound by simp
    have "\<not> ?k \<le> ?k - 1" using k by linarith
    then have "\<not> n < 256 ^ (?k - 1)" by (metis nbytes_le_iff)
    then show ?thesis
      using a False k b m by (simp add: der_len_def Let_def del: of_nat_add)
  qed
qed

lemma cbs_get_u_eq:
  "cbs_get_u cbs n = (if length cbs < n then None else Some (word_of_nat (be_val (take n cbs)), drop n cbs))"
  by (simp add: cbs_get_u_def cbs_get_def foldl_shift_or)

lemma unat_be_val:
  assumes "length bs \<le> 8"
  shows "unat (word_of_nat (be_val bs) :: u64) = be_val bs"
proof -
  have "256 ^ length bs \<le> (256 :: nat) ^ 8" using assms by (intro power_increasing) auto
  then show ?thesis using be_val_less [of bs] by (intro u64_word_of_nat) simp
qed

lemma asn1_take_eq:
  "asn1_take cbs n tag hl ber =
     (if length cbs < n then None
      else Some (\<lparr>el_out = take n cbs, el_tag = tag, el_header_len = hl, el_ber_found = ber\<rparr>, drop n cbs))"
  by (simp add: asn1_take_def CBS_get_bytes_def cbs_get_def CBS_init_def)

lemma length_base128_hi: "n < 128 ^ k \<Longrightarrow> length (base128_hi n) \<le> k"
proof (induction k arbitrary: n)
  case (Suc k)
  show ?case
  proof (cases "n = 0")
    case False
    then show ?thesis using Suc.IH [of "n div 128"] Suc.prems
      by (simp add: base128_hi_pos div_less_iff_less_mult mult.commute)
  qed simp
qed simp

lemma length_der_tag: "0 < length (der_tag t)" "length (der_tag t) \<le> 6"
proof -
  have "unat t mod 2 ^ 29 < 2 ^ 29" by simp
  then have "unat t mod 2 ^ 29 div 128 < 128 ^ 4" by (simp add: div_less_iff_less_mult)
  then have "length (base128_hi (unat t mod 2 ^ 29 div 128)) \<le> 4" by (rule length_base128_hi)
  then show "0 < length (der_tag t)" "length (der_tag t) \<le> 6"
    by (auto simp: der_tag_def Let_def base128_enc_def)
qed

lemma get_any_asn1_element_eq:
  assumes "cbs = der_tag t @ h"
  shows "CBS_get_any_asn1_element cbs =
     (case der_len_parse h of
        None \<Rightarrow> None
      | Some (n, r) \<Rightarrow> asn1_take cbs (n + (length cbs - length r)) t (length cbs - length r) False)"
proof -
  have p: "parse_asn1_tag cbs = Some (t, h)" using assms parse_asn1_tag_der_tag by simp
  show ?thesis
  proof (cases h)
    case Nil
    then show ?thesis using p by (simp add: CBS_get_any_asn1_element_def cbs_get_any_asn1_element_def)
  next
    case (Cons b h')
    let ?hl = "length cbs - length h'" and ?k = "unat b - 128"
    have hl: "?hl \<le> 7" using assms Cons length_der_tag [of t] by simp
    show ?thesis
    proof (cases "unat b < 128")
      case True
      have "size_add (unat b) ?hl = unat b + ?hl"
        using True hl by (intro size_add_small) simp
      then show ?thesis using p Cons True
        by (simp add: CBS_get_any_asn1_element_def cbs_get_any_asn1_element_def and_0x80_eq_0_iff Let_def)
    next
      case False
      have k: "unat (b AND 0x7f) = ?k"
        using False byte_less [of b] by (simp add: and_0x7f le_mod_geq del: byte_less)
      show ?thesis
      proof (cases "?k = 0 \<or> 4 < ?k \<or> length h' < ?k")
        case True
        then show ?thesis using p Cons False k
          by (auto simp: CBS_get_any_asn1_element_def cbs_get_any_asn1_element_def and_0x80_eq_0_iff Let_def cbs_get_u_eq)
      next
        case in_range: False
        let ?d = "take ?k h'"
        have u: "unat (word_of_nat (be_val ?d) :: u64) = be_val ?d"
          using in_range by (intro unat_be_val) simp
        have "256 ^ ?k \<le> (256 :: nat) ^ 4" using in_range by (intro power_increasing) auto
        then have lt: "be_val ?d < 2 ^ 32" using be_val_less [of ?d] in_range by simp
        have sum: "size_add (be_val ?d) (size_add ?hl ?k) = be_val ?d + (?hl + ?k)"
        proof -
          have "?k \<le> 4" using in_range by linarith
          moreover from this have "size_add ?hl ?k = ?hl + ?k"
            using hl by (intro size_add_small) simp
          ultimately show ?thesis using lt hl by (simp only:) (rule size_add_small, simp)
        qed
        have d0: "drop_bit ((?k - 1) * 8) (word_of_nat (be_val ?d) :: u64) = 0 \<longleftrightarrow> be_val ?d < 256 ^ (?k - 1)"
          using u by (simp add: drop_bit_eq_0_iff power_mult mult.commute)
        have l128: "(word_of_nat (be_val ?d) :: u64) < 128 \<longleftrightarrow> be_val ?d < 128"
          using u by (simp add: word_less_nat_alt)
        have hk: "length cbs - length (drop ?k h') = ?hl + ?k"
          using in_range assms Cons unfolding length_drop by simp linarith
        show ?thesis using p Cons False k in_range sum d0 l128 u hk
          by (simp add: CBS_get_any_asn1_element_def cbs_get_any_asn1_element_def
              and_0x80_eq_0_iff Let_def cbs_get_u_eq) (intro impI, linarith)
      qed
    qed
  qed
qed

section \<open>Elements\<close>

lemma get_any_asn1_element_iff:
  "CBS_get_any_asn1_element cbs = Some (el, rest) \<longleftrightarrow>
   (\<exists>t body. length body < 2 ^ 32 \<and> cbs = der_tlv t body @ rest \<and>
      el = \<lparr>el_out = der_tlv t body, el_tag = t,
            el_header_len = length (der_tag t) + length (der_len (length body)), el_ber_found = False\<rparr>)"
  (is "_ \<longleftrightarrow> (\<exists>t body. ?P t body)")
proof
  assume a: "CBS_get_any_asn1_element cbs = Some (el, rest)"
  then obtain t h where p: "parse_asn1_tag cbs = Some (t, h)"
    by (auto simp: CBS_get_any_asn1_element_def cbs_get_any_asn1_element_def split: option.splits)
  then have cbs: "cbs = der_tag t @ h" by (rule parse_asn1_tag_canonical)
  from a obtain n r where d: "der_len_parse h = Some (n, r)"
    and take: "asn1_take cbs (n + (length cbs - length r)) t (length cbs - length r) False = Some (el, rest)"
    by (auto simp: get_any_asn1_element_eq [OF cbs] split: option.splits)
  from d have n: "n < 2 ^ 32" and h: "h = der_len n @ r" by (simp_all add: der_len_parse_iff)
  let ?hl = "length (der_tag t) + length (der_len n)"
  have "length cbs - length r = ?hl" using cbs h by simp
  with take have le: "n \<le> length r" and rest: "rest = drop n r"
    and el: "el = \<lparr>el_out = take (n + ?hl) cbs, el_tag = t, el_header_len = ?hl, el_ber_found = False\<rparr>"
    using cbs h by (auto simp: asn1_take_eq split: if_splits)
  have "?P t (take n r)"
    using n le rest el cbs h by (simp add: der_tlv_def)
  then show "\<exists>t body. ?P t body" by blast
next
  assume "\<exists>t body. ?P t body"
  then obtain t body where len: "length body < 2 ^ 32"
    and cbs: "cbs = der_tag t @ (der_len (length body) @ body @ rest)"
    and el: "el = \<lparr>el_out = der_tlv t body, el_tag = t,
            el_header_len = length (der_tag t) + length (der_len (length body)), el_ber_found = False\<rparr>"
    by (auto simp: der_tlv_def)
  have "der_len_parse (der_len (length body) @ body @ rest) = Some (length body, body @ rest)"
    using len by (simp add: der_len_parse_iff)
  then show "CBS_get_any_asn1_element cbs = Some (el, rest)"
    using el unfolding get_any_asn1_element_eq [OF cbs] by (simp add: asn1_take_eq cbs der_tlv_def)
qed

lemma get_any_asn1_iff:
  "CBS_get_any_asn1 cbs = Some (body, t, rest) \<longleftrightarrow> length body < 2 ^ 32 \<and> cbs = der_tlv t body @ rest"
proof
  assume "CBS_get_any_asn1 cbs = Some (body, t, rest)"
  then show "length body < 2 ^ 32 \<and> cbs = der_tlv t body @ rest"
    by (auto simp: CBS_get_any_asn1_def get_any_asn1_element_iff CBS_skip_def cbs_get_def der_tlv_def
      split: option.splits if_splits)
next
  assume a: "length body < 2 ^ 32 \<and> cbs = der_tlv t body @ rest"
  let ?el = "\<lparr>el_out = der_tlv t body, el_tag = t,
            el_header_len = length (der_tag t) + length (der_len (length body)), el_ber_found = False\<rparr>"
  have "CBS_get_any_asn1_element cbs = Some (?el, rest)"
    using a by (auto simp: get_any_asn1_element_iff)
  then show "CBS_get_any_asn1 cbs = Some (body, t, rest)"
    by (simp add: CBS_get_any_asn1_def CBS_skip_def cbs_get_def der_tlv_def)
qed

lemma get_asn1_any: "CBS_get_asn1 cbs tag =
   (case CBS_get_any_asn1 cbs of None \<Rightarrow> None
    | Some (body, t, rest) \<Rightarrow> if t = tag then Some (body, rest) else None)"
  by (auto simp: CBS_get_asn1_def cbs_get_asn1_def CBS_get_any_asn1_def split: option.splits)

lemma get_asn1_iff:
  "CBS_get_asn1 cbs t = Some (body, rest) \<longleftrightarrow> length body < 2 ^ 32 \<and> cbs = der_tlv t body @ rest"
  by (simp only: get_asn1_any get_any_asn1_iff [symmetric]) (auto split: option.splits)

lemma get_asn1_element_iff:
  "CBS_get_asn1_element cbs t = Some (e, rest) \<longleftrightarrow>
   (\<exists>body. length body < 2 ^ 32 \<and> e = der_tlv t body \<and> cbs = e @ rest)"
proof -
  have "CBS_get_asn1_element cbs t = Some (e, rest) \<longleftrightarrow>
      (\<exists>el. CBS_get_any_asn1_element cbs = Some (el, rest) \<and> el_tag el = t \<and> el_out el = e)"
    by (auto simp: CBS_get_asn1_element_def cbs_get_asn1_def split: option.splits)
  also have "\<dots> \<longleftrightarrow> (\<exists>body. length body < 2 ^ 32 \<and> e = der_tlv t body \<and> cbs = e @ rest)"
    unfolding get_any_asn1_element_iff by (intro iffI; elim exE conjE) (auto, fastforce)
  finally show ?thesis .
qed

lemma der_tlv_parse:
  assumes "length body < 2 ^ 32"
  shows "CBS_get_asn1 (der_tlv t body @ rest) t = Some (body, rest)"
  using assms by (simp add: get_asn1_iff)

section \<open>The reader as a codec\<close>

lemma parse_base128_iff:
  "parse_base128_integer cbs = Some (v, rest) \<longleftrightarrow> cbs = base128_enc (unat v) @ rest"
  using parse_base128_loop_canonical [of 0 cbs v rest] parse_base128_enc [of "unat v" rest]
    unat_less_power [of v]
  by (auto simp: parse_base128_integer_def)

interpretation base128: canonical_codec "\<lambda>v. base128_enc (unat v)" parse_base128_integer "\<lambda>_. True"
  by unfold_locales (simp_all add: parse_base128_iff)

interpretation tag: canonical_codec der_tag parse_asn1_tag "\<lambda>_. True"
  by unfold_locales (auto simp: parse_asn1_tag_der_tag dest: parse_asn1_tag_canonical)

definition read_element :: "(u32 \<times> byte list) decoder" where
  "read_element cbs = map_option (\<lambda>(body, t, rest). ((t, body), rest)) (CBS_get_any_asn1 cbs)"

lemma read_element_Some:
  "read_element cbs = Some ((t, body), rest) \<longleftrightarrow> CBS_get_any_asn1 cbs = Some (body, t, rest)"
  by (auto simp: read_element_def)

interpretation element: canonical_codec "\<lambda>(t, body). der_tlv t body" read_element
  "\<lambda>(t, body). length body < 2 ^ 32"
  by unfold_locales (auto simp: read_element_Some get_any_asn1_iff)

section \<open>Properties of the DER reader\<close>

text \<open>
  C2. The DER reader accepts exactly the DER elements: \<open>CBS_get_any_asn1_element\<close> succeeds on
  an input if and only if the input starts with the encoding of some tag and some body of fewer
  than \<open>2 ^ 32\<close> bytes, and then it returns that whole element, its tag and the length of its
  header and leaves what follows the element.
\<close>

theorem CBS_get_any_asn1_element_correct:
  "CBS_get_any_asn1_element cbs = Some (el, rest) \<longleftrightarrow>
   (\<exists>t body. length body < 2 ^ 32 \<and> cbs = der_tlv t body @ rest \<and>
      el = \<lparr>el_out = der_tlv t body, el_tag = t,
            el_header_len = length (der_tag t) + length (der_len (length body)),
            el_ber_found = False\<rparr>)"
  by (rule get_any_asn1_element_iff)

end
