(* ===== verification/Cbb.thy ===== *)
theory Cbb
  imports Der
begin

text \<open>
  The byte-string builder of BoringSSL (\<^verbatim>\<open>crypto/bytestring/cbb.c\<close>). All the \<open>CBB\<close>s that write
  into one buffer share a \<open>struct cbb_buffer_st\<close>; at most one child is open below each of them. The
  model is the shared buffer with the chain of open children, outermost first. A \<open>CBB\<close> is named by
  its depth: 0 is the top-level one and \<open>d\<close> the \<open>d\<close>-th element of the chain; a depth beyond the
  chain stands for a \<open>CBB\<close> that a flush has detached, whose \<open>base\<close> is null; a detached \<open>CBB\<close> whose
  place a later child has taken has no name here, and the code refuses it. Every operation
  returns whether it succeeded and the state it leaves, also where it fails. The buffer is a list
  of \<open>cap\<close> bytes (a null \<open>buf\<close> and a block of size 0 are both the empty list), and the C library's
  \<open>malloc\<close> is the parameter \<open>al\<close>.
\<close>

section \<open>State\<close>

record cbb_child =
  cc_offset :: nat
  cc_pending_len_len :: nat
  cc_pending_is_asn1 :: bool

record CBB =
  cb_buf :: "byte list"
  cb_len :: nat
  cb_cap :: nat
  cb_can_resize :: bool
  cb_error :: bool
  cb_chain :: "cbb_child list"

type_synonym cbb_outcome = "bool \<times> CBB"

text \<open>\<open>a && b\<close> of two operations: the second runs only where the first has succeeded.\<close>

definition cbb_and :: "cbb_outcome \<Rightarrow> (CBB \<Rightarrow> cbb_outcome) \<Rightarrow> cbb_outcome" where
  "cbb_and r f = (case r of (ok, s) \<Rightarrow> if ok then f s else (False, s))"

text \<open>\<open>OPENSSL_memcpy (buf + off, data, length data)\<close>.\<close>

definition mem_write :: "byte list \<Rightarrow> nat \<Rightarrow> byte list \<Rightarrow> byte list" where
  "mem_write mem off data = take off mem @ data @ drop (off + length data) mem"

abbreviation (input) CBB_BUFFER_SIZE :: nat where
  "CBB_BUFFER_SIZE \<equiv> 32"

definition cbb_init :: "allocator \<Rightarrow> byte list \<Rightarrow> nat \<Rightarrow> CBB result" where
  "cbb_init al buf cap =
     (case OPENSSL_malloc al CBB_BUFFER_SIZE of
        None \<Rightarrow> None
      | Some base \<Rightarrow>
          Some \<lparr>cb_buf = buf, cb_len = 0, cb_cap = cap, cb_can_resize = True, cb_error = False,
                cb_chain = []\<rparr>)"

definition CBB_init :: "allocator \<Rightarrow> nat \<Rightarrow> CBB result" where
  "CBB_init al initial_capacity =
     (case OPENSSL_malloc al initial_capacity of
        None \<Rightarrow> if initial_capacity > 0 then None else cbb_init al [] initial_capacity
      | Some buf \<Rightarrow> cbb_init al buf initial_capacity)"

definition CBB_init_fixed :: "allocator \<Rightarrow> byte list \<Rightarrow> nat \<Rightarrow> CBB result" where
  "CBB_init_fixed al buf len =
     (case cbb_init al buf len of
        None \<Rightarrow> None
      | Some s \<Rightarrow> Some (s\<lparr>cb_can_resize := False\<rparr>))"

section \<open>The buffer\<close>

definition cbb_buffer_reserve :: "allocator \<Rightarrow> CBB \<Rightarrow> nat \<Rightarrow> cbb_outcome" where
  "cbb_buffer_reserve al base len =
     (let newlen = size_add (cb_len base) len;
          err = (False, base\<lparr>cb_error := True\<rparr>)
      in if newlen < cb_len base then err
         else if newlen > cb_cap base then
           (if \<not> cb_can_resize base then err
            else
              let doubled = size_mul (cb_cap base) 2;
                  newcap = (if doubled < cb_cap base \<or> doubled < newlen then newlen else doubled)
              in case OPENSSL_realloc al (Some (cb_buf base)) newcap of
                   None \<Rightarrow> err
                 | Some newbuf \<Rightarrow> (True, base\<lparr>cb_buf := newbuf, cb_cap := newcap\<rparr>))
         else (True, base))"

text \<open>The pointer that \<open>cbb_buffer_add\<close> hands out is the length of the buffer before the call.\<close>

definition cbb_buffer_add :: "allocator \<Rightarrow> CBB \<Rightarrow> nat \<Rightarrow> cbb_outcome" where
  "cbb_buffer_add al base len =
     cbb_and (cbb_buffer_reserve al base len) (\<lambda>b. (True, b\<lparr>cb_len := cb_len b + len\<rparr>))"

text \<open>The loops that store an integer big-endian: they return what is left of the integer.\<close>

fun store_be_loop :: "byte list \<Rightarrow> nat \<Rightarrow> u64 \<Rightarrow> nat \<Rightarrow> byte list \<times> u64" where
  "store_be_loop mem off v 0 = (mem, v)"
| "store_be_loop mem off v (Suc i) = store_be_loop (mem [off + i := ucast v]) off (drop_bit 8 v) i"

definition cbb_buffer_add_u :: "allocator \<Rightarrow> CBB \<Rightarrow> u64 \<Rightarrow> nat \<Rightarrow> cbb_outcome" where
  "cbb_buffer_add_u al base v len_len =
     (if len_len = 0 then (True, base)
      else cbb_and (cbb_buffer_add al base len_len)
        (\<lambda>b. case store_be_loop (cb_buf b) (cb_len base) v len_len of
               (mem, v') \<Rightarrow>
                 if v' \<noteq> 0 then (False, b\<lparr>cb_buf := mem, cb_error := True\<rparr>)
                 else (True, b\<lparr>cb_buf := mem\<rparr>)))"

section \<open>Flushing\<close>

text \<open>The size of the length prefix of an ASN.1 child and its first byte.\<close>

definition asn1_len_len :: "nat \<Rightarrow> (nat \<times> byte) result" where
  "asn1_len_len len =
     (if len > 0xfffffffe then None
      else if len > 0xffffff then Some (5, 0x80 OR 4)
      else if len > 0xffff then Some (4, 0x80 OR 3)
      else if len > 0xff then Some (3, 0x80 OR 2)
      else if len > 0x7f then Some (2, 0x80 OR 1)
      else Some (1, word_of_nat len))"

text \<open>
  The second half of \<open>CBB_flush\<close>, after the children of the child are flushed: \<open>d\<close> is the depth
  of the parent and the child's contents are the last \<open>len\<close> bytes of the buffer.
\<close>

definition cbb_write_prefix :: "CBB \<Rightarrow> nat \<Rightarrow> nat \<Rightarrow> nat \<Rightarrow> nat \<Rightarrow> cbb_outcome" where
  "cbb_write_prefix s d offset pending_len_len len =
     (case store_be_loop (cb_buf s) offset (word_of_nat len) pending_len_len of
        (mem, len') \<Rightarrow>
          if len' \<noteq> 0 then (False, s\<lparr>cb_buf := mem, cb_error := True\<rparr>)
          else (True, s\<lparr>cb_buf := mem, cb_chain := take d (cb_chain s)\<rparr>))"

definition cbb_flush_child :: "allocator \<Rightarrow> CBB \<Rightarrow> nat \<Rightarrow> cbb_child \<Rightarrow> cbb_outcome" where
  "cbb_flush_child al s d child =
     (let child_start = size_add (cc_offset child) (cc_pending_len_len child);
          err = (\<lambda>b. (False, b\<lparr>cb_error := True\<rparr>))
      in if child_start < cc_offset child \<or> cb_len s < child_start then err s
         else
           let len = cb_len s - child_start in
           if cc_pending_is_asn1 child then
             (case asn1_len_len len of
                None \<Rightarrow> err s
              | Some (len_len, initial_length_byte) \<Rightarrow>
                  let (ok, s1) =
                        (if len_len \<noteq> 1 then
                           (case cbb_buffer_add al s (len_len - 1) of
                              (False, b) \<Rightarrow> err b
                            | (True, b) \<Rightarrow>
                                (True, b\<lparr>cb_buf := mem_write (cb_buf b) (child_start + (len_len - 1))
                                                    (take len (drop child_start (cb_buf b)))\<rparr>))
                         else (True, s))
                  in if \<not> ok then (False, s1)
                     else cbb_write_prefix
                            (s1\<lparr>cb_buf := (cb_buf s1) [cc_offset child := initial_length_byte]\<rparr>) d
                            (cc_offset child + 1) (len_len - 1) (if len_len = 1 then 0 else len))
           else cbb_write_prefix s d (cc_offset child) (cc_pending_len_len child) len)"

function CBB_flush :: "allocator \<Rightarrow> CBB \<Rightarrow> nat \<Rightarrow> cbb_outcome" where
  "CBB_flush al s d =
     (if length (cb_chain s) < d \<or> cb_error s then (False, s)
      else if length (cb_chain s) = d \<or> cc_pending_len_len (cb_chain s ! d) = 0 then (True, s)
      else case CBB_flush al s (Suc d) of
             (False, s1) \<Rightarrow> (False, s1\<lparr>cb_error := True\<rparr>)
           | (True, s1) \<Rightarrow> cbb_flush_child al s1 d (cb_chain s ! d))"
  by pat_completeness auto
termination
  by (relation "measure (\<lambda>(al, s, d). length (cb_chain s) - d)") auto

declare CBB_flush.simps [simp del]

section \<open>Writing\<close>

text \<open>
  The offset of the contents of a \<open>CBB\<close>, its \<open>offset + pending_len_len\<close>; both fields are 0 in
  the top-level one.
\<close>

definition cbb_start :: "CBB \<Rightarrow> nat \<Rightarrow> nat" where
  "cbb_start s d =
     (case d of 0 \<Rightarrow> 0
      | Suc i \<Rightarrow> cc_offset (cb_chain s ! i) + cc_pending_len_len (cb_chain s ! i))"

definition CBB_len :: "CBB \<Rightarrow> nat \<Rightarrow> nat" where
  "CBB_len s d = cb_len s - cbb_start s d"

definition CBB_data :: "CBB \<Rightarrow> nat \<Rightarrow> byte list" where
  "CBB_data s d = drop (cbb_start s d) (cb_buf s)"

text \<open>
  \<open>CBB_finish\<close>, called with both output pointers: on success the buffer and its length are handed
  to the caller and the \<open>CBB\<close> is left without a base; on failure the state remains.
\<close>

definition CBB_finish :: "allocator \<Rightarrow> CBB \<Rightarrow> nat \<Rightarrow> CBB + byte list \<times> nat" where
  "CBB_finish al s d =
     (if d \<noteq> 0 then Inl s
      else case CBB_flush al s d of
             (False, s') \<Rightarrow> Inl s'
           | (True, s') \<Rightarrow> Inr (cb_buf s', cb_len s'))"

definition cbb_add_length_prefixed :: "allocator \<Rightarrow> CBB \<Rightarrow> nat \<Rightarrow> nat \<Rightarrow> cbb_outcome" where
  "cbb_add_length_prefixed al s0 d len_len =
     cbb_and (CBB_flush al s0 d) (\<lambda>s.
     cbb_and (cbb_buffer_add al s len_len) (\<lambda>s1.
       (True, s1\<lparr>cb_buf := mem_write (cb_buf s1) (cb_len s) (replicate len_len 0),
                 cb_chain := take d (cb_chain s1) @
                   [\<lparr>cc_offset = cb_len s, cc_pending_len_len = len_len,
                     cc_pending_is_asn1 = False\<rparr>]\<rparr>)))"

definition CBB_add_u8_length_prefixed :: "allocator \<Rightarrow> CBB \<Rightarrow> nat \<Rightarrow> cbb_outcome" where
  "CBB_add_u8_length_prefixed al s d = cbb_add_length_prefixed al s d 1"

definition CBB_add_u16_length_prefixed :: "allocator \<Rightarrow> CBB \<Rightarrow> nat \<Rightarrow> cbb_outcome" where
  "CBB_add_u16_length_prefixed al s d = cbb_add_length_prefixed al s d 2"

definition CBB_add_u24_length_prefixed :: "allocator \<Rightarrow> CBB \<Rightarrow> nat \<Rightarrow> cbb_outcome" where
  "CBB_add_u24_length_prefixed al s d = cbb_add_length_prefixed al s d 3"

definition CBB_add_u8 :: "allocator \<Rightarrow> CBB \<Rightarrow> nat \<Rightarrow> byte \<Rightarrow> cbb_outcome" where
  "CBB_add_u8 al s d v = cbb_and (CBB_flush al s d) (\<lambda>s. cbb_buffer_add_u al s (ucast v) 1)"

definition CBB_add_u16 :: "allocator \<Rightarrow> CBB \<Rightarrow> nat \<Rightarrow> u16 \<Rightarrow> cbb_outcome" where
  "CBB_add_u16 al s d v = cbb_and (CBB_flush al s d) (\<lambda>s. cbb_buffer_add_u al s (ucast v) 2)"

definition CBB_add_u16le :: "allocator \<Rightarrow> CBB \<Rightarrow> nat \<Rightarrow> u16 \<Rightarrow> cbb_outcome" where
  "CBB_add_u16le al s d v = CBB_add_u16 al s d (CRYPTO_bswap2 v)"

definition CBB_add_u24 :: "allocator \<Rightarrow> CBB \<Rightarrow> nat \<Rightarrow> u32 \<Rightarrow> cbb_outcome" where
  "CBB_add_u24 al s d v = cbb_and (CBB_flush al s d) (\<lambda>s. cbb_buffer_add_u al s (ucast v) 3)"

definition CBB_add_u32 :: "allocator \<Rightarrow> CBB \<Rightarrow> nat \<Rightarrow> u32 \<Rightarrow> cbb_outcome" where
  "CBB_add_u32 al s d v = cbb_and (CBB_flush al s d) (\<lambda>s. cbb_buffer_add_u al s (ucast v) 4)"

definition CBB_add_u32le :: "allocator \<Rightarrow> CBB \<Rightarrow> nat \<Rightarrow> u32 \<Rightarrow> cbb_outcome" where
  "CBB_add_u32le al s d v = CBB_add_u32 al s d (CRYPTO_bswap4 v)"

definition CBB_add_u64 :: "allocator \<Rightarrow> CBB \<Rightarrow> nat \<Rightarrow> u64 \<Rightarrow> cbb_outcome" where
  "CBB_add_u64 al s d v = cbb_and (CBB_flush al s d) (\<lambda>s. cbb_buffer_add_u al s v 8)"

definition CBB_add_u64le :: "allocator \<Rightarrow> CBB \<Rightarrow> nat \<Rightarrow> u64 \<Rightarrow> cbb_outcome" where
  "CBB_add_u64le al s d v = CBB_add_u64 al s d (CRYPTO_bswap8 v)"

definition CBB_add_bytes :: "allocator \<Rightarrow> CBB \<Rightarrow> nat \<Rightarrow> byte list \<Rightarrow> cbb_outcome" where
  "CBB_add_bytes al s0 d data =
     cbb_and (CBB_flush al s0 d) (\<lambda>s.
     cbb_and (cbb_buffer_add al s (length data)) (\<lambda>s1.
       (True, s1\<lparr>cb_buf := mem_write (cb_buf s1) (cb_len s) data\<rparr>)))"

definition CBB_add_space :: "allocator \<Rightarrow> CBB \<Rightarrow> nat \<Rightarrow> nat \<Rightarrow> cbb_outcome" where
  "CBB_add_space al s d len = cbb_and (CBB_flush al s d) (\<lambda>s. cbb_buffer_add al s len)"

text \<open>The space that \<open>CBB_add_space\<close> hands out is the last \<open>len\<close> bytes of the buffer.\<close>

definition CBB_add_zeros :: "allocator \<Rightarrow> CBB \<Rightarrow> nat \<Rightarrow> nat \<Rightarrow> cbb_outcome" where
  "CBB_add_zeros al s d len =
     cbb_and (CBB_add_space al s d len) (\<lambda>s1.
       (True, s1\<lparr>cb_buf := mem_write (cb_buf s1) (cb_len s1 - len) (replicate len 0)\<rparr>))"

definition CBB_reserve :: "allocator \<Rightarrow> CBB \<Rightarrow> nat \<Rightarrow> nat \<Rightarrow> cbb_outcome" where
  "CBB_reserve al s d len = cbb_and (CBB_flush al s d) (\<lambda>s. cbb_buffer_reserve al s len)"

definition CBB_did_write :: "CBB \<Rightarrow> nat \<Rightarrow> nat \<Rightarrow> cbb_outcome" where
  "CBB_did_write s d len =
     (let newlen = size_add (cb_len s) len in
      if d < length (cb_chain s) \<or> newlen < cb_len s \<or> newlen > cb_cap s then (False, s)
      else (True, s\<lparr>cb_len := newlen\<rparr>))"

definition CBB_discard_child :: "CBB \<Rightarrow> nat \<Rightarrow> CBB" where
  "CBB_discard_child s d =
     (if length (cb_chain s) \<le> d then s
      else s\<lparr>cb_len := cc_offset (cb_chain s ! d), cb_chain := take d (cb_chain s)\<rparr>)"

section \<open>ASN.1\<close>

function base128_len_loop :: "u64 \<Rightarrow> nat \<Rightarrow> nat" where
  "base128_len_loop copy len_len =
     (if copy > 0 then base128_len_loop (drop_bit 7 copy) (len_len + 1) else len_len)"
  by pat_completeness auto
termination
proof (relation "measure (\<lambda>(copy, len_len). unat copy)")
  fix copy :: u64 and len_len :: nat
  assume "copy > 0"
  then have "unat copy > 0" by (simp add: word_less_nat_alt)
  then show "((drop_bit 7 copy, len_len + 1), (copy, len_len)) \<in> measure (\<lambda>(copy, len_len). unat copy)"
    by (simp add: unat_drop_bit)
qed simp

declare base128_len_loop.simps [simp del]

text \<open>The second loop counts \<open>i\<close> down from \<open>len_len - 1\<close> to 0.\<close>

fun add_base128_loop :: "allocator \<Rightarrow> CBB \<Rightarrow> nat \<Rightarrow> u64 \<Rightarrow> nat \<Rightarrow> cbb_outcome" where
  "add_base128_loop al s d v 0 = (True, s)"
| "add_base128_loop al s d v (Suc i) =
     (let b = ucast (drop_bit (7 * i) v AND 0x7f) :: byte;
          b' = (if i \<noteq> 0 then b OR 0x80 else b)
      in cbb_and (CBB_add_u8 al s d b') (\<lambda>s. add_base128_loop al s d v i))"

definition add_base128_integer :: "allocator \<Rightarrow> CBB \<Rightarrow> nat \<Rightarrow> u64 \<Rightarrow> cbb_outcome" where
  "add_base128_integer al s d v =
     (let n = base128_len_loop v 0;
          len_len = (if n = 0 then 1 else n)
      in add_base128_loop al s d v len_len)"

definition CBB_add_asn1 :: "allocator \<Rightarrow> CBB \<Rightarrow> nat \<Rightarrow> u32 \<Rightarrow> cbb_outcome" where
  "CBB_add_asn1 al s0 d tag =
     cbb_and (CBB_flush al s0 d) (\<lambda>s.
       let tag_bits = ucast (drop_bit CBS_ASN1_TAG_SHIFT tag AND 0xe0) :: byte;
           tag_number = tag AND CBS_ASN1_TAG_NUMBER_MASK
       in cbb_and
            (if tag_number \<ge> 0x1f
             then cbb_and (CBB_add_u8 al s d (tag_bits OR 0x1f))
                    (\<lambda>s. add_base128_integer al s d (ucast tag_number))
             else CBB_add_u8 al s d (tag_bits OR ucast tag_number))
            (\<lambda>s1. cbb_and (CBB_add_u8 al s1 d 0)
               (\<lambda>s2. (True, s2\<lparr>cb_chain := take d (cb_chain s2) @
                        [\<lparr>cc_offset = cb_len s1, cc_pending_len_len = 1,
                          cc_pending_is_asn1 = True\<rparr>]\<rparr>))))"

fun asn1_uint64_write_loop :: "allocator \<Rightarrow> CBB \<Rightarrow> nat \<Rightarrow> u64 \<Rightarrow> bool \<Rightarrow> nat \<Rightarrow> cbb_outcome" where
  "asn1_uint64_write_loop al s d v started 0 =
     (if \<not> started then CBB_add_u8 al s d 0 else (True, s))"
| "asn1_uint64_write_loop al s d v started (Suc n) =
     (let b = ucast (drop_bit (8 * n) v AND 0xff) :: byte in
      if \<not> started \<and> b = 0 then asn1_uint64_write_loop al s d v started n
      else cbb_and (if \<not> started \<and> b AND 0x80 \<noteq> 0 then CBB_add_u8 al s d 0 else (True, s))
             (\<lambda>s1. cbb_and (CBB_add_u8 al s1 d b)
               (\<lambda>s2. asn1_uint64_write_loop al s2 d v True n)))"

definition CBB_add_asn1_uint64 :: "allocator \<Rightarrow> CBB \<Rightarrow> nat \<Rightarrow> u64 \<Rightarrow> cbb_outcome" where
  "CBB_add_asn1_uint64 al s d v =
     cbb_and (CBB_add_asn1 al s d CBS_ASN1_INTEGER) (\<lambda>s1.
     cbb_and (asn1_uint64_write_loop al s1 (Suc d) v False 8) (\<lambda>s2. CBB_flush al s2 d))"

text \<open>The bytes of the union, little-endian.\<close>

definition int64_union_bytes :: "64 word \<Rightarrow> byte list" where
  "int64_union_bytes v = rev (be_bytes 8 (unat v))"

fun int64_start_loop :: "byte list \<Rightarrow> nat \<Rightarrow> nat" where
  "int64_start_loop bytes 0 = 0"
| "int64_start_loop bytes (Suc start) =
     (if bytes ! (Suc start) = 0xff \<and> bytes ! start AND 0x80 \<noteq> 0 then int64_start_loop bytes start
      else Suc start)"

fun asn1_int64_write_loop :: "allocator \<Rightarrow> CBB \<Rightarrow> nat \<Rightarrow> byte list \<Rightarrow> nat \<Rightarrow> cbb_outcome" where
  "asn1_int64_write_loop al s d bytes 0 = (True, s)"
| "asn1_int64_write_loop al s d bytes (Suc i) =
     cbb_and (CBB_add_u8 al s d (bytes ! i)) (\<lambda>s. asn1_int64_write_loop al s d bytes i)"

definition CBB_add_asn1_int64 :: "allocator \<Rightarrow> CBB \<Rightarrow> nat \<Rightarrow> 64 word \<Rightarrow> cbb_outcome" where
  "CBB_add_asn1_int64 al s d v =
     (if 0 \<le> sint v then CBB_add_asn1_uint64 al s d v
      else
        let bytes = int64_union_bytes v;
            start = int64_start_loop bytes 7
        in cbb_and (CBB_add_asn1 al s d CBS_ASN1_INTEGER) (\<lambda>s1.
           cbb_and (asn1_int64_write_loop al s1 (Suc d) bytes (Suc start)) (\<lambda>s2. CBB_flush al s2 d)))"

definition CBB_add_asn1_octet_string :: "allocator \<Rightarrow> CBB \<Rightarrow> nat \<Rightarrow> byte list \<Rightarrow> cbb_outcome" where
  "CBB_add_asn1_octet_string al s d data =
     cbb_and (CBB_add_asn1 al s d CBS_ASN1_OCTETSTRING) (\<lambda>s1.
     cbb_and (CBB_add_bytes al s1 (Suc d) data) (\<lambda>s2. CBB_flush al s2 d))"

definition CBB_add_asn1_bool :: "allocator \<Rightarrow> CBB \<Rightarrow> nat \<Rightarrow> int \<Rightarrow> cbb_outcome" where
  "CBB_add_asn1_bool al s d v =
     cbb_and (CBB_add_asn1 al s d CBS_ASN1_BOOLEAN) (\<lambda>s1.
     cbb_and (CBB_add_u8 al s1 (Suc d) (if v \<noteq> 0 then 0xff else 0)) (\<lambda>s2. CBB_flush al s2 d))"

end
