(* ===== verification/CbbSpec.thy ===== *)
theory CbbSpec
  imports Cbb
begin

text \<open>
  What the byte-string builder promises. \<open>cbb_holds s c ch\<close> says that the state is sound, that the
  bytes written so far are \<open>c\<close> and that the open children are \<open>ch\<close>; a pending child is a frame,
  whose prefix is still zero. The lemmas give each operation as an equation on the contents, with
  success wherever the buffer is \<open>ample\<close>: it is large enough already, or it may grow and the
  allocator does not fail.
\<close>

section \<open>Soundness of the state and room in the buffer\<close>

definition ample :: "allocator \<Rightarrow> CBB \<Rightarrow> nat \<Rightarrow> bool" where
  "ample al s N \<longleftrightarrow> N < SIZE_BOUND \<and>
     (N \<le> cb_cap s \<or> (cb_can_resize s \<and> alloc_total al \<and> N < 2 ^ 61 \<and> cb_cap s < 2 ^ 62))"

definition cbb_holds :: "CBB \<Rightarrow> byte list \<Rightarrow> cbb_child list \<Rightarrow> bool" where
  "cbb_holds s c ch \<longleftrightarrow>
     length (cb_buf s) = cb_cap s \<and> cb_len s \<le> cb_cap s \<and> cb_cap s < SIZE_BOUND \<and> \<not> cb_error s \<and>
     take (cb_len s) (cb_buf s) = c \<and> cb_chain s = ch"

lemma cbb_holds_len: "cbb_holds s c ch \<Longrightarrow> cb_len s = length c"
  by (auto simp: cbb_holds_def)

lemma cbb_and_True [simp]: "cbb_and (True, s) f = f s"
  and cbb_and_False [simp]: "cbb_and (False, s) f = (False, s)"
  by (simp_all add: cbb_and_def)

lemma length_mem_write [simp]: "off + length data \<le> length mem \<Longrightarrow> length (mem_write mem off data) = length mem"
  by (simp add: mem_write_def)

lemma take_mem_write: "off + length data \<le> length mem \<Longrightarrow> take (off + length data) (mem_write mem off data) = take off mem @ data"
  by (simp add: mem_write_def)

lemma malloc_total:
  assumes "alloc_total al" and "n < 2 ^ 63"
  obtains bs where "OPENSSL_malloc al n = Some bs" and "length bs = n"
proof -
  have "size_add n 8 = n + 8" using assms(2) by (intro size_add_small) simp
  then obtain bs where "OPENSSL_malloc al n = Some bs"
    using assms by (fastforce simp: OPENSSL_malloc_def alloc_total_def split: option.splits)
  moreover from this have "length bs = n"
    using assms malloc_length [of al n bs] by (simp add: alloc_total_def)
  ultimately show thesis by (rule that)
qed

lemma reserve_ok:
  assumes h: "cbb_holds s c ch" and N: "ample al s N" "length c + n \<le> N"
  obtains s' where "cbb_buffer_reserve al s n = (True, s')" and "cbb_holds s' c ch" and "ample al s' N"
    and "length c + n \<le> cb_cap s'"
proof (cases "length c + n \<le> cb_cap s")
  case True
  have "size_add (cb_len s) n = length c + n"
    using N cbb_holds_len [OF h] by (subst size_add_small) (auto simp: ample_def)
  then have "cbb_buffer_reserve al s n = (True, s)"
    using True cbb_holds_len [OF h] by (simp add: cbb_buffer_reserve_def Let_def)
  then show thesis using that h N True by blast
next
  case False
  have len: "size_add (cb_len s) n = length c + n"
    using N cbb_holds_len [OF h] by (subst size_add_small) (auto simp: ample_def)
  from False N have big: "cb_can_resize s" "alloc_total al" "N < 2 ^ 61" "cb_cap s < 2 ^ 62"
    by (auto simp: ample_def)
  have cap: "cb_cap s < length c + n" using False by simp
  have dbl: "size_mul (cb_cap s) 2 = cb_cap s * 2" using big by (simp add: size_mul_def)
  let ?newcap = "if cb_cap s * 2 < cb_cap s \<or> cb_cap s * 2 < length c + n then length c + n else cb_cap s * 2"
  have lt: "?newcap < 2 ^ 62" and ge: "length c + n \<le> ?newcap" using cap N big by auto
  have "?newcap < 2 ^ 63" using lt by (rule less_trans) simp
  then obtain ret where ret: "OPENSSL_malloc al ?newcap = Some ret" "length ret = ?newcap"
    using malloc_total [OF big(2)] by blast
  let ?buf = "cb_buf s @ drop (cb_cap s) ret"
  have cs: "length (cb_buf s) = cb_cap s" "cb_len s \<le> cb_cap s" using h by (auto simp: cbb_holds_def)
  have "OPENSSL_realloc al (Some (cb_buf s)) ?newcap = Some ?buf"
    using ret cs ge cap unfolding OPENSSL_realloc_def by (simp add: Let_def)
  then have "cbb_buffer_reserve al s n = (True, s\<lparr>cb_buf := ?buf, cb_cap := ?newcap\<rparr>)"
    using len cbb_holds_len [OF h] cap big dbl unfolding cbb_buffer_reserve_def by (simp add: Let_def)
  moreover have "cbb_holds (s\<lparr>cb_buf := ?buf, cb_cap := ?newcap\<rparr>) c ch"
    using h ret lt ge cap cs by (simp add: cbb_holds_def)
  moreover have "ample al (s\<lparr>cb_buf := ?buf, cb_cap := ?newcap\<rparr>) N"
    using big lt N by (auto simp: ample_def)
  ultimately show thesis using that ge by simp
qed

lemma buffer_add_ok:
  assumes h: "cbb_holds s c ch" and N: "ample al s N" "length c + n \<le> N"
  obtains s' where "cbb_buffer_add al s n = (True, s')" and "ample al s' N"
    and "length (cb_buf s') = cb_cap s'" "cb_len s' = length c + n" "length c + n \<le> cb_cap s'"
      "cb_cap s' < SIZE_BOUND" "\<not> cb_error s'" "take (length c) (cb_buf s') = c" "cb_chain s' = ch"
proof -
  from reserve_ok [OF h N] obtain s' where s': "cbb_buffer_reserve al s n = (True, s')"
    "cbb_holds s' c ch" "ample al s' N" "length c + n \<le> cb_cap s'" .
  have "cb_len s' = length c" by (rule cbb_holds_len [OF s'(2)])
  then show thesis
    using s' that [of "s'\<lparr>cb_len := length c + n\<rparr>"]
    by (simp add: cbb_buffer_add_def cbb_holds_def ample_def)
qed

lemma mem_write_comp:
  assumes "off + length a + length b \<le> length mem"
  shows "mem_write (mem_write mem (off + length a) b) off a = mem_write mem off (a @ b)"
  using assms by (simp add: mem_write_def min_def add.assoc)

lemma mem_write_single: "i < length mem \<Longrightarrow> mem [i := b] = mem_write mem i [b]"
  by (simp add: mem_write_def upd_conv_take_nth_drop)

lemma store_be_loop_eq:
  "off + n \<le> length mem \<Longrightarrow>
   store_be_loop mem off v n = (mem_write mem off (be_bytes n (unat v)), drop_bit (8 * n) v)"
proof (induction n arbitrary: mem v)
  case 0
  then show ?case by (simp add: mem_write_def)
next
  case (Suc n)
  have "ucast v = (word_of_nat (unat v) :: byte)" by simp
  moreover have "unat (drop_bit 8 v) = unat v div 256" by (simp add: unat_drop_bit)
  moreover have "mem_write (mem [off + n := ucast v]) off (be_bytes n (unat v div 256))
      = mem_write mem off (be_bytes n (unat v div 256) @ [ucast v])"
    using Suc.prems mem_write_comp [of off "be_bytes n (unat v div 256)" "[ucast v]" mem]
    by (simp add: mem_write_single)
  ultimately show ?case using Suc by (simp add: add.commute)
qed

lemma add_u_ok:
  assumes h: "cbb_holds s c ch" and N: "ample al s N" "length c + n \<le> N" and v: "unat v < 256 ^ n"
  obtains s' where "cbb_buffer_add_u al s v n = (True, s')"
    and "cbb_holds s' (c @ be_bytes n (unat v)) ch" and "ample al s' N"
proof (cases "n = 0")
  case True
  then show thesis using that h N by (simp add: cbb_buffer_add_u_def)
next
  case False
  from buffer_add_ok [OF h N] obtain s' where s': "cbb_buffer_add al s n = (True, s')" "ample al s' N"
    "length (cb_buf s') = cb_cap s'" "cb_len s' = length c + n" "length c + n \<le> cb_cap s'"
      "cb_cap s' < SIZE_BOUND" "\<not> cb_error s'" "take (length c) (cb_buf s') = c" "cb_chain s' = ch" .
  let ?mem = "mem_write (cb_buf s') (length c) (be_bytes n (unat v))"
  have "drop_bit (8 * n) v = 0" using v by (simp add: drop_bit_eq_0_iff power_mult)
  then have "cbb_buffer_add_u al s v n = (True, s'\<lparr>cb_buf := ?mem\<rparr>)"
    using s' False cbb_holds_len [OF h] by (simp add: cbb_buffer_add_u_def store_be_loop_eq)
  moreover have "cbb_holds (s'\<lparr>cb_buf := ?mem\<rparr>) (c @ be_bytes n (unat v)) ch"
    using s' take_mem_write [of "length c" "be_bytes n (unat v)" "cb_buf s'"] by (simp add: cbb_holds_def)
  moreover have "ample al (s'\<lparr>cb_buf := ?mem\<rparr>) N" using s' by (simp add: ample_def)
  ultimately show thesis by (rule that)
qed

text \<open>A value that does not fit is refused and the error sticks.\<close>

lemma store_be_loop_snd: "snd (store_be_loop mem off v n) = drop_bit (8 * n) v"
  by (induction n arbitrary: mem v) (simp_all add: add.commute)

lemma reserve_error: "cbb_buffer_reserve al s n = (False, s') \<Longrightarrow> cb_error s'"
  by (auto simp: cbb_buffer_reserve_def Let_def split: if_splits option.splits)

lemma buffer_add_error: "cbb_buffer_add al s n = (False, s') \<Longrightarrow> cb_error s'"
  using reserve_error by (auto simp: cbb_buffer_add_def cbb_and_def split: prod.splits if_splits)

lemma add_u_overflow:
  assumes v: "256 ^ n \<le> unat v" and add: "cbb_buffer_add_u al s v n = (ok, s')" and "0 < n"
  shows "\<not> ok \<and> cb_error s'"
proof -
  have nz: "drop_bit (8 * n) v \<noteq> 0" using v by (simp add: drop_bit_eq_0_iff power_mult)
  obtain ok1 b where b: "cbb_buffer_add al s n = (ok1, b)" by fastforce
  obtain mem v' where st: "store_be_loop (cb_buf b) (cb_len s) v n = (mem, v')" by fastforce
  then have "v' = drop_bit (8 * n) v" by (metis snd_conv store_be_loop_snd)
  with nz b st add \<open>0 < n\<close> show ?thesis
    using buffer_add_error [of al s n b] by (cases ok1) (auto simp: cbb_buffer_add_u_def)
qed

lemma flush_settled [simp]: "cbb_holds s c ch \<Longrightarrow> CBB_flush al s (length ch) = (True, s)"
  by (subst CBB_flush.simps) (auto simp: cbb_holds_def)

lemma add_bytes_ok:
  assumes h: "cbb_holds s c ch" and N: "ample al s N" "length c + length data \<le> N"
  obtains s' where "CBB_add_bytes al s (length ch) data = (True, s')"
    and "cbb_holds s' (c @ data) ch" and "ample al s' N"
proof -
  from buffer_add_ok [OF h N] obtain s' where s': "cbb_buffer_add al s (length data) = (True, s')" "ample al s' N"
    "length (cb_buf s') = cb_cap s'" "cb_len s' = length c + length data" "length c + length data \<le> cb_cap s'"
      "cb_cap s' < SIZE_BOUND" "\<not> cb_error s'" "take (length c) (cb_buf s') = c" "cb_chain s' = ch" .
  let ?s = "s'\<lparr>cb_buf := mem_write (cb_buf s') (length c) data\<rparr>"
  have "CBB_add_bytes al s (length ch) data = (True, ?s)"
    using s' h cbb_holds_len [OF h] by (simp add: CBB_add_bytes_def)
  moreover have "cbb_holds ?s (c @ data) ch"
    using s' take_mem_write [of "length c" data "cb_buf s'"] by (simp add: cbb_holds_def)
  moreover have "ample al ?s N" using s' by (simp add: ample_def)
  ultimately show thesis by (rule that)
qed

lemma add_u8_ok:
  assumes h: "cbb_holds s c ch" and N: "ample al s N" "length c + 1 \<le> N"
  obtains s' where "CBB_add_u8 al s (length ch) b = (True, s')"
    and "cbb_holds s' (c @ [b]) ch" and "ample al s' N"
proof -
  have "unat (ucast b :: u64) < 256 ^ 1" by (simp add: unat_ucast_up)
  from add_u_ok [OF h N this] obtain s' where "cbb_buffer_add_u al s (ucast b) 1 = (True, s')"
    "cbb_holds s' (c @ be_bytes 1 (unat (ucast b :: u64))) ch" "ample al s' N" .
  then show thesis using that h by (simp add: CBB_add_u8_def unat_ucast_up)
qed


section \<open>Open children and their prefixes\<close>

datatype prefix_kind = Fixed nat | Asn1

type_synonym frame = "prefix_kind \<times> byte list"

fun plen :: "prefix_kind \<Rightarrow> nat" where
  "plen (Fixed n) = n"
| "plen Asn1 = 1"

fun enc_frame :: "prefix_kind \<Rightarrow> byte list \<Rightarrow> byte list" where
  "enc_frame (Fixed n) bs = be_bytes n (length bs) @ bs"
| "enc_frame Asn1 bs = der_len (length bs) @ bs"

fun frame_ok :: "prefix_kind \<Rightarrow> byte list \<Rightarrow> bool" where
  "frame_ok (Fixed n) bs \<longleftrightarrow> 0 < n \<and> n \<le> 8 \<and> length bs < 256 ^ n"
| "frame_ok Asn1 bs \<longleftrightarrow> length bs \<le> 0xfffffffe"

definition child_at :: "nat \<Rightarrow> prefix_kind \<Rightarrow> cbb_child" where
  "child_at off k = \<lparr>cc_offset = off, cc_pending_len_len = plen k, cc_pending_is_asn1 = (k = Asn1)\<rparr>"

fun flat :: "frame list \<Rightarrow> byte list" where
  "flat [] = []"
| "flat ((k, bs) # fs) = replicate (plen k) 0 @ bs @ flat fs"

fun layout :: "nat \<Rightarrow> frame list \<Rightarrow> cbb_child list" where
  "layout off [] = []"
| "layout off ((k, bs) # fs) = child_at off k # layout (off + plen k + length bs) fs"

fun fold_frames :: "frame list \<Rightarrow> byte list" where
  "fold_frames [] = []"
| "fold_frames ((k, bs) # fs) = enc_frame k (bs @ fold_frames fs)"

fun fold_ok :: "frame list \<Rightarrow> bool" where
  "fold_ok [] = True"
| "fold_ok ((k, bs) # fs) = (frame_ok k (bs @ fold_frames fs) \<and> fold_ok fs)"

lemma asn1_len_len_der:
  assumes "len \<le> 0xfffffffe"
  obtains ll b where "asn1_len_len len = Some (ll, b)" and "der_len len = b # be_bytes (ll - 1) len"
    and "0 < ll" and "ll = 1 \<longleftrightarrow> len < 128"
proof -
  have nb: "nbytes len = k" if "256 ^ (k - 1) \<le> len" "len < 256 ^ k" "0 < k" for k
    using that by (intro nbytes_unique)
  consider "len < 128" | "128 \<le> len" "len \<le> 0xff" | "0xff < len" "len \<le> 0xffff"
    | "0xffff < len" "len \<le> 0xffffff" | "0xffffff < len" by linarith
  then show thesis
  proof cases
    case 1 then show thesis using that by (simp add: asn1_len_len_def der_len_def)
  next
    case 2 then show thesis using that nb [of 1] by (simp add: asn1_len_len_def der_len_def)
  next
    case 3 then show thesis using that nb [of 2] by (simp add: asn1_len_len_def der_len_def)
  next
    case 4 then show thesis using that nb [of 3] by (simp add: asn1_len_len_def der_len_def)
  next
    case 5 then show thesis using that nb [of 4] assms by (simp add: asn1_len_len_def der_len_def)
  qed
qed

lemma mem_write_append: "mem_write (a @ r) (length a) d = a @ d @ drop (length d) r"
  by (simp add: mem_write_def)

lemma mem_write_middle:
  "length a = length b \<Longrightarrow> mem_write (c @ a @ d) (length c) b = c @ b @ d"
  by (simp add: mem_write_def)

lemma write_prefix_ok:
  assumes "length (cb_buf s) = cb_cap s" "cb_len s \<le> cb_cap s" "cb_cap s < SIZE_BOUND" "\<not> cb_error s"
    and buf: "take (cb_len s) (cb_buf s) = c @ hole @ body" and hole: "length hole = n"
    and v: "v < 256 ^ n" "v < SIZE_BOUND" and chain: "cb_chain s = ch @ x" and "ample al s N"
  shows "\<exists>s'. cbb_write_prefix s (length ch) (length c) n v = (True, s') \<and>
    cbb_holds s' (c @ be_bytes n v @ body) ch \<and> ample al s' N"
proof -
  have u: "unat (word_of_nat v :: u64) = v" using v by (simp add: u64_word_of_nat)
  have len: "cb_len s = length c + n + length body"
    using assms(2) arg_cong [OF buf, of length] assms(1) hole by simp
  let ?s = "s\<lparr>cb_buf := mem_write (cb_buf s) (length c) (be_bytes n v), cb_chain := ch\<rparr>"
  have "drop_bit (8 * n) (word_of_nat v :: u64) = 0" using u v by (simp add: drop_bit_eq_0_iff power_mult)
  then have "cbb_write_prefix s (length ch) (length c) n v = (True, ?s)"
    using assms(1,2) len u chain by (simp add: cbb_write_prefix_def store_be_loop_eq)
  moreover have "cb_buf s = (c @ hole @ body) @ drop (cb_len s) (cb_buf s)"
    using buf by (metis append_take_drop_id)
  then have "mem_write (cb_buf s) (length c) (be_bytes n v) = c @ be_bytes n v @ body @ drop (cb_len s) (cb_buf s)"
    using hole mem_write_middle [of hole "be_bytes n v" c "body @ drop (cb_len s) (cb_buf s)"] by simp
  then have "cbb_holds ?s (c @ be_bytes n v @ body) ch"
    using assms len by (simp add: cbb_holds_def)
  moreover have "ample al ?s N" using assms by (simp add: ample_def)
  ultimately show ?thesis by blast
qed


lemma flush_child_fixed_ok:
  assumes h: "cbb_holds s (c @ replicate n 0 @ body) (ch @ [child_at (length c) (Fixed n)])"
    and ok: "frame_ok (Fixed n) body" and N: "ample al s N"
  obtains s' where "cbb_flush_child al s (length ch) (child_at (length c) (Fixed n)) = (True, s')"
    and "cbb_holds s' (c @ enc_frame (Fixed n) body) ch" and "ample al s' N"
proof -
  have len: "cb_len s = length c + n + length body" using cbb_holds_len [OF h] by simp
  have "cb_len s < SIZE_BOUND" using h by (simp add: cbb_holds_def)
  then have add: "size_add (length c) n = length c + n" using len by (intro size_add_small) simp
  have "\<exists>s'. cbb_write_prefix s (length ch) (length c) n (length body) = (True, s') \<and>
      cbb_holds s' (c @ be_bytes n (length body) @ body) ch \<and> ample al s' N"
    using h ok N len \<open>cb_len s < SIZE_BOUND\<close>
    by (intro write_prefix_ok [where hole = "replicate n 0" and x = "[child_at (length c) (Fixed n)]"])
      (simp_all add: cbb_holds_def)
  then obtain s' where "cbb_write_prefix s (length ch) (length c) n (length body) = (True, s')"
      "cbb_holds s' (c @ be_bytes n (length body) @ body) ch" "ample al s' N" by blast
  then show thesis
    using that len add by (simp add: cbb_flush_child_def child_at_def)
qed

lemma make_room:
  assumes "length c + 1 + length body + e \<le> length mem" and "take (length c + 1 + length body) mem = c @ 0 # body"
  obtains hole where "length hole = e"
    and "take (length c + 1 + length body + e)
           ((mem_write mem (length c + 1 + e) (take (length body) (drop (length c + 1) mem))) [length c := b])
         = (c @ [b]) @ hole @ body"
proof -
  let ?hole = "take e (drop (length c + 1) mem)" and ?rest = "drop (length c + 1 + e) mem"
  have "take (length c + 1) mem = c @ [0]"
    using arg_cong [OF assms(2), of "take (length c + 1)"] by simp
  then have mem: "mem = (c @ [0]) @ ?hole @ ?rest"
    by (metis append_take_drop_id drop_drop add.commute)
  have hole: "length ?hole = e" using assms(1) by simp
  have body: "take (length body) (drop (length c + 1) mem) = body"
    using arg_cong [OF assms(2), of "drop (length c + 1)"] by (simp add: drop_take)
  have "mem_write mem (length c + 1 + e) body = (c @ 0 # ?hole) @ body @ drop (length body) ?rest"
    using mem_write_append [of "c @ 0 # ?hole" ?rest body] mem hole by simp
  then show thesis using that [of ?hole] hole unfolding body by (simp add: min_def)
qed

lemma flush_child_asn1_ok:
  assumes h: "cbb_holds s (c @ 0 # body) (ch @ [child_at (length c) Asn1])"
    and ok: "frame_ok Asn1 body" and N: "ample al s N" "length c + length (enc_frame Asn1 body) \<le> N"
  obtains s' where "cbb_flush_child al s (length ch) (child_at (length c) Asn1) = (True, s')"
    and "cbb_holds s' (c @ enc_frame Asn1 body) ch" and "ample al s' N"
proof -
  have len: "cb_len s = length c + 1 + length body" using cbb_holds_len [OF h] by simp
  have lt: "cb_len s < SIZE_BOUND" using h by (simp add: cbb_holds_def)
  then have add: "size_add (length c) 1 = length c + 1" using len by (intro size_add_small) simp
  have "length body \<le> 0xfffffffe" using ok by simp
  from asn1_len_len_der [OF this] obtain ll b where ll: "asn1_len_len (length body) = Some (ll, b)"
    "der_len (length body) = b # be_bytes (ll - 1) (length body)" "0 < ll" "ll = 1 \<longleftrightarrow> length body < 128" .
  show thesis
  proof (cases "ll = 1")
    case True
    let ?s = "s\<lparr>cb_buf := (cb_buf s) [length c := b]\<rparr>"
    have "take (cb_len s) (cb_buf ?s) = (c @ [b]) @ [] @ body"
      using h len by (simp add: cbb_holds_def take_update_swap)
    then have "\<exists>s'. cbb_write_prefix ?s (length ch) (length (c @ [b])) 0 0 = (True, s') \<and>
        cbb_holds s' ((c @ [b]) @ be_bytes 0 0 @ body) ch \<and> ample al s' N"
      using h N by (intro write_prefix_ok [where hole = "[]" and x = "[child_at (length c) Asn1]"])
        (simp_all add: cbb_holds_def ample_def)
    then show thesis
      using that True ll len add by (auto simp: cbb_flush_child_def child_at_def)
  next
    case False
    let ?e = "ll - 1"
    have "length (c @ 0 # body) + ?e \<le> N" using N ll False by simp
    from buffer_add_ok [OF h N(1) this] obtain s1 where s1: "cbb_buffer_add al s ?e = (True, s1)" "ample al s1 N"
      "length (cb_buf s1) = cb_cap s1" "cb_len s1 = length (c @ 0 # body) + ?e"
      "length (c @ 0 # body) + ?e \<le> cb_cap s1" "cb_cap s1 < SIZE_BOUND" "\<not> cb_error s1"
      "take (length (c @ 0 # body)) (cb_buf s1) = c @ 0 # body" "cb_chain s1 = ch @ [child_at (length c) Asn1]" .
    let ?mem = "(mem_write (cb_buf s1) (length c + 1 + ?e) (take (length body) (drop (length c + 1) (cb_buf s1)))) [length c := b]"
    let ?s = "s1\<lparr>cb_buf := ?mem\<rparr>"
    obtain hole where hole: "length hole = ?e" "take (length c + 1 + length body + ?e) ?mem = (c @ [b]) @ hole @ body"
      using make_room [of c body ?e "cb_buf s1" b] s1 by auto
    have "length (take (length body) (drop (length c + 1) (cb_buf s1))) = length body" using s1 by simp
    then have l: "length ?mem = cb_cap s1" using s1 by simp
    have "be_bytes (nbytes (length body)) (length body) = be_bytes ?e (length body)"
      using ll False by (auto simp: der_len_def)
    then have v: "length body < 256 ^ ?e" by (metis length_be_bytes nbytes_bound)
    have "\<exists>s'. cbb_write_prefix ?s (length ch) (length (c @ [b])) ?e (length body) = (True, s') \<and>
        cbb_holds s' ((c @ [b]) @ be_bytes ?e (length body) @ body) ch \<and> ample al s' N"
      using s1 hole l v lt len
      by (intro write_prefix_ok [where hole = hole and x = "[child_at (length c) Asn1]"])
        (simp_all add: ample_def)
    then show thesis
      using that False ll len add s1 by (auto simp: cbb_flush_child_def child_at_def Let_def)
  qed
qed

lemma der_len_nonempty: "0 < length (der_len n)"
  by (simp add: der_len_def)

lemma length_enc_frame: "plen k + length bs \<le> length (enc_frame k bs)"
  using der_len_nonempty [of "length bs"] by (cases k) (simp_all add: Suc_le_eq)

lemma flush_child_ok:
  assumes "cbb_holds s (c @ replicate (plen k) 0 @ body) (ch @ [child_at (length c) k])"
    and "frame_ok k body" and "ample al s N" and "length c + length (enc_frame k body) \<le> N"
  obtains s' where "cbb_flush_child al s (length ch) (child_at (length c) k) = (True, s')"
    and "cbb_holds s' (c @ enc_frame k body) ch" and "ample al s' N"
proof (cases k)
  case (Fixed n)
  show thesis
    by (rule flush_child_fixed_ok [of s c n body ch al N]) (use assms that Fixed in auto)
next
  case Asn1
  show thesis
    by (rule flush_child_asn1_ok [of s c body ch al N]) (use assms that Asn1 in auto)
qed

lemma flush_ok:
  assumes "cbb_holds s (c @ flat fs) (ch @ layout (length c) fs)" and "fold_ok fs"
    and "ample al s N" and "length c + length (fold_frames fs) \<le> N"
  shows "\<exists>s'. CBB_flush al s (length ch) = (True, s') \<and> cbb_holds s' (c @ fold_frames fs) ch \<and> ample al s' N"
  using assms
proof (induction fs arbitrary: c ch)
  case Nil
  then show ?case by auto
next
  case (Cons f fs)
  obtain k bs where f: "f = (k, bs)" by fastforce
  let ?c = "c @ replicate (plen k) 0 @ bs" and ?child = "child_at (length c) k"
  have ok: "frame_ok k (bs @ fold_frames fs)" using Cons.prems f by simp
  then have pos: "0 < plen k" by (cases k) simp_all
  have "\<exists>s1. CBB_flush al s (length (ch @ [?child])) = (True, s1) \<and>
      cbb_holds s1 (?c @ fold_frames fs) (ch @ [?child]) \<and> ample al s1 N"
    using Cons.prems f length_enc_frame [of k "bs @ fold_frames fs"]
    by (intro Cons.IH) (simp_all add: add.assoc)
  then obtain s1 where s1: "CBB_flush al s (Suc (length ch)) = (True, s1)"
    "cbb_holds s1 (c @ replicate (plen k) 0 @ bs @ fold_frames fs) (ch @ [?child])" "ample al s1 N"
    by auto
  obtain s2 where s2: "cbb_flush_child al s1 (length ch) ?child = (True, s2)"
    "cbb_holds s2 (c @ enc_frame k (bs @ fold_frames fs)) ch" "ample al s2 N"
    using flush_child_ok [OF s1(2) ok s1(3)] Cons.prems f by auto
  have chain: "cb_chain s = ch @ ?child # layout (length c + plen k + length bs) fs" "\<not> cb_error s"
    using Cons.prems f by (auto simp: cbb_holds_def)
  then have "CBB_flush al s (length ch) = (True, s2)"
    using s1 s2 pos by (subst CBB_flush.simps) (simp add: nth_append child_at_def)
  then show ?case using s2 f by simp
qed


lemma flush_first:
  assumes "CBB_flush al s (length ch) = (True, s1)" and "cbb_holds s1 c ch"
  shows "CBB_add_bytes al s (length ch) x = CBB_add_bytes al s1 (length ch) x"
    and "CBB_add_u8 al s (length ch) b = CBB_add_u8 al s1 (length ch) b"
    and "CBB_add_asn1 al s (length ch) t = CBB_add_asn1 al s1 (length ch) t"
    and "cbb_add_length_prefixed al s (length ch) n = cbb_add_length_prefixed al s1 (length ch) n"
  using assms by (simp_all add: CBB_add_bytes_def CBB_add_u8_def CBB_add_asn1_def cbb_add_length_prefixed_def)

section \<open>Base-128 integers and identifier octets\<close>

lemma base128_len_loop_0 [simp]: "base128_len_loop 0 n = n"
  by (simp add: base128_len_loop.simps)

lemma base128_len_loop_pos: "0 < v \<Longrightarrow> base128_len_loop v n = base128_len_loop (drop_bit 7 v) (Suc n)"
  by (subst base128_len_loop.simps) simp

lemma base128_hi_digits:
  "base128_hi (unat v) = map (\<lambda>i. word_of_nat (128 + unat v div 128 ^ i mod 128)) (rev [0..<base128_len_loop v n - n])
   \<and> n \<le> base128_len_loop v n"
proof (induction v n rule: base128_len_loop.induct)
  case (1 v n)
  show ?case
  proof (cases "0 < v")
    case True
    let ?m = "base128_len_loop (drop_bit 7 v) (Suc n) - Suc n"
    have d: "unat (drop_bit 7 v) = unat v div 128" by (simp add: unat_drop_bit)
    have IH: "base128_hi (unat v div 128) = map (\<lambda>i. word_of_nat (128 + unat v div 128 div 128 ^ i mod 128)) (rev [0..<?m])"
      "Suc n \<le> base128_len_loop (drop_bit 7 v) (Suc n)"
      using 1 [of] True unfolding d by simp_all
    have "0 < unat v" using True by (simp add: word_less_nat_alt)
    then have "base128_hi (unat v) = base128_hi (unat v div 128) @ [word_of_nat (128 + unat v mod 128)]"
      by (rule base128_hi_pos)
    also have "\<dots> = map (\<lambda>i. word_of_nat (128 + unat v div 128 ^ i mod 128)) (rev [0..<Suc ?m])"
      unfolding IH(1) by (simp add: upt_conv_Cons map_Suc_upt [symmetric] rev_map comp_def div_mult2_eq del: upt_Suc)
    finally show ?thesis
      using IH(2) True by (simp add: base128_len_loop_pos Suc_diff_Suc [symmetric] del: upt_Suc)
  next
    case False
    then have "v = 0" by (metis word_gt_0)
    then show ?thesis by simp
  qed
qed

definition base128_byte :: "u64 \<Rightarrow> nat \<Rightarrow> byte" where
  "base128_byte v i = (if i \<noteq> 0 then ucast (drop_bit (7 * i) v AND 0x7f) OR 0x80 else ucast (drop_bit (7 * i) v AND 0x7f))"

lemma base128_byte_eq:
  "base128_byte v i = word_of_nat ((if i = 0 then 0 else 128) + unat v div 128 ^ i mod 128)"
proof -
  have "unat (drop_bit (7 * i) v AND 0x7f) = unat v div 128 ^ i mod 128"
    using unat_and_mask [of "drop_bit (7 * i) v" 7]
    by (simp add: mask_eq_exp_minus_1 unat_drop_bit power_mult)
  moreover have "unat v div 128 ^ i mod 128 < 128" by simp
  ultimately have u: "unat (ucast (drop_bit (7 * i) v AND 0x7f) :: byte) = unat v div 128 ^ i mod 128"
    by (simp only: unat_ucast_mod) simp
  have "unat ((0x80 :: byte) OR ucast (drop_bit (7 * i) v AND 0x7f)) = (128 + unat v div 128 ^ i mod 128) mod 256"
    using unat_or_add [where k = 7 and u = "0x80 :: byte" and v = "ucast (drop_bit (7 * i) v AND 0x7f)"] u by simp
  then show ?thesis
    using u by (auto simp: base128_byte_def byte_eq_iff unat_word_of_nat or.commute simp del: of_nat_add)
qed

lemma add_base128_loop_Suc:
  "add_base128_loop al s d v (Suc i) =
     cbb_and (CBB_add_u8 al s d (base128_byte v i)) (\<lambda>s. add_base128_loop al s d v i)"
  by (simp add: base128_byte_def Let_def)

lemma add_base128_loop_ok:
  assumes "cbb_holds s c ch" and "ample al s N" and "length c + n \<le> N"
  shows "\<exists>s'. add_base128_loop al s (length ch) v n = (True, s') \<and>
    cbb_holds s' (c @ map (base128_byte v) (rev [0..<n])) ch \<and> ample al s' N"
  using assms
proof (induction n arbitrary: s c)
  case (Suc n)
  obtain s1 where s1: "CBB_add_u8 al s (length ch) (base128_byte v n) = (True, s1)"
    "cbb_holds s1 (c @ [base128_byte v n]) ch" "ample al s1 N"
    using add_u8_ok [OF Suc.prems(1,2), of "base128_byte v n"] Suc.prems(3) by auto
  have "length (c @ [base128_byte v n]) + n \<le> N" using Suc.prems(3) by simp
  from Suc.IH [OF s1(2,3) this] s1(1) show ?case
    unfolding add_base128_loop_Suc by simp
qed simp

lemma base128_enc_digits:
  "base128_enc (unat v) =
     map (base128_byte v) (rev [0..<(if base128_len_loop v 0 = 0 then 1 else base128_len_loop v 0)])"
proof (cases "0 < v")
  case True
  let ?l = "base128_len_loop (drop_bit 7 v) 1"
  have d: "unat (drop_bit 7 v) = unat v div 128" by (simp add: unat_drop_bit)
  have hi: "base128_hi (unat v div 128) = map (\<lambda>i. word_of_nat (128 + unat v div 128 div 128 ^ i mod 128)) (rev [0..<?l - 1])"
    and l: "1 \<le> ?l"
    using base128_hi_digits [of "drop_bit 7 v" 1] unfolding d by simp_all
  have "base128_enc (unat v) = map (base128_byte v) (rev [0..<Suc (?l - 1)])"
    unfolding base128_enc_def hi
    by (simp add: upt_conv_Cons map_Suc_upt [symmetric] rev_map comp_def div_mult2_eq base128_byte_eq del: upt_Suc)
  moreover have "Suc (?l - 1) = ?l" using l by simp
  ultimately show ?thesis using l True by (simp add: base128_len_loop_pos del: upt_Suc)
next
  case False
  then have "v = 0" by (metis word_gt_0)
  then show ?thesis by (simp add: base128_enc_def base128_byte_eq)
qed

lemma add_base128_ok:
  assumes "cbb_holds s c ch" and "ample al s N" and "length c + length (base128_enc (unat v)) \<le> N"
  shows "\<exists>s'. add_base128_integer al s (length ch) v = (True, s') \<and>
    cbb_holds s' (c @ base128_enc (unat v)) ch \<and> ample al s' N"
  using add_base128_loop_ok [OF assms(1,2), of "if base128_len_loop v 0 = 0 then 1 else base128_len_loop v 0" v]
    assms(3)
  unfolding base128_enc_digits by (simp add: add_base128_integer_def Let_def split: if_splits)

lemma tag_bits_eq:
  fixes t :: u32
  assumes "unat w < 32"
  shows "(ucast (drop_bit 24 t AND 0xe0) :: byte) OR w = word_of_nat (32 * (unat t div 2 ^ 29) + unat w)"
proof -
  have t: "unat t < 2 ^ 32" using unat_less_power [of t] by simp
  have m: "(0xe0 :: u32) = push_bit 5 (mask 3)" by (simp add: mask_eq_exp_minus_1 push_bit_eq_mult)
  have d: "unat (drop_bit 24 t) = unat t div 2 ^ 24" by (simp add: unat_drop_bit)
  have "unat (drop_bit 24 t AND 0xe0) = unat t div 2 ^ 24 div 2 ^ 5 * 2 ^ 5"
    unfolding m using t unat_and_high [of "drop_bit 24 t" 5 3]
    by (simp add: d div_less_iff_less_mult)
  also have "\<dots> = 32 * (unat t div 2 ^ 29)" by (simp add: div_mult2_eq [symmetric] mult.commute)
  finally have h: "unat (drop_bit 24 t AND 0xe0) = 32 * (unat t div 2 ^ 29)" .
  have c: "unat t div 2 ^ 29 < 8" using t by (simp add: div_less_iff_less_mult)
  have u: "unat (ucast (drop_bit 24 t AND 0xe0) :: byte) = 32 * (unat t div 2 ^ 29)"
    using h c by (simp only: unat_ucast_mod) simp
  have "unat ((ucast (drop_bit 24 t AND 0xe0) :: byte) OR w) = (32 * (unat t div 2 ^ 29) + unat w) mod 256"
    using unat_or_add [where k = 5 and v = w and u = "ucast (drop_bit 24 t AND 0xe0) :: byte"] assms u by simp
  then show ?thesis by (intro word_eqI_unat) (simp add: unat_word_of_nat del: of_nat_add of_nat_mult)
qed

lemma tag_number_eq: "unat (t AND 0x1fffffff) = unat t mod 2 ^ 29" for t :: u32
  using unat_and_mask [of t 29] by (simp add: mask_eq_exp_minus_1)

lemma add_asn1_ok:
  assumes h: "cbb_holds s c ch" and N: "ample al s N" and len: "length c + length (der_tag t) + 1 \<le> N"
  shows "\<exists>s'. CBB_add_asn1 al s (length ch) t = (True, s') \<and>
    cbb_holds s' (c @ der_tag t @ [0]) (ch @ [child_at (length (c @ der_tag t)) Asn1]) \<and> ample al s' N"
proof -
  let ?n = "t AND 0x1fffffff" and ?bits = "ucast (drop_bit 24 t AND 0xe0) :: byte"
  let ?tagop = "if ?n \<ge> 0x1f then cbb_and (CBB_add_u8 al s (length ch) (?bits OR 0x1f))
        (\<lambda>s. add_base128_integer al s (length ch) (ucast ?n))
     else CBB_add_u8 al s (length ch) (?bits OR ucast ?n)"
  have big: "?n \<ge> 0x1f \<longleftrightarrow> \<not> unat t mod 2 ^ 29 < 31" by (simp add: word_le_nat_alt tag_number_eq not_less)
  have "\<exists>s'. ?tagop = (True, s') \<and> cbb_holds s' (c @ der_tag t) ch \<and> ample al s' N"
  proof (cases "unat t mod 2 ^ 29 < 31")
    case True
    have u: "unat (ucast ?n :: byte) = unat t mod 2 ^ 29"
      using True by (simp only: unat_ucast_mod tag_number_eq) simp
    have tag: "der_tag t = [?bits OR ucast ?n]"
      using True tag_bits_eq [of "ucast ?n" t] u by (simp add: der_tag_def Let_def del: of_nat_add of_nat_mult)
    then have "length c + 1 \<le> N" using len by simp
    from add_u8_ok [OF h N this, of "?bits OR ucast ?n"] show ?thesis
      using big True tag by auto
  next
    case False
    have u: "unat (ucast ?n :: u64) = unat t mod 2 ^ 29" by (simp add: unat_ucast_up tag_number_eq)
    have tag: "der_tag t = (?bits OR 0x1f) # base128_enc (unat t mod 2 ^ 29)"
      using False tag_bits_eq [of "0x1f" t] by (simp add: der_tag_def Let_def del: of_nat_add of_nat_mult)
    then have "length c + 1 \<le> N" using len by simp
    from add_u8_ok [OF h N this, of "?bits OR 0x1f"] obtain s1
      where s1: "CBB_add_u8 al s (length ch) (?bits OR 0x1f) = (True, s1)"
        "cbb_holds s1 (c @ [?bits OR 0x1f]) ch" "ample al s1 N" .
    have "length (c @ [?bits OR 0x1f]) + length (base128_enc (unat (ucast ?n :: u64))) \<le> N"
      using len tag u by simp
    from add_base128_ok [OF s1(2,3) this] show ?thesis
      using s1(1) big False tag u by simp
  qed
  then obtain s1 where s1: "?tagop = (True, s1)" "cbb_holds s1 (c @ der_tag t) ch" "ample al s1 N" by blast
  have "length (c @ der_tag t) + 1 \<le> N" using len by simp
  from add_u8_ok [OF s1(2,3) this, of 0] obtain s2
    where s2: "CBB_add_u8 al s1 (length ch) 0 = (True, s2)" "cbb_holds s2 ((c @ der_tag t) @ [0]) ch" "ample al s2 N" .
  let ?s = "s2\<lparr>cb_chain := ch @ [child_at (length (c @ der_tag t)) Asn1]\<rparr>"
  have "CBB_add_asn1 al s (length ch) t = (True, ?s)"
    using h s1(1) s2 cbb_holds_len [OF s1(2)]
    by (simp add: CBB_add_asn1_def Let_def child_at_def cbb_holds_def)
  moreover have "cbb_holds ?s (c @ der_tag t @ [0]) (ch @ [child_at (length (c @ der_tag t)) Asn1])"
    using s2 by (simp add: cbb_holds_def)
  moreover have "ample al ?s N" using s2 by (simp add: ample_def)
  ultimately show ?thesis by blast
qed


lemma add_length_prefixed_ok:
  assumes h: "cbb_holds s c ch" and N: "ample al s N" and len: "length c + n \<le> N"
  shows "\<exists>s'. cbb_add_length_prefixed al s (length ch) n = (True, s') \<and>
    cbb_holds s' (c @ replicate n 0) (ch @ [child_at (length c) (Fixed n)]) \<and> ample al s' N"
proof -
  from buffer_add_ok [OF h N len] obtain s' where s': "cbb_buffer_add al s n = (True, s')" "ample al s' N"
    "length (cb_buf s') = cb_cap s'" "cb_len s' = length c + n" "length c + n \<le> cb_cap s'"
      "cb_cap s' < SIZE_BOUND" "\<not> cb_error s'" "take (length c) (cb_buf s') = c" "cb_chain s' = ch" .
  let ?s = "s'\<lparr>cb_buf := mem_write (cb_buf s') (length c) (replicate n 0),
                cb_chain := ch @ [child_at (length c) (Fixed n)]\<rparr>"
  have "cbb_add_length_prefixed al s (length ch) n = (True, ?s)"
    using h s' cbb_holds_len [OF h] by (simp add: cbb_add_length_prefixed_def child_at_def)
  moreover have "cbb_holds ?s (c @ replicate n 0) (ch @ [child_at (length c) (Fixed n)])"
    using s' take_mem_write [of "length c" "replicate n 0" "cb_buf s'"] by (simp add: cbb_holds_def)
  moreover have "ample al ?s N" using s' by (simp add: ample_def)
  ultimately show ?thesis by blast
qed

section \<open>The builder as an abstract machine\<close>

text \<open>
  The abstract state is the bytes of the top-level \<open>CBB\<close> and, for each open child, the kind of its
  prefix and its bytes. Flushing at a depth turns the deeper children into encoded bytes.
\<close>

type_synonym cbb_abs = "byte list \<times> frame list"

fun a_put :: "cbb_abs \<Rightarrow> byte list \<Rightarrow> cbb_abs" where
  "a_put (root, fs) x =
     (if fs = [] then (root @ x, [])
      else (root, butlast fs @ [(fst (last fs), snd (last fs) @ x)]))"

fun a_flush :: "nat \<Rightarrow> cbb_abs \<Rightarrow> cbb_abs" where
  "a_flush d (root, fs) = a_put (root, take d fs) (fold_frames (drop d fs))"

fun a_open :: "cbb_abs \<Rightarrow> prefix_kind \<Rightarrow> cbb_abs" where
  "a_open (root, fs) k = (root, fs @ [(k, [])])"

datatype cbb_op =
  OpFlush nat
| OpBytes nat "byte list"
| OpU8 nat byte
| OpPrefixed nat nat
| OpAsn1 nat u32

fun op_depth :: "cbb_op \<Rightarrow> nat" where
  "op_depth (OpFlush d) = d"
| "op_depth (OpBytes d x) = d"
| "op_depth (OpU8 d b) = d"
| "op_depth (OpPrefixed d n) = d"
| "op_depth (OpAsn1 d t) = d"

fun run_op :: "allocator \<Rightarrow> CBB \<Rightarrow> cbb_op \<Rightarrow> cbb_outcome" where
  "run_op al s (OpFlush d) = CBB_flush al s d"
| "run_op al s (OpBytes d x) = CBB_add_bytes al s d x"
| "run_op al s (OpU8 d b) = CBB_add_u8 al s d b"
| "run_op al s (OpPrefixed d n) = cbb_add_length_prefixed al s d n"
| "run_op al s (OpAsn1 d t) = CBB_add_asn1 al s d t"

fun a_step :: "cbb_op \<Rightarrow> cbb_abs \<Rightarrow> cbb_abs" where
  "a_step (OpFlush d) a = a_flush d a"
| "a_step (OpBytes d x) a = a_put (a_flush d a) x"
| "a_step (OpU8 d b) a = a_put (a_flush d a) [b]"
| "a_step (OpPrefixed d n) a = a_open (a_flush d a) (Fixed n)"
| "a_step (OpAsn1 d t) a = a_open (a_put (a_flush d a) (der_tag t)) Asn1"

definition a_size :: "cbb_abs \<Rightarrow> nat" where
  "a_size a = length (fst a @ flat (snd a))"

definition a_ok :: "nat \<Rightarrow> cbb_op \<Rightarrow> cbb_abs \<Rightarrow> bool" where
  "a_ok N op a \<longleftrightarrow> op_depth op \<le> length (snd a) \<and> fold_ok (drop (op_depth op) (snd a)) \<and>
     a_size (a_step op a) \<le> N"

fun cbb_sim :: "CBB \<Rightarrow> cbb_abs \<Rightarrow> bool" where
  "cbb_sim s (root, fs) = cbb_holds s (root @ flat fs) (layout (length root) fs)"

lemma flat_append: "flat (fs @ gs) = flat fs @ flat gs"
  by (induction fs rule: flat.induct) auto

lemma layout_append: "layout off (fs @ gs) = layout off fs @ layout (off + length (flat fs)) gs"
  by (induction fs arbitrary: off rule: flat.induct) (auto simp: add.assoc)

lemma length_layout [simp]: "length (layout off fs) = length fs"
  by (induction fs arbitrary: off rule: flat.induct) auto

lemma a_put_flat:
  assumes "a_put (root, fs) x = (root', fs')"
  shows "root' @ flat fs' = root @ flat fs @ x" and "layout (length root') fs' = layout (length root) fs"
    and "length fs' = length fs"
proof -
  have "root' @ flat fs' = root @ flat fs @ x \<and> layout (length root') fs' = layout (length root) fs \<and> length fs' = length fs"
  proof (cases fs rule: rev_cases)
    case (snoc gs f)
    then show ?thesis using assms by (cases f) (auto simp: flat_append layout_append)
  qed (use assms in auto)
  then show "root' @ flat fs' = root @ flat fs @ x" and "layout (length root') fs' = layout (length root) fs"
    and "length fs' = length fs" by auto
qed

lemma sim_iff_put:
  "cbb_sim s (a_put (root, fs) x) \<longleftrightarrow> cbb_holds s (root @ flat fs @ x) (layout (length root) fs)"
  using a_put_flat by (cases "a_put (root, fs) x") (metis cbb_sim.simps)

lemma sim_iff_open:
  "cbb_sim s (a_open (a_put (root, fs) x) k) \<longleftrightarrow>
   cbb_holds s (root @ flat fs @ x @ replicate (plen k) 0)
     (layout (length root) fs @ [child_at (length (root @ flat fs @ x)) k])"
proof -
  obtain root' fs' where p: "a_put (root, fs) x = (root', fs')" by fastforce
  from a_put_flat [OF p] have "length (root' @ flat fs') = length (root @ flat fs @ x)" by simp
  with a_put_flat [OF p] show ?thesis
    unfolding p by (simp add: flat_append layout_append) (metis append.assoc length_append)
qed

lemma a_put_put: "a_put (a_put a x) y = a_put a (x @ y)"
  by (cases a) (auto simp: butlast_append)

lemma flush_sim:
  assumes "cbb_sim s (root, fs)" and "d \<le> length fs" and "fold_ok (drop d fs)" and "ample al s N"
    and "length (root @ flat (take d fs) @ fold_frames (drop d fs)) \<le> N"
  shows "\<exists>s'. CBB_flush al s d = (True, s') \<and>
    cbb_holds s' (root @ flat (take d fs) @ fold_frames (drop d fs)) (layout (length root) (take d fs)) \<and> ample al s' N"
proof -
  let ?c = "root @ flat (take d fs)" and ?ch = "layout (length root) (take d fs)"
  have "cbb_holds s (?c @ flat (drop d fs)) (?ch @ layout (length ?c) (drop d fs))"
    using assms(1) by (simp flip: flat_append layout_append)
  from flush_ok [OF this assms(3,4)] assms(2,5) show ?thesis by simp
qed

lemma a_size_put: "a_size (a_put (root, fs) x) = length (root @ flat fs @ x)"
  using a_put_flat(1) by (cases "a_put (root, fs) x") (metis a_size_def fst_conv snd_conv)

lemma a_size_open: "a_size (a_open a k) = a_size a + plen k"
  by (cases a) (simp add: a_size_def flat_append)

lemma sim_step:
  assumes "cbb_sim s a" and "a_ok N op a" and N: "ample al s N"
  shows "\<exists>s'. run_op al s op = (True, s') \<and> cbb_sim s' (a_step op a) \<and> ample al s' N"
proof -
  obtain root fs where a: "a = (root, fs)" by fastforce
  let ?d = "op_depth op"
  let ?fs = "take ?d fs" and ?x = "fold_frames (drop ?d fs)"
  let ?c = "root @ flat ?fs @ ?x" and ?ch = "layout (length root) ?fs"
  have ok: "?d \<le> length fs" "fold_ok (drop ?d fs)" "a_size (a_step op a) \<le> N"
    using assms(2) by (simp_all add: a_ok_def a)
  then have d: "length ?ch = ?d" by simp
  have "length ?c \<le> N"
    using ok(3) by (cases op) (simp_all add: a a_size_put a_size_open a_put_put del: a_put.simps)
  with flush_sim [OF _ ok(1,2) N] assms(1) a obtain s1
    where s1: "CBB_flush al s ?d = (True, s1)" "cbb_holds s1 ?c ?ch" "ample al s1 N" by auto
  have "CBB_flush al s (length ?ch) = (True, s1)" by (simp only: d s1(1))
  note first = flush_first [OF this s1(2)]
  note size = ok(3) [unfolded a]
  show ?thesis
  proof (cases op)
    case (OpFlush d')
    then show ?thesis using s1 a by (auto simp: sim_iff_put simp del: a_put.simps)
  next
    case (OpBytes d' x)
    have "length ?c + length x \<le> N"
      using size OpBytes by (simp add: a_size_put a_put_put del: a_put.simps)
    from add_bytes_ok [OF s1(2,3) this] obtain s2 where "CBB_add_bytes al s1 (length ?ch) x = (True, s2)"
      "cbb_holds s2 (?c @ x) ?ch" "ample al s2 N" .
    then show ?thesis using OpBytes first(1) [of x] d a
      by (auto simp: sim_iff_put a_put_put simp del: a_put.simps)
  next
    case (OpU8 d' b)
    have "length ?c + 1 \<le> N"
      using size OpU8 by (simp add: a_size_put a_put_put del: a_put.simps)
    from add_u8_ok [OF s1(2,3) this, of b] obtain s2 where "CBB_add_u8 al s1 (length ?ch) b = (True, s2)"
      "cbb_holds s2 (?c @ [b]) ?ch" "ample al s2 N" .
    then show ?thesis using OpU8 first(2) [of b] d a
      by (auto simp: sim_iff_put a_put_put simp del: a_put.simps)
  next
    case (OpPrefixed d' n)
    have "length ?c + n \<le> N"
      using size OpPrefixed by (simp add: a_size_put a_size_open a_put_put del: a_put.simps)
    from add_length_prefixed_ok [OF s1(2,3) this] show ?thesis using OpPrefixed first(4) [of n] d a
      by (auto simp: sim_iff_open a_put_put simp del: a_put.simps a_open.simps)
  next
    case (OpAsn1 d' t)
    have "length ?c + length (der_tag t) + 1 \<le> N"
      using size OpAsn1 by (simp add: a_size_put a_size_open a_put_put del: a_put.simps)
    from add_asn1_ok [OF s1(2,3) this] show ?thesis using OpAsn1 first(3) [of t] d a
      by (auto simp: sim_iff_open a_put_put simp del: a_put.simps a_open.simps)
  qed
qed

fun run_ops :: "allocator \<Rightarrow> CBB \<Rightarrow> cbb_op list \<Rightarrow> cbb_outcome" where
  "run_ops al s [] = (True, s)"
| "run_ops al s (op # ops) = cbb_and (run_op al s op) (\<lambda>s. run_ops al s ops)"

fun a_run :: "cbb_op list \<Rightarrow> cbb_abs \<Rightarrow> cbb_abs" where
  "a_run [] a = a"
| "a_run (op # ops) a = a_run ops (a_step op a)"

fun a_oks :: "nat \<Rightarrow> cbb_op list \<Rightarrow> cbb_abs \<Rightarrow> bool" where
  "a_oks N [] a = True"
| "a_oks N (op # ops) a = (a_ok N op a \<and> a_oks N ops (a_step op a))"

fun a_output :: "cbb_abs \<Rightarrow> byte list" where
  "a_output (root, fs) = root @ fold_frames fs"

lemma sim_run:
  "cbb_sim s a \<Longrightarrow> a_oks N ops a \<Longrightarrow> ample al s N \<Longrightarrow>
   \<exists>s'. run_ops al s ops = (True, s') \<and> cbb_sim s' (a_run ops a) \<and> ample al s' N"
proof (induction ops arbitrary: s a)
  case (Cons op ops)
  from Cons.prems sim_step [of s a N op al] obtain s1 where "run_op al s op = (True, s1)"
    "cbb_sim s1 (a_step op a)" "ample al s1 N" by auto
  then show ?case using Cons.IH [of s1 "a_step op a"] Cons.prems by simp
qed simp

lemma sim_init:
  assumes "alloc_spec al" and "n < SIZE_BOUND" and "CBB_init al n = Some s"
  shows "cbb_sim s ([], [])" and "cb_can_resize s" and "cb_cap s = n"
proof -
  from assms(3) obtain buf where "s = \<lparr>cb_buf = buf, cb_len = 0, cb_cap = n, cb_can_resize = True, cb_error = False, cb_chain = []\<rparr>"
    and "OPENSSL_malloc al n = Some buf \<or> n = 0 \<and> buf = []"
    by (auto simp: CBB_init_def cbb_init_def split: option.splits if_splits)
  then show "cbb_sim s ([], [])" and "cb_can_resize s" and "cb_cap s = n"
    using malloc_length [OF assms(1) _ assms(2)] assms(2) by (auto simp: cbb_holds_def)
qed

lemma sim_init_fixed:
  assumes "length buf < SIZE_BOUND" and "CBB_init_fixed al buf (length buf) = Some s"
  shows "cbb_sim s ([], [])" and "cb_cap s = length buf"
  using assms by (auto simp: CBB_init_fixed_def cbb_init_def cbb_holds_def split: option.splits)

lemma finish_ok:
  assumes "cbb_sim s (root, fs)" and "fold_ok fs" and "ample al s N" and "length (a_output (root, fs)) \<le> N"
  shows "\<exists>buf. CBB_finish al s 0 = Inr (buf, length (a_output (root, fs))) \<and>
    take (length (a_output (root, fs))) buf = a_output (root, fs)"
proof -
  obtain s' where s': "CBB_flush al s 0 = (True, s')" "cbb_holds s' (root @ fold_frames fs) []"
    using flush_sim [OF assms(1) _ _ assms(3), of 0] assms(2,4) by auto
  have "cb_len s' = length (root @ fold_frames fs)" by (rule cbb_holds_len [OF s'(2)])
  then show ?thesis using s' by (auto simp: CBB_finish_def cbb_holds_def)
qed

text \<open>A child opened with \<open>CBB_add_asn1\<close>, filled and flushed appends one DER element.\<close>

lemma close_asn1_ok:
  assumes h: "cbb_holds s (c @ der_tag t @ 0 # body) (ch @ [child_at (length (c @ der_tag t)) Asn1])"
    and N: "ample al s N" "length (c @ der_tlv t body) \<le> N" and len: "length body \<le> 0xfffffffe"
  shows "\<exists>s'. CBB_flush al s (length ch) = (True, s') \<and> cbb_holds s' (c @ der_tlv t body) ch \<and> ample al s' N"
  using flush_ok [of s "c @ der_tag t" "[(Asn1, body)]" ch al N] assms by (simp add: der_tlv_def)

text \<open>
  The three steps of every \<open>CBB_add_asn1_\<dots>\<close> function: open a child, write its contents, flush the
  parent. They append one element, whatever writes the contents.
\<close>

lemma element_ok:
  assumes h: "cbb_holds s c ch" and N: "ample al s N" "length (c @ der_tlv t body) \<le> N"
    and len: "length body \<le> 0xfffffffe"
    and w: "\<And>s1 c1 ch1. cbb_holds s1 c1 ch1 \<Longrightarrow> ample al s1 N \<Longrightarrow> length (c1 @ body) \<le> N \<Longrightarrow>
      \<exists>s2. w s1 (length ch1) = (True, s2) \<and> cbb_holds s2 (c1 @ body) ch1 \<and> ample al s2 N"
  shows "\<exists>s'. cbb_and (CBB_add_asn1 al s (length ch) t)
      (\<lambda>s1. cbb_and (w s1 (Suc (length ch))) (\<lambda>s2. CBB_flush al s2 (length ch))) = (True, s') \<and>
    cbb_holds s' (c @ der_tlv t body) ch \<and> ample al s' N"
proof -
  let ?ch = "ch @ [child_at (length (c @ der_tag t)) Asn1]"
  have room: "length c + length (der_tag t) + 1 + length body \<le> N"
    using N(2) der_len_nonempty [of "length body"] by (simp add: der_tlv_def del: length_greater_0_conv)
  obtain s1 where s1: "CBB_add_asn1 al s (length ch) t = (True, s1)"
    "cbb_holds s1 (c @ der_tag t @ [0]) ?ch" "ample al s1 N"
    using add_asn1_ok [OF h N(1), of t] room by auto
  obtain s2 where s2: "w s1 (Suc (length ch)) = (True, s2)"
    "cbb_holds s2 (c @ der_tag t @ 0 # body) ?ch" "ample al s2 N"
    using w [OF s1(2,3)] room by auto
  from close_asn1_ok [OF s2(2,3) N(2) len] s1(1) s2(1) show ?thesis by auto
qed

lemma close_prefixed_ok:
  assumes h: "cbb_holds s (c @ replicate n 0 @ body) (ch @ [child_at (length c) (Fixed n)])"
    and N: "ample al s N" "length c + n + length body \<le> N" and len: "frame_ok (Fixed n) body"
  shows "\<exists>s'. CBB_flush al s (length ch) = (True, s') \<and>
    cbb_holds s' (c @ be_bytes n (length body) @ body) ch \<and> ample al s' N"
  using flush_ok [of s c "[(Fixed n, body)]" ch al N] assms by simp

end
