(* ===== verification/DerInt.thy ===== *)
theory DerInt
  imports Der
begin

text \<open>
  INTEGER and BOOLEAN elements. \<open>der_int i\<close> is the shortest two's-complement big-endian encoding of
  \<open>i\<close>, of any size; the reader's validity check accepts exactly these, and the 64-bit readers
  accept exactly the ones whose value fits, with that value.
\<close>

section \<open>Two's-complement contents octets\<close>

text \<open>The magnitude that decides how many octets a two's-complement number needs.\<close>

definition int_mag :: "int \<Rightarrow> nat" where
  "int_mag i = (if 0 \<le> i then nat i else nat (- i - 1))"

definition int_width :: "int \<Rightarrow> nat" where
  "int_width i = max 1 (nbytes (2 * int_mag i))"

definition der_int :: "int \<Rightarrow> byte list" where
  "der_int i = be_bytes (int_width i) (nat (i mod 256 ^ int_width i))"

definition sval :: "byte list \<Rightarrow> int" where
  "sval bs = (if 2 * be_val bs < 256 ^ length bs then int (be_val bs)
              else int (be_val bs) - 256 ^ length bs)"

definition int_minimal :: "nat \<Rightarrow> nat \<Rightarrow> bool" where
  "int_minimal n v \<longleftrightarrow> n = 1 \<or> (128 * 256 ^ (n - 2) \<le> v \<and> v + 128 * 256 ^ (n - 2) < 256 ^ n)"

lemma int_width_le_iff: "int_width i \<le> k \<longleftrightarrow> 1 \<le> k \<and> 2 * int_mag i < 256 ^ k"
  by (auto simp: int_width_def nbytes_le_iff)

lemma int_width_pos: "1 \<le> int_width i"
  by (simp add: int_width_def)

lemma lead_less_iff: "x < P \<Longrightarrow> q * P + x < k * P \<longleftrightarrow> q < k" for q k x P :: nat
proof
  assume "x < P" "q < k"
  then have "(q + 1) * P \<le> k * P" by (intro mult_le_mono1) simp
  then show "q * P + x < k * P" using \<open>x < P\<close> by (simp add: algebra_simps)
next
  assume "x < P" "q * P + x < k * P"
  then show "q < k" by (metis le_add1 le_trans mult_le_mono1 not_le)
qed

lemma valid_asn1_integer_iff:
  "CBS_is_valid_asn1_integer bs = Some neg \<longleftrightarrow>
   bs \<noteq> [] \<and> int_minimal (length bs) (be_val bs) \<and> (neg \<longleftrightarrow> 256 ^ length bs \<le> 2 * be_val bs)"
proof (cases bs)
  case Nil
  then show ?thesis by (simp add: CBS_is_valid_asn1_integer_def)
next
  case (Cons b1 bs1)
  let ?P1 = "256 ^ length bs1 :: nat"
  have x1: "be_val bs1 < ?P1" by (rule be_val_less)
  have neg: "b1 AND 0x80 \<noteq> 0 \<longleftrightarrow> 256 ^ length bs \<le> 2 * be_val bs"
    using lead_less_iff [OF x1, of "unat b1" 128] Cons by (simp add: and_0x80_eq_0_iff algebra_simps) linarith
  show ?thesis
  proof (cases bs1)
    case Nil
    then show ?thesis using Cons neg by (auto simp: CBS_is_valid_asn1_integer_def int_minimal_def)
  next
    case (Cons b2 bs2)
    let ?P = "256 ^ length bs2 :: nat" and ?q = "unat b1 * 256 + unat b2"
    have x: "be_val bs2 < ?P" by (rule be_val_less)
    have v: "be_val bs = ?q * ?P + be_val bs2" using Cons \<open>bs = b1 # bs1\<close> by (simp add: algebra_simps)
    have b: "b1 = 0 \<longleftrightarrow> unat b1 = 0" "b1 = 0xff \<longleftrightarrow> unat b1 = 255" by (simp_all add: byte_eq_iff)
    have lo: "b1 = 0x00 \<and> b2 AND 0x80 = 0 \<longleftrightarrow> \<not> 128 * ?P \<le> be_val bs"
      unfolding v not_le lead_less_iff [OF x] b and_0x80_eq_0_iff by linarith
    have "?q * ?P + be_val bs2 < 65408 * ?P \<longleftrightarrow> \<not> (b1 = 0xff \<and> b2 AND 0x80 \<noteq> 0)"
      unfolding lead_less_iff [OF x] b and_0x80_eq_0_iff
      using byte_less [of b1] byte_less [of b2] by linarith
    then have hi: "b1 = 0xff \<and> b2 AND 0x80 \<noteq> 0 \<longleftrightarrow> \<not> be_val bs + 128 * ?P < 256 ^ length bs"
      using Cons \<open>bs = b1 # bs1\<close> unfolding v by simp
    show ?thesis
      using Cons \<open>bs = b1 # bs1\<close> lo hi neg
      by (auto simp: CBS_is_valid_asn1_integer_def int_minimal_def)
  qed
qed


lemma be_bytes_mod: "be_bytes n (v mod 256 ^ n) = be_bytes n v"
proof -
  have "be_val (be_bytes n (v mod 256 ^ n)) = be_val (be_bytes n v)" by simp
  then show ?thesis by (rule be_val_inj [rotated]) simp
qed

lemma nat_int_mod:
  assumes "- (256 ^ k) \<le> i" and "i < 256 ^ k"
  shows "int (nat (i mod 256 ^ k)) = (if 0 \<le> i then i else i + 256 ^ k)"
proof (cases "0 \<le> i")
  case False
  have "i mod 256 ^ k = (i + 256 ^ k) mod 256 ^ k" by simp
  also have "\<dots> = i + 256 ^ k" using assms False by (intro mod_pos_pos_trivial) auto
  finally show ?thesis using assms False by simp
qed (use assms in simp)

lemma power_256_half: "1 \<le> n \<Longrightarrow> 256 ^ n = 2 * (128 * 256 ^ (n - 1) :: 'a::comm_semiring_1)"
  by (cases n) simp_all

lemma int_width_bounds:
  assumes "int_width i \<le> k"
  shows "- (256 ^ k) \<le> 2 * i" and "2 * i < 256 ^ k"
proof -
  have k: "1 \<le> k" "2 * int_mag i < 256 ^ k" using assms unfolding int_width_le_iff by auto
  then have "int_mag i < 128 * 256 ^ (k - 1)" using power_256_half [OF k(1), where 'a = nat] by simp
  then have "int (int_mag i) < 128 * 256 ^ (k - 1)"
    by (metis of_nat_less_iff of_nat_mult of_nat_numeral of_nat_power)
  then show "- (256 ^ k) \<le> 2 * i" and "2 * i < 256 ^ k"
    unfolding power_256_half [OF k(1)] by (auto simp: int_mag_def split: if_splits)
qed

lemma be_val_der_int:
  "int (be_val (der_int i)) = (if 0 \<le> i then i else i + 256 ^ int_width i)"
proof -
  let ?k = "int_width i"
  have b: "- (256 ^ ?k) \<le> 2 * i" "2 * i < 256 ^ ?k" using int_width_bounds [of i ?k] by auto
  have pos: "(0 :: int) < 256 ^ ?k" by simp
  have n: "int (nat (i mod 256 ^ ?k)) = (if 0 \<le> i then i else i + 256 ^ ?k)"
    by (rule nat_int_mod) (use b pos in linarith)+
  have "nat (i mod 256 ^ ?k) < 256 ^ ?k"
    by (metis nat_less_iff of_nat_numeral of_nat_power pos pos_mod_bound pos_mod_sign)
  then show ?thesis using n by (simp only: der_int_def be_val_be_bytes mod_less)
qed

lemma length_der_int [simp]: "length (der_int i) = int_width i"
  by (simp add: der_int_def)

lemma sval_der_int: "sval (der_int i) = i"
proof -
  let ?k = "int_width i"
  have b: "- (256 ^ ?k) \<le> 2 * i" "2 * i < 256 ^ ?k" using int_width_bounds [of i ?k] by auto
  have "2 * be_val (der_int i) < 256 ^ ?k \<longleftrightarrow> 2 * int (be_val (der_int i)) < 256 ^ ?k"
    by (metis of_nat_less_iff of_nat_mult of_nat_numeral of_nat_power)
  also have "\<dots> \<longleftrightarrow> 0 \<le> i" using b be_val_der_int [of i] by auto
  finally show ?thesis using be_val_der_int [of i] by (simp add: sval_def)
qed

lemma der_int_minimal: "int_minimal (int_width i) (be_val (der_int i))"
proof (cases "int_width i = 1")
  case False
  let ?k = "int_width i"
  have k: "2 \<le> ?k" using False int_width_pos [of i] by simp
  have "\<not> ?k \<le> ?k - 1" using k by simp
  then have "256 ^ (?k - 1) \<le> 2 * int_mag i" using k unfolding int_width_le_iff by linarith
  then have m: "128 * 256 ^ (?k - 2) \<le> int_mag i" using k power_256_half [of "?k - 1", where 'a = nat] by (simp add: numeral_2_eq_2)
  have b: "- (256 ^ ?k) \<le> 2 * i" "2 * i < 256 ^ ?k" using int_width_bounds [of i ?k] by auto
  have P: "(256 :: int) ^ ?k = 65536 * 256 ^ (?k - 2)"
  proof -
    have "(256 :: int) ^ (2 + (?k - 2)) = 65536 * 256 ^ (?k - 2)" by (simp add: power_add)
    then show ?thesis using k by (simp only: le_add_diff_inverse)
  qed
  have "int (128 * 256 ^ (?k - 2)) \<le> int (be_val (der_int i)) \<and>
      int (be_val (der_int i)) + int (128 * 256 ^ (?k - 2)) < 256 ^ ?k"
  proof (cases "0 \<le> i")
    case True
    then have "int (128 * 256 ^ (?k - 2)) \<le> i" using m by (simp add: int_mag_def le_nat_iff)
    moreover have "0 < (256 :: int) ^ (?k - 2)" by simp
    ultimately show ?thesis using True b P be_val_der_int [of i] by simp
  next
    case neg: False
    then have "int (128 * 256 ^ (?k - 2)) \<le> - i - 1" using m by (simp add: int_mag_def le_nat_iff)
    moreover have "0 < (256 :: int) ^ (?k - 2)" by simp
    ultimately show ?thesis using neg b P be_val_der_int [of i] by simp
  qed
  then have "128 * 256 ^ (?k - 2) \<le> be_val (der_int i) \<and> be_val (der_int i) + 128 * 256 ^ (?k - 2) < 256 ^ ?k"
    by (metis of_nat_add of_nat_le_iff of_nat_less_iff of_nat_numeral of_nat_power)
  then show ?thesis by (simp add: int_minimal_def)
qed (simp add: int_minimal_def)

lemma der_int_sval:
  assumes "bs \<noteq> []" and min: "int_minimal (length bs) (be_val bs)"
  shows "der_int (sval bs) = bs"
proof -
  let ?n = "length bs" and ?v = "be_val bs"
  have n: "1 \<le> ?n" using assms(1) by (simp add: Suc_leI)
  have v: "?v < 256 ^ ?n" by (rule be_val_less)
  have P: "int (256 ^ ?n) = 256 ^ ?n" by simp
  have mag: "int_mag (sval bs) = (if 2 * ?v < 256 ^ ?n then ?v else 256 ^ ?n - ?v - 1)"
  proof (cases "2 * ?v < 256 ^ ?n")
    case False
    define Q :: nat where "Q = 256 ^ ?n"
    have "sval bs = int ?v - int Q" using False by (simp add: sval_def Q_def)
    moreover have "?v < Q" "\<not> 2 * ?v < Q" using v False by (simp_all add: Q_def)
    ultimately show ?thesis unfolding Q_def [symmetric] by (auto simp: int_mag_def)
  qed (simp add: sval_def int_mag_def)
  have "2 * int_mag (sval bs) < 256 ^ ?n"
    using v mag power_256_half [OF n, where 'a = nat] by (auto split: if_splits)
  then have "int_width (sval bs) \<le> ?n" using n by (simp add: int_width_le_iff)
  moreover have "\<not> int_width (sval bs) \<le> ?n - 1"
  proof (cases "?n = 1")
    case False
    then have n2: "1 \<le> ?n - 1" using n by simp
    have "128 * 256 ^ (?n - 2) \<le> int_mag (sval bs)"
      using min False mag by (auto simp: int_minimal_def)
    then have "256 ^ (?n - 1) \<le> 2 * int_mag (sval bs)"
      using power_256_half [OF n2, where 'a = nat] by (simp add: numeral_2_eq_2)
    then show ?thesis unfolding int_width_le_iff by linarith
  qed (use int_width_pos [of "sval bs"] in simp)
  ultimately have w: "int_width (sval bs) = ?n" by linarith
  have "nat (sval bs mod 256 ^ ?n) = ?v"
    using v P by (auto simp: sval_def nat_mod_distrib mod_diff_right_eq)
  then show ?thesis using w by (simp add: der_int_def)
qed


lemma sval_neg_iff: "sval bs < 0 \<longleftrightarrow> \<not> 2 * be_val bs < 256 ^ length bs"
proof -
  have "int (be_val bs) < int (256 ^ length bs)" using be_val_less [of bs] by (simp only: of_nat_less_iff)
  then show ?thesis by (simp add: sval_def)
qed

lemma valid_integer_der_int:
  "CBS_is_valid_asn1_integer bs = Some neg \<longleftrightarrow> (\<exists>i. bs = der_int i \<and> (neg \<longleftrightarrow> i < 0))"
proof
  assume "CBS_is_valid_asn1_integer bs = Some neg"
  then have v: "bs \<noteq> []" "int_minimal (length bs) (be_val bs)" "neg \<longleftrightarrow> 256 ^ length bs \<le> 2 * be_val bs"
    by (simp_all add: valid_asn1_integer_iff)
  have "sval bs < 0 \<longleftrightarrow> neg" using v(3) by (simp add: sval_neg_iff not_less)
  then show "\<exists>i. bs = der_int i \<and> (neg \<longleftrightarrow> i < 0)" using der_int_sval [OF v(1,2)] by metis
next
  assume "\<exists>i. bs = der_int i \<and> (neg \<longleftrightarrow> i < 0)"
  then obtain i where i: "bs = der_int i" "neg \<longleftrightarrow> i < 0" by blast
  have "length bs \<noteq> 0" using i int_width_pos [of i] by simp
  then have "bs \<noteq> []" by simp
  moreover have "neg \<longleftrightarrow> 256 ^ length bs \<le> 2 * be_val bs"
  proof -
    have "256 ^ length bs \<le> 2 * be_val bs \<longleftrightarrow> 256 ^ int_width i \<le> 2 * int (be_val (der_int i))"
      unfolding i by (metis length_der_int of_nat_le_iff of_nat_mult of_nat_numeral of_nat_power)
    then show ?thesis
      using i(2) int_width_bounds [of i "int_width i"] be_val_der_int [of i] by auto
  qed
  ultimately show "CBS_is_valid_asn1_integer bs = Some neg"
    using der_int_minimal [of i] i by (simp add: valid_asn1_integer_iff)
qed

lemma unsigned_integer_der_int: "CBS_is_unsigned_asn1_integer bs \<longleftrightarrow> (\<exists>i \<ge> 0. bs = der_int i)"
proof -
  have "CBS_is_unsigned_asn1_integer bs \<longleftrightarrow> CBS_is_valid_asn1_integer bs = Some False"
    by (auto simp: CBS_is_unsigned_asn1_integer_def split: option.splits)
  then show ?thesis unfolding valid_integer_der_int by (auto simp: not_less)
qed

lemma asn1_uint64_loop_eq:
  "asn1_uint64_loop out bs =
     (let v = unat out * 256 ^ length bs + be_val bs in if v < 2 ^ 64 then Some (word_of_nat v) else None)"
proof (induction bs arbitrary: out)
  case Nil
  then show ?case using unat_less_power [of out] by simp
next
  case (Cons b bs)
  show ?case
  proof (cases "unat out < 2 ^ 56")
    case True
    have "push_bit 8 out OR ucast b = word_of_nat (unat out * 256 + unat b)"
      by (simp add: push_byte_or_add)
    moreover have "unat out * 256 + unat b < 2 ^ 64" using True byte_less [of b] by (simp del: byte_less)
    ultimately have u: "unat (push_bit 8 out OR ucast b) = unat out * 256 + unat b"
      by (simp add: u64_word_of_nat del: of_nat_add of_nat_mult)
    have "asn1_uint64_loop out (b # bs) = asn1_uint64_loop (push_bit 8 out OR ucast b) bs"
      using True by (simp add: drop_bit_eq_0_iff)
    also have "\<dots> = (let v = unat out * 256 ^ length (b # bs) + be_val (b # bs)
        in if v < 2 ^ 64 then Some (word_of_nat v) else None)"
      unfolding Cons.IH u by (simp add: algebra_simps del: of_nat_add of_nat_mult)
    finally show ?thesis .
  next
    case False
    have "2 ^ 56 * 1 \<le> unat out * 256 ^ length bs" using False by (intro mult_le_mono) simp_all
    then have "2 ^ 64 \<le> unat out * 256 ^ Suc (length bs)" by simp
    then show ?thesis using False by (simp add: drop_bit_eq_0_iff Let_def)
  qed
qed

lemma get_uint64_iff:
  "CBS_get_asn1_uint64 cbs = Some (v, rest) \<longleftrightarrow>
   cbs = der_tlv CBS_ASN1_INTEGER (der_int (int (unat v))) @ rest"
proof
  assume "CBS_get_asn1_uint64 cbs = Some (v, rest)"
  then obtain bs where cbs: "cbs = der_tlv CBS_ASN1_INTEGER bs @ rest"
    and u: "CBS_is_unsigned_asn1_integer bs" and l: "asn1_uint64_loop 0 bs = Some v"
    by (auto simp: CBS_get_asn1_uint64_def get_asn1_iff split: option.splits if_splits)
  from u obtain i where i: "0 \<le> i" "bs = der_int i" by (auto simp: unsigned_integer_der_int)
  from l have "unat v = be_val bs"
    by (auto simp: asn1_uint64_loop_eq Let_def u64_word_of_nat split: if_splits)
  then show "cbs = der_tlv CBS_ASN1_INTEGER (der_int (int (unat v))) @ rest"
    using be_val_der_int [of i] i cbs by simp
next
  assume cbs: "cbs = der_tlv CBS_ASN1_INTEGER (der_int (int (unat v))) @ rest"
  let ?bs = "der_int (int (unat v))"
  have v: "unat v < 2 ^ 64" using unat_less_power [of v] by simp
  have "int_width (int (unat v)) \<le> 9" using v by (simp add: int_width_le_iff int_mag_def)
  then have "CBS_get_asn1 cbs CBS_ASN1_INTEGER = Some (?bs, rest)" using cbs by (simp add: get_asn1_iff)
  moreover have "CBS_is_unsigned_asn1_integer ?bs" unfolding unsigned_integer_der_int by force
  moreover have "be_val ?bs = unat v"
    using be_val_der_int [of "int (unat v)"] by (simp only: of_nat_0_le_iff if_True of_nat_eq_iff)
  ultimately show "CBS_get_asn1_uint64 cbs = Some (v, rest)"
    using v by (simp add: CBS_get_asn1_uint64_def asn1_uint64_loop_eq)
qed


lemma union_loop_eq:
  assumes "length data \<le> length u"
  shows "i + n = length data \<Longrightarrow> take i u = take i (rev data) \<Longrightarrow>
    int64_union_loop u data i n = rev data @ drop (length data) u"
  using assms
proof (induction n arbitrary: u i)
  case 0
  then have "take (length data) u = rev data" by simp
  then show ?case using append_take_drop_id [of "length data" u] by simp
next
  case (Suc n)
  let ?u = "u [i := data ! (length data - i - 1)]"
  have i: "i < length data" using Suc.prems(1) by simp
  then have "data ! (length data - i - 1) = rev data ! i" by (simp add: rev_nth)
  then have "take (Suc i) ?u = take (Suc i) (rev data)"
    using i Suc.prems by (simp add: take_Suc_conv_app_nth)
  moreover have "drop (length data) ?u = drop (length data) u" using i by simp
  ultimately show ?case using Suc.IH [of "Suc i" ?u] Suc.prems by simp
qed

lemma sint_word_of_nat:
  assumes "v < 2 ^ 64"
  shows "sint (word_of_nat v :: 64 word) = (if v < 2 ^ 63 then int v else int v - 2 ^ 64)"
proof -
  have "sint (word_of_int (int v) :: 64 word) = (int v + 2 ^ 63) mod 2 ^ 64 - 2 ^ 63"
    by (subst int_word_sint) simp
  moreover have "(int v + 2 ^ 63) mod 2 ^ 64 = (if v < 2 ^ 63 then int v + 2 ^ 63 else int v - 2 ^ 63)"
  proof (cases "v < 2 ^ 63")
    case False
    have "(int v + 2 ^ 63) mod 2 ^ 64 = (int v - 2 ^ 63 + 2 ^ 64) mod 2 ^ 64"
      by (simp add: add.commute)
    also have "\<dots> = int v - 2 ^ 63"
      using False assms by (subst mod_add_self2) (intro mod_pos_pos_trivial, auto)
    finally show ?thesis using False by simp
  qed simp
  ultimately show ?thesis by auto
qed

lemma be_val_pad_zero: "be_val (replicate k 0 @ bs) = be_val bs"
  by (induction k) simp_all

lemma be_val_pad_ones: "be_val (replicate k 0xff @ bs) + 256 ^ length bs = 256 ^ (k + length bs) + be_val bs"
  by (induction k) (simp_all add: power_add)

lemma int64_of_union_sval:
  assumes "bs \<noteq> []" and "length bs \<le> 8" and neg: "neg \<longleftrightarrow> \<not> 2 * be_val bs < 256 ^ length bs"
  shows "int64_of_union (rev bs @ drop (length bs) (replicate 8 (if neg then 0xff else 0))) = sval bs"
proof -
  let ?n = "length bs" and ?k = "8 - length bs"
  have le: "(256 :: nat) ^ ?n \<le> 2 ^ 64"
    using power_increasing [OF assms(2), of "256 :: nat"] by simp
  show ?thesis
  proof (cases neg)
    case True
    have sum: "be_val (replicate ?k 0xff @ bs) + 256 ^ ?n = 2 ^ 64 + be_val bs"
      using be_val_pad_ones [of ?k bs] assms(2) by simp
    have v: "be_val bs < 256 ^ ?n" by (rule be_val_less)
    have "be_val (replicate ?k 0xff @ bs) < 2 ^ 64" using sum v by linarith
    moreover have "2 ^ 64 \<le> 2 * be_val (replicate ?k 0xff @ bs)"
      using sum le neg True by linarith
    then have "\<not> be_val (replicate ?k 0xff @ bs) < 2 ^ 63" by simp
    ultimately have "int64_of_union (rev bs @ replicate ?k 0xff) = int (be_val (replicate ?k 0xff @ bs)) - 2 ^ 64"
      by (simp add: int64_of_union_def sint_word_of_nat)
    also have "\<dots> = sval bs"
    proof -
      have "int (be_val (replicate ?k 0xff @ bs)) + 256 ^ ?n = 2 ^ 64 + int (be_val bs)"
        using arg_cong [OF sum, of int] by simp
      then show ?thesis using neg True by (simp add: sval_def)
    qed
    finally show ?thesis using True by simp
  next
    case False
    then have "be_val bs < 2 ^ 63" using neg le by simp
    then have "int64_of_union (rev bs @ replicate ?k 0) = int (be_val bs)"
      by (simp add: int64_of_union_def sint_word_of_nat be_val_pad_zero)
    then show ?thesis using False neg by (simp add: sval_def)
  qed
qed

lemma get_int64_iff:
  "CBS_get_asn1_int64 cbs = Some (i, rest) \<longleftrightarrow>
   - (2 ^ 63) \<le> i \<and> i < 2 ^ 63 \<and> cbs = der_tlv CBS_ASN1_INTEGER (der_int i) @ rest"
proof -
  have range: "int_width i \<le> 8 \<longleftrightarrow> - (2 ^ 63) \<le> i \<and> i < 2 ^ 63" for i
    by (auto simp: int_width_le_iff int_mag_def)
  have conv: "int64_of_union (int64_union_loop (replicate 8 (if j < 0 then 0xff else 0)) (der_int j) 0 (length (der_int j))) = j"
    if "int_width j \<le> 8" for j
  proof -
    have ne: "der_int j \<noteq> []" using int_width_pos [of j] by (metis length_der_int list.size(3) not_one_le_zero)
    have "j < 0 \<longleftrightarrow> \<not> 2 * be_val (der_int j) < 256 ^ length (der_int j)"
      using sval_neg_iff [of "der_int j"] by (simp only: sval_der_int)
    from int64_of_union_sval [OF ne _ this] that show ?thesis
      by (simp add: union_loop_eq sval_der_int)
  qed
  show ?thesis
  proof
    assume "CBS_get_asn1_int64 cbs = Some (i, rest)"
    then obtain bs neg where cbs: "cbs = der_tlv CBS_ASN1_INTEGER bs @ rest"
      and v: "CBS_is_valid_asn1_integer bs = Some neg" and len: "length bs \<le> 8"
      and i: "i = int64_of_union (int64_union_loop (replicate 8 (if neg then 0xff else 0)) bs 0 (length bs))"
      by (auto simp: CBS_get_asn1_int64_def get_asn1_iff Let_def split: option.splits if_splits)
    from v obtain j where j: "bs = der_int j" "neg \<longleftrightarrow> j < 0" unfolding valid_integer_der_int by blast
    then have "i = j" using i conv [of j] len by simp
    then show "- (2 ^ 63) \<le> i \<and> i < 2 ^ 63 \<and> cbs = der_tlv CBS_ASN1_INTEGER (der_int i) @ rest"
      using cbs j len range [of j] by simp
  next
    assume a: "- (2 ^ 63) \<le> i \<and> i < 2 ^ 63 \<and> cbs = der_tlv CBS_ASN1_INTEGER (der_int i) @ rest"
    then have w: "int_width i \<le> 8" using range by blast
    have "CBS_get_asn1 cbs CBS_ASN1_INTEGER = Some (der_int i, rest)"
      using a w by (simp add: get_asn1_iff)
    moreover have "CBS_is_valid_asn1_integer (der_int i) = Some (i < 0)"
      unfolding valid_integer_der_int by blast
    ultimately show "CBS_get_asn1_int64 cbs = Some (i, rest)"
      using w conv [OF w] by (simp add: CBS_get_asn1_int64_def Let_def)
  qed
qed

lemma get_bool_iff:
  "CBS_get_asn1_bool cbs = Some (b, rest) \<longleftrightarrow>
   cbs = der_tlv CBS_ASN1_BOOLEAN [if b then 0xff else 0] @ rest"
proof -
  have "CBS_get_asn1_bool cbs = Some (b, rest) \<longleftrightarrow>
      (\<exists>x. CBS_get_asn1 cbs CBS_ASN1_BOOLEAN = Some ([x], rest) \<and> (x = 0 \<and> \<not> b \<or> x = 0xff \<and> b))"
    by (auto simp: CBS_get_asn1_bool_def Let_def length_Suc_conv split: option.splits if_splits)
  then show ?thesis by (auto simp: get_asn1_iff)
qed

interpretation asn1_uint64: canonical_codec
  "\<lambda>v. der_tlv CBS_ASN1_INTEGER (der_int (int (unat v)))" CBS_get_asn1_uint64 "\<lambda>_. True"
  by unfold_locales (simp_all add: get_uint64_iff)

interpretation asn1_int64: canonical_codec
  "\<lambda>i. der_tlv CBS_ASN1_INTEGER (der_int i)" CBS_get_asn1_int64 "\<lambda>i. - (2 ^ 63) \<le> i \<and> i < 2 ^ 63"
  by unfold_locales (auto simp: get_int64_iff)

interpretation asn1_bool: canonical_codec
  "\<lambda>b. der_tlv CBS_ASN1_BOOLEAN [if b then 0xff else 0]" CBS_get_asn1_bool "\<lambda>_. True"
  by unfold_locales (simp_all add: get_bool_iff)

end
