(* ===== verification/CbbAsn1.thy ===== *)
theory CbbAsn1
  imports CbbSpec DerInt
begin

text \<open>
  The ASN.1 half of the byte-string builder: every \<open>CBB_add_asn1_\<dots>\<close> function appends exactly the
  DER element of its value, so that what it writes is what the reader of \<^verbatim>\<open>cbs.c\<close> accepts.
\<close>

section \<open>INTEGER\<close>

lemma be_bytes_Suc: "be_bytes (Suc n) v = word_of_nat (v div 256 ^ n) # be_bytes n v"
  by (induction n arbitrary: v) (simp_all add: div_mult2_eq)

lemma byte_shift: "ucast (drop_bit (8 * n) v AND 0xff) = (word_of_nat (unat v div 256 ^ n) :: byte)" for v :: u64
proof (rule word_eqI_unat)
  have "unat (drop_bit (8 * n) v AND 0xff) = unat v div 256 ^ n mod 256"
    using unat_and_mask [of "drop_bit (8 * n) v" 8]
    by (simp add: mask_eq_exp_minus_1 unat_drop_bit power_mult)
  then show "unat (ucast (drop_bit (8 * n) v AND 0xff) :: byte) = unat (word_of_nat (unat v div 256 ^ n) :: byte)"
    by (simp only: unat_ucast_mod unat_word_of_nat) simp
qed

lemma rev_be_bytes_nth: "k < n \<Longrightarrow> rev (be_bytes n v) ! k = word_of_nat (v div 256 ^ k)"
proof (induction n arbitrary: k v)
  case (Suc n)
  then show ?case by (cases k) (simp_all add: div_mult2_eq)
qed simp

lemma nat_int_mod_power: "nat (int u mod 256 ^ k) = u mod 256 ^ k"
  by (simp add: nat_mod_distrib nat_power_eq)

lemma der_int_nat: "der_int (int n) = be_bytes (max 1 (nbytes (2 * n))) n"
proof -
  let ?w = "int_width (int n)"
  have w: "?w = max 1 (nbytes (2 * n))" by (simp add: int_width_def int_mag_def)
  show ?thesis unfolding der_int_def nat_int_mod_power be_bytes_mod w ..
qed

lemma write_started_ok:
  assumes "cbb_holds s c ch" and "ample al s N" and "length c + n \<le> N"
  shows "\<exists>s'. asn1_uint64_write_loop al s (length ch) v True n = (True, s') \<and>
    cbb_holds s' (c @ be_bytes n (unat v)) ch \<and> ample al s' N"
  using assms
proof (induction n arbitrary: s c)
  case (Suc n)
  let ?b = "word_of_nat (unat v div 256 ^ n) :: byte"
  obtain s1 where s1: "CBB_add_u8 al s (length ch) ?b = (True, s1)" "cbb_holds s1 (c @ [?b]) ch" "ample al s1 N"
    using add_u8_ok [OF Suc.prems(1,2), of ?b] Suc.prems(3) by auto
  with Suc.IH [OF s1(2,3)] Suc.prems(3) show ?case
    by (simp add: be_bytes_Suc byte_shift Let_def del: be_bytes.simps)
qed simp

lemma write_unstarted_ok:
  assumes "cbb_holds s c ch" and "ample al s N" and "length (c @ der_int (int (unat v))) \<le> N" and "unat v < 256 ^ n"
  shows "\<exists>s'. asn1_uint64_write_loop al s (length ch) v False n = (True, s') \<and>
    cbb_holds s' (c @ der_int (int (unat v))) ch \<and> ample al s' N"
  using assms(4)
proof (induction n)
  case 0
  then have "der_int (int (unat v)) = [0]" using der_int_nat [of 0] by simp
  then show ?case using add_u8_ok [OF assms(1,2), of 0] assms(3) by auto
next
  case (Suc n)
  let ?q = "unat v div 256 ^ n" and ?b = "word_of_nat (unat v div 256 ^ n) :: byte"
  have q: "?q < 256" using Suc.prems by (simp add: div_less_iff_less_mult mult.commute)
  then have b: "unat ?b = ?q" by (rule byte_word_of_nat)
  show ?case
  proof (cases "?q = 0")
    case True
    then have "unat v < 256 ^ n" by (simp add: div_eq_0_iff)
    then show ?thesis using Suc.IH True by (simp add: byte_shift Let_def)
  next
    case False
    then have ge: "256 ^ n \<le> unat v" by (metis div_less not_le)
    have b0: "?b \<noteq> 0" using b False by auto
    show ?thesis
    proof (cases "128 \<le> ?q")
      case True
      have "128 * 256 ^ n \<le> unat v" using True by (simp add: less_eq_div_iff_mult_less_eq)
      then have "nbytes (2 * unat v) = Suc (Suc n)" using Suc.prems by (intro nbytes_unique) auto
      moreover have "unat v div 256 ^ Suc n = 0" using Suc.prems by (rule div_less)
      ultimately have e: "der_int (int (unat v)) = 0 # ?b # be_bytes n (unat v)"
        unfolding der_int_nat by (simp add: be_bytes_Suc del: be_bytes.simps power_Suc)
      have room: "length c + 2 + n \<le> N" using assms(3) unfolding e by simp
      obtain s1 where s1: "CBB_add_u8 al s (length ch) 0 = (True, s1)" "cbb_holds s1 (c @ [0]) ch" "ample al s1 N"
        using add_u8_ok [OF assms(1,2), of 0] room by auto
      obtain s2 where s2: "CBB_add_u8 al s1 (length ch) ?b = (True, s2)" "cbb_holds s2 ((c @ [0]) @ [?b]) ch" "ample al s2 N"
        using add_u8_ok [OF s1(2,3), of ?b] room by auto
      have "?b AND 0x80 \<noteq> 0" using b True by (simp add: and_0x80_eq_0_iff)
      with write_started_ok [OF s2(2,3), of n v] s1(1) s2(1) b0 room show ?thesis
        unfolding e by (simp add: byte_shift Let_def)
    next
      case False
      then have "unat v < 128 * 256 ^ n" by (simp add: not_le div_less_iff_less_mult)
      then have "nbytes (2 * unat v) = Suc n" using ge by (intro nbytes_unique) auto
      then have e: "der_int (int (unat v)) = ?b # be_bytes n (unat v)"
        unfolding der_int_nat by (simp add: be_bytes_Suc del: be_bytes.simps)
      have room: "length c + 1 + n \<le> N" using assms(3) unfolding e by simp
      obtain s1 where s1: "CBB_add_u8 al s (length ch) ?b = (True, s1)" "cbb_holds s1 (c @ [?b]) ch" "ample al s1 N"
        using add_u8_ok [OF assms(1,2), of ?b] room by auto
      have "?b AND 0x80 = 0" using b False by (simp add: and_0x80_eq_0_iff)
      with write_started_ok [OF s1(2,3), of n v] s1(1) b0 room show ?thesis
        unfolding e by (simp add: byte_shift Let_def)
    qed
  qed
qed


text \<open>A 64-bit integer occupies at most nine octets, so its element fits any length form.\<close>

lemma int64_width: "- (2 ^ 64) \<le> i \<Longrightarrow> i < 2 ^ 64 \<Longrightarrow> length (der_int i) \<le> 9"
  by (auto simp: int_width_le_iff int_mag_def)

lemma add_asn1_uint64_ok:
  assumes "cbb_holds s c ch" and "ample al s N"
    and "length (c @ der_tlv CBS_ASN1_INTEGER (der_int (int (unat v)))) \<le> N"
  shows "\<exists>s'. CBB_add_asn1_uint64 al s (length ch) v = (True, s') \<and>
    cbb_holds s' (c @ der_tlv CBS_ASN1_INTEGER (der_int (int (unat v)))) ch \<and> ample al s' N"
  unfolding CBB_add_asn1_uint64_def
proof (rule element_ok [OF assms])
  have v: "unat v < 2 ^ 64" using unat_less_power [of v] by simp
  show "length (der_int (int (unat v))) \<le> 0xfffffffe"
  proof -
    have "int (unat v) < 2 ^ 64" using v by (simp only: of_nat_less_numeral_power_cancel_iff)
    then show ?thesis using int64_width [of "int (unat v)"] by linarith
  qed
  show "\<exists>s2. asn1_uint64_write_loop al s1 (length ch1) v False 8 = (True, s2) \<and>
      cbb_holds s2 (c1 @ der_int (int (unat v))) ch1 \<and> ample al s2 N"
    if "cbb_holds s1 c1 ch1" "ample al s1 N" "length (c1 @ der_int (int (unat v))) \<le> N" for s1 c1 ch1
    using write_unstarted_ok [OF that, of 8] v by simp
qed

lemma int64_write_ok:
  assumes "cbb_holds s c ch" and "ample al s N" and "length c + n \<le> N" and "n \<le> 8"
  shows "\<exists>s'. asn1_int64_write_loop al s (length ch) (int64_union_bytes v) n = (True, s') \<and>
    cbb_holds s' (c @ be_bytes n (unat v)) ch \<and> ample al s' N"
  using assms
proof (induction n arbitrary: s c)
  case (Suc n)
  let ?b = "word_of_nat (unat v div 256 ^ n) :: byte"
  obtain s1 where s1: "CBB_add_u8 al s (length ch) ?b = (True, s1)" "cbb_holds s1 (c @ [?b]) ch" "ample al s1 N"
    using add_u8_ok [OF Suc.prems(1,2), of ?b] Suc.prems(3) by auto
  have "int64_union_bytes v ! n = ?b" using Suc.prems(4) by (simp add: int64_union_bytes_def rev_be_bytes_nth)
  with Suc.IH [OF s1(2,3)] s1(1) Suc.prems(3,4) show ?case
    by (simp add: be_bytes_Suc del: be_bytes.simps)
qed simp

lemma complement_div:
  fixes A P m :: nat
  assumes "m < A * P" and "0 < P"
  shows "(A * P - 1 - m) div P = A - 1 - m div P"
proof -
  let ?x = "m div P" and ?r = "m mod P"
  have r: "?r < P" using assms(2) by simp
  have x: "?x < A" using assms by (simp add: div_less_iff_less_mult)
  have "A * P = (A - 1 - ?x) * P + ?x * P + P"
  proof -
    have "A = (A - 1 - ?x) + ?x + 1" using x by simp
    then show ?thesis by (metis add_mult_distrib mult_1)
  qed
  moreover have "m = ?x * P + ?r" by simp
  ultimately have "A * P - 1 - m = (A - 1 - ?x) * P + (P - 1 - ?r)" using r by linarith
  also have "\<dots> div P = A - 1 - ?x + (P - 1 - ?r) div P"
    using assms(2) by (intro div_mult_self3) simp
  finally show ?thesis using assms(2) by simp
qed

lemma sign_bytes:
  fixes a x :: nat
  assumes "x < 32768"
  shows "(a * 65536 + (65535 - x)) div 256 mod 256 = 255 \<and> 128 \<le> (a * 65536 + (65535 - x)) mod 256
    \<longleftrightarrow> x < 128"
proof -
  define y where "y = 65535 - x"
  have y: "y div 256 < 256" "y = y div 256 * 256 + y mod 256" "y mod 256 < 256" "y + x = 65535"
    using assms by (simp_all add: y_def)
  have "a * 65536 + y = (a * 256) * 256 + y" by simp
  then have "(a * 65536 + y) div 256 = a * 256 + y div 256" "(a * 65536 + y) mod 256 = y mod 256"
    by (simp_all only: div_mult_self3 mod_mult_self3)
  moreover have "(a * 256 + y div 256) mod 256 = y div 256" using y(1) by simp
  moreover have "y div 256 = 255 \<and> 128 \<le> y mod 256 \<longleftrightarrow> x < 128" using y by linarith
  ultimately show ?thesis by (simp only: y_def [symmetric])
qed

text \<open>The loop drops the leading octets that only repeat the sign.\<close>

lemma int64_start_width:
  assumes "v < 2 ^ 64" and "2 ^ 63 \<le> v" and "n \<le> 7" and "int_width (int v - 2 ^ 64) \<le> Suc n"
  shows "Suc (int64_start_loop (rev (be_bytes 8 v)) n) = int_width (int v - 2 ^ 64)"
  using assms(3,4)
proof (induction n)
  case 0
  then show ?case using int_width_pos [of "int v - 2 ^ 64"] by simp
next
  case (Suc n)
  let ?i = "int v - 2 ^ 64" and ?B = "rev (be_bytes 8 v)"
  define m where "m = 2 ^ 64 - 1 - v"
  have mag: "int_mag ?i = m" using assms(1,2) by (auto simp: int_mag_def m_def)
  have w: "int_width ?i \<le> k \<longleftrightarrow> 1 \<le> k \<and> 2 * m < 256 ^ k" for k by (simp only: int_width_le_iff mag)
  have nth: "?B ! k = word_of_nat (v div 256 ^ k)" if "k < 8" for k
    using that by (simp add: rev_be_bytes_nth)
  have cond: "?B ! (Suc n) = 0xff \<and> ?B ! n AND 0x80 \<noteq> 0 \<longleftrightarrow> 2 * m < 256 ^ Suc n"
  proof -
    let ?P = "256 ^ n :: nat"
    have "n \<le> 6" using Suc.prems(1) by simp
    then obtain j where j: "6 = n + j" by (rule le_Suc_ex [THEN exE])
    have A: "2 ^ 64 = 256 ^ j * 65536 * ?P"
      using power_add [of "256 :: nat" n j] j [symmetric] by (simp add: mult.commute)
    have m: "m < 32768 * ?P" using Suc.prems(2) w [of "Suc (Suc n)"] by simp
    have "m div ?P < 32768" using m by (simp add: div_less_iff_less_mult)
    note x = this
    have "v = 256 ^ j * 65536 * ?P - 1 - m" using A m_def assms(1) by linarith
    then have "v div ?P = 256 ^ j * 65536 - 1 - m div ?P"
      using complement_div [of m "256 ^ j * 65536" ?P] A m_def by simp
    also have "\<dots> = (256 ^ j - 1) * 65536 + (65535 - m div ?P)"
    proof -
      have "1 \<le> (256 :: nat) ^ j" by simp
      then show ?thesis using x by (simp add: diff_mult_distrib)
    qed
    finally have q: "v div ?P = (256 ^ j - 1) * 65536 + (65535 - m div ?P)" .
    have b1: "?B ! (Suc n) = 0xff \<longleftrightarrow> v div ?P div 256 mod 256 = 255"
      using nth [of "Suc n"] Suc.prems(1)
      by (simp add: byte_eq_iff unat_word_of_nat div_mult2_eq [symmetric] mult.commute)
    have b2: "?B ! n AND 0x80 \<noteq> 0 \<longleftrightarrow> 128 \<le> v div ?P mod 256"
      using nth [of n] Suc.prems(1) by (simp add: and_0x80_eq_0_iff unat_word_of_nat not_less)
    have "m div ?P < 128 \<longleftrightarrow> 2 * m < 256 ^ Suc n" by (simp add: div_less_iff_less_mult)
    with sign_bytes [OF x, of "256 ^ j - 1"] show ?thesis unfolding b1 b2 q by simp
  qed
  show ?case
  proof (cases "2 * m < 256 ^ Suc n")
    case True
    then show ?thesis using Suc cond w by simp
  next
    case False
    then have "int_width ?i = Suc (Suc n)" using Suc.prems w [of "Suc n"] by simp
    moreover have "int64_start_loop ?B (Suc n) = Suc n"
      using False unfolding cond [symmetric] int64_start_loop.simps by (rule if_not_P)
    ultimately show ?thesis by simp
  qed
qed


lemma sint_unat: "sint v = (if unat v < 2 ^ 63 then int (unat v) else int (unat v) - 2 ^ 64)" for v :: "64 word"
proof -
  have u: "unat v < 2 ^ 64" using unat_less_power [of v] by simp
  have "word_of_nat (unat v) = v" by simp
  then show ?thesis using sint_word_of_nat [OF u] by (simp only:)
qed

lemma int_width_neg64: "2 ^ 63 \<le> u \<Longrightarrow> u < 2 ^ 64 \<Longrightarrow> int_width (int u - 2 ^ 64) \<le> 8"
  by (simp add: int_width_le_iff int_mag_def)

lemma add_asn1_int64_ok:
  assumes "cbb_holds s c ch" and "ample al s N"
    and "length (c @ der_tlv CBS_ASN1_INTEGER (der_int (sint v))) \<le> N"
  shows "\<exists>s'. CBB_add_asn1_int64 al s (length ch) v = (True, s') \<and>
    cbb_holds s' (c @ der_tlv CBS_ASN1_INTEGER (der_int (sint v))) ch \<and> ample al s' N"
proof (cases "0 \<le> sint v")
  case True
  have "unat v < 2 ^ 64" using unat_less_power [of v] by simp
  then have "int (unat v) < 2 ^ 64" by (simp only: of_nat_less_numeral_power_cancel_iff)
  then have "sint v = int (unat v)" using True sint_unat [of v] by (metis diff_ge_0_iff_ge not_le)
  then show ?thesis
    using True add_asn1_uint64_ok [OF assms(1,2), of v] assms(3) by (simp only: CBB_add_asn1_int64_def if_True)
next
  case False
  then have "\<not> unat v < 2 ^ 63" using sint_unat [of v] by (metis of_nat_0_le_iff)
  then have v: "sint v = int (unat v) - 2 ^ 64" "2 ^ 63 \<le> unat v"
    using sint_unat [of v] by (metis, metis not_less)
  have u: "unat v < 2 ^ 64" using unat_less_power [of v] by simp
  let ?n = "Suc (int64_start_loop (int64_union_bytes v) 7)"
  have w8: "int_width (sint v) \<le> Suc 7" using int_width_neg64 [OF v(2) u] v(1) by simp
  then have n: "?n = int_width (sint v)"
    using int64_start_width [OF u v(2), of 7] v(1) by (simp only: int64_union_bytes_def)
  have e: "der_int (sint v) = be_bytes ?n (unat v)"
  proof -
    have "sint v mod 256 ^ ?n = int (unat v) mod 256 ^ ?n"
    proof -
      have "(256 :: int) ^ ?n dvd 256 ^ 8" using w8 n by (intro le_imp_power_dvd) simp
      then have "(2 ^ 64 :: int) mod 256 ^ ?n = 0" by simp
      then show ?thesis unfolding v(1) by (metis diff_zero mod_diff_right_eq)
    qed
    then have "nat (sint v mod 256 ^ ?n) = unat v mod 256 ^ ?n" by (simp only: nat_int_mod_power)
    then show ?thesis unfolding der_int_def n [symmetric] by (simp only: be_bytes_mod)
  qed
  have "\<exists>s'. cbb_and (CBB_add_asn1 al s (length ch) CBS_ASN1_INTEGER)
      (\<lambda>s1. cbb_and (asn1_int64_write_loop al s1 (Suc (length ch)) (int64_union_bytes v) ?n)
        (\<lambda>s2. CBB_flush al s2 (length ch))) = (True, s') \<and>
      cbb_holds s' (c @ der_tlv CBS_ASN1_INTEGER (der_int (sint v))) ch \<and> ample al s' N"
  proof (rule element_ok [OF assms])
    show "length (der_int (sint v)) \<le> 0xfffffffe" using w8 by simp
    show "\<exists>s2. asn1_int64_write_loop al s1 (length ch1) (int64_union_bytes v) ?n = (True, s2) \<and>
        cbb_holds s2 (c1 @ der_int (sint v)) ch1 \<and> ample al s2 N"
      if "cbb_holds s1 c1 ch1" "ample al s1 N" "length (c1 @ der_int (sint v)) \<le> N" for s1 c1 ch1
      using int64_write_ok [OF that(1,2), of ?n v] that(3) w8 n unfolding e by simp
  qed
  then show ?thesis using False by (simp add: CBB_add_asn1_int64_def Let_def)
qed

lemma add_asn1_octet_string_ok:
  assumes "cbb_holds s c ch" and "ample al s N" and "length (c @ der_tlv CBS_ASN1_OCTETSTRING data) \<le> N"
    and "length data \<le> 0xfffffffe"
  shows "\<exists>s'. CBB_add_asn1_octet_string al s (length ch) data = (True, s') \<and>
    cbb_holds s' (c @ der_tlv CBS_ASN1_OCTETSTRING data) ch \<and> ample al s' N"
  unfolding CBB_add_asn1_octet_string_def
proof (rule element_ok [OF assms])
  show "\<exists>s2. CBB_add_bytes al s1 (length ch1) data = (True, s2) \<and> cbb_holds s2 (c1 @ data) ch1 \<and> ample al s2 N"
    if "cbb_holds s1 c1 ch1" "ample al s1 N" "length (c1 @ data) \<le> N" for s1 c1 ch1
    using add_bytes_ok [OF that(1,2), of data] that(3) by auto
qed

lemma add_asn1_bool_ok:
  assumes "cbb_holds s c ch" and "ample al s N"
    and "length (c @ der_tlv CBS_ASN1_BOOLEAN [if v \<noteq> 0 then 0xff else 0]) \<le> N"
  shows "\<exists>s'. CBB_add_asn1_bool al s (length ch) v = (True, s') \<and>
    cbb_holds s' (c @ der_tlv CBS_ASN1_BOOLEAN [if v \<noteq> 0 then 0xff else 0]) ch \<and> ample al s' N"
  unfolding CBB_add_asn1_bool_def
proof (rule element_ok [OF assms])
  show "\<exists>s2. CBB_add_u8 al s1 (length ch1) (if v \<noteq> 0 then 0xff else 0) = (True, s2) \<and>
      cbb_holds s2 (c1 @ [if v \<noteq> 0 then 0xff else 0]) ch1 \<and> ample al s2 N"
    if "cbb_holds s1 c1 ch1" "ample al s1 N" "length (c1 @ [if v \<noteq> 0 then 0xff else 0]) \<le> N" for s1 c1 ch1
    by (rule add_u8_ok [OF that(1,2), of "if v \<noteq> 0 then 0xff else 0"]) (use that(3) in simp, blast)
qed simp

section \<open>Properties of the builder\<close>

text \<open>
  C1. The builder refines its abstract machine: from a \<open>CBB\<close> made by \<open>CBB_init\<close>, any sequence
  of writes, flushes and openings of length-prefixed and ASN.1 children at any depth, nested in any
  way, that fits in the room there is, succeeds, and \<open>CBB_finish\<close> then hands out a buffer whose
  contents are those of the abstract run with every pending length prefix filled in.
\<close>

theorem CBB_refines:
  assumes "alloc_spec al" and "cap < SIZE_BOUND" and "CBB_init al cap = Some s0" and "ample al s0 N"
    and "a_oks N ops ([], [])" and "a_run ops ([], []) = (root, fs)" and "fold_ok fs"
    and "length (a_output (root, fs)) \<le> N"
  shows "\<exists>s buf. run_ops al s0 ops = (True, s) \<and>
    CBB_finish al s 0 = Inr (buf, length (a_output (root, fs))) \<and>
    take (length (a_output (root, fs))) buf = a_output (root, fs)"
proof -
  from sim_run [OF sim_init(1) [OF assms(1-3)] assms(5,4)] assms(6) obtain s
    where s: "run_ops al s0 ops = (True, s)" "cbb_sim s (root, fs)" "ample al s N" by auto
  from finish_ok [OF s(2) assms(7) s(3) assms(8)] s(1) show ?thesis by blast
qed

theorem CBB_refines_witness:
  "\<exists>s0 s buf. CBB_init zero_alloc 16 = Some s0 \<and>
     run_ops zero_alloc s0 [OpAsn1 0 0x20000010, OpU8 1 5, OpPrefixed 0 1, OpBytes 1 [7, 8]] = (True, s) \<and>
     CBB_finish zero_alloc s 0 = Inr (buf, 6) \<and> take 6 buf = [0x30, 1, 5, 2, 7, 8]"
proof -
  let ?ops = "[OpAsn1 0 0x20000010, OpU8 1 5, OpPrefixed 0 1, OpBytes 1 [7, 8]]"
  obtain s0 where s0: "CBB_init zero_alloc 16 = Some s0" and "cb_cap s0 = 16"
    by (auto simp: CBB_init_def cbb_init_def OPENSSL_malloc_def size_add_def zero_alloc_def)
  then have ample: "ample zero_alloc s0 16" by (simp add: ample_def)
  have t: "der_tag 0x20000010 = [0x30]" by (simp add: der_tag_def)
  have run: "a_run ?ops ([], []) = ([0x30, 1, 5], [(Fixed 1, [7, 8])])"
    by (simp add: t der_len_def)
  have oks: "a_oks 16 ?ops ([], [])" and fo: "fold_ok [(Fixed 1, [7, 8])]"
    and out: "a_output ([0x30, 1, 5], [(Fixed 1, [7, 8])]) = [0x30, 1, 5, 2, 7, 8]"
    by (simp_all add: t der_len_def a_ok_def a_size_def)
  have len: "length [0x30, 1, 5, 2, 7, 8 :: byte] = 6" by simp
  from CBB_refines [OF zero_alloc_spec _ s0 ample oks run fo, unfolded out len] s0
  have "\<exists>s buf. run_ops zero_alloc s0 ?ops = (True, s) \<and> CBB_finish zero_alloc s 0 = Inr (buf, 6) \<and>
      take 6 buf = [0x30, 1, 5, 2, 7, 8]" by simp
  with s0 show ?thesis by blast
qed

text \<open>
  C3. Signed integers survive the trip: into any \<open>CBB\<close> with room, \<open>CBB_add_asn1_int64\<close>
  appends an element that \<open>CBS_get_asn1_int64\<close> reads back as the same number, whatever follows it.
\<close>

theorem asn1_int64_roundtrip:
  assumes "cbb_holds s c ch" and "ample al s N"
    and "length (c @ der_tlv CBS_ASN1_INTEGER (der_int (sint v))) \<le> N"
  shows "\<exists>s' x. CBB_add_asn1_int64 al s (length ch) v = (True, s') \<and> cbb_holds s' (c @ x) ch \<and>
    (\<forall>rest. CBS_get_asn1_int64 (x @ rest) = Some (sint v, rest))"
proof -
  have "- (2 ^ 63) \<le> sint v \<and> sint v < 2 ^ 63" using sint_greater_eq [of v] sint_less [of v] by simp
  then show ?thesis using add_asn1_int64_ok [OF assms] by (auto simp: get_int64_iff)
qed

theorem asn1_int64_roundtrip_witness:
  "\<exists>s' x. CBB_add_asn1_int64 zero_alloc \<lparr>cb_buf = replicate 8 0, cb_len = 0, cb_cap = 8,
       cb_can_resize = False, cb_error = False, cb_chain = []\<rparr> 0 (- 129) = (True, s') \<and>
     cbb_holds s' x [] \<and> CBS_get_asn1_int64 x = Some (- 129, [])"
proof -
  let ?s = "\<lparr>cb_buf = replicate 8 0, cb_len = 0, cb_cap = 8,
       cb_can_resize = False, cb_error = False, cb_chain = []\<rparr>"
  have v: "sint (- 129 :: 64 word) = - 129" by code_simp
  have "cbb_holds ?s [] []" "ample zero_alloc ?s 8" by (simp_all add: cbb_holds_def ample_def)
  moreover have "length ([] @ der_tlv CBS_ASN1_INTEGER (der_int (- 129))) \<le> 8" 
    by (simp add: der_tlv_def der_tag_def der_len_def int_width_def int_mag_def nbytes.simps)
  ultimately obtain s' x where "CBB_add_asn1_int64 zero_alloc ?s 0 (- 129) = (True, s')" "cbb_holds s' x []"
    and "\<forall>rest. CBS_get_asn1_int64 (x @ rest) = Some (- 129, rest)"
    using asn1_int64_roundtrip [of ?s "[]" "[]" zero_alloc 8 "- 129"] v by auto
  moreover from this(3) have "CBS_get_asn1_int64 x = Some (- 129, [])" by (metis append_Nil2)
  ultimately show ?thesis by blast
qed

end
