(* ===== verification/Inet.thy ===== *)
theory Inet
  imports Prelude
begin

unbundle bit_operations_syntax

text \<open>
  Internet addresses as text: libuv's \<^verbatim>\<open>src/inet.c\<close> and the bounded copy of \<^verbatim>\<open>src/strscpy.c\<close>. A C
  string is the list of its characters, with the terminator after its end or at its first zero;
  \<open>char_at\<close> reads it. An address is the list of its bytes, in network order. A function that fails
  returns \<open>Inl\<close> of its error number; the numbers are those of Darwin.
\<close>

section \<open>Strings\<close>

abbreviation (input) UV_E2BIG :: int where "UV_E2BIG \<equiv> - 7"
abbreviation (input) UV_EINVAL :: int where "UV_EINVAL \<equiv> - 22"
abbreviation (input) UV_ENOSPC :: int where "UV_ENOSPC \<equiv> - 28"
abbreviation (input) UV_EAFNOSUPPORT :: int where "UV_EAFNOSUPPORT \<equiv> - 47"
abbreviation (input) AF_INET :: int where "AF_INET \<equiv> 2"
abbreviation (input) AF_INET6 :: int where "AF_INET6 \<equiv> 30"
abbreviation (input) UV__INET_ADDRSTRLEN :: nat where "UV__INET_ADDRSTRLEN \<equiv> 16"
abbreviation (input) UV__INET6_ADDRSTRLEN :: nat where "UV__INET6_ADDRSTRLEN \<equiv> 46"
abbreviation (input) SSIZE_MAX :: int where "SSIZE_MAX \<equiv> 2 ^ 63 - 1"

definition char_at :: "byte list \<Rightarrow> nat \<Rightarrow> byte" where
  "char_at s i = (if i < length s then s ! i else 0)"

definition c_str :: "byte list \<Rightarrow> byte list" where
  "c_str s = takeWhile (\<lambda>c. c \<noteq> 0) s"

fun strchr :: "byte list \<Rightarrow> byte \<Rightarrow> nat option" where
  "strchr [] ch = None"
| "strchr (c # s) ch = (if c = ch then Some 0 else map_option Suc (strchr s ch))"

text \<open>The texts that \<open>%u\<close> and \<open>%x\<close> print.\<close>

fun digit_char :: "nat \<Rightarrow> byte" where
  "digit_char d = word_of_nat (if d < 10 then 48 + d else 87 + d)"

fun dec_text :: "nat \<Rightarrow> byte list" where
  "dec_text n = (if n < 10 then [digit_char n] else dec_text (n div 10) @ [digit_char (n mod 10)])"

fun hex_text :: "nat \<Rightarrow> byte list" where
  "hex_text n = (if n < 16 then [digit_char n] else hex_text (n div 16) @ [digit_char (n mod 16)])"

declare digit_char.simps [simp del] dec_text.simps [simp del] hex_text.simps [simp del]

function strscpy_loop :: "byte list \<Rightarrow> byte list \<Rightarrow> nat \<Rightarrow> nat \<Rightarrow> int \<times> byte list" where
  "strscpy_loop d s n i =
     (if i < n then
        let d1 = d [i := char_at s i]
        in if char_at s i = 0 then (if int i > SSIZE_MAX then UV_E2BIG else int i, d1)
           else strscpy_loop d1 s n (i + 1)
      else if i = 0 then (0, d)
      else (UV_E2BIG, d [i - 1 := 0]))"
  by pat_completeness auto
termination
  by (relation "measure (\<lambda>(d, s, n, i). n - i)") auto

declare strscpy_loop.simps [simp del]

definition uv__strscpy :: "byte list \<Rightarrow> byte list \<Rightarrow> nat \<Rightarrow> int \<times> byte list" where
  "uv__strscpy d s n = strscpy_loop d s n 0"

section \<open>Addresses to text\<close>

text \<open>The format \<open>%u.%u.%u.%u\<close>.\<close>

fun dotted :: "byte list \<Rightarrow> byte list" where
  "dotted [] = []"
| "dotted [b] = dec_text (unat b)"
| "dotted (b # bs) = dec_text (unat b) @ 46 # dotted bs"

definition inet_ntop4 :: "byte list \<Rightarrow> byte list \<Rightarrow> nat \<Rightarrow> int \<times> byte list" where
  "inet_ntop4 src dst sz =
     (let text = dotted (take 4 src);
          tmp = take (UV__INET_ADDRSTRLEN - 1) text;
          l = length text
      in if l = 0 \<or> l \<ge> sz then (UV_ENOSPC, dst)
         else (0, snd (uv__strscpy dst tmp sz)))"

record zero_run =
  rn_base :: int
  rn_len :: int

definition ntop6_words :: "byte list \<Rightarrow> u32 list" where
  "ntop6_words src =
     foldl (\<lambda>words i. words [i div 2 := words ! (i div 2) OR push_bit ((1 - i mod 2) * 8) (ucast (src ! i))])
       (replicate 8 0) [0..<16]"

definition better_run :: "zero_run \<Rightarrow> zero_run \<Rightarrow> zero_run" where
  "better_run best cur = (if rn_base best = - 1 \<or> rn_len cur > rn_len best then cur else best)"

fun ntop6_scan :: "u32 list \<Rightarrow> int \<Rightarrow> zero_run \<Rightarrow> zero_run \<Rightarrow> zero_run \<times> zero_run" where
  "ntop6_scan [] i best cur = (best, cur)"
| "ntop6_scan (w # ws) i best cur =
     (if w = 0 then
        (if rn_base cur = - 1 then ntop6_scan ws (i + 1) best \<lparr>rn_base = i, rn_len = 1\<rparr>
         else ntop6_scan ws (i + 1) best (cur\<lparr>rn_len := rn_len cur + 1\<rparr>))
      else if rn_base cur \<noteq> - 1 then ntop6_scan ws (i + 1) (better_run best cur) (cur\<lparr>rn_base := - 1\<rparr>)
      else ntop6_scan ws (i + 1) best cur)"

definition ntop6_best :: "u32 list \<Rightarrow> zero_run" where
  "ntop6_best words =
     (let none = \<lparr>rn_base = - 1, rn_len = 0\<rparr>;
          (best, cur) = ntop6_scan words 0 none none;
          best1 = (if rn_base cur \<noteq> - 1 then better_run best cur else best)
      in if rn_base best1 \<noteq> - 1 \<and> rn_len best1 < 2 then best1\<lparr>rn_base := - 1\<rparr> else best1)"

function ntop6_format :: "byte list \<Rightarrow> u32 list \<Rightarrow> zero_run \<Rightarrow> nat \<Rightarrow> byte list \<Rightarrow> int + byte list" where
  "ntop6_format src words best i tmp =
     (if i < 8 then
        if rn_base best \<noteq> - 1 \<and> int i \<ge> rn_base best \<and> int i < rn_base best + rn_len best
        then ntop6_format src words best (i + 1) (if int i = rn_base best then tmp @ [58] else tmp)
        else
          let tmp1 = (if i \<noteq> 0 then tmp @ [58] else tmp)
          in if i = 6 \<and> rn_base best = 0 \<and>
                (rn_len best = 6 \<or> (rn_len best = 7 \<and> words ! 7 \<noteq> 0x0001) \<or>
                 (rn_len best = 5 \<and> words ! 5 = 0xffff))
             then let room = UV__INET6_ADDRSTRLEN - length tmp1
                  in (case inet_ntop4 (drop 12 src) (replicate room 0) room of
                        (err, dst) \<Rightarrow> if err \<noteq> 0 then Inl err else Inr (tmp1 @ c_str dst))
             else ntop6_format src words best (i + 1) (tmp1 @ hex_text (unat (words ! i)))
      else Inr tmp)"
  by pat_completeness auto
termination
  by (relation "measure (\<lambda>(src, words, best, i, tmp). 8 - i)") auto

declare ntop6_format.simps [simp del]

definition inet_ntop6 :: "byte list \<Rightarrow> byte list \<Rightarrow> nat \<Rightarrow> int \<times> byte list" where
  "inet_ntop6 src dst sz =
     (let words = ntop6_words src;
          best = ntop6_best words
      in case ntop6_format src words best 0 [] of
           Inl err \<Rightarrow> (err, dst)
         | Inr tmp \<Rightarrow>
             let tmp1 = (if rn_base best \<noteq> - 1 \<and> rn_base best + rn_len best = 8 then tmp @ [58] else tmp)
             in (case uv__strscpy dst tmp1 sz of
                   (r, dst1) \<Rightarrow> (if r = UV_E2BIG then UV_ENOSPC else 0, dst1)))"

definition uv_inet_ntop :: "int \<Rightarrow> byte list \<Rightarrow> byte list \<Rightarrow> nat \<Rightarrow> int \<times> byte list" where
  "uv_inet_ntop af src dst sz =
     (if af = AF_INET then inet_ntop4 src dst sz
      else if af = AF_INET6 then inet_ntop6 src dst sz
      else (UV_EAFNOSUPPORT, dst))"

section \<open>Text to addresses\<close>

definition digits :: "byte list" where
  "digits = [48, 49, 50, 51, 52, 53, 54, 55, 56, 57]"

fun pton4_loop :: "byte list \<Rightarrow> byte list \<Rightarrow> nat \<Rightarrow> bool \<Rightarrow> nat \<Rightarrow> int + (byte list \<times> nat)" where
  "pton4_loop [] tmp tp saw_digit octets = Inr (tmp, octets)"
| "pton4_loop (ch # src) tmp tp saw_digit octets =
     (if ch = 0 then Inr (tmp, octets)
      else case strchr digits ch of
        Some d \<Rightarrow>
          let nw = unat (tmp ! tp) * 10 + d
          in if saw_digit \<and> tmp ! tp = 0 then Inl UV_EINVAL
             else if nw > 255 then Inl UV_EINVAL
             else
               let tmp1 = tmp [tp := word_of_nat nw]
               in if \<not> saw_digit
                  then if octets + 1 > 4 then Inl UV_EINVAL
                       else pton4_loop src tmp1 tp True (octets + 1)
                  else pton4_loop src tmp1 tp True octets
      | None \<Rightarrow>
          if ch = 46 \<and> saw_digit
          then if octets = 4 then Inl UV_EINVAL
               else pton4_loop src (tmp [tp + 1 := 0]) (tp + 1) False octets
          else Inl UV_EINVAL)"

definition inet_pton4 :: "byte list \<Rightarrow> int + byte list" where
  "inet_pton4 src =
     (case pton4_loop src (replicate 4 0) 0 False 0 of
        Inl err \<Rightarrow> Inl err
      | Inr (tmp, octets) \<Rightarrow> if octets < 4 then Inl UV_EINVAL else Inr tmp)"

definition xdigits_l :: "byte list" where
  "xdigits_l = [48, 49, 50, 51, 52, 53, 54, 55, 56, 57, 97, 98, 99, 100, 101, 102]"

definition xdigits_u :: "byte list" where
  "xdigits_u = [48, 49, 50, 51, 52, 53, 54, 55, 56, 57, 65, 66, 67, 68, 69, 70]"

definition xdigit :: "byte \<Rightarrow> nat option" where
  "xdigit ch = (case strchr xdigits_l ch of Some d \<Rightarrow> Some d | None \<Rightarrow> strchr xdigits_u ch)"

record pton6_state =
  p6_tmp :: "byte list"
  p6_tp :: nat
  p6_colonp :: "nat option"
  p6_seen :: nat
  p6_val :: u32

definition pton6_put :: "pton6_state \<Rightarrow> pton6_state" where
  "pton6_put st =
     st\<lparr>p6_tmp := (p6_tmp st) [p6_tp st := ucast (drop_bit 8 (p6_val st)) AND 0xff,
                               p6_tp st + 1 := ucast (p6_val st) AND 0xff],
        p6_tp := p6_tp st + 2\<rparr>"

fun pton6_loop :: "byte list \<Rightarrow> byte list \<Rightarrow> pton6_state \<Rightarrow> int + pton6_state" where
  "pton6_loop [] curtok st = Inr st"
| "pton6_loop (ch # src) curtok st =
     (if ch = 0 then Inr st
      else case xdigit ch of
        Some d \<Rightarrow>
          let st1 = st\<lparr>p6_val := push_bit 4 (p6_val st) OR word_of_nat d, p6_seen := p6_seen st + 1\<rparr>
          in if p6_seen st1 > 4 then Inl UV_EINVAL else pton6_loop src curtok st1
      | None \<Rightarrow>
          if ch = 58 then
            if p6_seen st = 0 then
              if p6_colonp st \<noteq> None then Inl UV_EINVAL
              else pton6_loop src src (st\<lparr>p6_colonp := Some (p6_tp st)\<rparr>)
            else if char_at src 0 = 0 then Inl UV_EINVAL
            else if p6_tp st + 2 > 16 then Inl UV_EINVAL
            else pton6_loop src src ((pton6_put st)\<lparr>p6_seen := 0, p6_val := 0\<rparr>)
          else if ch = 46 \<and> p6_tp st + 4 \<le> 16 then
            (case inet_pton4 curtok of
               Inr addr \<Rightarrow>
                 Inr (st\<lparr>p6_tmp := take (p6_tp st) (p6_tmp st) @ addr @ drop (p6_tp st + 4) (p6_tmp st),
                         p6_tp := p6_tp st + 4, p6_seen := 0\<rparr>)
             | Inl err \<Rightarrow> Inl UV_EINVAL)
          else Inl UV_EINVAL)"

function pton6_shift :: "byte list \<Rightarrow> nat \<Rightarrow> nat \<Rightarrow> nat \<Rightarrow> byte list" where
  "pton6_shift tmp colonp n i =
     (if i \<le> n
      then pton6_shift (tmp [16 - i := tmp ! (colonp + (n - i)), colonp + (n - i) := 0]) colonp n (i + 1)
      else tmp)"
  by pat_completeness auto
termination
  by (relation "measure (\<lambda>(tmp, colonp, n, i). Suc n - i)") auto

declare pton6_shift.simps [simp del]

definition inet_pton6 :: "byte list \<Rightarrow> int + byte list" where
  "inet_pton6 src0 =
     (if char_at src0 0 = 58 \<and> char_at src0 1 \<noteq> 58 then Inl UV_EINVAL
      else
        let src = (if char_at src0 0 = 58 then drop 1 src0 else src0)
        in case pton6_loop src src
                  \<lparr>p6_tmp = replicate 16 0, p6_tp = 0, p6_colonp = None, p6_seen = 0, p6_val = 0\<rparr> of
             Inl err \<Rightarrow> Inl err
           | Inr st \<Rightarrow>
               if p6_seen st \<noteq> 0 \<and> p6_tp st + 2 > 16 then Inl UV_EINVAL
               else
                 let st1 = (if p6_seen st \<noteq> 0 then pton6_put st else st)
                 in (case p6_colonp st1 of
                       Some colonp \<Rightarrow>
                         if p6_tp st1 = 16 then Inl UV_EINVAL
                         else Inr (pton6_shift (p6_tmp st1) colonp (p6_tp st1 - colonp) 1)
                     | None \<Rightarrow> if p6_tp st1 \<noteq> 16 then Inl UV_EINVAL else Inr (p6_tmp st1)))"

definition uv_inet_pton :: "int \<Rightarrow> byte list option \<Rightarrow> bool \<Rightarrow> int + byte list" where
  "uv_inet_pton af src dst_null =
     (case src of
        None \<Rightarrow> Inl UV_EINVAL
      | Some s \<Rightarrow>
          if dst_null then Inl UV_EINVAL
          else if af = AF_INET then inet_pton4 s
          else if af = AF_INET6 then
            (case strchr (c_str s) 37 of
               None \<Rightarrow> inet_pton6 s
             | Some len \<Rightarrow>
                 if len > UV__INET6_ADDRSTRLEN - 1 then Inl UV_EINVAL
                 else inet_pton6 (take len s))
          else Inl UV_EAFNOSUPPORT)"

end
