(* ===== verification/InetParse.thy ===== *)
theory InetParse
  imports Inet
begin

unbundle bit_operations_syntax

text \<open>
  What the parsers of theory Inet read: the exact language of \<open>inet_pton4\<close>, and the effect of \<open>inet_pton6\<close>
  on the texts that \<open>inet_ntop6\<close> produces: eight groups, groups around a double colon, and a double colon
  followed by groups and an IPv4 tail.
\<close>

section \<open>Digits\<close>

lemma strchr_digit: "d < 10 \<Longrightarrow> strchr digits (digit_char d) = Some d"
proof -
  have "\<forall>d \<in> set [0..<10]. strchr digits (digit_char d) = Some d" by code_simp
  then show "d < 10 \<Longrightarrow> ?thesis" by simp
qed

lemma strchr_digit_iff: "strchr digits ch = Some d \<longleftrightarrow> d < 10 \<and> ch = digit_char d"
proof
  assume h: "strchr digits ch = Some d"
  have "\<forall>d \<in> set [0..<10]. digits ! d = digit_char d" by code_simp
  moreover have "strchr s c = Some i \<Longrightarrow> i < length s \<and> s ! i = c" for s c i
    by (induction s arbitrary: i) (auto split: if_splits)
  then have "d < length digits \<and> digits ! d = ch" using h by blast
  ultimately show "d < 10 \<and> ch = digit_char d" by (auto simp: digits_def)
qed (simp add: strchr_digit)

lemma xdigit_digit: "d < 16 \<Longrightarrow> xdigit (digit_char d) = Some d"
proof -
  have "\<forall>d \<in> set [0..<16]. xdigit (digit_char d) = Some d" by code_simp
  then show "d < 16 \<Longrightarrow> ?thesis" by simp
qed

lemma digit_char_props:
  "d < 16 \<Longrightarrow> digit_char d \<noteq> 0 \<and> digit_char d \<noteq> 58 \<and> digit_char d \<noteq> 46 \<and> digit_char d \<noteq> 37"
proof -
  have "\<forall>d \<in> set [0..<16]. digit_char d \<noteq> 0 \<and> digit_char d \<noteq> 58 \<and> digit_char d \<noteq> 46 \<and> digit_char d \<noteq> 37"
    by code_simp
  then show "d < 16 \<Longrightarrow> ?thesis" by simp
qed

lemma strchr_punct [simp]: "strchr digits 46 = None" "xdigit 58 = None" "xdigit 46 = None" "strchr digits 58 = None"
  by (code_simp, code_simp, code_simp, code_simp)

lemma dec_text_ne [simp]: "dec_text n \<noteq> []" and hex_text_ne [simp]: "hex_text n \<noteq> []"
  by (subst dec_text.simps, simp, subst hex_text.simps, simp)

lemma dec_text_chars: "c \<in> set (dec_text n) \<Longrightarrow> \<exists>d < 10. c = digit_char d"
proof (induction n rule: dec_text.induct)
  case (1 n)
  then show ?case using mod_less_divisor [of 10 n] by (subst (asm) (2) dec_text.simps) (fastforce split: if_splits)
qed

lemma hex_text_chars: "c \<in> set (hex_text n) \<Longrightarrow> \<exists>d < 16. c = digit_char d"
proof (induction n rule: hex_text.induct)
  case (1 n)
  then show ?case using mod_less_divisor [of 16 n] by (subst (asm) (2) hex_text.simps) (fastforce split: if_splits)
qed

lemma dec_text_snoc: "v \<noteq> 0 \<Longrightarrow> d < 10 \<Longrightarrow> dec_text (v * 10 + d) = dec_text v @ [digit_char d]"
  by (subst dec_text.simps) simp

section \<open>The exact language of \<open>inet_pton4\<close>\<close>

lemma pton4_dec:
  "v < 256 \<Longrightarrow> tp < length tmp \<Longrightarrow> tmp ! tp = 0 \<Longrightarrow> octets < 4 \<Longrightarrow>
   pton4_loop (dec_text v @ rest) tmp tp False octets = pton4_loop rest (tmp [tp := word_of_nat v]) tp True (octets + 1)"
proof (induction v arbitrary: rest rule: dec_text.induct)
  case (1 v)
  show ?case
  proof (cases "v < 10")
    case True
    then show ?thesis
      using 1 digit_char_props [of v] by (subst dec_text.simps) (simp add: strchr_digit)
  next
    case False
    have d: "v mod 10 < 10" "v div 10 * 10 + v mod 10 = v" "v div 10 < 256" "v div 10 \<noteq> 0" using False 1(2) by simp_all
    have u: "unat (word_of_nat (v div 10) :: byte) = v div 10" using d(3) by (rule byte_word_of_nat)
    then have nz: "(word_of_nat (v div 10) :: byte) \<noteq> 0" using d(4) by (metis unat_0)
    have "dec_text v @ rest = dec_text (v div 10) @ (digit_char (v mod 10) # rest)"
      using False by (subst dec_text.simps) simp
    then show ?thesis
      using 1(1) [OF False d(3) 1(3-5), of "digit_char (v mod 10) # rest"] 1(2-5) d digit_char_props [of "v mod 10"]
      by (simp add: strchr_digit u nz Let_def)
  qed
qed

lemma dotted_Cons: "bs \<noteq> [] \<Longrightarrow> dotted (b # bs) = dec_text (unat b) @ 46 # dotted bs"
  by (cases bs) simp_all

lemma pton4_dotted:
  "bs \<noteq> [] \<Longrightarrow> tp + length bs = 4 \<Longrightarrow> length tmp = 4 \<Longrightarrow> tmp ! tp = 0 \<Longrightarrow>
   pton4_loop (dotted bs) tmp tp False tp = Inr (take tp tmp @ bs, 4)"
proof (induction bs arbitrary: tp tmp)
  case (Cons b bs)
  show ?case
  proof (cases bs)
    case Nil
    then have "tp = 3" using Cons.prems by simp
    then show ?thesis
      using Cons.prems Nil pton4_dec [of "unat b" tp tmp tp "[]"] by (simp add: list_update_append upd_conv_take_nth_drop)
  next
    case (Cons c cs)
    then have tp: "tp < 3" "tp < length tmp" using Cons.prems by simp_all
    let ?t = "tmp [tp := b, Suc tp := 0]"
    have "pton4_loop (dotted (b # bs)) tmp tp False tp = pton4_loop (dotted bs) ?t (Suc tp) False (Suc tp)"
      using Cons.prems tp pton4_dec [of "unat b" tp tmp tp "46 # dotted bs"] Cons by (simp add: dotted_Cons)
    also have "\<dots> = Inr (take (Suc tp) ?t @ bs, 4)"
      using Cons.IH [of "Suc tp" ?t] Cons.prems Cons tp by simp
    also have "take (Suc tp) ?t = take tp tmp @ [b]" using tp by (simp add: take_Suc_conv_app_nth)
    finally show ?thesis by simp
  qed
qed simp

lemma pton4_loop_sound:
  "pton4_loop src tmp tp saw octets = Inr (bs, 4) \<Longrightarrow> length tmp = 4 \<Longrightarrow> tp < 4 \<Longrightarrow>
   octets = (if saw then tp + 1 else tp) \<Longrightarrow> (\<not> saw \<Longrightarrow> tmp ! tp = 0) \<Longrightarrow>
   length bs = 4 \<and> take tp bs = take tp tmp \<and>
   (if saw then dec_text (unat (tmp ! tp)) else []) @ c_str src = dotted (drop tp bs)"
proof (induction src arbitrary: tmp tp saw octets)
  case Nil
  then have "saw" "tp = 3" "tmp = bs" by (auto split: if_splits)
  then show ?case using Nil by (simp add: c_str_def Cons_nth_drop_Suc [symmetric])
next
  case (Cons ch src)
  show ?case
  proof (cases "ch = 0")
    case True
    then have "saw" "tp = 3" "tmp = bs" using Cons.prems by (auto split: if_splits)
    then show ?thesis using Cons True by (simp add: c_str_def Cons_nth_drop_Suc [symmetric])
  next
    case ch: False
    show ?thesis
    proof (cases "strchr digits ch")
      case None
      then have dot: "ch = 46" "saw" "octets \<noteq> 4"
        and rec: "pton4_loop src (tmp [tp + 1 := 0]) (tp + 1) False octets = Inr (bs, 4)"
        using Cons.prems(1) ch by (auto split: if_splits)
      then have tp: "tp + 1 < 4" using Cons.prems by simp
      have ih: "length bs = 4" "take (tp + 1) bs = take (tp + 1) (tmp [tp + 1 := 0])" "c_str src = dotted (drop (tp + 1) bs)"
        using Cons.IH [OF rec] Cons.prems dot tp by auto
      have "bs ! tp = tmp ! tp" using arg_cong [OF ih(2), of "\<lambda>l. l ! tp"] by simp
      moreover have "drop tp bs = bs ! tp # drop (tp + 1) bs" using ih(1) tp by (simp add: Cons_nth_drop_Suc)
      moreover have "drop (tp + 1) bs \<noteq> []" using ih(1) tp by simp
      moreover have "take tp bs = take tp tmp" using arg_cong [OF ih(2), of "take tp"] by (simp add: min_def)
      ultimately show ?thesis using ih dot ch by (simp add: c_str_def dotted_Cons)
    next
      case (Some d)
      let ?nw = "unat (tmp ! tp) * 10 + d"
      let ?t = "tmp [tp := word_of_nat ?nw]"
      have d: "d < 10" "ch = digit_char d" using Some by (simp_all add: strchr_digit_iff)
      have nw: "?nw \<le> 255" "saw \<Longrightarrow> tmp ! tp \<noteq> 0"
        and rec: "pton4_loop src ?t tp True (if saw then octets else octets + 1) = Inr (bs, 4)"
        using Cons.prems(1) ch Some by (auto simp: Let_def split: if_splits)
      have "?t ! tp = word_of_nat ?nw" by (rule nth_list_update_eq) (use Cons.prems(2,3) in simp)
      then have u: "unat (?t ! tp) = ?nw" using nw(1) byte_word_of_nat [of ?nw] by (simp only:)
      have ih: "length bs = 4" "take tp bs = take tp ?t" "dec_text ?nw @ c_str src = dotted (drop tp bs)"
        using Cons.IH [OF rec] Cons.prems u by (auto split: if_splits)
      have "dec_text ?nw = (if saw then dec_text (unat (tmp ! tp)) else []) @ [ch]"
      proof (cases saw)
        case True
        then have "unat (tmp ! tp) \<noteq> 0" using nw(2) by (simp add: unat_eq_0)
        then show ?thesis using True d dec_text_snoc by simp
      next
        case False
        then have "?nw = d" using Cons.prems(5) by simp
        then show ?thesis using False d by (subst dec_text.simps) simp
      qed
      then show ?thesis using ih ch by (simp add: c_str_def)
    qed
  qed
qed

lemma pton4_octets_le: "pton4_loop src tmp tp saw octets = Inr (bs, n) \<Longrightarrow> octets \<le> 4 \<Longrightarrow> n \<le> 4"
  by (induction src arbitrary: tmp tp saw octets) (auto simp: Let_def split: if_splits option.splits)

lemma pton4_loop_c_str: "pton4_loop (c_str src) tmp tp saw octets = pton4_loop src tmp tp saw octets"
  by (induction src arbitrary: tmp tp saw octets) (auto simp: c_str_def Let_def split: option.splits)

lemma inet_pton4_iff: "inet_pton4 src = Inr bs \<longleftrightarrow> length bs = 4 \<and> c_str src = dotted bs"
proof
  assume "inet_pton4 src = Inr bs"
  then obtain n where l: "pton4_loop src (replicate 4 0) 0 False 0 = Inr (bs, n)" "n \<ge> 4"
    by (auto simp: inet_pton4_def not_less split: sum.splits if_splits prod.splits)
  then have "n = 4" using pton4_octets_le [OF l(1)] by simp
  then show "length bs = 4 \<and> c_str src = dotted bs"
    using pton4_loop_sound [of src "replicate 4 0" 0 False 0 bs] l by simp
next
  assume h: "length bs = 4 \<and> c_str src = dotted bs"
  then have "bs \<noteq> []" by auto
  then have "pton4_loop (dotted bs) (replicate 4 0) 0 False 0 = Inr (bs, 4)" using h pton4_dotted [of bs 0 "replicate 4 0"] by simp
  then have "pton4_loop src (replicate 4 0) 0 False 0 = Inr (bs, 4)" using h pton4_loop_c_str by metis
  then show "inet_pton4 src = Inr bs" by (simp add: inet_pton4_def)
qed


section \<open>What \<open>inet_pton6\<close> reads\<close>

text \<open>The state after the bytes \<open>out\<close>, and a 16-bit group as two bytes.\<close>

definition p6 :: "byte list \<Rightarrow> nat option \<Rightarrow> nat \<Rightarrow> u32 \<Rightarrow> pton6_state" where
  "p6 out c seen v =
     \<lparr>p6_tmp = out @ replicate (16 - length out) 0, p6_tp = length out, p6_colonp = c, p6_seen = seen, p6_val = v\<rparr>"

definition groups_bytes :: "nat list \<Rightarrow> byte list" where
  "groups_bytes vs = concat (map (be_bytes 2) vs)"

lemma groups_bytes_simps [simp]:
  "groups_bytes [] = []" "groups_bytes (v # vs) = be_bytes 2 v @ groups_bytes vs"
  "groups_bytes (us @ vs) = groups_bytes us @ groups_bytes vs"
  by (simp_all add: groups_bytes_def)

lemma length_groups_bytes [simp]: "length (groups_bytes vs) = 2 * length vs"
  by (induction vs) auto

definition groups_colon :: "nat list \<Rightarrow> byte list" where
  "groups_colon vs = concat (map (\<lambda>v. hex_text v @ [58]) vs)"

fun colons :: "nat list \<Rightarrow> byte list" where
  "colons [] = []"
| "colons [v] = hex_text v"
| "colons (v # vs) = hex_text v @ 58 # colons vs"

lemma groups_colon_simps [simp]:
  "groups_colon [] = []" "groups_colon (v # vs) = hex_text v @ 58 # groups_colon vs"
  by (simp_all add: groups_colon_def)

lemma colons_snoc: "colons (vs @ [v]) = groups_colon vs @ hex_text v"
proof (induction vs)
  case (Cons u vs)
  then show ?case by (cases vs) simp_all
qed simp

lemma byte_and_ff: "b AND 0xff = b" for b :: byte
proof -
  have "(0xff :: byte) = - 1" by simp
  then show ?thesis by (simp only: and.right_neutral)
qed

lemma p6_put:
  assumes "length out + 2 \<le> 16" and "v < 2 ^ 16"
  shows "pton6_put (p6 out c seen (word_of_nat v)) = p6 (out @ be_bytes 2 v) c seen (word_of_nat v)"
proof -
  define g where "g = 14 - length out"
  have g: "16 - length out = Suc (Suc g)" "16 - (length out + 2) = g" using assms(1) by (auto simp: g_def)
  have "v < 2 ^ 32" using assms(2) by simp
  then have "unat (ucast (drop_bit 8 (word_of_nat v :: u32)) :: byte) = unat (word_of_nat (v div 256) :: byte)"
    "unat (ucast (word_of_nat v :: u32) :: byte) = unat (word_of_nat v :: byte)"
    by (simp_all only: unat_ucast_mod unat_drop_bit unat_word_of_nat) simp_all
  then have "ucast (drop_bit 8 (word_of_nat v :: u32)) = (word_of_nat (v div 256) :: byte)"
    "ucast (word_of_nat v :: u32) = (word_of_nat v :: byte)" by (simp_all only: byte_eq_iff)
  then have "ucast (drop_bit 8 (word_of_nat v :: u32)) AND 0xff = (word_of_nat (v div 256) :: byte)"
    "ucast (word_of_nat v :: u32) AND 0xff = (word_of_nat v :: byte)" by (simp_all only: byte_and_ff)
  then show ?thesis
    using g by (simp add: p6_def pton6_put_def list_update_append numeral_2_eq_2)
qed

lemma hex_text_length: "v < 16 ^ Suc k \<Longrightarrow> length (hex_text v) \<le> Suc k"
proof (induction k arbitrary: v)
  case (Suc k)
  have "v div 16 < 16 ^ Suc k" using Suc.prems by (simp add: less_mult_imp_div_less)
  then show ?case using Suc.IH by (subst hex_text.simps) simp
qed (subst hex_text.simps, simp)

lemma loop_xdigits:
  assumes "\<forall>c \<in> set cs. \<exists>d < 16. c = digit_char d" and "seen + length cs \<le> 4"
  shows "\<exists>v'. pton6_loop (cs @ rest) curtok (p6 out c seen v) = pton6_loop rest curtok (p6 out c (seen + length cs) v')"
  using assms
proof (induction cs arbitrary: seen v)
  case (Cons ch cs)
  obtain d where d: "d < 16" "ch = digit_char d" using Cons.prems by auto
  have "pton6_loop ((ch # cs) @ rest) curtok (p6 out c seen v) =
      pton6_loop (cs @ rest) curtok (p6 out c (seen + 1) (push_bit 4 v OR word_of_nat d))"
    using d Cons.prems(2) digit_char_props [of d] by (simp add: xdigit_digit p6_def)
  then show ?case using Cons.IH [of "seen + 1"] Cons.prems by simp
qed auto

lemma loop_hex:
  "v < 2 ^ 16 \<Longrightarrow>
   pton6_loop (hex_text v @ rest) curtok (p6 out c 0 0) = pton6_loop rest curtok (p6 out c (length (hex_text v)) (word_of_nat v))"
proof (induction v arbitrary: rest rule: hex_text.induct)
  case (1 v)
  show ?case
  proof (cases "v < 16")
    case True
    then show ?thesis
      using digit_char_props [of v] by (subst (1 2) hex_text.simps) (simp add: xdigit_digit p6_def)
  next
    case False
    let ?q = "v div 16" and ?d = "v mod 16"
    have d: "?d < 16" "?q * 16 + ?d = v" "?q < 2 ^ 16" using 1(2) by simp_all
    have "?q < 16 ^ Suc 2" using 1(2) by (simp add: less_mult_imp_div_less)
    then have len: "length (hex_text ?q) < 4" using hex_text_length [of ?q 2] by simp
    have "unat (word_of_nat ?d :: u32) < 2 ^ 4" by (simp add: unat_word_of_nat)
    then have "push_bit 4 (word_of_nat ?q) OR word_of_nat ?d = (word_of_nat ?q * 2 ^ 4 + word_of_nat ?d :: u32)"
      by (rule push_bit_or_add)
    also have "\<dots> = word_of_nat (?q * 16 + ?d)" by (simp only: of_nat_add of_nat_mult of_nat_numeral) simp
    finally have val: "push_bit 4 (word_of_nat ?q) OR word_of_nat ?d = (word_of_nat v :: u32)" by (simp only: d(2))
    have t: "hex_text v = hex_text ?q @ [digit_char ?d]" using False by (subst hex_text.simps) simp
    have "pton6_loop (hex_text v @ rest) curtok (p6 out c 0 0) =
        pton6_loop (digit_char ?d # rest) curtok (p6 out c (length (hex_text ?q)) (word_of_nat ?q))"
      unfolding t using 1(1) [OF False d(3), of "digit_char ?d # rest"] by simp
    also have "\<dots> = pton6_loop rest curtok (p6 out c (Suc (length (hex_text ?q))) (word_of_nat v))"
      using d(1) digit_char_props [of ?d] len by (simp add: xdigit_digit p6_def val)
    finally show ?thesis by (simp add: t)
  qed
qed

lemma char_at_hex: "char_at (hex_text v @ rest) 0 \<noteq> 0 \<and> char_at (hex_text v @ rest) 0 \<noteq> 58"
proof -
  have "char_at (hex_text v @ rest) 0 \<in> set (hex_text v)"
    by (metis append_is_Nil_conv char_at_def hex_text_ne length_greater_0_conv nth_append nth_mem)
  then obtain d where "d < 16" "char_at (hex_text v @ rest) 0 = digit_char d" using hex_text_chars by blast
  then show ?thesis using digit_char_props by simp
qed

lemma loop_group:
  assumes "v < 2 ^ 16" and "length out + 2 \<le> 16" and "char_at rest 0 \<noteq> 0"
  shows "pton6_loop (hex_text v @ 58 # rest) curtok (p6 out c 0 0) = pton6_loop rest rest (p6 (out @ be_bytes 2 v) c 0 0)"
proof -
  have "length (hex_text v) \<noteq> 0" by simp
  then have "pton6_loop (58 # rest) curtok (p6 out c (length (hex_text v)) (word_of_nat v)) =
      pton6_loop rest rest ((pton6_put (p6 out c (length (hex_text v)) (word_of_nat v)))\<lparr>p6_seen := 0, p6_val := 0\<rparr>)"
    using assms(2,3) by (simp add: p6_def)
  then show ?thesis
    using loop_hex [OF assms(1)] p6_put [OF assms(2,1)] by (simp add: p6_def)
qed

lemma loop_groups:
  "\<forall>v \<in> set vs. v < 2 ^ 16 \<Longrightarrow> length out + 2 * length vs \<le> 16 \<Longrightarrow> char_at rest 0 \<noteq> 0 \<Longrightarrow>
   pton6_loop (groups_colon vs @ rest) (groups_colon vs @ rest) (p6 out c 0 0) =
   pton6_loop rest rest (p6 (out @ groups_bytes vs) c 0 0)"
proof (induction vs arbitrary: out)
  case (Cons v vs)
  let ?rest = "groups_colon vs @ rest"
  have "char_at ?rest 0 \<noteq> 0" using Cons.prems(3) char_at_hex by (cases vs) auto
  then show ?case
    using loop_group [of v out ?rest _ c] Cons.IH [of "out @ be_bytes 2 v"] Cons.prems by simp
qed simp

lemma loop_colons:
  assumes "\<forall>v \<in> set vs. v < 2 ^ 16" and "length out + 2 * length vs \<le> 16" and "vs \<noteq> []"
  shows "\<exists>st. pton6_loop (colons vs) (colons vs) (p6 out c 0 0) = Inr st \<and> p6_seen st \<noteq> 0 \<and> p6_tp st + 2 \<le> 16 \<and>
    p6_tp (pton6_put st) = length out + 2 * length vs \<and> p6_colonp (pton6_put st) = c \<and>
    p6_tmp (pton6_put st) = out @ groups_bytes vs @ replicate (16 - (length out + 2 * length vs)) 0"
proof -
  obtain us v where vs: "vs = us @ [v]" using assms(3) by (metis rev_exhaust)
  let ?out = "out @ groups_bytes us"
  have l: "length ?out + 2 \<le> 16" using assms(2) vs by simp
  have v: "v < 2 ^ 16" using assms(1) vs by simp
  have "pton6_loop (colons vs) (colons vs) (p6 out c 0 0) = pton6_loop (hex_text v) (hex_text v) (p6 ?out c 0 0)"
    using loop_groups [of us out "hex_text v" c] assms vs char_at_hex [of v "[]"] by (simp add: colons_snoc)
  also have "\<dots> = Inr (p6 ?out c (length (hex_text v)) (word_of_nat v))"
    using loop_hex [OF v, of "[]"] by simp
  finally show ?thesis
    using p6_put [OF l v, of c "length (hex_text v)"] l by (simp add: vs) (simp add: p6_def)
qed


lemma replicate_update_last: "(replicate (Suc g) x) [g := y] = replicate g x @ [y]"
  by (induction g) auto

lemma pton6_shift_step:
  "length A + length B1 + Suc g + length B2 = 16 \<Longrightarrow> n = length B1 + length B2 \<Longrightarrow>
   pton6_shift (A @ B1 @ replicate (Suc g) 0 @ B2) (length A) n (Suc (length B2)) = A @ replicate (Suc g) 0 @ B1 @ B2"
proof (induction B1 arbitrary: B2 rule: rev_induct)
  case Nil
  then show ?case by (subst pton6_shift.simps) simp
next
  case (snoc b C)
  let ?t = "A @ (C @ [b]) @ replicate (Suc g) 0 @ B2"
  have pos: "15 - length B2 = length A + length C + 1 + g" "n - Suc (length B2) = length C"
    using snoc.prems by auto
  have "?t ! (length A + length C) = b" by (simp add: nth_append)
  moreover have "?t [length A + length C + 1 + g := b] = A @ C @ [b] @ replicate g 0 @ b # B2"
    using replicate_update_last [of g 0 b] by (simp add: list_update_append del: replicate_Suc)
  moreover have "(A @ C @ [b] @ replicate g 0 @ b # B2) [length A + length C := 0] = A @ C @ replicate (Suc g) 0 @ b # B2"
    by (simp add: list_update_append)
  ultimately have "pton6_shift ?t (length A) n (Suc (length B2)) =
      pton6_shift (A @ C @ replicate (Suc g) 0 @ b # B2) (length A) n (Suc (length (b # B2)))"
    using snoc.prems(2) by (subst pton6_shift.simps) (simp add: pos del: replicate_Suc)
  then show ?case using snoc.IH [of "b # B2"] snoc.prems by (simp del: replicate_Suc)
qed

lemma pton6_shift_gap:
  assumes "length A + length B + g = 16" and "g \<noteq> 0"
  shows "pton6_shift (A @ B @ replicate g 0) (length A) (length B) 1 = A @ replicate g 0 @ B"
  using pton6_shift_step [of A B "g - 1" "[]" "length B"] assms by simp

definition v6_text :: "nat list \<Rightarrow> nat list \<Rightarrow> byte list" where
  "v6_text pre post = (if pre = [] then [58] else groups_colon pre) @ 58 # colons post"

lemma pton6_full:
  assumes "\<forall>v \<in> set vs. v < 2 ^ 16" and "length vs = 8"
  shows "inet_pton6 (colons vs) = Inr (groups_bytes vs)"
proof -
  have ne: "vs \<noteq> []" using assms(2) by auto
  then obtain v us where "vs = v # us" by (cases vs) auto
  then have "char_at (colons vs) 0 \<noteq> 58" using char_at_hex [of v "58 # colons us"] char_at_hex [of v "[]"] by (cases us) auto
  moreover have "p6 [] None 0 0 = \<lparr>p6_tmp = replicate 16 0, p6_tp = 0, p6_colonp = None, p6_seen = 0, p6_val = 0\<rparr>"
    by (simp add: p6_def)
  ultimately show ?thesis
    using loop_colons [OF assms(1), of "[]" None] assms(2) ne by (auto simp: inet_pton6_def)
qed

lemma inet_pton6_gap:
  assumes st: "char_at src0 0 = 58 \<Longrightarrow> char_at src0 1 = 58"
    and src: "src = (if char_at src0 0 = 58 then drop 1 src0 else src0)"
    and loop: "pton6_loop src src (p6 [] None 0 0) = pton6_loop rest rest (p6 out (Some (length out)) 0 0)"
    and fin: "\<exists>st. pton6_loop rest rest (p6 out (Some (length out)) 0 0) = Inr st \<and> (p6_seen st \<noteq> 0 \<longrightarrow> p6_tp st + 2 \<le> 16) \<and>
      (let st1 = (if p6_seen st \<noteq> 0 then pton6_put st else st) in
        p6_tp st1 = length out + length more' \<and> p6_colonp st1 = Some (length out) \<and>
        p6_tmp st1 = out @ more' @ replicate g 0)"
    and len: "length out + length more' + g = 16" "g \<noteq> 0"
  shows "inet_pton6 src0 = Inr (out @ replicate g 0 @ more')"
proof -
  have p: "p6 [] None 0 0 = \<lparr>p6_tmp = replicate 16 0, p6_tp = 0, p6_colonp = None, p6_seen = 0, p6_val = 0\<rparr>"
    by (simp add: p6_def)
  have "length out + length more' \<noteq> 16" using len by simp
  then show ?thesis
    using fin st pton6_shift_gap [OF len] unfolding inet_pton6_def Let_def src [symmetric] p [symmetric] loop
    by (auto split: if_splits)
qed

lemma pton6_gap:
  assumes "\<forall>v \<in> set (pre @ post). v < 2 ^ 16" and "length pre + length post < 8"
  shows "inet_pton6 (v6_text pre post) =
    Inr (groups_bytes pre @ replicate (16 - 2 * (length pre + length post)) 0 @ groups_bytes post)"
proof (rule inet_pton6_gap [where rest = "colons post"])
  let ?rest = "58 # colons post"
  let ?out = "groups_bytes pre"
  have hd: "pre \<noteq> [] \<Longrightarrow> char_at (v6_text pre post) 0 \<noteq> 58"
    using char_at_hex by (cases pre) (auto simp: v6_text_def)
  show "char_at (v6_text pre post) 0 = 58 \<Longrightarrow> char_at (v6_text pre post) 1 = 58"
    using hd by (cases "pre = []") (auto simp: v6_text_def char_at_def)
  show "groups_colon pre @ ?rest =
      (if char_at (v6_text pre post) 0 = 58 then drop 1 (v6_text pre post) else v6_text pre post)"
    using hd by (cases "pre = []") (auto simp: v6_text_def char_at_def)
  have c: "char_at ?rest 0 \<noteq> 0" by (simp add: char_at_def)
  have "pton6_loop (groups_colon pre @ ?rest) (groups_colon pre @ ?rest) (p6 [] None 0 0) = pton6_loop ?rest ?rest (p6 ?out None 0 0)"
    using loop_groups [of pre "[]" ?rest None] assms c by simp
  also have "\<dots> = pton6_loop (colons post) (colons post) (p6 ?out (Some (length ?out)) 0 0)"
    by (simp add: p6_def)
  finally show "pton6_loop (groups_colon pre @ ?rest) (groups_colon pre @ ?rest) (p6 [] None 0 0) =
      pton6_loop (colons post) (colons post) (p6 ?out (Some (length ?out)) 0 0)" .
  show "\<exists>st. pton6_loop (colons post) (colons post) (p6 ?out (Some (length ?out)) 0 0) = Inr st \<and>
      (p6_seen st \<noteq> 0 \<longrightarrow> p6_tp st + 2 \<le> 16) \<and>
      (let st1 = (if p6_seen st \<noteq> 0 then pton6_put st else st) in
        p6_tp st1 = length ?out + length (groups_bytes post) \<and> p6_colonp st1 = Some (length ?out) \<and>
        p6_tmp st1 = ?out @ groups_bytes post @ replicate (16 - 2 * (length pre + length post)) 0)"
  proof (cases "post = []")
    case True
    then show ?thesis by (simp add: p6_def)
  next
    case False
    then show ?thesis
      using loop_colons [of post ?out "Some (length ?out)"] assms by (auto simp: Let_def algebra_simps)
  qed
qed (use assms(2) in auto)

lemma dotted_chars: "c \<in> set (dotted bs) \<Longrightarrow> c \<noteq> 0 \<and> c \<noteq> 37"
proof (induction bs rule: dotted.induct)
  case (2 b)
  then show ?case using dec_text_chars digit_char_props by fastforce
next
  case (3 b c bs)
  then show ?case using dec_text_chars digit_char_props by fastforce
qed simp

lemma c_str_id: "0 \<notin> set s \<Longrightarrow> c_str s = s"
  unfolding c_str_def by (rule takeWhile_eq_all_conv [THEN iffD2]) metis

lemma dec_text_length: "v < 10 ^ Suc k \<Longrightarrow> length (dec_text v) \<le> Suc k"
proof (induction k arbitrary: v)
  case (Suc k)
  have "v div 10 < 10 ^ Suc k" using Suc.prems by (simp add: less_mult_imp_div_less)
  then show ?case using Suc.IH by (subst dec_text.simps) simp
qed (subst dec_text.simps, simp)

lemma byte_dec_length: "length (dec_text (unat b)) \<le> 3" for b :: byte
  using dec_text_length [of "unat b" 2] byte_less [of b] by simp

lemma addr_Cons:
  assumes "length addr = 4"
  obtains b bs where "addr = b # bs" "bs \<noteq> []"
proof (cases addr)
  case (Cons b bs)
  then have "bs \<noteq> []" using assms by auto
  then show ?thesis using that Cons by blast
qed (use assms in simp)

lemma loop_dotted:
  assumes "length addr = 4" and "length out \<le> 12"
  shows "\<exists>v. pton6_loop (dotted addr) (dotted addr) (p6 out c 0 0) = Inr (p6 (out @ addr) c 0 v)"
proof -
  obtain b bs where b: "addr = b # bs" "bs \<noteq> []" using addr_Cons [OF assms(1)] .
  have "0 \<notin> set (dotted addr)" using dotted_chars by blast
  then have p4: "inet_pton4 (dotted addr) = Inr addr" using assms(1) by (simp add: inet_pton4_iff c_str_id)
  have "\<exists>d < 16. c = digit_char d" if "c \<in> set (dec_text (unat b))" for c
  proof -
    from dec_text_chars [OF that] obtain d where "d < 10" "c = digit_char d" by blast
    then show ?thesis by (intro exI [of _ d]) simp
  qed
  then obtain v where "pton6_loop (dec_text (unat b) @ 46 # dotted bs) (dotted addr) (p6 out c 0 0) =
      pton6_loop (46 # dotted bs) (dotted addr) (p6 out c (length (dec_text (unat b))) v)"
    using loop_xdigits [of "dec_text (unat b)" 0 "46 # dotted bs" "dotted addr" out c 0] byte_dec_length [of b] by auto
  also have "\<dots> = Inr (p6 (out @ addr) c 0 v)"
    using assms p4 by (simp add: p6_def)
  finally show ?thesis using b by (intro exI [of _ v]) (simp add: dotted_Cons)
qed

lemma pton6_v4:
  assumes "\<forall>v \<in> set vs. v < 2 ^ 16" and "length addr = 4" and "length vs < 6"
  shows "inet_pton6 (58 # 58 # groups_colon vs @ dotted addr) =
    Inr (replicate (12 - 2 * length vs) 0 @ groups_bytes vs @ addr)"
proof -
  let ?rest = "groups_colon vs @ dotted addr"
  obtain b bs where b: "addr = b # bs" "bs \<noteq> []" using addr_Cons [OF assms(2)] .
  have "dotted addr \<noteq> []" using b by (simp add: dotted_Cons)
  then have "char_at (dotted addr) 0 \<in> set (dotted addr)" by (simp add: char_at_def)
  then have c: "char_at (dotted addr) 0 \<noteq> 0" using dotted_chars by blast
  have "inet_pton6 (58 # 58 # ?rest) = Inr ([] @ replicate (12 - 2 * length vs) 0 @ (groups_bytes vs @ addr))"
  proof (rule inet_pton6_gap [where rest = ?rest and src = "58 # ?rest"])
    show "pton6_loop (58 # ?rest) (58 # ?rest) (p6 [] None 0 0) = pton6_loop ?rest ?rest (p6 [] (Some (length [])) 0 0)"
      by (simp add: p6_def)
    have "pton6_loop ?rest ?rest (p6 [] (Some 0) 0 0) = pton6_loop (dotted addr) (dotted addr) (p6 (groups_bytes vs) (Some 0) 0 0)"
      using loop_groups [of vs "[]" "dotted addr" "Some 0"] assms c by simp
    moreover obtain v where "pton6_loop (dotted addr) (dotted addr) (p6 (groups_bytes vs) (Some 0) 0 0) =
        Inr (p6 (groups_bytes vs @ addr) (Some 0) 0 v)"
      using loop_dotted [OF assms(2), of "groups_bytes vs" "Some 0"] assms(3) by auto
    ultimately show "\<exists>st. pton6_loop ?rest ?rest (p6 [] (Some (length [])) 0 0) = Inr st \<and>
        (p6_seen st \<noteq> 0 \<longrightarrow> p6_tp st + 2 \<le> 16) \<and>
        (let st1 = (if p6_seen st \<noteq> 0 then pton6_put st else st) in
          p6_tp st1 = length [] + length (groups_bytes vs @ addr) \<and> p6_colonp st1 = Some (length []) \<and>
          p6_tmp st1 = [] @ (groups_bytes vs @ addr) @ replicate (12 - 2 * length vs) 0)"
      using assms(2) by (simp add: p6_def)
  qed (use assms(2,3) in \<open>auto simp: char_at_def\<close>)
  then show ?thesis by simp
qed


end
