(* ===== verification/Oid.thy ===== *)
theory Oid
  imports CbbAsn1 InetParse "HOL-Library.Monad_Syntax"
begin

unbundle bit_operations_syntax

text \<open>
  Object identifiers as text: \<open>CBB_add_asn1_oid_from_text\<close> of \<^verbatim>\<open>bytestring/cbb.c\<close> and \<open>CBS_asn1_oid_to_text\<close> of
  \<^verbatim>\<open>bytestring/cbs.c\<close>. The format \<^verbatim>\<open>%u\<close> prints the decimal text of a number. The parser is shown to
  accept exactly the dotted texts of object identifiers, in one spelling each, and printing to invert it.
\<close>

section \<open>Definitions\<close>

text \<open>The loop ends at the end of the string or at a dot that is not the last character.\<close>

fun parse_dotted_loop :: "CBS \<Rightarrow> u64 \<Rightarrow> bool \<Rightarrow> (u64 \<times> CBS) result" where
  "parse_dotted_loop [] out seen_digit = (if seen_digit then Some (out, []) else None)"
| "parse_dotted_loop (u # cbs) out seen_digit =
     (if u = 0x2e \<and> length cbs > 0 then (if seen_digit then Some (out, cbs) else None)
      else if u < 0x30 \<or> u > 0x39 \<or> (seen_digit \<and> out = 0) \<or> out > 0xffffffffffffffff div 10 \<or>
              out * 10 > 0xffffffffffffffff - ucast (u - 0x30)
      then None
      else parse_dotted_loop cbs (out * 10 + ucast (u - 0x30)) True)"

definition parse_dotted_decimal :: "CBS \<Rightarrow> (u64 \<times> CBS) result" where
  "parse_dotted_decimal cbs = parse_dotted_loop cbs 0 False"

lemma parse_dotted_loop_length:
  "parse_dotted_loop cbs out seen = Some (v, rest) \<Longrightarrow> length rest \<le> length cbs \<and> (\<not> seen \<longrightarrow> length rest < length cbs)"
proof (induction cbs arbitrary: out seen)
  case (Cons u cbs)
  then show ?case by (fastforce split: if_splits)
qed (simp split: if_splits)

lemma parse_dotted_decimal_length: "parse_dotted_decimal cbs = Some (v, rest) \<Longrightarrow> length rest < length cbs"
  using parse_dotted_loop_length unfolding parse_dotted_decimal_def by blast

function oid_components_loop :: "allocator \<Rightarrow> CBB \<Rightarrow> nat \<Rightarrow> CBS \<Rightarrow> cbb_outcome" where
  "oid_components_loop al s d cbs =
     (if length cbs > 0
      then case parse_dotted_decimal cbs of
             None \<Rightarrow> (False, s)
           | Some (a, cbs1) \<Rightarrow> cbb_and (add_base128_integer al s d a) (\<lambda>s1. oid_components_loop al s1 d cbs1)
      else (True, s))"
  by pat_completeness auto
termination
  by (relation "measure (\<lambda>(al, s, d, cbs). length cbs)") (auto dest: parse_dotted_decimal_length)

declare oid_components_loop.simps [simp del]

definition CBB_add_asn1_oid_from_text :: "allocator \<Rightarrow> CBB \<Rightarrow> nat \<Rightarrow> byte list \<Rightarrow> cbb_outcome" where
  "CBB_add_asn1_oid_from_text al s0 d str =
     cbb_and (CBB_flush al s0 d) (\<lambda>s.
       case parse_dotted_decimal str of
         None \<Rightarrow> (False, s)
       | Some (a, cbs1) \<Rightarrow>
           (case parse_dotted_decimal cbs1 of
              None \<Rightarrow> (False, s)
            | Some (b, cbs2) \<Rightarrow>
                if a > 2 \<or> (a < 2 \<and> b > 39) \<or> b > 0xffffffffffffffff - 80 then (False, s)
                else cbb_and (add_base128_integer al s d (40 * a + b)) (\<lambda>s1. oid_components_loop al s1 d cbs2)))"

definition add_decimal :: "allocator \<Rightarrow> CBB \<Rightarrow> nat \<Rightarrow> u64 \<Rightarrow> cbb_outcome" where
  "add_decimal al out d v = CBB_add_bytes al out d (dec_text (unat v))"

lemma parse_base128_length: "parse_base128_integer cbs = Some (v, rest) \<Longrightarrow> length rest < length cbs"
  by (auto simp: parse_base128_iff base128_enc_def)

function oid_text_loop :: "allocator \<Rightarrow> CBB \<Rightarrow> CBS \<Rightarrow> cbb_outcome" where
  "oid_text_loop al s copy =
     (if length copy \<noteq> 0
      then case parse_base128_integer copy of
             None \<Rightarrow> (False, s)
           | Some (v, copy1) \<Rightarrow>
               cbb_and (CBB_add_u8 al s 0 0x2e) (\<lambda>s1. cbb_and (add_decimal al s1 0 v) (\<lambda>s2. oid_text_loop al s2 copy1))
      else (True, s))"
  by pat_completeness auto
termination
  by (relation "measure (\<lambda>(al, s, copy). length copy)") (auto dest: parse_base128_length)

declare oid_text_loop.simps [simp del]

text \<open>The result is the buffer, in which a null byte ends the text.\<close>

definition CBS_asn1_oid_to_text :: "allocator \<Rightarrow> CBS \<Rightarrow> byte list result" where
  "CBS_asn1_oid_to_text al cbs = do {
     cbb \<leftarrow> CBB_init al 32;
     (v, copy) \<leftarrow> parse_base128_integer cbs;
     (case cbb_and
             (if v \<ge> 80
              then cbb_and (CBB_add_bytes al cbb 0 [0x32, 0x2e]) (\<lambda>s. add_decimal al s 0 (v - 80))
              else cbb_and (add_decimal al cbb 0 (v div 40)) (\<lambda>s. cbb_and (CBB_add_u8 al s 0 0x2e) (\<lambda>s. add_decimal al s 0 (v mod 40))))
             (\<lambda>s. cbb_and (oid_text_loop al s copy) (\<lambda>s. CBB_add_u8 al s 0 0)) of
        (False, _) \<Rightarrow> None
      | (True, s) \<Rightarrow> (case CBB_finish al s 0 of Inl _ \<Rightarrow> None | Inr (txt, txt_len) \<Rightarrow> Some txt))
   }"

section \<open>Object identifiers\<close>

fun oid_text :: "nat list \<Rightarrow> byte list" where
  "oid_text [] = []"
| "oid_text [n] = dec_text n"
| "oid_text (n # m # ns) = dec_text n @ 0x2e # oid_text (m # ns)"

definition oid_ok :: "nat list \<Rightarrow> bool" where
  "oid_ok ns \<longleftrightarrow> (\<exists>a b rest. ns = a # b # rest \<and> a \<le> 2 \<and> (a < 2 \<longrightarrow> b \<le> 39) \<and> b < 2 ^ 64 - 80 \<and> (\<forall>n \<in> set rest. n < 2 ^ 64))"

definition oid_der :: "nat list \<Rightarrow> byte list" where
  "oid_der ns = (case ns of a # b # rest \<Rightarrow> base128_enc (40 * a + b) @ concat (map base128_enc rest) | _ \<Rightarrow> [])"

section \<open>The texts\<close>

lemma digit_value: "d < 10 \<Longrightarrow> unat (digit_char d) = 48 + d"
  using byte_word_of_nat [of "48 + d"] by (simp add: digit_char.simps del: of_nat_add)

lemma u64_of_nat: "n < 2 ^ 64 \<Longrightarrow> unat (word_of_nat n :: u64) = n"
  by (simp add: unat_word_of_nat)

lemma digit_step:
  assumes d: "d < 10" and v: "unat out * 10 + d < 2 ^ 64" and nz: "seen \<longrightarrow> out \<noteq> 0"
  shows "parse_dotted_loop (digit_char d # cbs) out seen = parse_dotted_loop cbs (word_of_nat (unat out * 10 + d)) True"
proof -
  have "digit_char d \<noteq> 0x2e" "\<not> digit_char d < 0x30" "\<not> digit_char d > 0x39"
    using digit_value [OF d] d by (auto simp: word_less_nat_alt)
  moreover have u: "unat (ucast (digit_char d - 0x30) :: u64) = d"
    using digit_value [OF d] d by (simp add: unat_ucast_up unat_sub word_le_nat_alt)
  moreover have mul: "unat (out * 10) = unat out * 10" using v unat_mult_lem [of out 10] by simp
  moreover have "\<not> out > 0xffffffffffffffff div 10" using v by (simp add: word_less_nat_alt)
  moreover have "unat (0xffffffffffffffff - ucast (digit_char d - 0x30) :: u64) = 2 ^ 64 - 1 - d"
    using u d by (subst unat_sub) (simp_all add: word_le_nat_alt)
  then have "\<not> out * 10 > 0xffffffffffffffff - ucast (digit_char d - 0x30)" using v mul by (simp add: word_less_nat_alt)
  moreover have "out * 10 + ucast (digit_char d - 0x30) = word_of_nat (unat out * 10 + d)"
  proof (rule word_eqI_unat)
    have "unat (out * 10 + ucast (digit_char d - 0x30)) = unat out * 10 + d"
      using unat_add_lem [of "out * 10" "ucast (digit_char d - 0x30)"] mul u v by simp
    then show "unat (out * 10 + ucast (digit_char d - 0x30)) = unat (word_of_nat (unat out * 10 + d) :: u64)"
      unfolding u64_of_nat [OF v] .
  qed
  ultimately show ?thesis using nz by auto
qed

lemma parse_dotted_dec:
  "v < 2 ^ 64 \<Longrightarrow> parse_dotted_loop (dec_text v @ rest) 0 False = parse_dotted_loop rest (word_of_nat v) True"
proof (induction v arbitrary: rest rule: dec_text.induct)
  case (1 v)
  show ?case
  proof (cases "v < 10")
    case True
    then show ?thesis using digit_step [of v 0 False rest] by (subst dec_text.simps) simp
  next
    case False
    have d: "v mod 10 < 10" "v div 10 * 10 + v mod 10 = v" "v div 10 < 2 ^ 64" "v div 10 \<noteq> 0" using False 1(2) by simp_all
    then have u: "unat (word_of_nat (v div 10) :: u64) = v div 10" by (simp add: unat_word_of_nat)
    then have nz: "(word_of_nat (v div 10) :: u64) \<noteq> 0" using d(4) by (metis unat_0)
    have "dec_text v @ rest = dec_text (v div 10) @ (digit_char (v mod 10) # rest)" using False by (subst dec_text.simps) simp
    then show ?thesis
      using 1(1) [OF False d(3), of "digit_char (v mod 10) # rest"] digit_step [OF d(1), of "word_of_nat (v div 10)" True rest] u nz d(2) 1(2)
      by simp
  qed
qed

text \<open>The parser accepts one spelling of each number.\<close>

lemma parse_dotted_spelling:
  assumes "parse_dotted_loop cbs out seen = Some (v, rest)"
    and "if seen then p = dec_text (unat out) else p = [] \<and> out = 0"
  shows "p @ cbs = dec_text (unat v) @ (if rest = [] then [] else 0x2e # rest)"
  using assms
proof (induction cbs arbitrary: out seen p)
  case Nil
  then show ?case by (auto split: if_splits)
next
  case (Cons u cbs)
  show ?case
  proof (cases "u = 0x2e \<and> length cbs > 0")
    case True
    then show ?thesis using Cons.prems by (auto split: if_splits)
  next
    case False
    then have ok: "\<not> u < 0x30" "\<not> u > 0x39" "\<not> (seen \<and> out = 0)" "\<not> out > 0xffffffffffffffff div 10"
      "\<not> out * 10 > 0xffffffffffffffff - ucast (u - 0x30)"
      and rec: "parse_dotted_loop cbs (out * 10 + ucast (u - 0x30)) True = Some (v, rest)"
      using Cons.prems(1) by (auto split: if_splits)
    define d where "d = unat u - 48"
    have d: "d < 10" "unat u = 48 + d" using ok(1,2) by (auto simp: d_def word_less_nat_alt)
    have u: "u = digit_char d" using d digit_value [OF d(1)] by (intro word_eqI_unat) simp
    have ud: "unat (ucast (u - 0x30) :: u64) = d" using d by (simp add: unat_ucast_up unat_sub word_le_nat_alt)
    have o10: "unat out \<le> 1844674407370955161" using ok(4) by (simp add: word_less_nat_alt)
    then have mul: "unat (out * 10) = unat out * 10" using unat_mult_lem [of out 10] by simp
    have "unat (0xffffffffffffffff - ucast (u - 0x30) :: u64) = 2 ^ 64 - 1 - d"
      using ud d by (subst unat_sub) (simp_all add: word_le_nat_alt)
    then have sum: "unat out * 10 + d < 2 ^ 64" using ok(5) mul d(1) by (simp add: word_less_nat_alt)
    then have new: "unat (out * 10 + ucast (u - 0x30)) = unat out * 10 + d"
      using unat_add_lem [of "out * 10" "ucast (u - 0x30)"] mul ud by simp
    have "p @ [u] = dec_text (unat out * 10 + d)"
    proof (cases seen)
      case True
      then have "unat out \<noteq> 0" using ok(3) by (metis unat_eq_zero)
      then show ?thesis using True Cons.prems(2) dec_text_snoc [OF _ d(1)] u by simp
    next
      case False
      then show ?thesis using Cons.prems(2) d(1) u by (subst dec_text.simps) simp
    qed
    then have "(p @ [u]) @ cbs = dec_text (unat v) @ (if rest = [] then [] else 0x2e # rest)"
      using Cons.IH [OF rec, of "p @ [u]"] new by simp
    then show ?thesis by simp
  qed
qed

lemma parse_dotted_iff:
  "parse_dotted_decimal cbs = Some (v, rest) \<longleftrightarrow> cbs = dec_text (unat v) @ (if rest = [] then [] else 0x2e # rest)"
proof
  assume "parse_dotted_decimal cbs = Some (v, rest)"
  then show "cbs = dec_text (unat v) @ (if rest = [] then [] else 0x2e # rest)"
    using parse_dotted_spelling [of cbs 0 False v rest "[]"] by (simp add: parse_dotted_decimal_def)
next
  assume "cbs = dec_text (unat v) @ (if rest = [] then [] else 0x2e # rest)"
  then show "parse_dotted_decimal cbs = Some (v, rest)"
    using parse_dotted_dec [of "unat v" "if rest = [] then [] else 0x2e # rest"] unat_less_power [of v]
    by (auto simp: parse_dotted_decimal_def)
qed

lemma oid_text_Cons: "oid_text (n # ns) = dec_text n @ (if ns = [] then [] else 0x2e # oid_text ns)"
  by (cases ns) simp_all

lemma oid_text_eq_Nil [simp]: "oid_text ns = [] \<longleftrightarrow> ns = []"
  by (cases ns) (simp_all add: oid_text_Cons)

lemma parse_oid_text: "n < 2 ^ 64 \<Longrightarrow> parse_dotted_decimal (oid_text (n # ns)) = Some (word_of_nat n, oid_text ns)"
  by (simp add: parse_dotted_iff oid_text_Cons unat_word_of_nat)

section \<open>From text\<close>

lemma oid_components_ok:
  assumes "cbb_holds s c ch" and "ample al s N" and "\<forall>n \<in> set ns. n < 2 ^ 64"
    and "length c + length (concat (map base128_enc ns)) \<le> N"
  shows "\<exists>s'. oid_components_loop al s (length ch) (oid_text ns) = (True, s') \<and>
    cbb_holds s' (c @ concat (map base128_enc ns)) ch \<and> ample al s' N"
  using assms
proof (induction ns arbitrary: s c)
  case Nil
  then show ?case by (simp add: oid_components_loop.simps)
next
  case (Cons n ns)
  have n: "unat (word_of_nat n :: u64) = n" using Cons.prems(3) by (simp add: u64_of_nat)
  obtain s1 where s1: "add_base128_integer al s (length ch) (word_of_nat n) = (True, s1)"
    "cbb_holds s1 (c @ base128_enc n) ch" "ample al s1 N"
    using add_base128_ok [OF Cons.prems(1,2), of "word_of_nat n"] Cons.prems(4) n by auto
  obtain s2 where "oid_components_loop al s1 (length ch) (oid_text ns) = (True, s2)"
    "cbb_holds s2 ((c @ base128_enc n) @ concat (map base128_enc ns)) ch" "ample al s2 N"
    using Cons.IH [OF s1(2,3)] Cons.prems(3,4) by auto
  moreover have "oid_text (n # ns) \<noteq> []" by simp
  ultimately show ?case using s1(1) parse_oid_text [of n ns] Cons.prems(3)
    by (subst oid_components_loop.simps) (simp del: oid_text_eq_Nil)
qed

lemma oid_components_sound:
  "fst (oid_components_loop al s d cbs) \<Longrightarrow> \<exists>ns. cbs = oid_text ns \<and> (\<forall>n \<in> set ns. n < 2 ^ 64)"
proof (induction al s d cbs rule: oid_components_loop.induct)
  case (1 al s d cbs)
  show ?case
  proof (cases "cbs = []")
    case True
    then show ?thesis by (intro exI [of _ "[]"]) simp
  next
    case False
    with 1(2) obtain a rest where p: "parse_dotted_decimal cbs = Some (a, rest)"
      by (subst (asm) oid_components_loop.simps) (auto split: option.splits)
    with 1(2) False obtain s1 where "add_base128_integer al s d a = (True, s1)" "fst (oid_components_loop al s1 d rest)"
      by (subst (asm) oid_components_loop.simps) (auto simp: cbb_and_def split: prod.splits if_splits)
    with 1(1) [OF _ p refl] False obtain ns where ns: "rest = oid_text ns" "\<forall>n \<in> set ns. n < 2 ^ 64" by blast
    have "cbs = oid_text (unat a # ns)" using p ns(1) by (simp add: parse_dotted_iff oid_text_Cons)
    then show ?thesis using ns(2) unat_less_power [of a] by (intro exI [of _ "unat a # ns"]) simp
  qed
qed

text \<open>The arithmetic of the first two components.\<close>

lemma first_components:
  fixes a b :: u64
  shows "\<not> (a > 2 \<or> (a < 2 \<and> b > 39) \<or> b > 0xffffffffffffffff - 80) \<longleftrightarrow>
      unat a \<le> 2 \<and> (unat a < 2 \<longrightarrow> unat b \<le> 39) \<and> unat b < 2 ^ 64 - 80"
    and "unat a \<le> 2 \<Longrightarrow> unat b < 2 ^ 64 - 80 \<Longrightarrow> unat (40 * a + b) = 40 * unat a + unat b"
proof -
  show "\<not> (a > 2 \<or> (a < 2 \<and> b > 39) \<or> b > 0xffffffffffffffff - 80) \<longleftrightarrow>
      unat a \<le> 2 \<and> (unat a < 2 \<longrightarrow> unat b \<le> 39) \<and> unat b < 2 ^ 64 - 80"
    by (auto simp: word_less_nat_alt)
  assume a: "unat a \<le> 2" and b: "unat b < 2 ^ 64 - 80"
  then have "unat (40 * a) = 40 * unat a" using unat_mult_lem [of 40 a] by simp
  then show "unat (40 * a + b) = 40 * unat a + unat b" using unat_add_lem [of "40 * a" b] a b by simp
qed

lemma oid_from_text_ok:
  assumes "cbb_holds s c ch" and "ample al s N" and "oid_ok ns" and "length (c @ oid_der ns) \<le> N"
  shows "\<exists>s'. CBB_add_asn1_oid_from_text al s (length ch) (oid_text ns) = (True, s') \<and>
    cbb_holds s' (c @ oid_der ns) ch \<and> ample al s' N"
proof -
  obtain a b rest where ns: "ns = a # b # rest" "a \<le> 2" "a < 2 \<longrightarrow> b \<le> 39" "b < 2 ^ 64 - 80" "\<forall>n \<in> set rest. n < 2 ^ 64"
    using assms(3) by (auto simp: oid_ok_def)
  let ?a = "word_of_nat a :: u64" and ?b = "word_of_nat b :: u64"
  have u: "unat ?a = a" "unat ?b = b" using ns(2,4) by (simp_all add: u64_of_nat)
  have p: "parse_dotted_decimal (oid_text ns) = Some (?a, oid_text (b # rest))"
    "parse_dotted_decimal (oid_text (b # rest)) = Some (?b, oid_text rest)"
    using parse_oid_text [of a "b # rest"] parse_oid_text [of b rest] ns(2,4) by (simp_all add: ns(1))
  have sum: "unat (40 * ?a + ?b) = 40 * a + b" using first_components(2) [of ?a ?b] ns(2,4) u by simp
  have ok: "\<not> (?a > 2 \<or> (?a < 2 \<and> ?b > 39) \<or> ?b > 0xffffffffffffffff - 80)"
    unfolding first_components(1) u using ns by simp
  obtain s1 where s1: "add_base128_integer al s (length ch) (40 * ?a + ?b) = (True, s1)"
    "cbb_holds s1 (c @ base128_enc (40 * a + b)) ch" "ample al s1 N"
    using add_base128_ok [OF assms(1,2), of "40 * ?a + ?b"] assms(4) by (auto simp: sum ns(1) oid_der_def)
  obtain s2 where "oid_components_loop al s1 (length ch) (oid_text rest) = (True, s2)"
    "cbb_holds s2 ((c @ base128_enc (40 * a + b)) @ concat (map base128_enc rest)) ch" "ample al s2 N"
    using oid_components_ok [OF s1(2,3) ns(5)] assms(4) by (auto simp: ns(1) oid_der_def)
  then show ?thesis using s1(1) p ok flush_settled [OF assms(1)] by (simp add: CBB_add_asn1_oid_from_text_def oid_der_def ns(1) del: oid_text.simps)
qed

lemma oid_from_text_sound:
  assumes "fst (CBB_add_asn1_oid_from_text al s d str)"
  shows "\<exists>ns. oid_ok ns \<and> str = oid_text ns"
proof -
  obtain s1 where s1: "CBB_flush al s d = (True, s1)"
    using assms by (auto simp: CBB_add_asn1_oid_from_text_def cbb_and_def split: prod.splits if_splits)
  then obtain a cbs1 b cbs2 where p: "parse_dotted_decimal str = Some (a, cbs1)" "parse_dotted_decimal cbs1 = Some (b, cbs2)"
    "\<not> (a > 2 \<or> (a < 2 \<and> b > 39) \<or> b > 0xffffffffffffffff - 80)"
    and r: "fst (cbb_and (add_base128_integer al s1 d (40 * a + b)) (\<lambda>s. oid_components_loop al s d cbs2))"
    using assms by (auto simp: CBB_add_asn1_oid_from_text_def split: option.splits if_splits)
  from r obtain s2 where "fst (oid_components_loop al s2 d cbs2)" by (auto simp: cbb_and_def split: prod.splits if_splits)
  from oid_components_sound [OF this] obtain ns where ns: "cbs2 = oid_text ns" "\<forall>n \<in> set ns. n < 2 ^ 64" by blast
  have "cbs1 \<noteq> []" using p(2) by (auto simp: parse_dotted_iff)
  then have "str = oid_text (unat a # unat b # ns)" using p(1,2) ns(1) by (simp add: parse_dotted_iff oid_text_Cons)
  moreover have "oid_ok (unat a # unat b # ns)" using p(3) ns(2) unfolding first_components(1) by (simp add: oid_ok_def)
  ultimately show ?thesis by blast
qed

section \<open>To text\<close>

lemma oid_text_loop_ok:
  assumes "cbb_holds s c []" and "ample al s N" and "\<forall>v \<in> set vs. v < 2 ^ 64"
    and "length (c @ concat (map (\<lambda>v. 0x2e # dec_text v) vs)) \<le> N"
  shows "\<exists>s'. oid_text_loop al s (concat (map base128_enc vs)) = (True, s') \<and>
    cbb_holds s' (c @ concat (map (\<lambda>v. 0x2e # dec_text v) vs)) [] \<and> ample al s' N"
  using assms
proof (induction vs arbitrary: s c)
  case Nil
  then show ?case by (simp add: oid_text_loop.simps)
next
  case (Cons v vs)
  have v: "unat (word_of_nat v :: u64) = v" using Cons.prems(3) by (simp add: u64_of_nat)
  obtain s1 where s1: "CBB_add_u8 al s 0 0x2e = (True, s1)" "cbb_holds s1 (c @ [0x2e]) []" "ample al s1 N"
    using add_u8_ok [OF Cons.prems(1,2), of "0x2e"] Cons.prems(4) by auto
  obtain s2 where s2: "add_decimal al s1 0 (word_of_nat v) = (True, s2)" "cbb_holds s2 ((c @ [0x2e]) @ dec_text v) []" "ample al s2 N"
    using add_bytes_ok [OF s1(2,3), of "dec_text v"] Cons.prems(4) v by (auto simp: add_decimal_def)
  obtain s3 where "oid_text_loop al s2 (concat (map base128_enc vs)) = (True, s3)"
    "cbb_holds s3 (((c @ [0x2e]) @ dec_text v) @ concat (map (\<lambda>v. 0x2e # dec_text v) vs)) []" "ample al s3 N"
    using Cons.IH [OF s2(2,3)] Cons.prems(3,4) by auto
  moreover have "parse_base128_integer (base128_enc v @ concat (map base128_enc vs)) = Some (word_of_nat v, concat (map base128_enc vs))"
    by (simp add: parse_base128_iff v)
  moreover have "base128_enc v \<noteq> []" by (simp add: base128_enc_def)
  ultimately show ?case using s1(1) s2(1) by (subst oid_text_loop.simps) simp
qed

lemma oid_text_from_second: "oid_text (a # b # rest) = dec_text a @ 0x2e # dec_text b @ concat (map (\<lambda>v. 0x2e # dec_text v) rest)"
proof -
  have "oid_text (n # ns) = dec_text n @ concat (map (\<lambda>v. 0x2e # dec_text v) ns)" for n ns
    by (induction ns arbitrary: n) (simp_all add: oid_text_Cons)
  then show ?thesis by (simp add: oid_text_Cons)
qed

lemma oid_text_printable: "0 \<notin> set (oid_text ns)"
proof (induction ns)
  case (Cons n ns)
  have "0 \<notin> set (dec_text n)" using dec_text_chars [of 0 n] digit_char_props by fastforce
  then show ?case using Cons by (auto simp: oid_text_Cons)
qed simp

lemma oid_to_text_ok:
  assumes al: "alloc_total al" and "oid_ok ns" and len: "length (oid_text ns) < 2 ^ 60"
  shows "\<exists>buf. CBS_asn1_oid_to_text al (oid_der ns) = Some buf \<and> c_str buf = oid_text ns"
proof -
  obtain a b rest where ns: "ns = a # b # rest" "a \<le> 2" "a < 2 \<longrightarrow> b \<le> 39" "b < 2 ^ 64 - 80" "\<forall>n \<in> set rest. n < 2 ^ 64"
    using assms(2) by (auto simp: oid_ok_def)
  let ?N = "length (oid_text ns) + 1"
  let ?rest = "concat (map (\<lambda>v. 0x2e # dec_text v) rest)"
  have str: "oid_text ns = dec_text a @ 0x2e # dec_text b @ ?rest" unfolding ns(1) by (rule oid_text_from_second)
  have "40 * a + b < 2 ^ 64" using ns(2,4) by linarith
  then obtain v :: u64 where v: "unat v = 40 * a + b" using u64_of_nat by blast
  have "(32 :: nat) < 2 ^ 63" by simp
  from malloc_total [OF al this] obtain bs where "OPENSSL_malloc al 32 = Some bs" .
  then obtain s where s: "CBB_init al 32 = Some s" by (simp add: CBB_init_def cbb_init_def)
  have "alloc_spec al" using al by (simp add: alloc_total_def)
  from sim_init [OF this _ s] have h: "cbb_holds s [] []" and cap: "cb_can_resize s" "cb_cap s = 32" by simp_all
  have N: "ample al s ?N" using cap al len by (simp add: ample_def)
  have "\<exists>s1. (if v \<ge> 80
      then cbb_and (CBB_add_bytes al s 0 [0x32, 0x2e]) (\<lambda>s. add_decimal al s 0 (v - 80))
      else cbb_and (add_decimal al s 0 (v div 40)) (\<lambda>s. cbb_and (CBB_add_u8 al s 0 0x2e) (\<lambda>s. add_decimal al s 0 (v mod 40)))) = (True, s1) \<and>
    cbb_holds s1 (dec_text a @ 0x2e # dec_text b) [] \<and> ample al s1 ?N" (is "\<exists>s1. ?first = _ \<and> _")
  proof (cases "a = 2")
    case True
    have ge: "v \<ge> 80" using v True by (simp add: word_le_nat_alt)
    have "unat (v - 80) = unat v - 80" using unat_sub [OF ge] by simp
    then have d: "unat (v - 80) = b" using v True by linarith
    have two: "dec_text a = [0x32]" using True by (simp add: dec_text.simps digit_char.simps)
    obtain s1 where s1: "CBB_add_bytes al s 0 [0x32, 0x2e] = (True, s1)" "cbb_holds s1 [0x32, 0x2e] []" "ample al s1 ?N"
      using add_bytes_ok [OF h N, of "[0x32, 0x2e]"] str two by auto
    obtain s2 where "CBB_add_bytes al s1 0 (dec_text b) = (True, s2)" "cbb_holds s2 ([0x32, 0x2e] @ dec_text b) []" "ample al s2 ?N"
      using add_bytes_ok [OF s1(2,3), of "dec_text b"] str two by auto
    then show ?thesis using s1(1) ge d two by (simp add: add_decimal_def)
  next
    case False
    then have lt: "40 * a + b < 80" "b < 40" using ns(2,3) by auto
    have less: "\<not> v \<ge> 80" using v lt by (simp add: word_le_nat_alt)
    have d: "unat (v div 40) = a" "unat (v mod 40) = b" using v lt by (simp_all add: unat_div unat_mod)
    obtain s1 where s1: "CBB_add_bytes al s 0 (dec_text a) = (True, s1)" "cbb_holds s1 (dec_text a) []" "ample al s1 ?N"
      using add_bytes_ok [OF h N, of "dec_text a"] str by auto
    obtain s2 where s2: "CBB_add_u8 al s1 0 0x2e = (True, s2)" "cbb_holds s2 (dec_text a @ [0x2e]) []" "ample al s2 ?N"
      using add_u8_ok [OF s1(2,3), of "0x2e"] str by auto
    obtain s3 where "CBB_add_bytes al s2 0 (dec_text b) = (True, s3)" "cbb_holds s3 ((dec_text a @ [0x2e]) @ dec_text b) []" "ample al s3 ?N"
      using add_bytes_ok [OF s2(2,3), of "dec_text b"] str by auto
    then show ?thesis using s1(1) s2(1) less d by (simp add: add_decimal_def)
  qed
  then obtain s1 where s1: "?first = (True, s1)" "cbb_holds s1 (dec_text a @ 0x2e # dec_text b) []" "ample al s1 ?N" by blast
  obtain s2 where s2: "oid_text_loop al s1 (concat (map base128_enc rest)) = (True, s2)"
    "cbb_holds s2 (oid_text ns) []" "ample al s2 ?N"
    using oid_text_loop_ok [OF s1(2,3) ns(5)] by (auto simp: str)
  obtain s3 where s3: "CBB_add_u8 al s2 0 0 = (True, s3)" "cbb_holds s3 (oid_text ns @ [0]) []" "ample al s3 ?N"
    using add_u8_ok [OF s2(2,3), of 0] by auto
  obtain buf where buf: "CBB_finish al s3 0 = Inr (buf, ?N)" "take ?N buf = oid_text ns @ [0]"
    using finish_ok [of s3 "oid_text ns @ [0]" "[]" al ?N] s3(2,3) by auto
  have "buf = (oid_text ns @ [0]) @ drop ?N buf" using buf(2) by (metis append_take_drop_id)
  then have "c_str buf = takeWhile (\<lambda>c. c \<noteq> 0) (oid_text ns @ 0 # drop ?N buf)" by (simp add: c_str_def)
  also have "\<dots> = oid_text ns" using oid_text_printable [of ns] by (subst takeWhile_append2) auto
  finally have "c_str buf = oid_text ns" .
  moreover have "parse_base128_integer (oid_der ns) = Some (v, concat (map base128_enc rest))"
    unfolding parse_base128_iff v by (simp add: ns(1) oid_der_def)
  then have "CBS_asn1_oid_to_text al (oid_der ns) = Some buf"
    by (simp only: CBS_asn1_oid_to_text_def s Option.bind.simps prod.case s1(1) cbb_and_True s2(1) s3(1) buf(1)
        bool.case sum.case)
  ultimately show ?thesis by blast
qed

text \<open>A component takes at most ten bytes, and at least one character.\<close>

lemma base128_enc_length: "n < 2 ^ 64 \<Longrightarrow> length (base128_enc n) \<le> 10"
  using length_base128_hi [of "n div 128" 9] by (simp add: base128_enc_def div_less_iff_less_mult)

lemma oid_der_length:
  assumes "oid_ok ns"
  shows "length (oid_der ns) \<le> 10 * length (oid_text ns)"
proof -
  obtain a b rest where ns: "ns = a # b # rest" "a \<le> 2" "b < 2 ^ 64 - 80" "\<forall>n \<in> set rest. n < 2 ^ 64"
    using assms by (auto simp: oid_ok_def)
  have ne: "1 \<le> length (dec_text n)" for n by (simp add: Suc_le_eq)
  have "length (concat (map base128_enc rest)) \<le> 10 * length (concat (map (\<lambda>v. 0x2e # dec_text v) rest))"
    using ns(4)
  proof (induction rest)
    case (Cons n rest)
    then show ?case using base128_enc_length [of n] ne [of n] by simp
  qed simp
  moreover have "length (base128_enc (40 * a + b)) \<le> 10" using ns(2,3) by (intro base128_enc_length) linarith
  ultimately show ?thesis using ne [of a] by (simp add: ns(1) oid_der_def oid_text_from_second del: oid_text.simps)
qed

section \<open>Properties\<close>

text \<open>
  C7. The parser of object identifiers is exact. With room for the encoding, \<open>CBB_add_asn1_oid_from_text\<close> succeeds
  on a text if and only if it is the dotted text of an object identifier (at least two components, the first
  at most 2, the second at most 39 below that, all of them 64-bit numbers without leading zeros),
  and then it appends exactly the base-128 encodings of the components.
\<close>

theorem oid_from_text_exact:
  assumes "cbb_holds s c ch" and "ample al s N" and "length c + 10 * length str \<le> N"
  shows "(fst (CBB_add_asn1_oid_from_text al s (length ch) str) \<longleftrightarrow> (\<exists>ns. oid_ok ns \<and> str = oid_text ns)) \<and>
    (\<forall>ns. oid_ok ns \<and> str = oid_text ns \<longrightarrow>
      cbb_holds (snd (CBB_add_asn1_oid_from_text al s (length ch) str)) (c @ oid_der ns) ch)"
proof -
  have "length (c @ oid_der ns) \<le> N" if "oid_ok ns" "str = oid_text ns" for ns
    using oid_der_length [OF that(1)] that(2) assms(3) by simp
  then have "fst (CBB_add_asn1_oid_from_text al s (length ch) str) \<and>
      cbb_holds (snd (CBB_add_asn1_oid_from_text al s (length ch) str)) (c @ oid_der ns) ch"
    if "oid_ok ns" "str = oid_text ns" for ns
    using oid_from_text_ok [OF assms(1,2), of ns] that by fastforce
  then show ?thesis using oid_from_text_sound [of al s "length ch" str] by blast
qed

text \<open>
  C6. Object identifiers survive both conversions. What \<open>CBB_add_asn1_oid_from_text\<close> appends for the text of an
  object identifier, \<open>CBS_asn1_oid_to_text\<close> prints as the same text.
\<close>

theorem oid_text_roundtrip:
  assumes "cbb_holds s c ch" and "ample al s N" and "oid_ok ns" and "length (c @ oid_der ns) \<le> N"
    and "alloc_total al'" and "length (oid_text ns) < 2 ^ 60"
  shows "\<exists>s' x buf. CBB_add_asn1_oid_from_text al s (length ch) (oid_text ns) = (True, s') \<and> cbb_holds s' (c @ x) ch \<and>
    CBS_asn1_oid_to_text al' x = Some buf \<and> c_str buf = oid_text ns"
  using oid_from_text_ok [OF assms(1-4)] oid_to_text_ok [OF assms(5,3,6)] by blast

section \<open>Witnesses\<close>

definition example_cbb :: CBB where
  "example_cbb = \<lparr>cb_buf = replicate 200 0, cb_len = 0, cb_cap = 200, cb_can_resize = False, cb_error = False, cb_chain = []\<rparr>"

lemma example_cbb_ok: "cbb_holds example_cbb [] []" "ample zero_alloc example_cbb 200"
  by (simp_all add: example_cbb_def cbb_holds_def ample_def)

lemma example_oid: "oid_ok [1, 2, 840]" "oid_text [1, 2, 840] = [0x31, 0x2e, 0x32, 0x2e, 0x38, 0x34, 0x30]"
  by (simp_all add: oid_ok_def dec_text.simps digit_char.simps)

theorem oid_from_text_exact_witness:
  "cbb_holds (snd (CBB_add_asn1_oid_from_text zero_alloc example_cbb 0 [0x31, 0x2e, 0x32, 0x2e, 0x38, 0x34, 0x30])) (oid_der [1, 2, 840]) []"
proof -
  let ?str = "[0x31, 0x2e, 0x32, 0x2e, 0x38, 0x34, 0x30] :: byte list"
  have "length ([] :: byte list) + 10 * length ?str \<le> 200" by simp
  from oid_from_text_exact [OF example_cbb_ok this] show ?thesis
    unfolding list.size append_Nil using example_oid by metis
qed

theorem oid_text_roundtrip_witness:
  "\<exists>s' x buf. CBB_add_asn1_oid_from_text zero_alloc example_cbb 0 (oid_text [1, 2, 840]) = (True, s') \<and>
    CBS_asn1_oid_to_text zero_alloc x = Some buf \<and> c_str buf = oid_text [1, 2, 840]"
proof -
  have "alloc_total zero_alloc" by (simp add: alloc_total_def) (simp add: zero_alloc_def)
  moreover have "length ([] @ oid_der [1, 2, 840]) \<le> 200" using oid_der_length [OF example_oid(1)] unfolding example_oid(2) by simp
  ultimately show ?thesis
    using oid_text_roundtrip [OF example_cbb_ok example_oid(1), of zero_alloc] unfolding example_oid(2) by fastforce
qed

end
