(* ===== verification/Qsort.thy ===== *)
theory Qsort
  imports Main "HOL-Library.Multiset"
begin

text \<open>
  Comparison functions and \<open>qsort\<close> of the C library, which the stack and the builder of byte strings call. What
  \<open>qsort\<close> promises is the locale \<open>sorter\<close>; an insertion sort shows that the promise can be kept.
\<close>

type_synonym 'a cmp = "'a \<Rightarrow> 'a \<Rightarrow> int"

text \<open>What a comparison function must satisfy: it is the comparison of a total preorder.\<close>

definition cmp_order :: "'a cmp \<Rightarrow> bool" where
  "cmp_order cmp \<longleftrightarrow>
     (\<forall>a b. cmp a b > 0 \<longleftrightarrow> cmp b a < 0) \<and>
     (\<forall>a b c. cmp a b \<le> 0 \<longrightarrow> cmp b c \<le> 0 \<longrightarrow> cmp a c \<le> 0)"

definition cmp_sorted :: "'a cmp \<Rightarrow> 'a list \<Rightarrow> bool" where
  "cmp_sorted cmp xs \<longleftrightarrow> sorted_wrt (\<lambda>a b. cmp a b \<le> 0) xs"

text \<open>What C promises of \<open>qsort\<close>: a permutation, sorted when the comparison is an order.\<close>

locale sorter =
  fixes qs :: "'a cmp \<Rightarrow> 'a list \<Rightarrow> 'a list"
  assumes qs_perm: "mset (qs cmp xs) = mset xs"
    and qs_sorted: "cmp_order cmp \<Longrightarrow> cmp_sorted cmp (qs cmp xs)"
begin

lemma qs_length: "length (qs cmp xs) = length xs"
  using qs_perm [of cmp xs] by (metis size_mset)

end

text \<open>An insertion sort keeps the promise.\<close>

fun cmp_insort :: "'a cmp \<Rightarrow> 'a \<Rightarrow> 'a list \<Rightarrow> 'a list" where
  "cmp_insort cmp x [] = [x]"
| "cmp_insort cmp x (y # ys) = (if cmp x y \<le> 0 then x # y # ys else y # cmp_insort cmp x ys)"

definition cmp_sort :: "'a cmp \<Rightarrow> 'a list \<Rightarrow> 'a list" where
  "cmp_sort cmp xs = foldr (cmp_insort cmp) xs []"

lemma cmp_insort_mset: "mset (cmp_insort cmp x ys) = add_mset x (mset ys)"
  by (induction ys) auto

lemma cmp_insort_sorted:
  assumes "cmp_order cmp" and "cmp_sorted cmp ys"
  shows "cmp_sorted cmp (cmp_insort cmp x ys)"
  using assms(2)
proof (induction ys)
  case (Cons y ys)
  have set: "set (cmp_insort cmp x ys) = insert x (set ys)"
    using cmp_insort_mset [of cmp x ys] by (metis set_mset_add_mset_insert set_mset_mset)
  show ?case
  proof (cases "cmp x y \<le> 0")
    case True
    then have "cmp x z \<le> 0" if "z \<in> set ys" for z
      using that Cons.prems assms(1) by (auto simp: cmp_sorted_def cmp_order_def)
    then show ?thesis using True Cons.prems by (auto simp: cmp_sorted_def)
  next
    case False
    then have "cmp y x \<le> 0" using assms(1) by (metis cmp_order_def less_imp_le not_less)
    then show ?thesis using False Cons set by (auto simp: cmp_sorted_def)
  qed
qed (simp add: cmp_sorted_def)

interpretation insertion: sorter cmp_sort
proof
  show "mset (cmp_sort cmp xs) = mset xs" for cmp xs
    by (induction xs) (auto simp: cmp_sort_def cmp_insort_mset)
  show "cmp_order cmp \<Longrightarrow> cmp_sorted cmp (cmp_sort cmp xs)" for cmp xs
    by (induction xs) (auto simp: cmp_sort_def cmp_insort_sorted, simp add: cmp_sorted_def)
qed

end
