(* ===== verification/SetOf.thy ===== *)
theory SetOf
  imports CbbAsn1 Qsort "HOL-Library.List_Lexorder"
begin

text \<open>
  \<open>CBB_flush_asn1_set_of\<close> of \<^verbatim>\<open>bytestring/cbb.c\<close>, which puts the elements of a SET OF in the order that DER asks
  for. \<open>qsort\<close> of the C library is the parameter \<open>qs\<close>, with the contract \<open>sorter\<close>.
\<close>

section \<open>Definitions\<close>

text \<open>\<open>memcmp\<close> of two blocks of the same size; only its sign is specified.\<close>

fun memcmp :: "byte list \<Rightarrow> byte list \<Rightarrow> int" where
  "memcmp (a # as) (b # bs) = (if a = b then memcmp as bs else uint a - uint b)"
| "memcmp _ _ = 0"

definition compare_set_of_element :: "CBS \<Rightarrow> CBS \<Rightarrow> int" where
  "compare_set_of_element a b =
     (let a_len = length a; b_len = length b;
          min_len = (if a_len < b_len then a_len else b_len);
          ret = memcmp (take min_len a) (take min_len b)
      in if ret \<noteq> 0 then ret
         else if a_len = b_len then 0
         else if a_len < b_len then - 1 else 1)"

lemma any_element_length: "CBS_get_any_asn1_element cbs = Some (el, rest) \<Longrightarrow> length rest < length cbs"
  using length_der_tag(1) by (auto simp: get_any_asn1_element_iff der_tlv_def)

function count_children :: "CBS \<Rightarrow> nat \<Rightarrow> nat result" where
  "count_children cbs num_children =
     (if length cbs \<noteq> 0
      then case CBS_get_any_asn1_element cbs of
             None \<Rightarrow> None
           | Some (_, rest) \<Rightarrow> count_children rest (num_children + 1)
      else Some num_children)"
  by pat_completeness auto
termination
  by (relation "measure (\<lambda>(cbs, n). length cbs)") (auto dest: any_element_length)

declare count_children.simps [simp del]

fun take_children :: "CBS \<Rightarrow> nat \<Rightarrow> CBS list result" where
  "take_children cbs 0 = Some []"
| "take_children cbs (Suc n) =
     (case CBS_get_any_asn1_element cbs of
        None \<Rightarrow> None
      | Some (el, rest) \<Rightarrow> map_option ((#) (el_out el)) (take_children rest n))"

fun add_children :: "allocator \<Rightarrow> CBB \<Rightarrow> nat \<Rightarrow> CBS list \<Rightarrow> cbb_outcome" where
  "add_children al s d [] = (True, s)"
| "add_children al s d (e # es) = cbb_and (CBB_add_bytes al s d e) (\<lambda>s1. add_children al s1 d es)"

text \<open>A \<open>CBS\<close> has 16 bytes.\<close>

definition CBB_flush_asn1_set_of ::
    "(CBS cmp \<Rightarrow> CBS list \<Rightarrow> CBS list) \<Rightarrow> allocator \<Rightarrow> CBB \<Rightarrow> nat \<Rightarrow> cbb_outcome" where
  "CBB_flush_asn1_set_of qs al s0 d =
     cbb_and (CBB_flush al s0 d) (\<lambda>s.
       let buf_len = CBB_len s d; cbs = take buf_len (CBB_data s d) in
       case count_children cbs 0 of
         None \<Rightarrow> (False, s)
       | Some num_children \<Rightarrow>
           if num_children < 2 then (True, s)
           else if num_children > (SIZE_BOUND - 1) div 16 then (False, s)
           else (case (OPENSSL_memdup al (CBB_data s d) buf_len, OPENSSL_malloc al (num_children * 16)) of
                   (Some buf, Some _) \<Rightarrow>
                     (case take_children (take buf_len buf) num_children of
                        None \<Rightarrow> (False, s)
                      | Some children \<Rightarrow>
                          add_children al (s\<lparr>cb_len := cbb_start s d\<rparr>) d (qs compare_set_of_element children))
                 | _ \<Rightarrow> (False, s)))"

section \<open>The order\<close>

text \<open>The comparison is the lexicographic order of X.690, section 11.6.\<close>

lemma compare_set_of_simps [simp]:
  "compare_set_of_element [] [] = 0"
  "compare_set_of_element [] (y # b) = - 1"
  "compare_set_of_element (x # a) [] = 1"
  "compare_set_of_element (x # a) (y # b) = (if x = y then compare_set_of_element a b else uint x - uint y)"
  by (auto simp: compare_set_of_element_def Let_def word_uint_eq_iff)

lemma compare_set_of_le: "compare_set_of_element a b \<le> 0 \<longleftrightarrow> a \<le> b"
proof (induction a arbitrary: b)
  case Nil
  then show ?case by (cases b) simp_all
next
  case (Cons x a)
  then show ?case by (cases b) (auto simp: word_less_def word_uint_eq_iff)
qed

lemma compare_set_of_swap: "compare_set_of_element b a = - compare_set_of_element a b"
proof (induction a arbitrary: b)
  case Nil
  then show ?case by (cases b) simp_all
next
  case (Cons x a)
  then show ?case by (cases b) simp_all
qed

lemma compare_set_of_order: "cmp_order compare_set_of_element"
  unfolding cmp_order_def
proof (intro conjI allI impI)
  show "compare_set_of_element a b > 0 \<longleftrightarrow> compare_set_of_element b a < 0" for a b
    using compare_set_of_swap [of a b] by simp
  show "compare_set_of_element a c \<le> 0" if "compare_set_of_element a b \<le> 0" "compare_set_of_element b c \<le> 0" for a b c
    using that unfolding compare_set_of_le by (rule order_trans)
qed

lemma cmp_sorted_sorted: "cmp_sorted compare_set_of_element es \<longleftrightarrow> sorted es"
  by (simp add: cmp_sorted_def compare_set_of_le sorted_wrt_iff_nth_less sorted_iff_nth_mono_less)

section \<open>The elements\<close>

definition der_element :: "byte list \<Rightarrow> bool" where
  "der_element e \<longleftrightarrow> (\<exists>t body. length body < 2 ^ 32 \<and> e = der_tlv t body)"

lemma der_element_get:
  assumes "der_element e"
  shows "\<exists>el. CBS_get_any_asn1_element (e @ rest) = Some (el, rest) \<and> el_out el = e"
proof -
  obtain t body where e: "length body < 2 ^ 32" "e = der_tlv t body" using assms by (auto simp: der_element_def)
  let ?el = "\<lparr>el_out = der_tlv t body, el_tag = t, el_header_len = length (der_tag t) + length (der_len (length body)),
    el_ber_found = False\<rparr>"
  have "CBS_get_any_asn1_element (e @ rest) = Some (?el, rest)" unfolding get_any_asn1_element_iff using e by blast
  then show ?thesis using e(2) by (intro exI [of _ ?el]) simp
qed

lemma get_der_element:
  assumes "CBS_get_any_asn1_element cbs = Some (el, rest)"
  shows "der_element (el_out el)" "cbs = el_out el @ rest"
proof -
  obtain t body where "length body < 2 ^ 32" "cbs = der_tlv t body @ rest" "el_out el = der_tlv t body"
    using assms by (auto simp: get_any_asn1_element_iff)
  then show "der_element (el_out el)" "cbs = el_out el @ rest" unfolding der_element_def by auto
qed

lemma der_element_ne: "der_element e \<Longrightarrow> e \<noteq> []"
  using length_der_tag(1) by (auto simp: der_element_def der_tlv_def)

lemma count_children_ok: "list_all der_element es \<Longrightarrow> count_children (concat es) n = Some (n + length es)"
proof (induction es arbitrary: n)
  case (Cons e es)
  obtain el where "CBS_get_any_asn1_element (e @ concat es) = Some (el, concat es)"
    using der_element_get [of e "concat es"] Cons.prems by auto
  then show ?case using Cons der_element_ne [of e] by (subst count_children.simps) simp
qed (simp add: count_children.simps)

lemma count_children_sound: "count_children cbs n = Some m \<Longrightarrow> \<exists>es. list_all der_element es \<and> cbs = concat es"
proof (induction cbs n rule: count_children.induct)
  case (1 cbs n)
  show ?case
  proof (cases "cbs = []")
    case True
    then show ?thesis by (intro exI [of _ "[]"]) simp
  next
    case False
    with 1(2) obtain el rest where g: "CBS_get_any_asn1_element cbs = Some (el, rest)" "count_children rest (n + 1) = Some m"
      by (subst (asm) count_children.simps) (auto split: option.splits)
    with 1(1) [OF _ g(1) refl] False obtain es where "list_all der_element es" "rest = concat es" by auto
    then show ?thesis using get_der_element [OF g(1)] by (intro exI [of _ "el_out el # es"]) simp
  qed
qed

lemma take_children_ok: "list_all der_element es \<Longrightarrow> take_children (concat es) (length es) = Some es"
proof (induction es)
  case (Cons e es)
  obtain el where "CBS_get_any_asn1_element (e @ concat es) = Some (el, concat es)" "el_out el = e"
    using der_element_get [of e "concat es"] Cons.prems by auto
  then show ?case using Cons by simp
qed simp

lemma add_children_ok:
  assumes "cbb_holds s c ch" and "ample al s N" and "length (c @ concat es) \<le> N"
  shows "\<exists>s'. add_children al s (length ch) es = (True, s') \<and> cbb_holds s' (c @ concat es) ch \<and> ample al s' N"
  using assms
proof (induction es arbitrary: s c)
  case (Cons e es)
  obtain s1 where s1: "CBB_add_bytes al s (length ch) e = (True, s1)" "cbb_holds s1 (c @ e) ch" "ample al s1 N"
    using add_bytes_ok [OF Cons.prems(1,2), of e] Cons.prems(3) by auto
  then show ?case using Cons.IH [OF s1(2,3)] Cons.prems(3) by auto
qed auto

lemma length_concat_elements: "list_all der_element es \<Longrightarrow> length es \<le> length (concat es)"
proof (induction es)
  case (Cons e es)
  then show ?case using der_element_ne [of e] by (cases e) simp_all
qed simp

section \<open>Properties\<close>

text \<open>
  C8. The elements of a SET OF are sorted. If the contents of a \<open>CBB\<close> are DER elements, \<open>CBB_flush_asn1_set_of\<close>
  leaves the same elements, with their multiplicity, in ascending lexicographic order and nothing else
  changed; if they are not, it fails and changes nothing. This holds for every \<open>qsort\<close> that keeps its contract.
\<close>

theorem CBB_flush_asn1_set_of_sorts:
  assumes "sorter qs" and h: "cbb_holds s (c @ body) ch" and start: "cbb_start s (length ch) = length c"
    and N: "ample al s (length (c @ body))" and al: "alloc_total al" and small: "length body < 2 ^ 58"
  shows "(\<forall>es. list_all der_element es \<and> body = concat es \<longrightarrow>
      (\<exists>s' es'. CBB_flush_asn1_set_of qs al s (length ch) = (True, s') \<and> cbb_holds s' (c @ concat es') ch \<and>
         mset es' = mset es \<and> sorted es')) \<and>
    ((\<nexists>es. list_all der_element es \<and> body = concat es) \<longrightarrow> CBB_flush_asn1_set_of qs al s (length ch) = (False, s))"
proof -
  let ?d = "length ch"
  have len: "CBB_len s ?d = length body" using start cbb_holds_len [OF h] by (simp add: CBB_len_def)
  have buf: "take (length c + length body) (cb_buf s) = c @ body"
    using h cbb_holds_len [OF h] by (simp add: cbb_holds_def)
  have data: "take (length body) (CBB_data s ?d) = body"
    unfolding CBB_data_def start using buf by (metis append_eq_conv_conj drop_take add_diff_cancel_left')
  have flush: "CBB_flush al s ?d = (True, s)" by (rule flush_settled [OF h])
  have sorts: "\<exists>s' es'. CBB_flush_asn1_set_of qs al s ?d = (True, s') \<and> cbb_holds s' (c @ concat es') ch \<and> mset es' = mset es \<and> sorted es'"
    if es: "list_all der_element es" "body = concat es" for es
  proof -
    have count: "count_children body 0 = Some (length es)" using count_children_ok [OF es(1), of 0] es(2) by simp
    show ?thesis
    proof (cases "length es < 2")
      case True
      then have "sorted es" by (cases es) (auto simp: less_Suc_eq)
      moreover have "CBB_flush_asn1_set_of qs al s ?d = (True, s)"
        using True count by (simp add: CBB_flush_asn1_set_of_def flush len data Let_def)
      ultimately show ?thesis using h es(2) by (intro exI [of _ s] exI [of _ es]) simp
    next
      case False
      have n: "length es < 2 ^ 58" using length_concat_elements [OF es(1)] es(2) small by simp
      have "length es * 16 < 2 ^ 63" "length body < 2 ^ 63" using n small by simp_all
      then obtain m1 m2 where m: "OPENSSL_malloc al (length body) = Some m1" "OPENSSL_malloc al (length es * 16) = Some m2"
        using malloc_total [OF al] by metis
      have "length es \<noteq> 0" using False by (cases es) simp_all
      then have ne: "length body \<noteq> 0" unfolding es(2) using length_concat_elements [OF es(1)] by linarith
      have dup: "OPENSSL_memdup al (CBB_data s ?d) (length body) = Some (body @ drop (length body) m1)"
        using m(1) ne data by (simp add: OPENSSL_memdup_def)
      let ?es = "qs compare_set_of_element es"
      have perm: "mset ?es = mset es" using sorter.qs_perm [OF assms(1)] by metis
      have "length (concat ?es) = length (concat es)"
        unfolding length_concat using perm by (metis mset_map sum_mset_sum_list)
      then have "length (c @ concat ?es) \<le> length (c @ body)" using es(2) by simp
      moreover have "take (length c) (cb_buf s) = c" using arg_cong [OF buf, of "take (length c)"] by simp
      then have "cbb_holds (s\<lparr>cb_len := length c\<rparr>) c ch" using h cbb_holds_len [OF h] by (simp add: cbb_holds_def)
      moreover have "ample al (s\<lparr>cb_len := length c\<rparr>) (length (c @ body))" using N by (simp add: ample_def)
      ultimately obtain s' where "add_children al (s\<lparr>cb_len := length c\<rparr>) ?d ?es = (True, s')" "cbb_holds s' (c @ concat ?es) ch"
        using add_children_ok by blast
      moreover have "sorted ?es" using sorter.qs_sorted [OF assms(1) compare_set_of_order] by (simp add: cmp_sorted_sorted)
      moreover have "take_children body (length es) = Some es" using take_children_ok [OF es(1)] es(2) by simp
      ultimately have "CBB_flush_asn1_set_of qs al s ?d = (True, s') \<and> cbb_holds s' (c @ concat ?es) ch \<and> sorted ?es"
        using False count m dup n by (simp add: CBB_flush_asn1_set_of_def flush len data start Let_def)
      then show ?thesis using perm by blast
    qed
  qed
  have "count_children body 0 = None" if "\<nexists>es. list_all der_element es \<and> body = concat es"
    using that count_children_sound [of body 0] by (cases "count_children body 0") blast+
  then have "(\<nexists>es. list_all der_element es \<and> body = concat es) \<longrightarrow> CBB_flush_asn1_set_of qs al s ?d = (False, s)"
    by (simp add: CBB_flush_asn1_set_of_def flush len data Let_def)
  then show ?thesis using sorts by blast
qed

theorem CBB_flush_asn1_set_of_sorts_witness:
  "\<exists>s' es'. CBB_flush_asn1_set_of cmp_sort zero_alloc
      \<lparr>cb_buf = [0x02, 0x01, 0x05, 0x02, 0x01, 0x03], cb_len = 6, cb_cap = 6, cb_can_resize = False, cb_error = False,
       cb_chain = []\<rparr> 0 = (True, s') \<and>
    cbb_holds s' (concat es') [] \<and> mset es' = {#[0x02, 0x01, 0x05], [0x02, 0x01, 0x03]#} \<and> sorted es'"
proof -
  let ?s = "\<lparr>cb_buf = [0x02, 0x01, 0x05, 0x02, 0x01, 0x03], cb_len = 6, cb_cap = 6, cb_can_resize = False, cb_error = False,
       cb_chain = []\<rparr>"
  let ?es = "[[0x02, 0x01, 0x05], [0x02, 0x01, 0x03]] :: byte list list"
  have "der_tlv CBS_ASN1_INTEGER [b] = [0x02, 0x01, b]" for b by (simp add: der_tlv_def der_tag_def der_len_def)
  then have "der_element [0x02, 0x01, b]" for b unfolding der_element_def by (intro exI [of _ CBS_ASN1_INTEGER] exI [of _ "[b]"]) simp
  then have es: "list_all der_element ?es" by simp
  have al: "alloc_total zero_alloc" by (simp add: alloc_total_def) (simp add: zero_alloc_def)
  have h: "cbb_holds ?s ([] @ concat ?es) []" by (simp add: cbb_holds_def)
  have N: "ample zero_alloc ?s (length ([] @ concat ?es))" by (simp add: ample_def)
  have start: "cbb_start ?s (length []) = length []" by (simp add: cbb_start_def)
  have small: "length (concat ?es) < 2 ^ 58" by simp
  show ?thesis
    using CBB_flush_asn1_set_of_sorts [OF insertion.sorter_axioms h start N al small] es by fastforce
qed

end
