(* ===== verification/CbbError.thy ===== *)
theory CbbError
  imports Oid SetOf
begin

text \<open>
  How the byte-string builder fails (\<^verbatim>\<open>bytestring/cbb.c\<close>). A call that cannot write what it was
  asked to sets the flag \<open>error\<close> of the shared buffer, and every later call finds it in its flush. The
  calls of the interface are gathered in one datatype, so that both facts are stated of all of them.
\<close>

section \<open>The calls\<close>

datatype cbb_call =
  CFlush nat
| CU8 nat byte | CU16 nat u16 | CU16le nat u16 | CU24 nat u32 | CU32 nat u32 | CU32le nat u32
| CU64 nat u64 | CU64le nat u64
| CBytes nat "byte list" | CSpace nat nat | CZeros nat nat | CReserve nat nat
| CU8Prefixed nat | CU16Prefixed nat | CU24Prefixed nat
| CAsn1 nat u32 | CUint64 nat u64 | CInt64 nat u64 | COctetString nat "byte list" | CBool nat int
| COid nat "byte list" | CSetOf nat

fun call_depth :: "cbb_call \<Rightarrow> nat" where
  "call_depth (CFlush d) = d"
| "call_depth (CU8 d v) = d"
| "call_depth (CU16 d w) = d"
| "call_depth (CU16le d w) = d"
| "call_depth (CU24 d x) = d"
| "call_depth (CU32 d x) = d"
| "call_depth (CU32le d x) = d"
| "call_depth (CU64 d y) = d"
| "call_depth (CU64le d y) = d"
| "call_depth (CBytes d bs) = d"
| "call_depth (CSpace d n) = d"
| "call_depth (CZeros d n) = d"
| "call_depth (CReserve d n) = d"
| "call_depth (CU8Prefixed d) = d"
| "call_depth (CU16Prefixed d) = d"
| "call_depth (CU24Prefixed d) = d"
| "call_depth (CAsn1 d t) = d"
| "call_depth (CUint64 d y) = d"
| "call_depth (CInt64 d y) = d"
| "call_depth (COctetString d bs) = d"
| "call_depth (CBool d b) = d"
| "call_depth (COid d txt) = d"
| "call_depth (CSetOf d) = d"

fun run_call ::
    "(CBS cmp \<Rightarrow> CBS list \<Rightarrow> CBS list) \<Rightarrow> allocator \<Rightarrow> CBB \<Rightarrow> cbb_call \<Rightarrow> cbb_outcome" where
  "run_call qs al s (CFlush d) = CBB_flush al s d"
| "run_call qs al s (CU8 d v) = CBB_add_u8 al s d v"
| "run_call qs al s (CU16 d w) = CBB_add_u16 al s d w"
| "run_call qs al s (CU16le d w) = CBB_add_u16le al s d w"
| "run_call qs al s (CU24 d x) = CBB_add_u24 al s d x"
| "run_call qs al s (CU32 d x) = CBB_add_u32 al s d x"
| "run_call qs al s (CU32le d x) = CBB_add_u32le al s d x"
| "run_call qs al s (CU64 d y) = CBB_add_u64 al s d y"
| "run_call qs al s (CU64le d y) = CBB_add_u64le al s d y"
| "run_call qs al s (CBytes d bs) = CBB_add_bytes al s d bs"
| "run_call qs al s (CSpace d n) = CBB_add_space al s d n"
| "run_call qs al s (CZeros d n) = CBB_add_zeros al s d n"
| "run_call qs al s (CReserve d n) = CBB_reserve al s d n"
| "run_call qs al s (CU8Prefixed d) = CBB_add_u8_length_prefixed al s d"
| "run_call qs al s (CU16Prefixed d) = CBB_add_u16_length_prefixed al s d"
| "run_call qs al s (CU24Prefixed d) = CBB_add_u24_length_prefixed al s d"
| "run_call qs al s (CAsn1 d t) = CBB_add_asn1 al s d t"
| "run_call qs al s (CUint64 d y) = CBB_add_asn1_uint64 al s d y"
| "run_call qs al s (CInt64 d y) = CBB_add_asn1_int64 al s d y"
| "run_call qs al s (COctetString d bs) = CBB_add_asn1_octet_string al s d bs"
| "run_call qs al s (CBool d b) = CBB_add_asn1_bool al s d b"
| "run_call qs al s (COid d txt) = CBB_add_asn1_oid_from_text al s d txt"
| "run_call qs al s (CSetOf d) = CBB_flush_asn1_set_of qs al s d"

text \<open>The two calls that also refuse a malformed input, and then leave the flag as it is.\<close>

fun checks_input :: "cbb_call \<Rightarrow> bool" where
  "checks_input (COid d txt) \<longleftrightarrow> True"
| "checks_input (CSetOf d) \<longleftrightarrow> True"
| "checks_input _ \<longleftrightarrow> False"

section \<open>A set flag stops every call\<close>

lemma flush_error: "cb_error s \<Longrightarrow> CBB_flush al s d = (False, s)"
  by (simp add: CBB_flush.simps)

lemmas cbb_call_defs =
  CBB_add_u8_def CBB_add_u16_def CBB_add_u16le_def CBB_add_u24_def CBB_add_u32_def CBB_add_u32le_def
  CBB_add_u64_def CBB_add_u64le_def CBB_add_bytes_def CBB_add_space_def CBB_add_zeros_def CBB_reserve_def
  CBB_add_u8_length_prefixed_def CBB_add_u16_length_prefixed_def CBB_add_u24_length_prefixed_def
  cbb_add_length_prefixed_def CBB_add_asn1_def CBB_add_asn1_uint64_def CBB_add_asn1_int64_def
  CBB_add_asn1_octet_string_def CBB_add_asn1_bool_def

lemma run_call_error: "cb_error s \<Longrightarrow> run_call qs al s c = (False, s)"
  by (cases c) (simp_all add: flush_error cbb_call_defs CBB_add_asn1_oid_from_text_def
      CBB_flush_asn1_set_of_def Let_def)

section \<open>A failure sets the flag\<close>

text \<open>
  After success the \<open>CBB\<close> at depth \<open>d\<close> is still attached, after failure the flag is set; the rule for
  \<open>cbb_and\<close> chains such outcomes.
\<close>

definition flags :: "nat \<Rightarrow> cbb_outcome \<Rightarrow> bool" where
  "flags d r \<longleftrightarrow> (if fst r then d \<le> length (cb_chain (snd r)) else cb_error (snd r))"

lemma flags_simps [simp]:
  "flags d (True, s) \<longleftrightarrow> d \<le> length (cb_chain s)" "flags d (False, s) \<longleftrightarrow> cb_error s"
  by (simp_all add: flags_def)

lemma flags_and:
  assumes "flags d r" and "\<And>s. d \<le> length (cb_chain s) \<Longrightarrow> flags e (f s)"
  shows "flags e (cbb_and r f)"
  using assms by (cases r) (auto simp: cbb_and_def)

lemma flags_reserve: "d \<le> length (cb_chain s) \<Longrightarrow> flags d (cbb_buffer_reserve al s n)"
  by (simp add: cbb_buffer_reserve_def Let_def split: option.splits)

lemma flags_add: "d \<le> length (cb_chain s) \<Longrightarrow> flags d (cbb_buffer_add al s n)"
  unfolding cbb_buffer_add_def by (rule flags_and [OF flags_reserve]) simp_all

lemma flags_add_u: "d \<le> length (cb_chain s) \<Longrightarrow> flags d (cbb_buffer_add_u al s v n)"
  unfolding cbb_buffer_add_u_def by (auto intro!: flags_and [OF flags_add] split: prod.splits)

lemma flags_prefix: "d \<le> length (cb_chain s) \<Longrightarrow> flags d (cbb_write_prefix s d off n len)"
  by (simp add: cbb_write_prefix_def split: prod.splits)

lemma flags_flush_child: "d \<le> length (cb_chain s) \<Longrightarrow> flags d (cbb_flush_child al s d ch)"
  by (auto simp: cbb_flush_child_def Let_def intro!: flags_prefix split: option.splits prod.splits bool.splits)
    (metis flags_add flags_simps(1))

lemma flags_flush: "d \<le> length (cb_chain s) \<Longrightarrow> flags d (CBB_flush al s d)"
proof (induction al s d rule: CBB_flush.induct)
  case (1 al s d)
  show ?case
  proof (cases "cb_error s \<or> length (cb_chain s) = d \<or> cc_pending_len_len (cb_chain s ! d) = 0")
    case True
    then show ?thesis using "1.prems" by (auto simp: CBB_flush.simps [of al s d])
  next
    case False
    then have "flags (Suc d) (CBB_flush al s (Suc d))" using 1 by auto
    then show ?thesis
      using False "1.prems"
      by (auto simp: CBB_flush.simps [of al s d] intro!: flags_flush_child split: prod.splits bool.splits)
  qed
qed

text \<open>A call flushes, and then writes to the shared buffer without touching the chain.\<close>

lemma flags_u8: "d \<le> length (cb_chain s) \<Longrightarrow> flags d (CBB_add_u8 al s d v)"
  unfolding CBB_add_u8_def by (intro flags_and [OF flags_flush] flags_add_u)

lemma flags_bytes: "d \<le> length (cb_chain s) \<Longrightarrow> flags d (CBB_add_bytes al s d data)"
  unfolding CBB_add_bytes_def by (intro flags_and [OF flags_flush] flags_and [OF flags_add]) simp_all

lemma flags_space: "d \<le> length (cb_chain s) \<Longrightarrow> flags d (CBB_add_space al s d n)"
  unfolding CBB_add_space_def by (intro flags_and [OF flags_flush] flags_add)

text \<open>Opening a child leaves one more \<open>CBB\<close> attached.\<close>

lemma flags_prefixed: "d \<le> length (cb_chain s) \<Longrightarrow> flags (Suc d) (cbb_add_length_prefixed al s d n)"
  unfolding cbb_add_length_prefixed_def by (intro flags_and [OF flags_flush] flags_and [OF flags_add]) simp_all

lemma flags_base128_loop: "d \<le> length (cb_chain s) \<Longrightarrow> flags d (add_base128_loop al s d v n)"
proof (induction n arbitrary: s)
  case (Suc n)
  then show ?case by (auto simp: Let_def intro!: flags_and [OF flags_u8])
qed simp

lemma flags_asn1: "d \<le> length (cb_chain s) \<Longrightarrow> flags (Suc d) (CBB_add_asn1 al s d t)"
  unfolding CBB_add_asn1_def Let_def add_base128_integer_def
  by (rule flags_and [OF flags_flush], assumption)
    (auto intro!: flags_and [of d] flags_u8 flags_base128_loop)

lemma flags_uint64_loop: "d \<le> length (cb_chain s) \<Longrightarrow> flags d (asn1_uint64_write_loop al s d v started n)"
proof (induction n arbitrary: s started)
  case (Suc n)
  then show ?case by (auto simp: Let_def intro!: flags_and [of d] flags_u8)
qed (simp add: flags_u8)

lemma flags_int64_loop: "d \<le> length (cb_chain s) \<Longrightarrow> flags d (asn1_int64_write_loop al s d bs n)"
proof (induction n arbitrary: s)
  case (Suc n)
  then show ?case by (auto intro!: flags_and [OF flags_u8])
qed simp

lemma flags_weaken: "flags (Suc d) r \<Longrightarrow> flags d r"
  by (auto simp: flags_def split: if_splits)

text \<open>An element opens a child, writes its contents and closes it with a flush of the parent.\<close>

lemma flags_element:
  assumes "d \<le> length (cb_chain s)" and "\<And>s1. Suc d \<le> length (cb_chain s1) \<Longrightarrow> flags (Suc d) (f s1)"
  shows "flags d (cbb_and (CBB_add_asn1 al s d t) (\<lambda>s1. cbb_and (f s1) (\<lambda>s2. CBB_flush al s2 d)))"
  using assms by (intro flags_and [OF flags_asn1] flags_and [of "Suc d"] flags_flush) simp_all

lemma flags_uint64: "d \<le> length (cb_chain s) \<Longrightarrow> flags d (CBB_add_asn1_uint64 al s d v)"
  unfolding CBB_add_asn1_uint64_def by (intro flags_element flags_uint64_loop)

lemma flags_int64: "d \<le> length (cb_chain s) \<Longrightarrow> flags d (CBB_add_asn1_int64 al s d v)"
  unfolding CBB_add_asn1_int64_def Let_def
  by (auto simp del: asn1_int64_write_loop.simps intro!: flags_uint64 flags_element flags_int64_loop)

lemma flags_call:
  assumes "call_depth c \<le> length (cb_chain s)" and "\<not> checks_input c"
  shows "flags (call_depth c) (run_call qs al s c)"
  using assms
proof (cases c)
  case (CZeros d n)
  then show ?thesis using assms by (auto simp: CBB_add_zeros_def intro!: flags_and [OF flags_space])
next
  case (CReserve d n)
  then show ?thesis
    using assms by (auto simp: CBB_reserve_def intro!: flags_and [OF flags_flush] flags_reserve)
next
  case (COctetString d bs)
  then show ?thesis using assms by (simp add: CBB_add_asn1_octet_string_def flags_element flags_bytes)
next
  case (CBool d b)
  then show ?thesis using assms by (simp add: CBB_add_asn1_bool_def flags_element flags_u8)
qed (auto simp: CBB_add_u16_def CBB_add_u16le_def CBB_add_u24_def CBB_add_u32_def CBB_add_u32le_def
    CBB_add_u64_def CBB_add_u64le_def CBB_add_u8_length_prefixed_def CBB_add_u16_length_prefixed_def
    CBB_add_u24_length_prefixed_def flags_flush flags_u8 flags_bytes flags_space flags_uint64 flags_int64
    intro!: flags_and [OF flags_flush] flags_add_u flags_weaken [OF flags_prefixed] flags_weaken [OF flags_asn1])

section \<open>Failures are final\<close>

text \<open>
  C4. A failure to write is final. When a call of the interface fails on a \<open>CBB\<close> that is still attached
  (every \<open>CBB_add_\<dots>\<close>, \<open>CBB_reserve\<close> and \<open>CBB_flush\<close>; not \<open>CBB_add_asn1_oid_from_text\<close> and
  \<open>CBB_flush_asn1_set_of\<close>, which also refuse malformed input and then leave the builder usable), the
  error flag is set; and from then on every call at any depth, those two included, fails and changes
  nothing, and \<open>CBB_finish\<close> returns no buffer. \<open>CBB_did_write\<close> and \<open>CBB_discard_child\<close> do not look at
  the flag, and leave it set.
\<close>

theorem CBB_error_sticky:
  assumes "run_call qs al s c = (False, s1)" and "call_depth c \<le> length (cb_chain s)"
    and "\<not> checks_input c"
  shows "cb_error s1 \<and> run_call qs' al' s1 c' = (False, s1) \<and> CBB_finish al' s1 d = Inl s1 \<and>
    cb_error (snd (CBB_did_write s1 d n)) \<and> cb_error (CBB_discard_child s1 d)"
proof -
  have e: "cb_error s1" using flags_call [OF assms(2,3), of qs al] assms(1) by simp
  then show ?thesis
    by (simp add: run_call_error flush_error CBB_finish_def CBB_did_write_def CBB_discard_child_def Let_def)
qed

text \<open>A fixed buffer of one byte: the second byte does not fit, and a flush after it fails, too.\<close>

theorem CBB_error_sticky_witness:
  "\<exists>s1 s2. run_call cmp_sort zero_alloc \<lparr>cb_buf = [0], cb_len = 0, cb_cap = 1, cb_can_resize = False,
       cb_error = False, cb_chain = []\<rparr> (CU8 0 7) = (True, s1) \<and>
     run_call cmp_sort zero_alloc s1 (CU8 0 8) = (False, s2) \<and>
     run_call cmp_sort zero_alloc s2 (CFlush 0) = (False, s2) \<and> CBB_finish zero_alloc s2 0 = Inl s2"
proof -
  let ?s = "\<lparr>cb_buf = [0], cb_len = 0, cb_cap = 1, cb_can_resize = False, cb_error = False, cb_chain = []\<rparr>"
  let ?s1 = "?s\<lparr>cb_buf := [7], cb_len := 1\<rparr>"
  have s1: "run_call cmp_sort zero_alloc ?s (CU8 0 7) = (True, ?s1)"
    by (simp add: CBB_add_u8_def CBB_flush.simps cbb_buffer_add_u_def cbb_buffer_add_def
        cbb_buffer_reserve_def size_add_def Let_def)
  have s2: "run_call cmp_sort zero_alloc ?s1 (CU8 0 8) = (False, ?s1\<lparr>cb_error := True\<rparr>)"
    by (simp add: CBB_add_u8_def CBB_flush.simps cbb_buffer_add_u_def cbb_buffer_add_def
        cbb_buffer_reserve_def size_add_def Let_def)
  have "call_depth (CU8 0 8) \<le> length (cb_chain ?s1)" "\<not> checks_input (CU8 0 8)" by simp_all
  from CBB_error_sticky [OF s2 this] s1 s2 show ?thesis by blast
qed

end
