(* ===== verification/Stack.thy ===== *)
theory Stack
  imports Mem Qsort
begin

text \<open>
  The pointer stack of BoringSSL (\<^verbatim>\<open>crypto/stack/stack.c\<close>): a growable array of pointers with an
  optional comparison function and a flag that says the elements are sorted. A \<open>_STACK *\<close> is an
  option, \<open>None\<close> for a null pointer; the array is the list of the \<open>num_alloc\<close> pointers it holds, of
  which the first \<open>num\<close> are the elements. A pointer is a 64-bit word and 0 is null. A comparison
  function is named by its address, and \<open>env\<close> gives the function at an address. \<open>qsort\<close> of the C
  library is the parameter \<open>qs\<close>; the locale \<open>sorter\<close> of \<open>Qsort\<close> states what C promises of it.
\<close>

section \<open>State\<close>

type_synonym ptr = u64
type_synonym cmp_func = "ptr \<Rightarrow> ptr \<Rightarrow> int"
type_synonym cmp_env = "u64 \<Rightarrow> cmp_func"

record STACK =
  st_num :: nat
  st_data :: "ptr list"
  st_sorted :: bool
  st_num_alloc :: nat
  st_comp :: u64

abbreviation (input) kMinSize :: nat where
  "kMinSize \<equiv> 4"
abbreviation (input) STACK_SIZE :: nat where
  "STACK_SIZE \<equiv> 40"

text \<open>A fresh block of \<open>n\<close> pointers, eight little-endian bytes each.\<close>

definition ptrs_of_bytes :: "byte list \<Rightarrow> ptr list" where
  "ptrs_of_bytes bs =
     map (\<lambda>i. word_of_nat (be_val (rev (take 8 (drop (8 * i) bs))))) [0..<length bs div 8]"

definition alloc_ptrs :: "allocator \<Rightarrow> nat \<Rightarrow> ptr list option" where
  "alloc_ptrs al sz = map_option ptrs_of_bytes (OPENSSL_malloc al sz)"

definition realloc_ptrs :: "allocator \<Rightarrow> ptr list \<Rightarrow> nat \<Rightarrow> ptr list option" where
  "realloc_ptrs al old sz =
     map_option (\<lambda>fresh. take (length fresh) old @ drop (length old) fresh) (alloc_ptrs al sz)"

definition stack_elems :: "STACK \<Rightarrow> ptr list" where
  "stack_elems s = take (st_num s) (st_data s)"

section \<open>Operations\<close>

definition sk_new :: "allocator \<Rightarrow> u64 \<Rightarrow> STACK option" where
  "sk_new al cmp =
     (case OPENSSL_malloc al STACK_SIZE of
        None \<Rightarrow> None
      | Some ret \<Rightarrow>
          (case alloc_ptrs al (8 * kMinSize) of
             None \<Rightarrow> None
           | Some data \<Rightarrow>
               Some \<lparr>st_num = 0, st_data = replicate (length data) 0, st_sorted = False,
                     st_num_alloc = kMinSize, st_comp = cmp\<rparr>))"

definition sk_new_null :: "allocator \<Rightarrow> STACK option" where
  "sk_new_null al = sk_new al 0"

definition sk_num :: "STACK option \<Rightarrow> nat" where
  "sk_num sk = (case sk of None \<Rightarrow> 0 | Some s \<Rightarrow> st_num s)"

definition sk_zero :: "STACK option \<Rightarrow> STACK option" where
  "sk_zero sk =
     (case sk of
        None \<Rightarrow> None
      | Some s \<Rightarrow>
          if st_num s = 0 then Some s
          else Some (s\<lparr>st_data := replicate (st_num s) 0 @ drop (st_num s) (st_data s),
                       st_num := 0, st_sorted := False\<rparr>))"

definition sk_value :: "STACK option \<Rightarrow> nat \<Rightarrow> ptr" where
  "sk_value sk i =
     (case sk of None \<Rightarrow> 0 | Some s \<Rightarrow> if i \<ge> st_num s then 0 else st_data s ! i)"

definition sk_set :: "STACK option \<Rightarrow> nat \<Rightarrow> ptr \<Rightarrow> ptr \<times> STACK option" where
  "sk_set sk i v =
     (case sk of
        None \<Rightarrow> (0, None)
      | Some s \<Rightarrow>
          if i \<ge> st_num s then (0, Some s)
          else (v, Some (s\<lparr>st_data := (st_data s) [i := v]\<rparr>)))"

text \<open>\<open>sk_pop_free_ex\<close> returns the pointers it hands to \<open>free_func\<close>, in order.\<close>

definition sk_pop_free_ex :: "STACK option \<Rightarrow> ptr list" where
  "sk_pop_free_ex sk =
     (case sk of None \<Rightarrow> [] | Some s \<Rightarrow> filter (\<lambda>p. p \<noteq> 0) (map (\<lambda>i. st_data s ! i) [0..<st_num s]))"

definition sk_grow :: "allocator \<Rightarrow> STACK \<Rightarrow> STACK option" where
  "sk_grow al s =
     (if st_num_alloc s \<le> st_num s + 1 then
        let new_alloc0 = (st_num_alloc s * 2) mod SIZE_BOUND;
            alloc_size0 = size_mul new_alloc0 8;
            new_alloc = (if new_alloc0 < st_num_alloc s \<or> alloc_size0 div 8 \<noteq> new_alloc0
                         then size_add (st_num_alloc s) 1 else new_alloc0);
            alloc_size = size_mul new_alloc 8
        in if new_alloc < st_num_alloc s \<or> alloc_size div 8 \<noteq> new_alloc then None
           else (case realloc_ptrs al (st_data s) alloc_size of
                   None \<Rightarrow> None
                 | Some data \<Rightarrow> Some (s\<lparr>st_data := data, st_num_alloc := new_alloc\<rparr>))
      else Some s)"

definition sk_insert :: "allocator \<Rightarrow> STACK option \<Rightarrow> ptr \<Rightarrow> nat \<Rightarrow> nat \<times> STACK option" where
  "sk_insert al sk p where_ix =
     (case sk of
        None \<Rightarrow> (0, None)
      | Some s0 \<Rightarrow>
          (case sk_grow al s0 of
             None \<Rightarrow> (0, Some s0)
           | Some s \<Rightarrow>
               let d = st_data s; n = st_num s;
                   d' = (if where_ix \<ge> n then d [n := p]
                         else (take (where_ix + 1) d @ take (n - where_ix) (drop where_ix d) @
                               drop (n + 1) d) [where_ix := p])
               in (n + 1, Some (s\<lparr>st_data := d', st_num := n + 1, st_sorted := False\<rparr>))))"

definition sk_delete :: "STACK option \<Rightarrow> nat \<Rightarrow> ptr \<times> STACK option" where
  "sk_delete sk where_ix =
     (case sk of
        None \<Rightarrow> (0, None)
      | Some s \<Rightarrow>
          if where_ix \<ge> st_num s then (0, Some s)
          else
            let d = st_data s; n = st_num s;
                d' = (if where_ix \<noteq> n - 1
                      then take where_ix d @ take (n - where_ix - 1) (drop (where_ix + 1) d) @
                           drop (n - 1) d
                      else d)
            in (d ! where_ix, Some (s\<lparr>st_data := d', st_num := n - 1\<rparr>)))"

text \<open>The first index from \<open>i\<close> on, of \<open>n\<close> more, whose element satisfies the test.\<close>

fun sk_scan :: "(ptr \<Rightarrow> bool) \<Rightarrow> ptr list \<Rightarrow> nat \<Rightarrow> nat \<Rightarrow> nat option" where
  "sk_scan t d i 0 = None"
| "sk_scan t d i (Suc n) = (if t (d ! i) then Some i else sk_scan t d (Suc i) n)"

definition sk_delete_ptr :: "STACK option \<Rightarrow> ptr \<Rightarrow> ptr \<times> STACK option" where
  "sk_delete_ptr sk p =
     (case sk of
        None \<Rightarrow> (0, None)
      | Some s \<Rightarrow>
          (case sk_scan (\<lambda>e. e = p) (st_data s) 0 (st_num s) of
             None \<Rightarrow> (0, Some s)
           | Some i \<Rightarrow> sk_delete (Some s) i))"

definition sk_is_sorted :: "STACK option \<Rightarrow> bool" where
  "sk_is_sorted sk = (case sk of None \<Rightarrow> True | Some s \<Rightarrow> st_sorted s)"

function sk_bsearch :: "cmp_func \<Rightarrow> ptr list \<Rightarrow> ptr \<Rightarrow> nat \<Rightarrow> nat \<Rightarrow> nat option" where
  "sk_bsearch cmp d p lo hi =
     (if lo < hi then
        let mid = lo + (hi - lo - 1) div 2;
            r = cmp p (d ! mid)
        in if r > 0 then sk_bsearch cmp d p (mid + 1) hi
           else if r < 0 then sk_bsearch cmp d p lo mid
           else if hi - lo = 1 then Some mid
           else sk_bsearch cmp d p lo (mid + 1)
      else None)"
  by pat_completeness auto
termination
proof (relation "measure (\<lambda>(cmp, d, p, lo, hi). hi - lo)")
  fix lo hi mid :: nat
  assume "lo < hi" and "mid = lo + (hi - lo - 1) div 2"
  then have "lo \<le> mid" and "mid < hi" and "hi - lo \<noteq> 1 \<Longrightarrow> mid + 1 < hi" by auto
  then show "((cmp, d, p, mid + 1, hi), (cmp, d, p, lo, hi)) \<in> measure (\<lambda>(cmp, d, p, lo, hi). hi - lo)"
    and "((cmp, d, p, lo, mid), (cmp, d, p, lo, hi)) \<in> measure (\<lambda>(cmp, d, p, lo, hi). hi - lo)"
    and "hi - lo \<noteq> 1 \<Longrightarrow>
      ((cmp, d, p, lo, mid + 1), (cmp, d, p, lo, hi)) \<in> measure (\<lambda>(cmp, d, p, lo, hi). hi - lo)"
    for cmp :: cmp_func and d :: "ptr list" and p :: ptr
    using \<open>lo < hi\<close> by auto
qed simp

declare sk_bsearch.simps [simp del]

definition sk_find :: "cmp_env \<Rightarrow> STACK option \<Rightarrow> ptr \<Rightarrow> nat option" where
  "sk_find env sk p =
     (case sk of
        None \<Rightarrow> None
      | Some s \<Rightarrow>
          if st_comp s = 0 then sk_scan (\<lambda>e. e = p) (st_data s) 0 (st_num s)
          else if p = 0 then None
          else if \<not> sk_is_sorted (Some s)
          then sk_scan (\<lambda>e. env (st_comp s) p e = 0) (st_data s) 0 (st_num s)
          else sk_bsearch (env (st_comp s)) (st_data s) p 0 (st_num s))"

definition sk_shift :: "STACK option \<Rightarrow> ptr \<times> STACK option" where
  "sk_shift sk =
     (case sk of
        None \<Rightarrow> (0, None)
      | Some s \<Rightarrow> if st_num s = 0 then (0, Some s) else sk_delete (Some s) 0)"

definition sk_push :: "allocator \<Rightarrow> STACK \<Rightarrow> ptr \<Rightarrow> nat \<times> STACK option" where
  "sk_push al s p = sk_insert al (Some s) p (st_num s)"

definition sk_pop :: "STACK option \<Rightarrow> ptr \<times> STACK option" where
  "sk_pop sk =
     (case sk of
        None \<Rightarrow> (0, None)
      | Some s \<Rightarrow> if st_num s = 0 then (0, Some s) else sk_delete (Some s) (st_num s - 1))"

definition sk_dup :: "allocator \<Rightarrow> STACK option \<Rightarrow> STACK option" where
  "sk_dup al sk =
     (case sk of
        None \<Rightarrow> None
      | Some s \<Rightarrow>
          (case OPENSSL_malloc al STACK_SIZE of
             None \<Rightarrow> None
           | Some ret \<Rightarrow>
               (case alloc_ptrs al (size_mul 8 (st_num_alloc s)) of
                  None \<Rightarrow> None
                | Some data \<Rightarrow>
                    Some \<lparr>st_num = st_num s,
                          st_data = take (st_num s) (st_data s) @ drop (st_num s) data,
                          st_sorted = st_sorted s, st_num_alloc = st_num_alloc s,
                          st_comp = st_comp s\<rparr>)))"

definition sk_sort :: "(cmp_func \<Rightarrow> ptr list \<Rightarrow> ptr list) \<Rightarrow> cmp_env \<Rightarrow> STACK option \<Rightarrow> STACK option"
where
  "sk_sort qs env sk =
     (case sk of
        None \<Rightarrow> None
      | Some s \<Rightarrow>
          if st_comp s = 0 \<or> st_sorted s then Some s
          else
            let d' = (if st_num s \<ge> 2
                      then qs (env (st_comp s)) (take (st_num s) (st_data s)) @
                           drop (st_num s) (st_data s)
                      else st_data s)
            in Some (s\<lparr>st_data := d', st_sorted := True\<rparr>))"

definition sk_set_cmp_func :: "STACK \<Rightarrow> u64 \<Rightarrow> u64 \<times> STACK" where
  "sk_set_cmp_func s cmp =
     (st_comp s,
      (if st_comp s \<noteq> cmp then s\<lparr>st_sorted := False\<rparr> else s)\<lparr>st_comp := cmp\<rparr>)"

text \<open>
  The copying loop of \<open>sk_deep_copy\<close>. Where a copy fails the copies made so far are freed, except
  null ones, and null is returned; the copies that are freed are the second output.
\<close>

fun sk_copy_loop :: "(ptr \<Rightarrow> ptr) \<Rightarrow> ptr list \<Rightarrow> nat \<Rightarrow> nat \<Rightarrow> ptr list option \<times> ptr list" where
  "sk_copy_loop copy d i 0 = (Some d, [])"
| "sk_copy_loop copy d i (Suc n) =
     (if d ! i = 0 then sk_copy_loop copy d (Suc i) n
      else
        let d' = d [i := copy (d ! i)]
        in if d' ! i = 0 then (None, filter (\<lambda>p. p \<noteq> 0) (take i d'))
           else sk_copy_loop copy d' (Suc i) n)"

definition sk_deep_copy :: "allocator \<Rightarrow> (ptr \<Rightarrow> ptr) \<Rightarrow> STACK option \<Rightarrow> STACK option \<times> ptr list" where
  "sk_deep_copy al copy sk =
     (case sk_dup al sk of
        None \<Rightarrow> (None, [])
      | Some ret \<Rightarrow>
          (case sk_copy_loop copy (st_data ret) 0 (st_num ret) of
             (None, freed) \<Rightarrow> (None, freed)
           | (Some d, freed) \<Rightarrow> (Some (ret\<lparr>st_data := d\<rparr>), freed)))"

section \<open>Searching\<close>

lemma sk_scan_add:
  "sk_scan t d i (m + n) =
     (case sk_scan t d i m of None \<Rightarrow> sk_scan t d (i + m) n | Some k \<Rightarrow> Some k)"
  by (induction m arbitrary: i) (auto split: option.splits)

lemma sk_scan_None: "sk_scan t d i n = None \<longleftrightarrow> (\<forall>j. i \<le> j \<and> j < i + n \<longrightarrow> \<not> t (d ! j))"
proof (induction n arbitrary: i)
  case (Suc n)
  have "(\<forall>j. i \<le> j \<and> j < i + Suc n \<longrightarrow> \<not> t (d ! j)) \<longleftrightarrow>
      \<not> t (d ! i) \<and> (\<forall>j. Suc i \<le> j \<and> j < Suc i + n \<longrightarrow> \<not> t (d ! j))"
    by (auto simp: Suc_le_eq) (metis le_neq_implies_less)
  then show ?case using Suc by simp
qed auto

lemma sk_scan_Some:
  "sk_scan t d i n = Some k \<longleftrightarrow>
   i \<le> k \<and> k < i + n \<and> t (d ! k) \<and> (\<forall>j. i \<le> j \<and> j < k \<longrightarrow> \<not> t (d ! j))"
proof (induction n arbitrary: i)
  case (Suc n)
  show ?case
  proof (cases "t (d ! i)")
    case True
    then show ?thesis by (auto simp: le_less)
  next
    case False
    have "i \<le> k \<and> k < i + Suc n \<and> t (d ! k) \<and> (\<forall>j. i \<le> j \<and> j < k \<longrightarrow> \<not> t (d ! j)) \<longleftrightarrow>
        Suc i \<le> k \<and> k < Suc i + n \<and> t (d ! k) \<and> (\<forall>j. Suc i \<le> j \<and> j < k \<longrightarrow> \<not> t (d ! j))"
      using False by (auto simp: Suc_le_eq) (metis le_neq_implies_less)+
    then show ?thesis using False Suc by simp
  qed
qed simp

lemma cmp_below:
  assumes "cmp_order cmp" and "cmp x y \<le> 0" and "cmp p y > 0"
  shows "cmp p x > 0"
proof (rule ccontr)
  assume "\<not> cmp p x > 0"
  then have "cmp p y \<le> 0" using assms(1,2) by (metis cmp_order_def not_less)
  then show False using assms(3) by simp
qed

lemma cmp_above:
  assumes "cmp_order cmp" and "cmp x y \<le> 0" and "cmp p x < 0"
  shows "cmp p y < 0"
proof (rule ccontr)
  assume "\<not> cmp p y < 0"
  then have "cmp y p \<le> 0" using assms(1) by (metis cmp_order_def not_less)
  then have "cmp x p \<le> 0" using assms(1,2) by (metis cmp_order_def)
  then show False using assms(1,3) by (metis cmp_order_def not_less)
qed

lemma sk_scan_split:
  assumes "lo \<le> m" and "m \<le> hi"
  shows "sk_scan t d lo (hi - lo) =
    (case sk_scan t d lo (m - lo) of None \<Rightarrow> sk_scan t d m (hi - m) | Some k \<Rightarrow> Some k)"
  using sk_scan_add [of t d lo "m - lo" "hi - m"] assms by (auto split: option.splits)

lemma sk_bsearch_step:
  assumes "lo < hi"
  obtains mid where "lo \<le> mid" "mid < hi" "hi - lo \<noteq> 1 \<Longrightarrow> mid + 1 < hi"
    and "sk_bsearch cmp d p lo hi =
      (if cmp p (d ! mid) > 0 then sk_bsearch cmp d p (mid + 1) hi
       else if cmp p (d ! mid) < 0 then sk_bsearch cmp d p lo mid
       else if hi - lo = 1 then Some mid
       else sk_bsearch cmp d p lo (mid + 1))"
proof (rule that [of "lo + (hi - lo - 1) div 2"])
  show "sk_bsearch cmp d p lo hi =
      (if cmp p (d ! (lo + (hi - lo - 1) div 2)) > 0
       then sk_bsearch cmp d p (lo + (hi - lo - 1) div 2 + 1) hi
       else if cmp p (d ! (lo + (hi - lo - 1) div 2)) < 0
       then sk_bsearch cmp d p lo (lo + (hi - lo - 1) div 2)
       else if hi - lo = 1 then Some (lo + (hi - lo - 1) div 2)
       else sk_bsearch cmp d p lo (lo + (hi - lo - 1) div 2 + 1))"
    using assms by (subst sk_bsearch.simps) (simp only: Let_def if_True)
qed (use assms in auto)

text \<open>On a sorted array the binary search returns what the linear scan returns.\<close>

lemma sk_bsearch_scan:
  assumes ord: "cmp_order cmp" and sorted: "\<And>i j. i < j \<Longrightarrow> j < n \<Longrightarrow> cmp (d ! i) (d ! j) \<le> 0"
  shows "lo \<le> hi \<Longrightarrow> hi \<le> n \<Longrightarrow>
    sk_bsearch cmp d p lo hi = sk_scan (\<lambda>e. cmp p e = 0) d lo (hi - lo)"
proof (induction "hi - lo" arbitrary: lo hi rule: less_induct)
  case less
  let ?t = "\<lambda>e. cmp p e = 0"
  show ?case
  proof (cases "lo < hi")
    case True
    then obtain mid where mid: "lo \<le> mid" "mid < hi" "hi - lo \<noteq> 1 \<Longrightarrow> mid + 1 < hi"
      and step: "sk_bsearch cmp d p lo hi =
        (if cmp p (d ! mid) > 0 then sk_bsearch cmp d p (mid + 1) hi
         else if cmp p (d ! mid) < 0 then sk_bsearch cmp d p lo mid
         else if hi - lo = 1 then Some mid
         else sk_bsearch cmp d p lo (mid + 1))"
      by (rule sk_bsearch_step [where cmp = cmp and d = d and p = p]) blast
    have pair: "cmp (d ! i) (d ! j) \<le> 0 \<or> i = j" if "i \<le> j" "j < hi" for i j
      using sorted [of i j] that less.prems by auto
    consider "cmp p (d ! mid) > 0" | "cmp p (d ! mid) < 0" | "cmp p (d ! mid) = 0" by linarith
    then show ?thesis
    proof cases
      case 1
      have "cmp p (d ! j) > 0" if "j \<le> mid" for j
        using pair [of j mid] that mid 1 cmp_below [OF ord] by auto
      then have "sk_scan ?t d lo (mid + 1 - lo) = None"
        unfolding sk_scan_None using mid by (fastforce simp: less_Suc_eq_le)
      then have "sk_scan ?t d lo (hi - lo) = sk_scan ?t d (mid + 1) (hi - (mid + 1))"
        using sk_scan_split [of lo "mid + 1" hi ?t d] mid by simp
      then show ?thesis using less.hyps [of hi "mid + 1"] step 1 mid less.prems by simp
    next
      case 2
      have "cmp p (d ! j) < 0" if "mid \<le> j" "j < hi" for j
        using pair [of mid j] that mid 2 cmp_above [OF ord] by auto
      then have "sk_scan ?t d mid (hi - mid) = None"
        unfolding sk_scan_None using mid by fastforce
      then have "sk_scan ?t d lo (hi - lo) = sk_scan ?t d lo (mid - lo)"
        using sk_scan_split [of lo mid hi ?t d] mid by (simp split: option.splits)
      then show ?thesis using less.hyps [of mid lo] step 2 mid less.prems by simp
    next
      case 3
      show ?thesis
      proof (cases "hi - lo = 1")
        case True
        then have "mid = lo" using mid by simp
        then show ?thesis using step 3 True by simp
      next
        case False
        have "sk_scan ?t d lo (mid + 1 - lo) \<noteq> None"
          unfolding sk_scan_None using 3 mid by auto
        then have "sk_scan ?t d lo (hi - lo) = sk_scan ?t d lo (mid + 1 - lo)"
          using sk_scan_split [of lo "mid + 1" hi ?t d] mid by (auto split: option.splits)
        then show ?thesis using less.hyps [of "mid + 1" lo] step 3 False mid less.prems by simp
      qed
    qed
  qed (use less.prems in \<open>simp add: sk_bsearch.simps\<close>)
qed

section \<open>The stack as a list\<close>

text \<open>The contract of an indexed list, and what a client gets from it.\<close>

locale indexed_list =
  fixes inv :: "'s \<Rightarrow> bool" and elems :: "'s \<Rightarrow> 'e list"
    and ins :: "'s \<Rightarrow> 'e \<Rightarrow> nat \<Rightarrow> 's option" and del :: "'s \<Rightarrow> nat \<Rightarrow> 'e \<times> 's"
  assumes ins_elems: "inv s \<Longrightarrow> ins s p i = Some s' \<Longrightarrow>
      inv s' \<and> elems s' = take i (elems s) @ p # drop i (elems s)"
    and del_elems: "inv s \<Longrightarrow> i < length (elems s) \<Longrightarrow> del s i = (p, s') \<Longrightarrow>
      inv s' \<and> p = elems s ! i \<and> elems s' = take i (elems s) @ drop (Suc i) (elems s)"
begin

text \<open>Deleting where an element was inserted gives the element and the list before it.\<close>

lemma del_ins:
  assumes "inv s" and "ins s p i = Some s'" and "del s' (min i (length (elems s))) = (q, s'')"
  shows "q = p \<and> inv s'' \<and> elems s'' = elems s"
proof -
  have s': "inv s'" "elems s' = take i (elems s) @ p # drop i (elems s)"
    using ins_elems [OF assms(1,2)] by auto
  then have "min i (length (elems s)) < length (elems s')" by simp
  from del_elems [OF s'(1) this assms(3)] s'(2) show ?thesis
    by (cases "i \<le> length (elems s)") (simp_all add: nth_append min_def Suc_diff_le)
qed

fun ins_all :: "'s \<Rightarrow> 'e list \<Rightarrow> 's option" where
  "ins_all s [] = Some s"
| "ins_all s (p # ps) =
     (case ins s p (length (elems s)) of None \<Rightarrow> None | Some s' \<Rightarrow> ins_all s' ps)"

lemma ins_all_elems:
  "inv s \<Longrightarrow> ins_all s ps = Some s' \<Longrightarrow> inv s' \<and> elems s' = elems s @ ps"
proof (induction ps arbitrary: s)
  case (Cons p ps)
  then obtain s1 where s1: "ins s p (length (elems s)) = Some s1" "ins_all s1 ps = Some s'"
    by (auto split: option.splits)
  from ins_elems [OF Cons.prems(1) s1(1)] Cons.IH [OF _ s1(2)] show ?case by simp
qed simp

end

definition stack_inv :: "STACK \<Rightarrow> bool" where
  "stack_inv s \<longleftrightarrow> length (st_data s) = st_num_alloc s \<and> st_num s < st_num_alloc s \<and>
     st_num_alloc s * 8 < SIZE_BOUND"

definition stack_ins :: "allocator \<Rightarrow> STACK \<Rightarrow> ptr \<Rightarrow> nat \<Rightarrow> STACK option" where
  "stack_ins al s p i = (case sk_insert al (Some s) p i of (n, r) \<Rightarrow> if n = 0 then None else r)"

definition stack_del :: "STACK \<Rightarrow> nat \<Rightarrow> ptr \<times> STACK" where
  "stack_del s i = (case sk_delete (Some s) i of (p, r) \<Rightarrow> (p, case r of None \<Rightarrow> s | Some s' \<Rightarrow> s'))"

lemma length_alloc_ptrs:
  assumes "alloc_spec al" and "alloc_ptrs al (n * 8) = Some d" and "n * 8 < SIZE_BOUND"
  shows "length d = n"
  using assms malloc_length [OF assms(1) _ assms(3)] by (auto simp: alloc_ptrs_def ptrs_of_bytes_def)

lemma size_mul_8: "n * 8 < SIZE_BOUND \<Longrightarrow> size_mul n 8 = n * 8"
  by (simp add: size_mul_def)

text \<open>The guards of \<open>sk_insert\<close> leave only sizes that do not wrap.\<close>

lemma size_mul_8_div: "n < SIZE_BOUND \<Longrightarrow> size_mul n 8 div 8 = n \<longleftrightarrow> n * 8 < SIZE_BOUND"
proof
  assume n: "n < SIZE_BOUND" and "size_mul n 8 div 8 = n"
  then have "(n * 8) mod SIZE_BOUND div 8 = n" by (simp add: size_mul_def)
  moreover have "(n * 8) mod SIZE_BOUND < SIZE_BOUND" by simp
  ultimately show "n * 8 < SIZE_BOUND"
    using div_times_less_eq_dividend [of "(n * 8) mod SIZE_BOUND" 8] by linarith
qed (simp add: size_mul_8)

lemma stack_grow_ok:
  assumes "alloc_spec al" and "stack_inv s" and "sk_grow al s = Some s1"
  shows "stack_inv s1" and "st_num s1 + 1 < st_num_alloc s1" and "st_num s1 = st_num s"
    and "stack_elems s1 = stack_elems s" and "st_comp s1 = st_comp s"
proof -
  have inv: "length (st_data s) = st_num_alloc s" "st_num s < st_num_alloc s" "st_num_alloc s * 8 < SIZE_BOUND"
    using assms(2) by (auto simp: stack_inv_def)
  have "stack_inv s1 \<and> st_num s1 + 1 < st_num_alloc s1 \<and> st_num s1 = st_num s \<and>
      stack_elems s1 = stack_elems s \<and> st_comp s1 = st_comp s"
  proof (cases "st_num_alloc s \<le> st_num s + 1")
    case False
    then show ?thesis using assms(2,3) by (simp add: sk_grow_def)
  next
    case True
    then have full: "st_num_alloc s = st_num s + 1" using inv by simp
    let ?a = "st_num_alloc s"
    let ?n = "if ?a * 2 < ?a \<or> size_mul (?a * 2) 8 div 8 \<noteq> ?a * 2 then ?a + 1 else ?a * 2"
    have "(?a * 2) mod SIZE_BOUND = ?a * 2" "size_add ?a 1 = ?a + 1"
      using inv by (simp_all add: size_add_def)
    with assms(3) True obtain d where cond: "size_mul ?n 8 div 8 = ?n"
      and d0: "realloc_ptrs al (st_data s) (size_mul ?n 8) = Some d"
      and s10: "s1 = s\<lparr>st_data := d, st_num_alloc := ?n\<rparr>"
      by (auto simp: sk_grow_def Let_def split: option.splits if_splits)
    have lt: "?a < ?n" "?n < SIZE_BOUND" using inv full by auto
    obtain n where n: "?a < n" "size_mul n 8 div 8 = n" "n < SIZE_BOUND"
      and d: "realloc_ptrs al (st_data s) (size_mul n 8) = Some d"
      and s1: "s1 = s\<lparr>st_data := d, st_num_alloc := n\<rparr>"
      using that [of ?n] lt cond d0 s10 by blast
    have n8: "n * 8 < SIZE_BOUND" using n size_mul_8_div by blast
    from d obtain fresh where f: "alloc_ptrs al (n * 8) = Some fresh"
      and d': "d = take (length fresh) (st_data s) @ drop (length (st_data s)) fresh"
      by (auto simp: realloc_ptrs_def size_mul_8 [OF n8])
    have "length fresh = n" by (rule length_alloc_ptrs [OF assms(1) f n8])
    then have "length d = n" "take (st_num s) d = take (st_num s) (st_data s)"
      using d' inv n by auto
    then show ?thesis using s1 n n8 inv full by (auto simp: stack_inv_def stack_elems_def)
  qed
  then show "stack_inv s1" and "st_num s1 + 1 < st_num_alloc s1" and "st_num s1 = st_num s"
    and "stack_elems s1 = stack_elems s" and "st_comp s1 = st_comp s" by auto
qed

lemma stack_insert_ok:
  assumes "alloc_spec al" and "stack_inv s" and "stack_ins al s p i = Some s'"
  shows "stack_inv s' \<and> stack_elems s' = take i (stack_elems s) @ p # drop i (stack_elems s)"
proof -
  from assms(3) obtain s1 where g: "sk_grow al s = Some s1"
    by (auto simp: stack_ins_def sk_insert_def split: option.splits)
  note g' = stack_grow_ok [OF assms(1,2) g]
  let ?d = "st_data s1" and ?n = "st_num s1"
  have len: "?n + 1 < length ?d" using g' by (simp add: stack_inv_def)
  let ?d' = "if i \<ge> ?n then ?d [?n := p]
    else (take (i + 1) ?d @ take (?n - i) (drop i ?d) @ drop (?n + 1) ?d) [i := p]"
  have s': "s' = s1\<lparr>st_data := ?d', st_num := ?n + 1, st_sorted := False\<rparr>"
    using assms(3) g by (simp add: stack_ins_def sk_insert_def Let_def split: if_splits)
  have "length ?d' = length ?d" using len by auto
  moreover have "take (?n + 1) ?d' = take i (take ?n ?d) @ p # drop i (take ?n ?d)"
  proof (cases "i \<ge> ?n")
    case True
    then show ?thesis using len by (simp add: take_Suc_conv_app_nth)
  next
    case False
    then have "take (i + 1) ?d = take i ?d @ [?d ! i]" using len by (simp add: take_Suc_conv_app_nth)
    then show ?thesis using False len by (simp add: min_def drop_take list_update_append Suc_diff_le)
  qed
  ultimately have "stack_inv s'" "stack_elems s' = take i (stack_elems s1) @ p # drop i (stack_elems s1)"
    using s' g'(1,2) by (simp_all add: stack_inv_def stack_elems_def)
  then show ?thesis by (simp only: g'(4))
qed

lemma stack_delete_ok:
  assumes "stack_inv s" and "i < length (stack_elems s)" and "stack_del s i = (p, s')"
  shows "stack_inv s' \<and> p = stack_elems s ! i \<and>
    stack_elems s' = take i (stack_elems s) @ drop (Suc i) (stack_elems s)"
proof -
  let ?d = "st_data s" and ?n = "st_num s"
  have len: "?n < length ?d" "length ?d = st_num_alloc s" using assms(1) by (auto simp: stack_inv_def)
  have i: "i < ?n" using assms(2) by (simp add: stack_elems_def)
  let ?d' = "if i \<noteq> ?n - 1 then take i ?d @ take (?n - i - 1) (drop (i + 1) ?d) @ drop (?n - 1) ?d else ?d"
  have r: "p = ?d ! i" "s' = s\<lparr>st_data := ?d', st_num := ?n - 1\<rparr>"
    using assms(3) i by (auto simp: stack_del_def sk_delete_def Let_def)
  have "length ?d' = length ?d" using len i by auto
  moreover have "take (?n - 1) ?d' = take i (take ?n ?d) @ drop (Suc i) (take ?n ?d)"
    using len i by (auto simp: min_def drop_take)
  ultimately show ?thesis
    using r len i assms(1) by (auto simp: stack_inv_def stack_elems_def)
qed

text \<open>For every allocator that keeps its contract the stack is an indexed list.\<close>

locale stack_alloc =
  fixes al :: allocator
  assumes spec: "alloc_spec al"

lemma stack_indexed_list:
  "alloc_spec al \<Longrightarrow> indexed_list stack_inv stack_elems (stack_ins al) stack_del"
  by unfold_locales (use stack_insert_ok stack_delete_ok in blast)+

sublocale stack_alloc \<subseteq> indexed_list stack_inv stack_elems "stack_ins al" stack_del
  by (rule stack_indexed_list [OF spec])

interpretation zero_stack: stack_alloc zero_alloc
  by unfold_locales simp

lemma stack_new_ok:
  assumes "alloc_spec al" and "sk_new al cmp = Some s"
  shows "stack_inv s" and "stack_elems s = []" and "\<not> st_sorted s"
proof -
  from assms(2) obtain d where d: "alloc_ptrs al (4 * 8) = Some d"
    and s: "s = \<lparr>st_num = 0, st_data = replicate (length d) 0, st_sorted = False, st_num_alloc = 4, st_comp = cmp\<rparr>"
    by (auto simp: sk_new_def split: option.splits)
  have "length d = 4" by (rule length_alloc_ptrs [OF assms(1) d]) simp
  then show "stack_inv s" and "stack_elems s = []" and "\<not> st_sorted s"
    using s by (simp_all add: stack_inv_def stack_elems_def)
qed

section \<open>Sorting\<close>

lemma sort_elems:
  assumes "sorter qs" and "stack_inv s" and "sk_sort qs env (Some s) = Some s'"
  shows "stack_inv s' \<and> mset (stack_elems s') = mset (stack_elems s)"
proof -
  have "length (stack_elems s) = st_num s" using assms(2) by (simp add: stack_inv_def stack_elems_def)
  then show ?thesis
    using assms(2,3) sorter.qs_length [OF assms(1), of "env (st_comp s)" "stack_elems s"] sorter.qs_perm [OF assms(1), of "env (st_comp s)" "stack_elems s"]
    by (auto simp: sk_sort_def stack_inv_def stack_elems_def Let_def split: if_splits)
qed

section \<open>The sorted flag\<close>

definition flag_ok :: "cmp_env \<Rightarrow> STACK \<Rightarrow> bool" where
  "flag_ok env s \<longleftrightarrow> (st_sorted s \<longrightarrow> cmp_sorted (env (st_comp s)) (stack_elems s))"

lemma sorted_wrt_remove: "sorted_wrt P xs \<Longrightarrow> i < length xs \<Longrightarrow> sorted_wrt P (take i xs @ drop (Suc i) xs)"
  by (subst (asm) id_take_nth_drop [of i xs]) (auto simp: sorted_wrt_append)

lemma flag_delete:
  assumes "stack_inv s" and "flag_ok env s" and "stack_del s i = (p, s')"
  shows "flag_ok env s'"
proof (cases "i < length (stack_elems s)")
  case True
  have "stack_elems s' = take i (stack_elems s) @ drop (Suc i) (stack_elems s)"
    using stack_delete_ok [OF assms(1) True assms(3)] by simp
  moreover have "st_sorted s' = st_sorted s" "st_comp s' = st_comp s"
    using assms(3) True
    by (auto simp: stack_del_def sk_delete_def Let_def stack_elems_def split: if_splits)
  ultimately show ?thesis
    using assms(2) sorted_wrt_remove [OF _ True] by (simp add: flag_ok_def cmp_sorted_def)
next
  case False
  then have "s' = s"
    using assms(1,3) by (auto simp: stack_del_def sk_delete_def stack_elems_def stack_inv_def)
  then show ?thesis using assms(2) by simp
qed

lemma stack_find_ok:
  assumes "stack_inv s" and "flag_ok env s" and "cmp_order (env (st_comp s))"
    and "st_comp s \<noteq> 0" and "p \<noteq> 0"
  shows "sk_find env (Some s) p = sk_scan (\<lambda>e. env (st_comp s) p e = 0) (st_data s) 0 (st_num s)"
proof (cases "st_sorted s")
  case True
  have "env (st_comp s) (st_data s ! i) (st_data s ! j) \<le> 0" if "i < j" "j < st_num s" for i j
    using assms(1,2) True that
    by (auto simp: flag_ok_def cmp_sorted_def stack_elems_def stack_inv_def sorted_wrt_iff_nth_less)
  from sk_bsearch_scan [OF assms(3) this] True assms(4,5) show ?thesis
    by (simp add: sk_find_def sk_is_sorted_def)
qed (use assms(4,5) in \<open>simp add: sk_find_def sk_is_sorted_def\<close>)

section \<open>Properties of the stack\<close>

text \<open>The comparison of pointers by address, and a sorted stack, for concrete runs.\<close>

definition addr_env :: cmp_env where
  "addr_env f a b = int (unat a) - int (unat b)"

lemma addr_env_order: "cmp_order (addr_env f)"
  by (auto simp: cmp_order_def addr_env_def)

definition stack_123 :: STACK where
  "stack_123 = \<lparr>st_num = 3, st_data = [1, 2, 3, 0], st_sorted = True, st_num_alloc = 4, st_comp = 1\<rparr>"

lemma stack_123_ok: "stack_inv stack_123" "flag_ok addr_env stack_123" "stack_elems stack_123 = [1, 2, 3]"
  by (simp_all add: stack_123_def stack_inv_def flag_ok_def cmp_sorted_def stack_elems_def addr_env_def)

text \<open>
  C33. \<open>sk_find\<close> with a comparison function, whether it scans or searches binarily, returns the first
  index whose element compares equal to \<open>p\<close>, and reports failure only when there is none, provided
  the comparison is that of an order and the sorted flag is truthful.
\<close>

theorem sk_find_first:
  assumes "stack_inv s" and "flag_ok env s" and "cmp_order (env (st_comp s))"
    and "st_comp s \<noteq> 0" and "p \<noteq> 0"
  shows "(case sk_find env (Some s) p of
      None \<Rightarrow> \<forall>e \<in> set (stack_elems s). env (st_comp s) p e \<noteq> 0
    | Some i \<Rightarrow> i < st_num s \<and> env (st_comp s) p (sk_value (Some s) i) = 0 \<and>
        (\<forall>j < i. env (st_comp s) p (sk_value (Some s) j) \<noteq> 0))"
proof (cases "sk_find env (Some s) p")
  case None
  then have "sk_scan (\<lambda>e. env (st_comp s) p e = 0) (st_data s) 0 (st_num s) = None"
    using stack_find_ok [OF assms] by simp
  then have "\<forall>j < st_num s. env (st_comp s) p (st_data s ! j) \<noteq> 0" by (simp add: sk_scan_None)
  then show ?thesis using None assms(1) by (auto simp: stack_elems_def stack_inv_def in_set_conv_nth)
next
  case (Some i)
  then have "sk_scan (\<lambda>e. env (st_comp s) p e = 0) (st_data s) 0 (st_num s) = Some i"
    using stack_find_ok [OF assms] by simp
  then show ?thesis using Some by (simp add: sk_scan_Some sk_value_def)
qed

theorem sk_find_first_witness:
  "sk_find addr_env (Some stack_123) 2 = Some 1 \<and> sk_value (Some stack_123) 1 = 2"
  using sk_find_first [OF stack_123_ok(1,2), of 2] addr_env_order
  by (simp add: stack_123_def sk_find_def sk_is_sorted_def sk_bsearch.simps addr_env_def Let_def
      sk_value_def)

lemma alloc_ptrs_ok:
  assumes "alloc_total al" and "n < SIZE_BOUND - 8"
  shows "alloc_ptrs al n \<noteq> None"
  using assms by (auto simp: alloc_total_def alloc_ptrs_def OPENSSL_malloc_def size_add_def split: option.splits)

lemma sk_grow_total:
  assumes "alloc_total al" and "stack_inv s" and "(st_num s + 2) * 8 < SIZE_BOUND - 8"
  shows "sk_grow al s \<noteq> None"
proof (cases "st_num_alloc s \<le> st_num s + 1")
  case False
  then show ?thesis by (simp add: sk_grow_def)
next
  case True
  let ?a = "st_num_alloc s"
  have a: "?a = st_num s + 1" and inv: "?a * 8 < SIZE_BOUND" using True assms(2) by (auto simp: stack_inv_def)
  have sums: "(?a * 2) mod SIZE_BOUND = ?a * 2" "size_add ?a 1 = ?a + 1"
    using inv by (simp_all add: size_add_def)
  obtain n where n: "(if ?a * 2 < ?a \<or> size_mul (?a * 2) 8 div 8 \<noteq> ?a * 2 then ?a + 1 else ?a * 2) = n"
    and "?a \<le> n" and n8: "n * 8 < SIZE_BOUND - 8"
  proof (cases "size_mul (?a * 2) 8 div 8 = ?a * 2")
    case True
    then have "?a * 2 * 8 < SIZE_BOUND" using size_mul_8_div [of "?a * 2"] inv by simp
    then show thesis using that [of "?a * 2"] True by simp
  next
    case False
    then show thesis using that [of "?a + 1"] assms(3) a by simp
  qed
  have m: "size_mul n 8 = n * 8" by (rule size_mul_8) (use n8 in simp)
  have "alloc_ptrs al (n * 8) \<noteq> None" by (rule alloc_ptrs_ok [OF assms(1) n8])
  moreover have "sk_grow al s = (if n < ?a \<or> size_mul n 8 div 8 \<noteq> n then None
      else case realloc_ptrs al (st_data s) (size_mul n 8) of
        None \<Rightarrow> None | Some data \<Rightarrow> Some (s\<lparr>st_data := data, st_num_alloc := n\<rparr>))"
    using True unfolding sk_grow_def Let_def by (simp only: sums n if_True)
  ultimately show ?thesis using \<open>?a \<le> n\<close> by (auto simp: m realloc_ptrs_def)
qed

text \<open>Growing fails only where the array is full and the allocator, or the range of \<open>size_t\<close>, ends.\<close>

lemma sk_grow_None:
  assumes "stack_inv s" and "sk_grow al s = None"
  shows "st_num_alloc s = st_num s + 1"
  using assms by (auto simp: sk_grow_def stack_inv_def split: if_splits)

text \<open>
  C34. Insertion and deletion refine the list operations and keep the stack sound, at every index.
  Where the array cannot grow, \<open>sk_insert\<close> returns 0 and changes nothing; that happens only when it is full and
  the allocator refuses, or two more pointers would not fit into the range of \<open>size_t\<close>;
  otherwise it returns the new number of elements and puts \<open>p\<close> at the index, or at the end where
  the index is beyond it, the rest following. \<open>sk_delete\<close> returns and removes the element at an index in range,
  and returns null and changes nothing for any other. Deleting where \<open>p\<close> was put restores the elements.
\<close>

theorem sk_insert_delete:
  assumes "alloc_spec al" and "stack_inv s"
  shows "(case sk_grow al s of
      None \<Rightarrow> st_num_alloc s = st_num s + 1 \<and> sk_insert al (Some s) p i = (0, Some s)
    | Some _ \<Rightarrow> \<exists>s'. sk_insert al (Some s) p i = (st_num s + 1, Some s') \<and> stack_inv s' \<and>
        stack_elems s' = take i (stack_elems s) @ p # drop i (stack_elems s) \<and>
        st_comp s' = st_comp s \<and> \<not> st_sorted s' \<and>
        (\<exists>s''. sk_delete (Some s') (min i (st_num s)) = (p, Some s'') \<and> stack_inv s'' \<and>
          stack_elems s'' = stack_elems s)) \<and>
    (if i < st_num s
     then \<exists>s'. sk_delete (Some s) i = (stack_elems s ! i, Some s') \<and> stack_inv s' \<and>
       stack_elems s' = take i (stack_elems s) @ drop (Suc i) (stack_elems s) \<and>
       st_comp s' = st_comp s \<and> st_sorted s' = st_sorted s
     else sk_delete (Some s) i = (0, Some s)) \<and>
    (alloc_total al \<and> (st_num s + 2) * 8 < SIZE_BOUND - 8 \<longrightarrow> sk_grow al s \<noteq> None)"
  (is "?ins \<and> ?del \<and> ?grow")
proof (intro conjI)
  show ?grow using sk_grow_total [OF _ assms(2)] by blast
  note lst = stack_indexed_list [OF assms(1)]
  have len: "length (stack_elems s) = st_num s" using assms(2) by (simp add: stack_inv_def stack_elems_def)
  show ?ins
  proof (cases "sk_grow al s")
    case None
    then show ?thesis using sk_grow_None [OF assms(2) None] by (simp add: sk_insert_def)
  next
    case (Some s1)
    note g = stack_grow_ok(3,5) [OF assms(1,2) Some]
    obtain s' where s': "sk_insert al (Some s) p i = (st_num s + 1, Some s')" "st_num s' = st_num s + 1"
      "st_comp s' = st_comp s" "\<not> st_sorted s'"
      using Some g by (simp add: sk_insert_def Let_def)
    then have ins: "stack_ins al s p i = Some s'" by (simp add: stack_ins_def)
    obtain q s'' where d: "sk_delete (Some s') (min i (st_num s)) = (q, Some s'')"
      using s'(2) by (simp add: sk_delete_def Let_def)
    then have "stack_del s' (min i (st_num s)) = (q, s'')" by (simp add: stack_del_def)
    with indexed_list.del_ins [OF lst assms(2) ins] d s' stack_insert_ok [OF assms(1,2) ins] Some
    show ?thesis by (auto simp: len)
  qed
  show ?del
  proof (cases "i < st_num s")
    case True
    obtain q s' where d: "sk_delete (Some s) i = (q, Some s')" "st_comp s' = st_comp s" "st_sorted s' = st_sorted s"
      using True by (simp add: sk_delete_def Let_def)
    then have "stack_del s i = (q, s')" by (simp add: stack_del_def)
    from stack_delete_ok [OF assms(2) _ this] True len d show ?thesis by simp
  next
    case False
    then show ?thesis by (simp add: sk_delete_def)
  qed
qed

text \<open>An index behind the end, on a full array; and the deletion behind the end.\<close>

theorem sk_insert_delete_witness:
  "\<exists>s'. sk_insert zero_alloc (Some stack_123) 7 9 = (4, Some s') \<and> stack_elems s' = [1, 2, 3, 7] \<and>
     sk_delete (Some stack_123) 9 = (0, Some stack_123)"
proof -
  have g: "sk_grow zero_alloc stack_123 \<noteq> None"
    by (simp add: sk_grow_def stack_123_def realloc_ptrs_def alloc_ptrs_def zero_alloc_def
        OPENSSL_malloc_def size_add_def size_mul_def Let_def)
  have n: "st_num stack_123 = 3" by (simp add: stack_123_def)
  from sk_insert_delete [OF zero_alloc_spec stack_123_ok(1), of 7 9] g
  show ?thesis by (auto simp: n stack_123_ok(3))
qed

text \<open>
  C35. \<open>sk_sort\<close> permutes the elements, leaves a sound stack and sets the sorted flag truthfully,
  for every \<open>qsort\<close> that meets its C contract.
\<close>

theorem sk_sort_correct:
  assumes "sorter qs" and "stack_inv s" and "flag_ok env s" and "cmp_order (env (st_comp s))"
    and "st_comp s \<noteq> 0"
  shows "\<exists>s'. sk_sort qs env (Some s) = Some s' \<and> stack_inv s' \<and> st_sorted s' \<and>
    mset (stack_elems s') = mset (stack_elems s) \<and>
    cmp_sorted (env (st_comp s)) (stack_elems s') \<and> flag_ok env s'"
proof -
  have "sk_sort qs env (Some s) \<noteq> None" by (simp add: sk_sort_def Let_def)
  then obtain s' where s': "sk_sort qs env (Some s) = Some s'" by blast
  have len: "length (stack_elems s) = st_num s" using assms(2) by (simp add: stack_inv_def stack_elems_def)
  have same: "st_comp s' = st_comp s" "st_sorted s'"
    using s' assms(5) by (auto simp: sk_sort_def Let_def split: if_splits)
  have "cmp_sorted (env (st_comp s)) (stack_elems s')"
  proof (cases "st_sorted s")
    case True
    then show ?thesis using s' assms(3) by (auto simp: sk_sort_def flag_ok_def)
  next
    case False
    show ?thesis
    proof (cases "2 \<le> st_num s")
      case True
      have "length (qs (env (st_comp s)) (take (st_num s) (st_data s))) = st_num s"
        using sorter.qs_length [OF assms(1)] len by (simp add: stack_elems_def)
      then have "stack_elems s' = qs (env (st_comp s)) (stack_elems s)"
        using s' False True assms(5) by (auto simp: sk_sort_def Let_def stack_elems_def)
      then show ?thesis using sorter.qs_sorted [OF assms(1,4)] by simp
    next
      case small: False
      have "length (stack_elems s') \<le> 1"
        using s' False small assms(5) by (auto simp: sk_sort_def Let_def stack_elems_def)
      then show ?thesis by (cases "stack_elems s'") (auto simp: cmp_sorted_def)
    qed
  qed
  then show ?thesis
    using s' same sort_elems [OF assms(1,2) s'] by (simp add: flag_ok_def)
qed

theorem sk_sort_correct_witness:
  "\<exists>s'. sk_sort cmp_sort addr_env (Some (stack_123\<lparr>st_data := [3, 1, 2, 0], st_sorted := False\<rparr>)) = Some s' \<and>
     st_sorted s' \<and> mset (stack_elems s') = mset [3, 1, 2]"
  using sk_sort_correct [OF insertion.sorter_axioms, of
      "stack_123\<lparr>st_data := [3, 1, 2, 0], st_sorted := False\<rparr>" addr_env] addr_env_order
  by (auto simp: stack_123_def stack_inv_def flag_ok_def stack_elems_def)

text \<open>
  \<open>sk_set\<close> does not clear the sorted flag: on a stack that holds 1, 2, 3 and says so, setting
  the first element to 9 leaves the flag set over 9, 2, 3, and \<open>sk_find\<close> then misses the 9.
\<close>

lemma sk_set_keeps_stale_flag:
  "let env = (\<lambda>_ a b. int (unat a) - int (unat b));
       s = \<lparr>st_num = 3, st_data = [1, 2, 3, 0], st_sorted = True, st_num_alloc = 4, st_comp = 1\<rparr>;
       s' = snd (sk_set (Some s) 0 9)
   in flag_ok env s \<and> sk_is_sorted s' \<and> sk_value s' 0 = 9 \<and> sk_find env s' 9 = None \<and>
      \<not> flag_ok env (the s')"
  by (simp add: flag_ok_def cmp_sorted_def stack_elems_def sk_set_def sk_is_sorted_def sk_value_def
      sk_find_def sk_bsearch.simps Let_def)

end
