(* ===== verification/Lhash.thy ===== *)
theory Lhash
  imports Mem "HOL-Library.Multiset"
begin

text \<open>
  The chained hash table of BoringSSL (\<^verbatim>\<open>crypto/lhash/lhash.c\<close>). A bucket is the list of the items
  of its chain, in order, and the table the list of its buckets. The hash and comparison functions
  the table is made with are the parameters \<open>hash\<close> and \<open>cmp\<close>, and \<open>al\<close> is the allocator. A
  \<open>void *\<close> result is an option, \<open>None\<close> for null. The pointer to a pointer that
  \<open>get_next_ptr_and_hash\<close> returns is the place in the chain, given by the items before and from it.
\<close>

section \<open>State\<close>

abbreviation (input) kMinNumBuckets :: nat where
  "kMinNumBuckets \<equiv> 16"
abbreviation (input) kMaxAverageChainLength :: nat where
  "kMaxAverageChainLength \<equiv> 2"
abbreviation (input) kMinAverageChainLength :: nat where
  "kMinAverageChainLength \<equiv> 1"
abbreviation (input) LHASH_SIZE :: nat where
  "LHASH_SIZE \<equiv> 48"
abbreviation (input) LHASH_ITEM_SIZE :: nat where
  "LHASH_ITEM_SIZE \<equiv> 24"
abbreviation (input) UINT_MAX :: nat where
  "UINT_MAX \<equiv> 0xffffffff"

record 'd lh_item =
  it_data :: 'd
  it_hash :: u32

record 'd LHASH =
  lh_num_items :: nat
  lh_buckets :: "'d lh_item list list"
  lh_num_buckets :: nat
  lh_callback_depth :: nat

type_synonym 'd lh_hash = "'d \<Rightarrow> u32"
type_synonym 'd lh_cmp = "'d \<Rightarrow> 'd \<Rightarrow> int"

section \<open>Operations\<close>

definition OPENSSL_lh_new :: "allocator \<Rightarrow> 'd LHASH option" where
  "OPENSSL_lh_new al =
     (case OPENSSL_malloc al LHASH_SIZE of
        None \<Rightarrow> None
      | Some ret \<Rightarrow>
          (case OPENSSL_malloc al (8 * kMinNumBuckets) of
             None \<Rightarrow> None
           | Some buckets \<Rightarrow>
               Some \<lparr>lh_num_items = 0, lh_buckets = replicate kMinNumBuckets [],
                     lh_num_buckets = kMinNumBuckets, lh_callback_depth = 0\<rparr>))"

definition OPENSSL_lh_num_items :: "'d LHASH \<Rightarrow> nat" where
  "OPENSSL_lh_num_items lh = lh_num_items lh"

text \<open>The loop over a chain: the items passed, and the rest from the item found.\<close>

fun lh_chain_find :: "('d \<Rightarrow> bool) \<Rightarrow> 'd lh_item list \<Rightarrow> 'd lh_item list \<times> 'd lh_item list" where
  "lh_chain_find eq [] = ([], [])"
| "lh_chain_find eq (cur # next) =
     (if eq (it_data cur) then ([], cur # next)
      else case lh_chain_find eq next of (before, found) \<Rightarrow> (cur # before, found))"

text \<open>The bucket, the place in its chain and the hash of the data.\<close>

definition get_next_ptr_and_hash ::
  "'d lh_hash \<Rightarrow> 'd lh_cmp \<Rightarrow> 'd LHASH \<Rightarrow> 'd \<Rightarrow> u32 \<times> nat \<times> 'd lh_item list \<times> 'd lh_item list" where
  "get_next_ptr_and_hash hash cmp lh data =
     (let h = hash data; b = unat h mod lh_num_buckets lh
      in (h, b, lh_chain_find (\<lambda>d. cmp d data = 0) (lh_buckets lh ! b)))"

definition get_next_ptr_by_key ::
  "'d LHASH \<Rightarrow> 'k \<Rightarrow> u32 \<Rightarrow> ('k \<Rightarrow> 'd \<Rightarrow> int) \<Rightarrow> 'd lh_item list \<times> 'd lh_item list" where
  "get_next_ptr_by_key lh key key_hash cmp_key =
     lh_chain_find (\<lambda>d. cmp_key key d = 0) (lh_buckets lh ! (unat key_hash mod lh_num_buckets lh))"

definition OPENSSL_lh_retrieve :: "'d lh_hash \<Rightarrow> 'd lh_cmp \<Rightarrow> 'd LHASH \<Rightarrow> 'd \<Rightarrow> 'd option" where
  "OPENSSL_lh_retrieve hash cmp lh data =
     (case get_next_ptr_and_hash hash cmp lh data of
        (h, b, before, []) \<Rightarrow> None
      | (h, b, before, item # rest) \<Rightarrow> Some (it_data item))"

definition OPENSSL_lh_retrieve_key ::
  "'d LHASH \<Rightarrow> 'k \<Rightarrow> u32 \<Rightarrow> ('k \<Rightarrow> 'd \<Rightarrow> int) \<Rightarrow> 'd option" where
  "OPENSSL_lh_retrieve_key lh key key_hash cmp_key =
     (case get_next_ptr_by_key lh key key_hash cmp_key of
        (before, []) \<Rightarrow> None
      | (before, item # rest) \<Rightarrow> Some (it_data item))"

definition lh_move :: "nat \<Rightarrow> 'd lh_item list list \<Rightarrow> 'd lh_item \<Rightarrow> 'd lh_item list list" where
  "lh_move n new_buckets cur =
     (let new_bucket = unat (it_hash cur) mod n
      in new_buckets [new_bucket := cur # new_buckets ! new_bucket])"

definition lh_rebucket :: "allocator \<Rightarrow> 'd LHASH \<Rightarrow> nat \<Rightarrow> 'd LHASH" where
  "lh_rebucket al lh new_num_buckets =
     (let alloc_size = size_mul 8 new_num_buckets
      in if alloc_size div 8 \<noteq> new_num_buckets then lh
         else case OPENSSL_malloc al alloc_size of
           None \<Rightarrow> lh
         | Some mem \<Rightarrow>
             lh\<lparr>lh_buckets := foldl (foldl (lh_move new_num_buckets))
                                (replicate new_num_buckets []) (lh_buckets lh),
                lh_num_buckets := new_num_buckets\<rparr>)"

definition lh_maybe_resize :: "allocator \<Rightarrow> 'd LHASH \<Rightarrow> 'd LHASH" where
  "lh_maybe_resize al lh =
     (if lh_callback_depth lh > 0 then lh
      else
        let avg_chain_length = lh_num_items lh div lh_num_buckets lh in
        if avg_chain_length > kMaxAverageChainLength then
          (let new_num_buckets = size_mul (lh_num_buckets lh) 2
           in if new_num_buckets > lh_num_buckets lh then lh_rebucket al lh new_num_buckets else lh)
        else if avg_chain_length < kMinAverageChainLength \<and> lh_num_buckets lh > kMinNumBuckets then
          (let half = lh_num_buckets lh div 2;
               new_num_buckets = (if half < kMinNumBuckets then kMinNumBuckets else half)
           in lh_rebucket al lh new_num_buckets)
        else lh)"

text \<open>The outputs of \<open>OPENSSL_lh_insert\<close> are its return value and \<open>*old_data\<close>.\<close>

definition OPENSSL_lh_insert ::
  "allocator \<Rightarrow> 'd lh_hash \<Rightarrow> 'd lh_cmp \<Rightarrow> 'd LHASH \<Rightarrow> 'd \<Rightarrow> bool \<times> 'd option \<times> 'd LHASH" where
  "OPENSSL_lh_insert al hash cmp lh data =
     (case get_next_ptr_and_hash hash cmp lh data of
        (h, b, before, item # rest) \<Rightarrow>
          (True, Some (it_data item),
           lh\<lparr>lh_buckets := (lh_buckets lh) [b := before @ item\<lparr>it_data := data\<rparr> # rest]\<rparr>)
      | (h, b, before, []) \<Rightarrow>
          (case OPENSSL_malloc al LHASH_ITEM_SIZE of
             None \<Rightarrow> (False, None, lh)
           | Some mem \<Rightarrow>
               (True, None,
                lh_maybe_resize al
                  (lh\<lparr>lh_buckets := (lh_buckets lh)
                        [b := before @ [\<lparr>it_data = data, it_hash = h\<rparr>]],
                      lh_num_items := lh_num_items lh + 1\<rparr>))))"

definition OPENSSL_lh_delete ::
  "allocator \<Rightarrow> 'd lh_hash \<Rightarrow> 'd lh_cmp \<Rightarrow> 'd LHASH \<Rightarrow> 'd \<Rightarrow> 'd option \<times> 'd LHASH" where
  "OPENSSL_lh_delete al hash cmp lh data =
     (case get_next_ptr_and_hash hash cmp lh data of
        (h, b, before, []) \<Rightarrow> (None, lh)
      | (h, b, before, item # rest) \<Rightarrow>
          (Some (it_data item),
           lh_maybe_resize al
             (lh\<lparr>lh_buckets := (lh_buckets lh) [b := before @ rest],
                 lh_num_items := lh_num_items lh - 1\<rparr>)))"

text \<open>
  \<open>OPENSSL_lh_doall_arg\<close> with a callback that leaves the table alone: it visits the data in the
  order of the buckets. The depth counter saturates.
\<close>

definition OPENSSL_lh_doall_arg ::
  "allocator \<Rightarrow> ('d \<Rightarrow> 'a \<Rightarrow> 'a) \<Rightarrow> 'd LHASH \<Rightarrow> 'a \<Rightarrow> 'a \<times> 'd LHASH" where
  "OPENSSL_lh_doall_arg al func lh arg =
     (let lh1 = (if lh_callback_depth lh < UINT_MAX
                 then lh\<lparr>lh_callback_depth := lh_callback_depth lh + 1\<rparr> else lh);
          arg' = foldl (foldl (\<lambda>a it. func (it_data it) a)) arg (lh_buckets lh1);
          lh2 = (if lh_callback_depth lh1 < UINT_MAX
                 then lh1\<lparr>lh_callback_depth := lh_callback_depth lh1 - 1\<rparr> else lh1)
      in (arg', lh_maybe_resize al lh2))"

section \<open>Invariant\<close>

definition lh_items :: "'d LHASH \<Rightarrow> 'd multiset" where
  "lh_items lh = image_mset it_data (mset (concat (lh_buckets lh)))"

text \<open>The functions of a table: equal data have equal hashes, and equality is an equivalence.\<close>

definition lh_funs :: "'d lh_hash \<Rightarrow> 'd lh_cmp \<Rightarrow> bool" where
  "lh_funs hash cmp \<longleftrightarrow>
     (\<forall>a. cmp a a = 0) \<and> (\<forall>a b. cmp a b = 0 \<longrightarrow> cmp b a = 0) \<and>
     (\<forall>a b c. cmp a b = 0 \<longrightarrow> cmp b c = 0 \<longrightarrow> cmp a c = 0) \<and>
     (\<forall>a b. cmp a b = 0 \<longrightarrow> hash a = hash b)"

definition item_ok :: "'d lh_hash \<Rightarrow> nat \<Rightarrow> nat \<Rightarrow> 'd lh_item \<Rightarrow> bool" where
  "item_ok hash n b it \<longleftrightarrow> it_hash it = hash (it_data it) \<and> unat (it_hash it) mod n = b"

definition buckets_ok :: "'d lh_hash \<Rightarrow> nat \<Rightarrow> 'd lh_item list list \<Rightarrow> bool" where
  "buckets_ok hash n bs \<longleftrightarrow> length bs = n \<and> (\<forall>b < n. \<forall>it \<in> set (bs ! b). item_ok hash n b it)"

definition unique_keys :: "'d lh_cmp \<Rightarrow> 'd multiset \<Rightarrow> bool" where
  "unique_keys cmp M \<longleftrightarrow> (\<forall>d. size (filter_mset (\<lambda>x. cmp x d = 0) M) \<le> 1)"

definition lh_inv :: "'d lh_hash \<Rightarrow> 'd lh_cmp \<Rightarrow> 'd LHASH \<Rightarrow> bool" where
  "lh_inv hash cmp lh \<longleftrightarrow> kMinNumBuckets \<le> lh_num_buckets lh \<and>
     buckets_ok hash (lh_num_buckets lh) (lh_buckets lh) \<and> unique_keys cmp (lh_items lh) \<and>
     lh_num_items lh = size (lh_items lh)"

lemma chain_find_split:
  "lh_chain_find eq chain = (before, found) \<Longrightarrow> chain = before @ found \<and>
     (\<forall>it \<in> set before. \<not> eq (it_data it)) \<and> (found \<noteq> [] \<longrightarrow> eq (it_data (hd found)))"
  by (induction chain arbitrary: before found) (auto split: if_splits prod.splits)

lemma mset_concat_update:
  "b < length bs \<Longrightarrow> mset (concat (bs [b := c])) + mset (bs ! b) = mset (concat bs) + mset c"
proof -
  assume "b < length bs"
  then have "bs = take b bs @ bs ! b # drop (Suc b) bs" by (rule id_take_nth_drop)
  then have "mset (concat bs) = mset (concat (take b bs)) + mset (bs ! b) + mset (concat (drop (Suc b) bs))"
    by (metis concat.simps(2) concat_append mset_append union_assoc)
  then show ?thesis using \<open>b < length bs\<close> by (simp add: upd_conv_take_nth_drop)
qed

lemma buckets_ok_update:
  assumes "buckets_ok hash n bs" and "\<And>it. it \<in> set c \<Longrightarrow> item_ok hash n b it"
  shows "buckets_ok hash n (bs [b := c])"
  using assms by (cases "b < length bs") (auto simp: buckets_ok_def nth_list_update split: if_splits)

lemma lh_move_ok:
  assumes "buckets_ok hash n bs" and "0 < n" and "it_hash it = hash (it_data it)"
  shows "buckets_ok hash n (lh_move n bs it)"
    and "mset (concat (lh_move n bs it)) = add_mset it (mset (concat bs))"
proof -
  let ?b = "unat (it_hash it) mod n"
  have b: "?b < length bs" using assms by (simp add: buckets_ok_def)
  have "item_ok hash n ?b it" using assms(3) by (simp add: item_ok_def)
  moreover have "\<forall>x \<in> set (bs ! ?b). item_ok hash n ?b x" using assms(1) b by (simp add: buckets_ok_def)
  ultimately show "buckets_ok hash n (lh_move n bs it)"
    unfolding lh_move_def Let_def by (intro buckets_ok_update [OF assms(1)]) auto
  show "mset (concat (lh_move n bs it)) = add_mset it (mset (concat bs))"
    using mset_concat_update [OF b, of "it # bs ! ?b"] by (simp add: lh_move_def Let_def)
qed

lemma lh_move_chain:
  assumes "0 < n"
  shows "buckets_ok hash n bs \<Longrightarrow> (\<forall>it \<in> set chain. it_hash it = hash (it_data it)) \<Longrightarrow>
    buckets_ok hash n (foldl (lh_move n) bs chain) \<and>
    mset (concat (foldl (lh_move n) bs chain)) = mset (concat bs) + mset chain"
proof (induction chain arbitrary: bs)
  case (Cons it chain)
  have it: "it_hash it = hash (it_data it)" using Cons.prems by simp
  note m = lh_move_ok [OF Cons.prems(1) assms it]
  then show ?case using Cons.IH [OF m(1)] Cons.prems by simp
qed simp

lemma lh_move_chains:
  assumes "0 < n"
  shows "buckets_ok hash n bs \<Longrightarrow> (\<forall>it \<in> set (concat old). it_hash it = hash (it_data it)) \<Longrightarrow>
    buckets_ok hash n (foldl (foldl (lh_move n)) bs old) \<and>
    mset (concat (foldl (foldl (lh_move n)) bs old)) = mset (concat bs) + mset (concat old)"
proof (induction old arbitrary: bs)
  case (Cons chain old)
  have m: "buckets_ok hash n (foldl (lh_move n) bs chain)"
    "mset (concat (foldl (lh_move n) bs chain)) = mset (concat bs) + mset chain"
    using lh_move_chain [OF assms Cons.prems(1), of chain] Cons.prems(2) by auto
  then show ?case using Cons.IH [OF m(1)] Cons.prems(2) by (simp add: union_assoc)
qed simp

lemma buckets_ok_items:
  assumes "buckets_ok hash n bs" and "it \<in> set (concat bs)"
  shows "it_hash it = hash (it_data it)" and "it \<in> set (bs ! (unat (hash (it_data it)) mod n))"
proof -
  from assms(2) obtain b where b: "b < length bs" "it \<in> set (bs ! b)"
    by (metis UN_E in_set_conv_nth set_concat)
  then have "item_ok hash n b it" using assms(1) by (simp add: buckets_ok_def)
  with b show "it_hash it = hash (it_data it)" and "it \<in> set (bs ! (unat (hash (it_data it)) mod n))"
    unfolding item_ok_def by metis+
qed

text \<open>Redistributing the items keeps the contents of the table.\<close>

lemma rebucket_ok:
  assumes "lh_inv hash cmp lh" and "kMinNumBuckets \<le> n"
  shows "lh_inv hash cmp (lh_rebucket al lh n)" and "lh_items (lh_rebucket al lh n) = lh_items lh"
proof -
  let ?bs = "foldl (foldl (lh_move n)) (replicate n []) (lh_buckets lh)"
  have "buckets_ok hash n (replicate n [])" by (simp add: buckets_ok_def)
  moreover have "\<forall>it \<in> set (concat (lh_buckets lh)). it_hash it = hash (it_data it)"
    using assms(1) buckets_ok_items(1) unfolding lh_inv_def by metis
  ultimately have m: "buckets_ok hash n ?bs" "mset (concat ?bs) = mset (concat (lh_buckets lh))"
    using lh_move_chains [of n hash "replicate n []" "lh_buckets lh"] assms(2) by auto
  have "lh_inv hash cmp (lh\<lparr>lh_buckets := ?bs, lh_num_buckets := n\<rparr>)"
    "lh_items (lh\<lparr>lh_buckets := ?bs, lh_num_buckets := n\<rparr>) = lh_items lh"
    using assms m by (auto simp: lh_inv_def lh_items_def)
  then show "lh_inv hash cmp (lh_rebucket al lh n)" and "lh_items (lh_rebucket al lh n) = lh_items lh"
    using assms(1) by (auto simp: lh_rebucket_def Let_def split: option.splits)
qed

lemma maybe_resize_ok:
  assumes "lh_inv hash cmp lh"
  shows "lh_inv hash cmp (lh_maybe_resize al lh)" and "lh_items (lh_maybe_resize al lh) = lh_items lh"
proof -
  have n: "kMinNumBuckets \<le> lh_num_buckets lh" using assms by (simp add: lh_inv_def)
  have "kMinNumBuckets \<le> k \<Longrightarrow> lh_inv hash cmp (lh_rebucket al lh k) \<and> lh_items (lh_rebucket al lh k) = lh_items lh" for k
    using rebucket_ok [OF assms] by blast
  then show "lh_inv hash cmp (lh_maybe_resize al lh)" and "lh_items (lh_maybe_resize al lh) = lh_items lh"
    using n assms by (auto simp: lh_maybe_resize_def Let_def)
qed

lemma unique_keysD:
  assumes "unique_keys cmp M" and "x \<in># M" "y \<in># M" and "cmp x d = 0" "cmp y d = 0"
  shows "x = y"
proof -
  let ?F = "filter_mset (\<lambda>z. cmp z d = 0) M"
  have mem: "x \<in># ?F" "y \<in># ?F" using assms by simp_all
  have "size ?F \<le> 1" using assms(1) unfolding unique_keys_def by blast
  moreover have "size ?F \<noteq> 0" using mem by auto
  ultimately have "size ?F = 1" by linarith
  then obtain a where "?F = {#a#}" using size_1_singleton_mset by blast
  then show ?thesis using mem by (metis empty_iff insert_iff set_mset_add_mset_insert set_mset_empty)
qed

lemma unique_keys_remove:
  assumes "unique_keys cmp M"
  shows "unique_keys cmp (M - {#x#})"
proof -
  have "size (filter_mset (\<lambda>z. cmp z d = 0) (M - {#x#})) \<le> size (filter_mset (\<lambda>z. cmp z d = 0) M)" for d
    by (intro size_mset_mono multiset_filter_mono diff_subset_eq_self)
  then show ?thesis using assms unfolding unique_keys_def by (meson order_trans)
qed

lemma unique_keys_add:
  assumes "lh_funs hash cmp" and "unique_keys cmp M" and "\<forall>x \<in># M. cmp x d \<noteq> 0"
  shows "unique_keys cmp (add_mset d M)"
proof -
  have "size (filter_mset (\<lambda>x. cmp x e = 0) (add_mset d M)) \<le> 1" for e
  proof (cases "cmp d e = 0")
    case True
    have "\<not> cmp x e = 0" if "x \<in># M" for x
      using assms(1,3) True that unfolding lh_funs_def by metis
    then have "filter_mset (\<lambda>x. cmp x e = 0) M = {#}"
      by (intro set_mset_eq_empty_iff [THEN iffD1]) auto
    then show ?thesis using True by simp
  qed (use assms(2) in \<open>auto simp: unique_keys_def\<close>)
  then show ?thesis by (simp add: unique_keys_def)
qed


section \<open>Operations on the contents\<close>

lemma find_cases:
  assumes "lh_inv hash cmp lh" and funs: "lh_funs hash cmp"
    and f: "get_next_ptr_and_hash hash cmp lh d = (h, b, before, found)"
  shows "h = hash d" and "b < lh_num_buckets lh" and "lh_buckets lh ! b = before @ found"
    and "b = unat h mod lh_num_buckets lh"
    and "found = [] \<Longrightarrow> \<forall>x \<in># lh_items lh. cmp x d \<noteq> 0"
    and "found = it # rest \<Longrightarrow> cmp (it_data it) d = 0 \<and> it_data it \<in># lh_items lh"
proof -
  show h: "h = hash d" "b < lh_num_buckets lh" "b = unat h mod lh_num_buckets lh"
    using f assms(1) by (auto simp: get_next_ptr_and_hash_def Let_def lh_inv_def)
  have split: "lh_buckets lh ! b = before @ found \<and> (\<forall>it \<in> set before. cmp (it_data it) d \<noteq> 0) \<and>
      (found \<noteq> [] \<longrightarrow> cmp (it_data (hd found)) d = 0)"
    using chain_find_split [of "\<lambda>x. cmp x d = 0" "lh_buckets lh ! b" before found] f
    by (auto simp: get_next_ptr_and_hash_def Let_def)
  then show "lh_buckets lh ! b = before @ found" by simp
  have ok: "buckets_ok hash (lh_num_buckets lh) (lh_buckets lh)" using assms(1) by (simp add: lh_inv_def)
  show "\<forall>x \<in># lh_items lh. cmp x d \<noteq> 0" if "found = []"
  proof
    fix x
    assume "x \<in># lh_items lh"
    then obtain it where it: "it \<in> set (concat (lh_buckets lh))" "x = it_data it"
      by (auto simp: lh_items_def)
    show "cmp x d \<noteq> 0"
    proof
      assume "cmp x d = 0"
      then have "hash (it_data it) = hash d" using funs it(2) unfolding lh_funs_def by metis
      then have "it \<in> set (lh_buckets lh ! b)" using buckets_ok_items(2) [OF ok it(1)] h by simp
      then show False using split that it(2) \<open>cmp x d = 0\<close> by simp
    qed
  qed
  show "cmp (it_data it) d = 0 \<and> it_data it \<in># lh_items lh" if "found = it # rest"
  proof -
    have "it \<in> set (lh_buckets lh ! b)" using split that by simp
    moreover have "lh_buckets lh ! b \<in> set (lh_buckets lh)" using h ok by (simp add: buckets_ok_def)
    ultimately have "it \<in> set (concat (lh_buckets lh))" by auto
    then show ?thesis using split that by (simp add: lh_items_def)
  qed
qed

lemma retrieve_iff:
  assumes "lh_inv hash cmp lh" and "lh_funs hash cmp"
  shows "OPENSSL_lh_retrieve hash cmp lh d = Some x \<longleftrightarrow> x \<in># lh_items lh \<and> cmp x d = 0"
proof -
  obtain h b before found where f: "get_next_ptr_and_hash hash cmp lh d = (h, b, before, found)"
    by (metis prod_cases4)
  note c = find_cases [OF assms f]
  have uniq: "unique_keys cmp (lh_items lh)" using assms(1) by (simp add: lh_inv_def)
  show ?thesis
  proof (cases found)
    case Nil
    then show ?thesis using c(5) f by (auto simp: OPENSSL_lh_retrieve_def)
  next
    case (Cons it rest)
    then show ?thesis
      using c(6) [OF Cons] f unique_keysD [OF uniq, of x "it_data it" d]
      by (auto simp: OPENSSL_lh_retrieve_def)
  qed
qed


text \<open>Changing the chain of one bucket changes the contents by what the chain loses and gains.\<close>

lemma update_chain:
  assumes "lh_inv hash cmp lh" and "b < lh_num_buckets lh"
    and chain: "lh_buckets lh ! b = before @ old" and items: "mset new + D = mset old + E"
  shows "lh_items (lh\<lparr>lh_buckets := (lh_buckets lh) [b := before @ new]\<rparr>) + image_mset it_data D
    = lh_items lh + image_mset it_data E"
proof -
  have b: "b < length (lh_buckets lh)" using assms(1,2) by (simp add: lh_inv_def buckets_ok_def)
  let ?bs = "(lh_buckets lh) [b := before @ new]"
  have "mset (concat ?bs) + mset (before @ old) + D = mset (concat (lh_buckets lh)) + mset (before @ new) + D"
    using mset_concat_update [OF b, of "before @ new"] chain by simp
  then have "mset (concat ?bs) + D + mset (before @ old) = mset (concat (lh_buckets lh)) + E + mset (before @ old)"
    using items by (simp add: ac_simps)
  then have "mset (concat ?bs) + D = mset (concat (lh_buckets lh)) + E" by simp
  from arg_cong [OF this, of "image_mset it_data"] show ?thesis by (simp add: lh_items_def)
qed

lemma unique_keys_other:
  assumes "unique_keys cmp M" and "x \<in># M" and "cmp x d = 0"
  shows "\<forall>y \<in># M - {#x#}. cmp y d \<noteq> 0"
proof (intro ballI notI)
  fix y
  assume y: "y \<in># M - {#x#}" "cmp y d = 0"
  let ?F = "\<lambda>N. filter_mset (\<lambda>z. cmp z d = 0) N"
  have "y \<in># ?F (M - {#x#})" using y by (simp only: set_mset_filter mem_Collect_eq)
  then have "size (?F (M - {#x#})) \<noteq> 0" by (metis empty_iff set_mset_empty size_eq_0_iff_empty)
  moreover have "size (?F M) = Suc (size (?F (M - {#x#})))"
    using multi_member_split [OF assms(2)] assms(3) by auto
  moreover have "size (?F M) \<le> 1" using assms(1) unfolding unique_keys_def by blast
  ultimately show False by linarith
qed

lemma retrieve_found:
  assumes "lh_inv hash cmp lh" and "lh_funs hash cmp"
    and "get_next_ptr_and_hash hash cmp lh d = (h, b, before, found)"
  shows "OPENSSL_lh_retrieve hash cmp lh d = (case found of [] \<Rightarrow> None | it # rest \<Rightarrow> Some (it_data it))"
  using assms(3) by (simp add: OPENSSL_lh_retrieve_def split: list.splits)

lemma inv_update:
  assumes inv: "lh_inv hash cmp lh" and lh1: "lh1 = lh\<lparr>lh_buckets := (lh_buckets lh) [b := c], lh_num_items := n\<rparr>"
    and c: "\<And>it. it \<in> set c \<Longrightarrow> item_ok hash (lh_num_buckets lh) b it"
    and u: "unique_keys cmp (lh_items lh1)" and n: "n = size (lh_items lh1)"
  shows "lh_inv hash cmp lh1"
proof -
  have "buckets_ok hash (lh_num_buckets lh) ((lh_buckets lh) [b := c])"
    using inv c by (intro buckets_ok_update) (simp_all add: lh_inv_def)
  moreover have "lh_num_buckets lh1 = lh_num_buckets lh" "lh_buckets lh1 = (lh_buckets lh) [b := c]"
    "lh_num_items lh1 = n" using lh1 by simp_all
  ultimately show ?thesis using inv u n unfolding lh_inv_def by metis
qed

lemma chain_items_ok:
  assumes "lh_inv hash cmp lh" and "b < lh_num_buckets lh" and "it \<in> set (lh_buckets lh ! b)"
  shows "item_ok hash (lh_num_buckets lh) b it"
  using assms by (simp add: lh_inv_def buckets_ok_def)

lemma lh_items_num [simp]: "lh_items (lh\<lparr>lh_num_items := n\<rparr>) = lh_items lh"
  and lh_items_buckets_num [simp]:
    "lh_items (lh\<lparr>lh_buckets := bs, lh_num_items := n\<rparr>) = lh_items (lh\<lparr>lh_buckets := bs\<rparr>)"
  by (simp_all add: lh_items_def)

lemma lh_insert_ok:
  assumes inv: "lh_inv hash cmp lh" and funs: "lh_funs hash cmp"
    and ins: "OPENSSL_lh_insert al hash cmp lh d = (True, old, lh')"
  shows "lh_inv hash cmp lh'" and "old = OPENSSL_lh_retrieve hash cmp lh d"
    and "lh_items lh' = add_mset d (case old of None \<Rightarrow> lh_items lh | Some x \<Rightarrow> lh_items lh - {#x#})"
proof -
  obtain h b before found where f: "get_next_ptr_and_hash hash cmp lh d = (h, b, before, found)"
    by (metis prod_cases4)
  note c = find_cases [OF inv funs f] and r = retrieve_found [OF inv funs f]
  have uniq: "unique_keys cmp (lh_items lh)" and size: "lh_num_items lh = size (lh_items lh)"
    using inv by (simp_all add: lh_inv_def)
  note chain_ok = chain_items_ok [OF inv c(2)]
  have "lh_inv hash cmp lh' \<and> old = OPENSSL_lh_retrieve hash cmp lh d \<and>
      lh_items lh' = add_mset d (case old of None \<Rightarrow> lh_items lh | Some x \<Rightarrow> lh_items lh - {#x#})"
  proof (cases found)
    case Nil
    let ?it = "\<lparr>it_data = d, it_hash = h\<rparr>"
    let ?lh1 = "lh\<lparr>lh_buckets := (lh_buckets lh) [b := before @ [?it]], lh_num_items := lh_num_items lh + 1\<rparr>"
    have lh': "old = None" "lh' = lh_maybe_resize al ?lh1"
      using ins f Nil by (auto simp: OPENSSL_lh_insert_def split: option.splits)
    have items: "lh_items ?lh1 = add_mset d (lh_items lh)"
      using update_chain [OF inv c(2), of before "[]" "[?it]" "{#}" "{#?it#}"] c(3) Nil by simp
    have it: "item_ok hash (lh_num_buckets lh) b ?it" using c(1,4) by (simp add: item_ok_def)
    have "lh_inv hash cmp ?lh1"
    proof (rule inv_update [OF inv refl])
      show "item_ok hash (lh_num_buckets lh) b i" if "i \<in> set (before @ [?it])" for i
        using that chain_ok c(3) Nil it by auto
      show "unique_keys cmp (lh_items ?lh1)" unfolding items by (rule unique_keys_add [OF funs uniq c(5) [OF Nil]])
      show "lh_num_items lh + 1 = size (lh_items ?lh1)" unfolding items using size by simp
    qed
    from maybe_resize_ok [OF this, of al] lh' items r Nil show ?thesis by simp
  next
    case (Cons it rest)
    let ?it = "it\<lparr>it_data := d\<rparr>" and ?x = "it_data it"
    have lh': "old = Some ?x" "lh' = lh\<lparr>lh_buckets := (lh_buckets lh) [b := before @ ?it # rest]\<rparr>"
      using ins f Cons by (auto simp: OPENSSL_lh_insert_def)
    have x: "cmp ?x d = 0" "?x \<in># lh_items lh" using c(6) [OF Cons] by auto
    have "lh_items lh' + {#?x#} = lh_items lh + {#d#}"
      using update_chain [OF inv c(2), of before "it # rest" "?it # rest" "{#it#}" "{#?it#}"] c(3) Cons lh'
      by simp
    then have items: "lh_items lh' = add_mset d (lh_items lh - {#?x#})"
      using multi_member_split [OF x(2)] by auto
    have hash_d: "hash ?x = hash d" using funs x(1) unfolding lh_funs_def by metis
    have "lh_inv hash cmp lh'"
    proof (rule inv_update [OF inv, where b = b and c = "before @ ?it # rest" and n = "lh_num_items lh"])
      show "lh' = lh\<lparr>lh_buckets := (lh_buckets lh) [b := before @ ?it # rest], lh_num_items := lh_num_items lh\<rparr>"
        using lh' by simp
      have "item_ok hash (lh_num_buckets lh) b it" using chain_ok c(3) Cons by simp
      then have "item_ok hash (lh_num_buckets lh) b ?it" using hash_d by (auto simp: item_ok_def)
      then show "item_ok hash (lh_num_buckets lh) b i" if "i \<in> set (before @ ?it # rest)" for i
        using that chain_ok c(3) Cons by auto
      show "unique_keys cmp (lh_items lh')" unfolding items
        by (rule unique_keys_add [OF funs unique_keys_remove [OF uniq] unique_keys_other [OF uniq x(2,1)]])
      show "lh_num_items lh = size (lh_items lh')"
        unfolding items using size x(2) by (metis insert_DiffM size_add_mset)
    qed
    then show ?thesis using lh' items r Cons by simp
  qed
  then show "lh_inv hash cmp lh'" and "old = OPENSSL_lh_retrieve hash cmp lh d"
    and "lh_items lh' = add_mset d (case old of None \<Rightarrow> lh_items lh | Some x \<Rightarrow> lh_items lh - {#x#})" by auto
qed

lemma lh_delete_ok:
  assumes inv: "lh_inv hash cmp lh" and funs: "lh_funs hash cmp"
    and del: "OPENSSL_lh_delete al hash cmp lh d = (r, lh')"
  shows "lh_inv hash cmp lh'" and "r = OPENSSL_lh_retrieve hash cmp lh d"
    and "lh_items lh' = (case r of None \<Rightarrow> lh_items lh | Some x \<Rightarrow> lh_items lh - {#x#})"
proof -
  obtain h b before found where f: "get_next_ptr_and_hash hash cmp lh d = (h, b, before, found)"
    by (metis prod_cases4)
  note c = find_cases [OF inv funs f] and ret = retrieve_found [OF inv funs f]
  have uniq: "unique_keys cmp (lh_items lh)" and size: "lh_num_items lh = size (lh_items lh)"
    using inv by (simp_all add: lh_inv_def)
  note chain_ok = chain_items_ok [OF inv c(2)]
  have "lh_inv hash cmp lh' \<and> r = OPENSSL_lh_retrieve hash cmp lh d \<and>
      lh_items lh' = (case r of None \<Rightarrow> lh_items lh | Some x \<Rightarrow> lh_items lh - {#x#})"
  proof (cases found)
    case Nil
    then show ?thesis using del f inv ret by (simp add: OPENSSL_lh_delete_def)
  next
    case (Cons it rest)
    let ?x = "it_data it"
    let ?lh1 = "lh\<lparr>lh_buckets := (lh_buckets lh) [b := before @ rest], lh_num_items := lh_num_items lh - 1\<rparr>"
    have lh': "r = Some ?x" "lh' = lh_maybe_resize al ?lh1"
      using del f Cons by (auto simp: OPENSSL_lh_delete_def)
    have x: "?x \<in># lh_items lh" using c(6) [OF Cons] by auto
    have "lh_items ?lh1 + {#?x#} = lh_items lh"
      using update_chain [OF inv c(2), of before "it # rest" rest "{#it#}" "{#}"] c(3) Cons by simp
    then have items: "lh_items ?lh1 = lh_items lh - {#?x#}" by (metis add_diff_cancel_right')
    have "lh_inv hash cmp ?lh1"
    proof (rule inv_update [OF inv refl])
      show "item_ok hash (lh_num_buckets lh) b i" if "i \<in> set (before @ rest)" for i
        using that chain_ok c(3) Cons by auto
      show "unique_keys cmp (lh_items ?lh1)" unfolding items by (rule unique_keys_remove [OF uniq])
      show "lh_num_items lh - 1 = size (lh_items ?lh1)"
        unfolding items using size x by (simp add: size_Diff_singleton)
    qed
    from maybe_resize_ok [OF this, of al] lh' items ret Cons show ?thesis by simp
  qed
  then show "lh_inv hash cmp lh'" and "r = OPENSSL_lh_retrieve hash cmp lh d"
    and "lh_items lh' = (case r of None \<Rightarrow> lh_items lh | Some x \<Rightarrow> lh_items lh - {#x#})" by auto
qed


section \<open>The table as a dictionary\<close>

text \<open>What a client of the table relies on, stated on the results of its operations only.\<close>

locale dictionary =
  fixes inv :: "'t \<Rightarrow> bool" and same :: "'d \<Rightarrow> 'd \<Rightarrow> bool"
    and look :: "'t \<Rightarrow> 'd \<Rightarrow> 'd option" and put :: "'t \<Rightarrow> 'd \<Rightarrow> 't option" and drop_key :: "'t \<Rightarrow> 'd \<Rightarrow> 't"
  assumes same_refl: "same d d"
    and look_put: "inv t \<Longrightarrow> put t d = Some t' \<Longrightarrow>
      inv t' \<and> look t' e = (if same d e then Some d else look t e)"
    and look_drop: "inv t \<Longrightarrow> inv (drop_key t d) \<and>
      look (drop_key t d) e = (if same d e then None else look t e)"
begin

lemma look_put_same: "inv t \<Longrightarrow> put t d = Some t' \<Longrightarrow> look t' d = Some d"
  using look_put [of t d t' d] same_refl by simp

lemma put_drop:
  assumes "inv t" and "put t d = Some t'" and "look t e = None \<or> \<not> same d e"
  shows "look (drop_key t' d) e = look t e"
  using look_put [OF assms(1,2), of e] look_drop [of t' d e] assms(3) by auto

lemma put_put:
  assumes "inv t" and "put t d = Some t1" and "put t1 d' = Some t2" and "same d' e"
  shows "look t2 e = Some d'"
  using look_put [of t1 d' t2 e] look_put [OF assms(1,2)] assms(3,4) by simp

end

definition lh_put :: "allocator \<Rightarrow> 'd lh_hash \<Rightarrow> 'd lh_cmp \<Rightarrow> 'd LHASH \<Rightarrow> 'd \<Rightarrow> 'd LHASH option" where
  "lh_put al hash cmp lh d =
     (case OPENSSL_lh_insert al hash cmp lh d of (ok, old, lh') \<Rightarrow> if ok then Some lh' else None)"

definition lh_drop :: "allocator \<Rightarrow> 'd lh_hash \<Rightarrow> 'd lh_cmp \<Rightarrow> 'd LHASH \<Rightarrow> 'd \<Rightarrow> 'd LHASH" where
  "lh_drop al hash cmp lh d = snd (OPENSSL_lh_delete al hash cmp lh d)"

lemma retrieve_None:
  assumes "lh_inv hash cmp lh" and "lh_funs hash cmp"
  shows "OPENSSL_lh_retrieve hash cmp lh d = None \<longleftrightarrow> (\<forall>x \<in># lh_items lh. cmp x d \<noteq> 0)"
  using retrieve_iff [OF assms, of d] by (metis not_Some_eq)

lemma mset_remove_other: "x \<noteq> y \<Longrightarrow> x \<in># M - {#y#} \<longleftrightarrow> x \<in># M"
  by (simp add: in_diff_count)

lemma option_eqI: "(\<And>x. a = Some x \<longleftrightarrow> b = Some x) \<Longrightarrow> a = b"
  by (metis not_Some_eq)

lemma retrieve_insert:
  assumes inv: "lh_inv hash cmp lh" and funs: "lh_funs hash cmp"
    and ins: "OPENSSL_lh_insert al hash cmp lh d = (True, old, lh')"
  shows "OPENSSL_lh_retrieve hash cmp lh' e =
    (if cmp d e = 0 then Some d else OPENSSL_lh_retrieve hash cmp lh e)"
proof -
  note i = lh_insert_ok [OF inv funs ins]
  let ?M = "case old of None \<Rightarrow> lh_items lh | Some x \<Rightarrow> lh_items lh - {#x#}"
  have r: "OPENSSL_lh_retrieve hash cmp lh' e = Some x \<longleftrightarrow> x \<in># add_mset d ?M \<and> cmp x e = 0" for x
    using retrieve_iff [OF i(1) funs] i(3) by simp
  show ?thesis
  proof (cases "cmp d e = 0")
    case True
    then show ?thesis using r [of d] by simp
  next
    case False
    have "x \<in># ?M \<longleftrightarrow> x \<in># lh_items lh" if "cmp x e = 0" for x
    proof (cases old)
      case (Some y)
      then have "cmp y d = 0" using i(2) retrieve_iff [OF inv funs, of d y] by simp
      then have "x \<noteq> y" using that False funs unfolding lh_funs_def by metis
      then show ?thesis using Some by (simp add: mset_remove_other)
    qed simp
    then have "OPENSSL_lh_retrieve hash cmp lh' e = OPENSSL_lh_retrieve hash cmp lh e"
      using r retrieve_iff [OF inv funs, of e] False by (intro option_eqI) auto
    then show ?thesis using False by simp
  qed
qed

lemma retrieve_delete:
  assumes inv: "lh_inv hash cmp lh" and funs: "lh_funs hash cmp"
    and del: "OPENSSL_lh_delete al hash cmp lh d = (r, lh')"
  shows "OPENSSL_lh_retrieve hash cmp lh' e =
    (if cmp d e = 0 then None else OPENSSL_lh_retrieve hash cmp lh e)"
proof -
  note i = lh_delete_ok [OF inv funs del]
  have uniq: "unique_keys cmp (lh_items lh)" using inv by (simp add: lh_inv_def)
  have trans: "cmp x d = 0" if "cmp d e = 0" "cmp x e = 0" for x
    using that funs unfolding lh_funs_def by metis
  show ?thesis
  proof (cases r)
    case None
    then have "\<forall>x \<in># lh_items lh. cmp x d \<noteq> 0" using i(2) retrieve_None [OF inv funs, of d] by simp
    then have "cmp d e = 0 \<Longrightarrow> OPENSSL_lh_retrieve hash cmp lh' e = None"
      using i(3) None trans unfolding retrieve_None [OF i(1) funs] by auto
    moreover have "OPENSSL_lh_retrieve hash cmp lh' e = OPENSSL_lh_retrieve hash cmp lh e"
      using retrieve_iff [OF i(1) funs, of e] retrieve_iff [OF inv funs, of e] i(3) None
      by (intro option_eqI) simp
    ultimately show ?thesis by auto
  next
    case (Some y)
    then have y: "y \<in># lh_items lh" "cmp y d = 0" using i(2) retrieve_iff [OF inv funs, of d y] by simp_all
    show ?thesis
    proof (cases "cmp d e = 0")
      case True
      then have "\<forall>x \<in># lh_items lh'. cmp x e \<noteq> 0"
        using unique_keys_other [OF uniq y] i(3) Some trans [OF True] by auto
      then show ?thesis using True retrieve_None [OF i(1) funs, of e] by simp
    next
      case False
      then have "x \<noteq> y" if "cmp x e = 0" for x using that y(2) funs unfolding lh_funs_def by metis
      then have "OPENSSL_lh_retrieve hash cmp lh' e = OPENSSL_lh_retrieve hash cmp lh e"
        using retrieve_iff [OF i(1) funs, of e] retrieve_iff [OF inv funs, of e] i(3) Some
        by (intro option_eqI) (auto simp: mset_remove_other)
      then show ?thesis using False by simp
    qed
  qed
qed

lemma lh_dictionary:
  assumes "lh_funs hash cmp"
  shows "dictionary (lh_inv hash cmp) (\<lambda>d e. cmp d e = 0) (OPENSSL_lh_retrieve hash cmp)
    (lh_put al hash cmp) (lh_drop al hash cmp)"
proof
  show "cmp d d = 0" for d using assms by (simp add: lh_funs_def)
  show "lh_inv hash cmp t' \<and> OPENSSL_lh_retrieve hash cmp t' e =
      (if cmp d e = 0 then Some d else OPENSSL_lh_retrieve hash cmp t e)"
    if "lh_inv hash cmp t" "lh_put al hash cmp t d = Some t'" for t d t' e
  proof -
    from that(2) obtain old where "OPENSSL_lh_insert al hash cmp t d = (True, old, t')"
      by (auto simp: lh_put_def split: prod.splits if_splits)
    from lh_insert_ok(1) [OF that(1) assms this] retrieve_insert [OF that(1) assms this] show ?thesis by simp
  qed
  show "lh_inv hash cmp (lh_drop al hash cmp t d) \<and> OPENSSL_lh_retrieve hash cmp (lh_drop al hash cmp t d) e =
      (if cmp d e = 0 then None else OPENSSL_lh_retrieve hash cmp t e)" if "lh_inv hash cmp t" for t d e
  proof -
    obtain r t' where d: "OPENSSL_lh_delete al hash cmp t d = (r, t')" by fastforce
    from lh_delete_ok(1) [OF that assms d] retrieve_delete [OF that assms d] d show ?thesis
      by (simp add: lh_drop_def)
  qed
qed

text \<open>A table of byte strings hashed by \<open>OPENSSL_hash32\<close>, as a concrete instance.\<close>

definition str_hash :: "byte list lh_hash" where
  "str_hash s = OPENSSL_hash32 s (length s)"

definition str_cmp :: "byte list lh_cmp" where
  "str_cmp a b = (if a = b then 0 else 1)"

lemma str_funs: "lh_funs str_hash str_cmp"
  by (auto simp: lh_funs_def str_cmp_def split: if_splits)

interpretation str_table: dictionary "lh_inv str_hash str_cmp" "\<lambda>d e. str_cmp d e = 0"
  "OPENSSL_lh_retrieve str_hash str_cmp" "lh_put zero_alloc str_hash str_cmp" "lh_drop zero_alloc str_hash str_cmp"
  by (rule lh_dictionary [OF str_funs])

lemma lh_new_ok: "OPENSSL_lh_new al = Some lh \<Longrightarrow> lh_inv hash cmp lh \<and> lh_items lh = {#}"
  by (auto simp: OPENSSL_lh_new_def lh_inv_def buckets_ok_def unique_keys_def lh_items_def
      split: option.splits)

section \<open>Properties of the hash table\<close>

text \<open>
  C9. The table is a dictionary: whatever resizing an insertion or a deletion triggers, the table
  stays sound, a retrieval after an insertion finds the new datum under every equal key and what it
  found before under every other, a retrieval after a deletion finds nothing under the deleted key,
  and both report the datum they displace.
\<close>

theorem lh_insert_delete_retrieve:
  assumes "lh_inv hash cmp lh" and "lh_funs hash cmp"
    and "OPENSSL_lh_insert al hash cmp lh d = (True, old, lh')"
    and "OPENSSL_lh_delete al hash cmp lh' e = (r, lh'')"
  shows "lh_inv hash cmp lh' \<and> old = OPENSSL_lh_retrieve hash cmp lh d \<and>
    OPENSSL_lh_retrieve hash cmp lh' x =
      (if cmp d x = 0 then Some d else OPENSSL_lh_retrieve hash cmp lh x) \<and>
    lh_inv hash cmp lh'' \<and> r = OPENSSL_lh_retrieve hash cmp lh' e \<and>
    OPENSSL_lh_retrieve hash cmp lh'' x =
      (if cmp e x = 0 then None else OPENSSL_lh_retrieve hash cmp lh' x)"
  using lh_insert_ok(1,2) [OF assms(1-3)] retrieve_insert [OF assms(1-3)]
    lh_delete_ok(1,2) [OF _ assms(2,4)] retrieve_delete [OF _ assms(2,4)] by simp

theorem lh_insert_delete_retrieve_witness:
  "let lh = \<lparr>lh_num_items = 0, lh_buckets = replicate 16 [], lh_num_buckets = 16, lh_callback_depth = 0\<rparr>;
       (ok, old, lh') = OPENSSL_lh_insert zero_alloc str_hash str_cmp lh [1];
       (r, lh'') = OPENSSL_lh_delete zero_alloc str_hash str_cmp lh' [1]
   in ok \<and> old = None \<and> OPENSSL_lh_retrieve str_hash str_cmp lh' [1] = Some [1] \<and>
      r = Some [1] \<and> OPENSSL_lh_retrieve str_hash str_cmp lh'' [1] = None"
proof -
  let ?lh = "\<lparr>lh_num_items = 0, lh_buckets = replicate 16 [], lh_num_buckets = 16, lh_callback_depth = 0\<rparr> :: byte list LHASH"
  have new: "OPENSSL_lh_new zero_alloc = Some ?lh"
    by (simp add: OPENSSL_lh_new_def OPENSSL_malloc_def zero_alloc_def size_add_def)
  then have inv: "lh_inv str_hash str_cmp ?lh" "lh_items ?lh = {#}" using lh_new_ok by blast+
  obtain ok old lh' where i: "OPENSSL_lh_insert zero_alloc str_hash str_cmp ?lh [1] = (ok, old, lh')"
    by (metis prod_cases3)
  obtain r lh'' where d: "OPENSSL_lh_delete zero_alloc str_hash str_cmp lh' [1] = (r, lh'')" by fastforce
  have "fst (OPENSSL_lh_insert zero_alloc str_hash str_cmp ?lh [1])"
    by (simp add: OPENSSL_lh_insert_def get_next_ptr_and_hash_def OPENSSL_malloc_def zero_alloc_def
        size_add_def Let_def)
  then have ok: "ok" using i by simp
  have "OPENSSL_lh_retrieve str_hash str_cmp ?lh [1] = None"
    using retrieve_None [OF inv(1) str_funs] inv(2) by simp
  moreover have "str_cmp [1] [1] = 0" by (simp add: str_cmp_def)
  ultimately show ?thesis
    using lh_insert_delete_retrieve [OF inv(1) str_funs _ d, of "[1]" old "[1]"] i ok d by simp
qed

end
