(* ===== verification/Buf.thy ===== *)
theory Buf
  imports Mem
begin

text \<open>
  The growable memory buffer of BoringSSL (\<^verbatim>\<open>crypto/buf/buf.c\<close>). A \<open>BUF_MEM\<close> is a length, the
  block at \<open>data\<close> (the empty list for null) and its size \<open>max\<close>. An operation returns its C result
  and the buffer as it leaves it.
\<close>

section \<open>Operations\<close>

record BUF_MEM =
  bm_length :: nat
  bm_data :: "byte list"
  bm_max :: nat

abbreviation (input) BUF_MEM_SIZE :: nat where
  "BUF_MEM_SIZE \<equiv> 24"

definition BUF_MEM_new :: "allocator \<Rightarrow> BUF_MEM option" where
  "BUF_MEM_new al =
     (case OPENSSL_malloc al BUF_MEM_SIZE of
        None \<Rightarrow> None
      | Some ret \<Rightarrow> Some \<lparr>bm_length = 0, bm_data = [], bm_max = 0\<rparr>)"

definition BUF_MEM_reserve :: "allocator \<Rightarrow> BUF_MEM \<Rightarrow> nat \<Rightarrow> bool \<times> BUF_MEM" where
  "BUF_MEM_reserve al buf cap =
     (if bm_max buf \<ge> cap then (True, buf)
      else
        let n0 = size_add cap 3 in
        if n0 < cap then (False, buf)
        else
          let n = n0 div 3; alloc_size = size_mul n 4 in
          if alloc_size div 4 \<noteq> n then (False, buf)
          else (case OPENSSL_realloc al (Some (bm_data buf)) alloc_size of
                  None \<Rightarrow> (False, buf)
                | Some new_buf \<Rightarrow> (True, buf\<lparr>bm_data := new_buf, bm_max := alloc_size\<rparr>)))"

definition BUF_MEM_grow :: "allocator \<Rightarrow> BUF_MEM \<Rightarrow> nat \<Rightarrow> nat \<times> BUF_MEM" where
  "BUF_MEM_grow al buf0 len =
     (case BUF_MEM_reserve al buf0 len of
        (False, buf) \<Rightarrow> (0, buf)
      | (True, buf) \<Rightarrow>
          let d = (if bm_length buf < len
                   then take (bm_length buf) (bm_data buf) @ replicate (len - bm_length buf) 0 @
                        drop len (bm_data buf)
                   else bm_data buf)
          in (len, buf\<lparr>bm_data := d, bm_length := len\<rparr>))"

definition BUF_MEM_grow_clean :: "allocator \<Rightarrow> BUF_MEM \<Rightarrow> nat \<Rightarrow> nat \<times> BUF_MEM" where
  "BUF_MEM_grow_clean al buf len = BUF_MEM_grow al buf len"

definition BUF_MEM_append :: "allocator \<Rightarrow> BUF_MEM \<Rightarrow> byte list \<Rightarrow> bool \<times> BUF_MEM" where
  "BUF_MEM_append al buf0 inp =
     (let len = length inp in
      if len = 0 then (True, buf0)
      else
        let new_len = size_add (bm_length buf0) len in
        if new_len < len then (False, buf0)
        else (case BUF_MEM_reserve al buf0 new_len of
                (False, buf) \<Rightarrow> (False, buf)
              | (True, buf) \<Rightarrow>
                  (True, buf\<lparr>bm_data := take (bm_length buf) (bm_data buf) @ inp @
                                         drop (bm_length buf + len) (bm_data buf),
                             bm_length := new_len\<rparr>)))"

section \<open>Invariant and contents\<close>

definition buf_inv :: "BUF_MEM \<Rightarrow> bool" where
  "buf_inv b \<longleftrightarrow> length (bm_data b) = bm_max b \<and> bm_length b \<le> bm_max b \<and> bm_max b < SIZE_BOUND"

definition buf_contents :: "BUF_MEM \<Rightarrow> byte list" where
  "buf_contents b = take (bm_length b) (bm_data b)"

text \<open>The growth by a third never yields less than what was asked for, nor a wrapped size.\<close>

lemma reserve_size:
  assumes "cap < SIZE_BOUND" and "\<not> size_add cap 3 < cap"
    and "size_mul (size_add cap 3 div 3) 4 div 4 = size_add cap 3 div 3"
  shows "cap < size_mul (size_add cap 3 div 3) 4"
proof -
  have n0: "size_add cap 3 = cap + 3"
    using assms(1,2) size_add_overflow [of cap 3] by (intro size_add_small) simp
  let ?n = "(cap + 3) div 3"
  have "?n * 4 mod SIZE_BOUND div 4 = ?n" using assms(3) n0 by (simp add: size_mul_def)
  moreover have "?n * 4 mod SIZE_BOUND < SIZE_BOUND" by simp
  ultimately have "?n * 4 < SIZE_BOUND"
    using div_times_less_eq_dividend [of "?n * 4 mod SIZE_BOUND" 4] by linarith
  then have "size_mul (size_add cap 3 div 3) 4 = ?n * 4" using n0 by (simp add: size_mul_def)
  moreover have "cap < ?n * 4" by linarith
  ultimately show ?thesis by simp
qed

lemma reserve_inv:
  assumes "alloc_spec al" and "buf_inv b" and "cap < SIZE_BOUND" and "BUF_MEM_reserve al b cap = (ok, b')"
  shows "buf_inv b'" and "buf_contents b' = buf_contents b" and "bm_length b' = bm_length b"
    and "ok \<Longrightarrow> cap \<le> bm_max b'"
proof -
  let ?sz = "size_mul (size_add cap 3 div 3) 4"
  have "buf_inv b' \<and> buf_contents b' = buf_contents b \<and> bm_length b' = bm_length b \<and> (ok \<longrightarrow> cap \<le> bm_max b')"
  proof (cases "bm_max b < cap \<and> ok")
    case False
    then show ?thesis using assms(2,4)
      by (auto simp: BUF_MEM_reserve_def Let_def split: if_splits option.splits)
  next
    case True
    then obtain nb where g: "\<not> size_add cap 3 < cap" "?sz div 4 = size_add cap 3 div 3"
      and r: "OPENSSL_realloc al (Some (bm_data b)) ?sz = Some nb"
      and b': "b' = b\<lparr>bm_data := nb, bm_max := ?sz\<rparr>"
      using assms(4) by (auto simp: BUF_MEM_reserve_def Let_def split: if_splits option.splits)
    have sz: "cap < ?sz" "?sz < SIZE_BOUND"
      using reserve_size [OF assms(3) g] by (simp_all add: size_mul_def)
    have len: "length nb = ?sz" by (rule realloc_length [OF assms(1) r sz(2)])
    have "take (bm_max b) nb = bm_data b"
      using realloc_keeps [OF assms(1) r _ sz(2)] assms(2) True sz by (simp add: buf_inv_def)
    then have "take (bm_length b) nb = take (bm_length b) (bm_data b)"
      using assms(2) unfolding buf_inv_def by (metis min.absorb1 take_take)
    then show ?thesis using b' len sz assms(2) True by (auto simp: buf_inv_def buf_contents_def)
  qed
  then show "buf_inv b'" and "buf_contents b' = buf_contents b" and "bm_length b' = bm_length b"
    and "ok \<Longrightarrow> cap \<le> bm_max b'" by auto
qed

section \<open>Properties of the buffer\<close>

text \<open>
  Appending is concatenation: \<open>BUF_MEM_append\<close> keeps the buffer sound; where it succeeds the
  contents are the old ones followed by the input, and where it fails they are unchanged.
\<close>

lemma BUF_MEM_append_contents:
  assumes "alloc_spec al" and "buf_inv b" and "length inp < SIZE_BOUND" and "BUF_MEM_append al b inp = (ok, b')"
  shows "buf_inv b' \<and> buf_contents b' = (if ok then buf_contents b @ inp else buf_contents b)"
proof (cases "inp = []")
  case True
  then show ?thesis using assms by (simp add: BUF_MEM_append_def)
next
  case False
  let ?n = "size_add (bm_length b) (length inp)"
  show ?thesis
  proof (cases "?n < length inp")
    case True
    then show ?thesis using assms False by (auto simp: BUF_MEM_append_def Let_def)
  next
    case fits: False
    have lt: "bm_length b < SIZE_BOUND" using assms(2) by (simp add: buf_inv_def)
    have n: "?n = bm_length b + length inp"
      using fits size_add_overflow [OF assms(3) lt] by (simp add: size_add_def add.commute)
    obtain r c where c: "BUF_MEM_reserve al b ?n = (r, c)" by fastforce
    note ri = reserve_inv [OF assms(1,2) size_add_less c]
    show ?thesis
    proof (cases r)
      case False
      then show ?thesis using assms(4) c fits \<open>inp \<noteq> []\<close> ri by (auto simp: BUF_MEM_append_def Let_def)
    next
      case True
      have cap: "bm_length b + length inp \<le> bm_max c" using ri(4) True n by simp
      have b': "ok" "b' = c\<lparr>bm_data := take (bm_length c) (bm_data c) @ inp @
          drop (bm_length c + length inp) (bm_data c), bm_length := ?n\<rparr>"
        using assms(4) c fits True \<open>inp \<noteq> []\<close> by (auto simp: BUF_MEM_append_def Let_def)
      have len: "length (bm_data c) = bm_max c" "bm_max c < SIZE_BOUND" using ri(1) by (auto simp: buf_inv_def)
      have "take (bm_length b) (bm_data c) = buf_contents b" using ri(2,3) by (simp add: buf_contents_def)
      moreover from this have "length (buf_contents b) = bm_length b" using len cap by (metis length_take min.absorb2 add_leE)
      ultimately show ?thesis using b' n ri(3) cap len by (auto simp: buf_inv_def buf_contents_def)
    qed
  qed
qed

theorem BUF_MEM_append_contents_witness:
  "\<exists>b'. BUF_MEM_append zero_alloc \<lparr>bm_length = 0, bm_data = [], bm_max = 0\<rparr> [1, 2] = (True, b') \<and>
     buf_contents b' = [1, 2]"
proof -
  let ?b = "\<lparr>bm_length = 0, bm_data = [], bm_max = 0\<rparr>"
  obtain ok b' where r: "BUF_MEM_append zero_alloc ?b [1, 2] = (ok, b')" by fastforce
  have "fst (BUF_MEM_append zero_alloc ?b [1, 2])"
    by (simp add: BUF_MEM_append_def BUF_MEM_reserve_def OPENSSL_realloc_def OPENSSL_malloc_def
        zero_alloc_def size_add_def size_mul_def Let_def)
  with BUF_MEM_append_contents [OF zero_alloc_spec _ _ r] r show ?thesis
    by (simp add: buf_inv_def buf_contents_def [of ?b])
qed

text \<open>
  C40. \<open>BUF_MEM_grow\<close> sets the length: a successful call keeps the bytes there were, up to the new
  length, and fills the rest with zeros; a failing one leaves the contents alone.
\<close>

theorem BUF_MEM_grow_contents:
  assumes "alloc_spec al" and "buf_inv b" and "len < SIZE_BOUND" and "0 < len" and "BUF_MEM_grow al b len = (n, b')"
  shows "buf_inv b' \<and>
    (n = len \<and> buf_contents b' = take len (buf_contents b) @ replicate (len - length (buf_contents b)) 0 \<or>
     n = 0 \<and> buf_contents b' = buf_contents b)"
proof -
  obtain r c where c: "BUF_MEM_reserve al b len = (r, c)" by fastforce
  note ri = reserve_inv [OF assms(1-3) c]
  have lb: "length (buf_contents b) = bm_length b" using assms(2) by (simp add: buf_inv_def buf_contents_def)
  show ?thesis
  proof (cases r)
    case False
    then show ?thesis using assms(5) c ri by (auto simp: BUF_MEM_grow_def)
  next
    case True
    let ?d = "if bm_length c < len then take (bm_length c) (bm_data c) @ replicate (len - bm_length c) 0 @
        drop len (bm_data c) else bm_data c"
    have b': "n = len" "b' = c\<lparr>bm_data := ?d, bm_length := len\<rparr>"
      using assms(5) c True by (auto simp: BUF_MEM_grow_def Let_def)
    have len: "length (bm_data c) = bm_max c" "bm_max c < SIZE_BOUND" "len \<le> bm_max c"
      using ri(1,4) True by (auto simp: buf_inv_def)
    have keep: "take (bm_length b) (bm_data c) = buf_contents b" using ri(2,3) by (simp add: buf_contents_def)
    have "buf_inv b'" using b' len ri(3) by (auto simp: buf_inv_def)
    moreover have "buf_contents b' = take len (buf_contents b) @ replicate (len - length (buf_contents b)) 0"
    proof -
      have "buf_contents b' = take len ?d" using b' by (simp add: buf_contents_def)
      then show ?thesis using len ri(3) lb by (auto simp: min_def simp flip: keep)
    qed
    ultimately show ?thesis using b' by simp
  qed
qed

theorem BUF_MEM_grow_contents_witness:
  "\<exists>b'. BUF_MEM_grow zero_alloc \<lparr>bm_length = 1, bm_data = [7], bm_max = 1\<rparr> 3 = (3, b') \<and>
     buf_contents b' = [7, 0, 0]"
proof -
  let ?b = "\<lparr>bm_length = 1, bm_data = [7], bm_max = 1\<rparr>"
  obtain n b' where r: "BUF_MEM_grow zero_alloc ?b 3 = (n, b')" by fastforce
  have "fst (BUF_MEM_grow zero_alloc ?b 3) = 3"
    by (simp add: BUF_MEM_grow_def BUF_MEM_reserve_def OPENSSL_realloc_def OPENSSL_malloc_def
        zero_alloc_def size_add_def size_mul_def Let_def)
  moreover have "replicate 2 0 = [0, 0 :: byte]" by (simp add: numeral_2_eq_2)
  ultimately show ?thesis
    using BUF_MEM_grow_contents [OF zero_alloc_spec _ _ _ r] r
    by (simp add: buf_inv_def buf_contents_def [of "\<lparr>bm_length = Suc 0, bm_data = [7], bm_max = Suc 0\<rparr>"])
qed

end
