(* ===== verification/Base64.thy ===== *)
theory Base64
  imports Mem Codec
begin

text \<open>
  Base64 (\<^verbatim>\<open>crypto/base64/base64.c\<close>) with the constant-time primitives it is written in
  (\<^verbatim>\<open>crypto/internal.h\<close>). The primitives keep the width of \<open>crypto_word_t\<close>, 64 bits. Output that the
  C code writes through a pointer is the list of the bytes written, in order; the terminating zero
  byte of the encoder, which its return value does not count, is not part of it. The streaming
  interface keeps an \<open>EVP_ENCODE_CTX\<close>.
\<close>

section \<open>Constant-time primitives\<close>

definition constant_time_msb_w :: "u64 \<Rightarrow> u64" where
  "constant_time_msb_w a = 0 - drop_bit (8 * 8 - 1) a"

definition constant_time_lt_w :: "u64 \<Rightarrow> u64 \<Rightarrow> u64" where
  "constant_time_lt_w a b = constant_time_msb_w (a XOR ((a XOR b) OR ((a - b) XOR a)))"

definition constant_time_lt_8 :: "u64 \<Rightarrow> u64 \<Rightarrow> byte" where
  "constant_time_lt_8 a b = ucast (constant_time_lt_w a b)"

definition constant_time_ge_w :: "u64 \<Rightarrow> u64 \<Rightarrow> u64" where
  "constant_time_ge_w a b = NOT (constant_time_lt_w a b)"

definition constant_time_ge_8 :: "u64 \<Rightarrow> u64 \<Rightarrow> byte" where
  "constant_time_ge_8 a b = ucast (constant_time_ge_w a b)"

definition constant_time_is_zero_w :: "u64 \<Rightarrow> u64" where
  "constant_time_is_zero_w a = constant_time_msb_w (NOT a AND (a - 1))"

definition constant_time_is_zero_8 :: "u64 \<Rightarrow> byte" where
  "constant_time_is_zero_8 a = ucast (constant_time_is_zero_w a)"

definition constant_time_eq_w :: "u64 \<Rightarrow> u64 \<Rightarrow> u64" where
  "constant_time_eq_w a b = constant_time_is_zero_w (a XOR b)"

definition constant_time_eq_8 :: "u64 \<Rightarrow> u64 \<Rightarrow> byte" where
  "constant_time_eq_8 a b = ucast (constant_time_eq_w a b)"

definition constant_time_select_w :: "u64 \<Rightarrow> u64 \<Rightarrow> u64 \<Rightarrow> u64" where
  "constant_time_select_w m a b = (m AND a) OR (NOT m AND b)"

definition constant_time_select_8 :: "byte \<Rightarrow> byte \<Rightarrow> byte \<Rightarrow> byte" where
  "constant_time_select_8 m a b = ucast (constant_time_select_w (ucast m) (ucast a) (ucast b))"

definition constant_time_lt_args_8 :: "byte \<Rightarrow> byte \<Rightarrow> byte" where
  "constant_time_lt_args_8 a b = ucast (constant_time_msb_w (ucast a - ucast b))"

definition constant_time_in_range_8 :: "byte \<Rightarrow> byte \<Rightarrow> byte \<Rightarrow> byte" where
  "constant_time_in_range_8 a lo hi = constant_time_lt_args_8 (a - lo) (hi - lo + 1)"

section \<open>Encoding\<close>

definition conv_bin2ascii :: "byte \<Rightarrow> byte" where
  "conv_bin2ascii a0 =
     (let a = a0 AND 0x3f;
          r1 = constant_time_select_8 (constant_time_eq_8 (ucast a) 62) 0x2b 0x2f;
          r2 = constant_time_select_8 (constant_time_lt_args_8 a 62) (a - 52 + 0x30) r1;
          r3 = constant_time_select_8 (constant_time_lt_args_8 a 52) (a - 26 + 0x61) r2
      in constant_time_select_8 (constant_time_lt_args_8 a 26) (a + 0x41) r3)"

definition EVP_EncodedLength :: "nat \<Rightarrow> nat result" where
  "EVP_EncodedLength len0 =
     (if size_add len0 2 < len0 then None
      else
        let len = size_add len0 2 div 3;
            len4 = size_mul len 4
        in if len4 div 4 \<noteq> len then None
           else if size_add len4 1 < len4 then None
           else Some (size_add len4 1))"

fun EVP_EncodeBlock :: "byte list \<Rightarrow> byte list" where
  "EVP_EncodeBlock [] = []"
| "EVP_EncodeBlock (s0 # s1 # s2 # src) =
     (let l = push_bit 16 (ucast s0) OR push_bit 8 (ucast s1) OR ucast s2 :: u32
      in conv_bin2ascii (ucast (drop_bit 18 l)) # conv_bin2ascii (ucast (drop_bit 12 l)) #
         conv_bin2ascii (ucast (drop_bit 6 l)) # conv_bin2ascii (ucast l) # EVP_EncodeBlock src)"
| "EVP_EncodeBlock [s0, s1] =
     (let l = push_bit 16 (ucast s0) OR push_bit 8 (ucast s1) :: u32
      in [conv_bin2ascii (ucast (drop_bit 18 l)), conv_bin2ascii (ucast (drop_bit 12 l)),
          conv_bin2ascii (ucast (drop_bit 6 l)), 0x3d])"
| "EVP_EncodeBlock [s0] =
     (let l = push_bit 16 (ucast s0) :: u32
      in [conv_bin2ascii (ucast (drop_bit 18 l)), conv_bin2ascii (ucast (drop_bit 12 l)),
          0x3d, 0x3d])"

record EVP_ENCODE_CTX =
  ec_data_used :: nat
  ec_data :: "byte list"
  ec_eof_seen :: bool
  ec_error_encountered :: bool

abbreviation (input) DATA_SIZE :: nat where
  "DATA_SIZE \<equiv> 48"
abbreviation (input) INT_MAX :: nat where
  "INT_MAX \<equiv> 0x7fffffff"

definition EVP_EncodeInit :: EVP_ENCODE_CTX where
  "EVP_EncodeInit =
     \<lparr>ec_data_used = 0, ec_data = replicate DATA_SIZE 0, ec_eof_seen = False,
      ec_error_encountered = False\<rparr>"

text \<open>
  The loop over whole lines: the bytes written and the rest of the input. The test for a wrapped
  \<open>total\<close> cannot fire, since every line of output is shorter than twice its input.
\<close>

function EVP_EncodeUpdate_loop :: "byte list \<Rightarrow> byte list \<times> byte list" where
  "EVP_EncodeUpdate_loop inp =
     (if length inp \<ge> DATA_SIZE then
        (case EVP_EncodeUpdate_loop (drop DATA_SIZE inp) of
           (out, rest) \<Rightarrow> (EVP_EncodeBlock (take DATA_SIZE inp) @ 0x0a # out, rest))
      else ([], inp))"
  by pat_completeness auto
termination
  by (relation "measure length") auto

declare EVP_EncodeUpdate_loop.simps [simp del]

text \<open>The outputs are the context, the bytes written and \<open>*out_len\<close>.\<close>

definition EVP_EncodeUpdate :: "EVP_ENCODE_CTX \<Rightarrow> byte list \<Rightarrow> EVP_ENCODE_CTX \<times> byte list \<times> nat" where
  "EVP_EncodeUpdate ctx inp =
     (if length inp = 0 then (ctx, [], 0)
      else if DATA_SIZE - ec_data_used ctx > length inp
      then (ctx\<lparr>ec_data := take (ec_data_used ctx) (ec_data ctx) @ inp @
                            drop (ec_data_used ctx + length inp) (ec_data ctx),
                ec_data_used := ec_data_used ctx + length inp\<rparr>, [], 0)
      else
        let todo = DATA_SIZE - ec_data_used ctx;
            (ctx1, out1, in1) =
              (if ec_data_used ctx \<noteq> 0
               then let d = take (ec_data_used ctx) (ec_data ctx) @ take todo inp
                    in (ctx\<lparr>ec_data := d, ec_data_used := 0\<rparr>, EVP_EncodeBlock d @ [0x0a],
                        drop todo inp)
               else (ctx, [], inp));
            (out2, in2) = EVP_EncodeUpdate_loop in1;
            total = length (out1 @ out2)
        in (ctx1\<lparr>ec_data := in2 @ drop (length in2) (ec_data ctx1), ec_data_used := length in2\<rparr>,
            out1 @ out2, if total > INT_MAX then 0 else total))"

definition EVP_EncodeFinal :: "EVP_ENCODE_CTX \<Rightarrow> EVP_ENCODE_CTX \<times> byte list \<times> nat" where
  "EVP_EncodeFinal ctx =
     (if ec_data_used ctx = 0 then (ctx, [], 0)
      else let out = EVP_EncodeBlock (take (ec_data_used ctx) (ec_data ctx)) @ [0x0a]
           in (ctx\<lparr>ec_data_used := 0\<rparr>, out, length out))"

section \<open>Decoding\<close>

definition EVP_DecodedLength :: "nat \<Rightarrow> nat result" where
  "EVP_DecodedLength len = (if len mod 4 \<noteq> 0 then None else Some (len div 4 * 3))"

definition base64_ascii_to_bin :: "byte \<Rightarrow> byte" where
  "base64_ascii_to_bin a =
     (let is_upper = constant_time_in_range_8 a 0x41 0x5a;
          is_lower = constant_time_in_range_8 a 0x61 0x7a;
          is_digit = constant_time_in_range_8 a 0x30 0x39;
          is_plus = constant_time_eq_8 (ucast a) 0x2b;
          is_slash = constant_time_eq_8 (ucast a) 0x2f;
          is_equals = constant_time_eq_8 (ucast a) 0x3d;
          ret = 0 OR (is_upper AND (a - 0x41)) OR (is_lower AND (a - 0x61 + 26)) OR
                (is_digit AND (a - 0x30 + 52)) OR (is_plus AND 62) OR (is_slash AND 63);
          is_valid = is_upper OR is_lower OR is_digit OR is_plus OR is_slash OR is_equals
      in ret OR NOT is_valid)"

text \<open>The output is the list of the \<open>*out_num_bytes\<close> bytes written.\<close>

definition base64_decode_quad :: "byte \<Rightarrow> byte \<Rightarrow> byte \<Rightarrow> byte \<Rightarrow> byte list result" where
  "base64_decode_quad i0 i1 i2 i3 =
     (let a = base64_ascii_to_bin i0; b = base64_ascii_to_bin i1;
          c = base64_ascii_to_bin i2; d = base64_ascii_to_bin i3
      in if a = 0xff \<or> b = 0xff \<or> c = 0xff \<or> d = 0xff then None
         else
           let v = push_bit 18 (ucast a) OR push_bit 12 (ucast b) OR push_bit 6 (ucast c) OR ucast d
                     :: u32;
               padding_pattern =
                 8 * of_bool (i0 = 0x3d) + 4 * of_bool (i1 = 0x3d) + 2 * of_bool (i2 = 0x3d) +
                 of_bool (i3 = 0x3d) :: nat
           in if padding_pattern = 0
              then Some [ucast (drop_bit 16 v), ucast (drop_bit 8 v), ucast v]
              else if padding_pattern = 1 then Some [ucast (drop_bit 16 v), ucast (drop_bit 8 v)]
              else if padding_pattern = 3 then Some [ucast (drop_bit 16 v)]
              else None)"

definition EVP_DecodeInit :: EVP_ENCODE_CTX where
  "EVP_DecodeInit =
     \<lparr>ec_data_used = 0, ec_data = replicate DATA_SIZE 0, ec_eof_seen = False,
      ec_error_encountered = False\<rparr>"

text \<open>The loop of \<open>EVP_DecodeUpdate\<close>: it ends with the context and the bytes, or with an error.\<close>

fun EVP_DecodeUpdate_loop ::
  "EVP_ENCODE_CTX \<Rightarrow> byte list \<Rightarrow> byte list \<Rightarrow> bool \<times> EVP_ENCODE_CTX \<times> byte list" where
  "EVP_DecodeUpdate_loop ctx out [] = (True, ctx, out)"
| "EVP_DecodeUpdate_loop ctx out (c # inp) =
     (if c = 0x20 \<or> c = 0x09 \<or> c = 0x0d \<or> c = 0x0a then EVP_DecodeUpdate_loop ctx out inp
      else if ec_eof_seen ctx then (False, ctx\<lparr>ec_error_encountered := True\<rparr>, out)
      else
        let ctx1 = ctx\<lparr>ec_data := (ec_data ctx) [ec_data_used ctx := c],
                       ec_data_used := ec_data_used ctx + 1\<rparr>
        in if ec_data_used ctx1 = 4
           then (case base64_decode_quad (ec_data ctx1 ! 0) (ec_data ctx1 ! 1)
                        (ec_data ctx1 ! 2) (ec_data ctx1 ! 3) of
                   None \<Rightarrow> (False, ctx1\<lparr>ec_error_encountered := True\<rparr>, out)
                 | Some bytes \<Rightarrow>
                     EVP_DecodeUpdate_loop
                       (let ctx2 = ctx1\<lparr>ec_data_used := 0\<rparr>
                        in if length bytes < 3 then ctx2\<lparr>ec_eof_seen := True\<rparr> else ctx2)
                       (out @ bytes) inp)
           else EVP_DecodeUpdate_loop ctx1 out inp)"

definition EVP_DecodeUpdate :: "EVP_ENCODE_CTX \<Rightarrow> byte list \<Rightarrow> int \<times> EVP_ENCODE_CTX \<times> byte list" where
  "EVP_DecodeUpdate ctx inp =
     (if ec_error_encountered ctx then (- 1, ctx, [])
      else case EVP_DecodeUpdate_loop ctx [] inp of
        (False, ctx', out) \<Rightarrow> (- 1, ctx', [])
      | (True, ctx', out) \<Rightarrow>
          if length out > INT_MAX then (- 1, ctx'\<lparr>ec_error_encountered := True\<rparr>, [])
          else if ec_eof_seen ctx' then (0, ctx', out) else (1, ctx', out))"

definition EVP_DecodeFinal :: "EVP_ENCODE_CTX \<Rightarrow> int" where
  "EVP_DecodeFinal ctx = (if ec_error_encountered ctx \<or> ec_data_used ctx \<noteq> 0 then - 1 else 1)"

fun EVP_DecodeBase64_loop :: "byte list \<Rightarrow> byte list result" where
  "EVP_DecodeBase64_loop (i0 # i1 # i2 # i3 # inp) =
     (case base64_decode_quad i0 i1 i2 i3 of
        None \<Rightarrow> None
      | Some bytes \<Rightarrow>
          if length bytes \<noteq> 3 \<and> inp \<noteq> [] then None
          else map_option ((@) bytes) (EVP_DecodeBase64_loop inp))"
| "EVP_DecodeBase64_loop inp = Some []"

definition EVP_DecodeBase64 :: "nat \<Rightarrow> byte list \<Rightarrow> byte list result" where
  "EVP_DecodeBase64 max_out inp =
     (if length inp mod 4 \<noteq> 0 then None
      else case EVP_DecodedLength (length inp) of
        None \<Rightarrow> None
      | Some max_len \<Rightarrow> if max_out < max_len then None else EVP_DecodeBase64_loop inp)"

fun trim_end :: "byte list \<Rightarrow> nat \<Rightarrow> nat" where
  "trim_end src 0 = 0"
| "trim_end src (Suc n) =
     (if src ! n = 0x20 \<or> src ! n = 0x09 \<or> src ! n = 0x0d \<or> src ! n = 0x0a
      then trim_end src n else Suc n)"

definition EVP_DecodeBlock :: "byte list \<Rightarrow> byte list result" where
  "EVP_DecodeBlock src0 =
     (let src1 = dropWhile (\<lambda>c. c = 0x20 \<or> c = 0x09) src0;
          src = take (trim_end src1 (length src1)) src1
      in case EVP_DecodedLength (length src) of
           None \<Rightarrow> None
         | Some dst_len \<Rightarrow>
             if dst_len > INT_MAX then None
             else (case EVP_DecodeBase64 dst_len src of
                     None \<Rightarrow> None
                   | Some out \<Rightarrow> Some (out @ replicate ((3 - length out mod 3) mod 3) 0)))"

section \<open>The primitives compute what they are named for\<close>

lemma bit_63_iff: "bit a 63 \<longleftrightarrow> 2 ^ 63 \<le> unat a" for a :: u64
proof -
  have lt: "unat a div 2 ^ 63 < 2" using unat_less_power [of a] by (simp add: div_less_iff_less_mult)
  have "bit a 63 \<longleftrightarrow> odd (unat a div 2 ^ 63)"
    unfolding bit_unat_iff [symmetric] by (simp only: bit_iff_odd)
  also have "\<dots> \<longleftrightarrow> unat a div 2 ^ 63 \<noteq> 0" using lt by (auto simp: less_2_cases_iff)
  also have "\<dots> \<longleftrightarrow> 2 ^ 63 \<le> unat a" by (simp add: div_eq_0_iff not_less)
  finally show ?thesis .
qed

lemma msb_w_eq: "constant_time_msb_w a = (if bit a 63 then - 1 else 0)"
proof -
  have "bit a (63 + n) \<Longrightarrow> n = 0" for n using bit_imp_le_length [of a "63 + n"] by simp
  then have "drop_bit 63 a = of_bool (bit a 63)"
    by (intro bit_word_eqI) (fastforce simp: bit_simps)
  then show ?thesis by (simp add: constant_time_msb_w_def)
qed

lemma bit_sub_63:
  fixes a b :: u64
  shows "bit (a - b) 63 \<longleftrightarrow>
    (if b \<le> a then 2 ^ 63 \<le> unat a - unat b else unat b - unat a \<le> 2 ^ 63)"
proof (cases "b \<le> a")
  case True
  then have "unat (a - b) = unat a - unat b" by (simp add: unat_sub)
  then show ?thesis using True by (simp add: bit_63_iff)
next
  case False
  then have lt: "unat a < unat b" by (simp add: word_less_nat_alt not_le)
  have b: "unat b < 2 ^ 64" using unat_less_power [of b] by simp
  have "unat (a - b) = 2 ^ 64 + unat a - unat b"
  proof -
    have "a - b = word_of_nat (2 ^ 64 + unat a - unat b)"
      using b by simp
    moreover have "2 ^ 64 + unat a - unat b < 2 ^ 64" using lt by simp
    ultimately show ?thesis by (simp only: u64_word_of_nat)
  qed
  then show ?thesis using False lt b by (simp add: bit_63_iff) linarith
qed

lemma lt_w_eq: "constant_time_lt_w a b = (if a < b then - 1 else 0)"
proof -
  have "bit (a XOR ((a XOR b) OR ((a - b) XOR a))) 63 \<longleftrightarrow>
      (if bit a 63 = bit b 63 then bit (a - b) 63 else bit b 63)"
    by (auto simp: bit_or_iff bit_xor_iff)
  also have "\<dots> \<longleftrightarrow> a < b"
    using unat_less_power [of a] unat_less_power [of b]
    by (simp add: bit_sub_63, simp add: bit_63_iff word_less_nat_alt word_le_nat_alt) linarith
  finally show ?thesis by (simp add: constant_time_lt_w_def msb_w_eq)
qed

lemma is_zero_w_eq: "constant_time_is_zero_w a = (if a = 0 then - 1 else 0)"
proof -
  have "bit (NOT a AND (a - 1)) 63 \<longleftrightarrow> a = 0"
  proof (cases "a = 0")
    case False
    then have "1 \<le> a" by (simp add: word_le_nat_alt unat_gt_0 Suc_le_eq)
    then have "\<not> bit a 63 \<Longrightarrow> \<not> bit (a - 1) 63" by (simp add: bit_sub_63) (simp add: bit_63_iff)
    then show ?thesis using False by (auto simp: bit_and_iff bit_not_iff)
  qed simp
  then show ?thesis by (simp add: constant_time_is_zero_w_def msb_w_eq)
qed

lemma eq_w_eq: "constant_time_eq_w a b = (if a = b then - 1 else 0)"
proof -
  have "a XOR b = 0 \<longleftrightarrow> a = b" by (auto simp: bit_eq_iff bit_xor_iff)
  then show ?thesis by (simp add: constant_time_eq_w_def is_zero_w_eq)
qed

lemma ucast_minus_one [simp]: "(ucast (- 1 :: u64) :: byte) = - 1"
  by (rule bit_word_eqI) (simp add: bit_simps)

lemma ucast_ucast_byte [simp]: "(ucast (ucast a :: u64) :: byte) = a"
  by (rule bit_word_eqI) (auto simp: bit_simps dest: bit_imp_le_length)

lemma ucast_eq_iff_byte [simp]: "(ucast a :: u64) = ucast b \<longleftrightarrow> a = b" for a b :: byte
  by (metis ucast_ucast_byte)

lemma eq_8_eq: "constant_time_eq_8 a b = (if a = b then - 1 else 0)"
  by (simp add: constant_time_eq_8_def eq_w_eq)

lemma lt_args_8_eq: "constant_time_lt_args_8 a b = (if a < b then - 1 else 0)"
proof -
  have u: "unat (ucast a :: u64) = unat a" "unat (ucast b :: u64) = unat b" by (simp_all add: unat_ucast_up)
  have "bit (ucast a - ucast b :: u64) 63 \<longleftrightarrow> a < b"
    using byte_less [of a] byte_less [of b]
    by (auto simp: bit_sub_63 u word_less_nat_alt word_le_nat_alt simp del: byte_less)
  then show ?thesis by (simp add: constant_time_lt_args_8_def msb_w_eq)
qed

lemma select_8_eq: "constant_time_select_8 (if c then - 1 else 0) a b = (if c then a else b)"
proof -
  have "(ucast ((ucast (- 1 :: byte) :: u64) AND ucast a) :: byte) = a"
    "(ucast (NOT (ucast (- 1 :: byte) :: u64) AND ucast b) :: byte) = 0"
    by (rule bit_word_eqI; auto simp: bit_simps dest: bit_imp_le_length)+
  then show ?thesis
    by (auto simp: constant_time_select_8_def constant_time_select_w_def bit_simps intro!: bit_word_eqI)
qed

lemma in_range_8_eq:
  assumes "lo \<le> hi" and "unat hi < 255"
  shows "constant_time_in_range_8 a lo hi = (if lo \<le> a \<and> a \<le> hi then - 1 else 0)"
proof -
  have h: "unat (hi - lo + 1) = unat hi - unat lo + 1"
    using assms by (simp add: unat_word_ariths unat_sub)
  have "a - lo < hi - lo + 1 \<longleftrightarrow> lo \<le> a \<and> a \<le> hi"
  proof (cases "lo \<le> a")
    case True
    then show ?thesis using assms h by (auto simp: word_less_nat_alt word_le_nat_alt unat_sub)
  next
    case False
    then have "unat (a - lo) = 256 + unat a - unat lo" using unat_sub_if' [of a lo] by (simp add: word_le_nat_alt)
    then show ?thesis using assms h False byte_less [of lo] by (auto simp: word_less_nat_alt word_le_nat_alt)
  qed
  then show ?thesis by (simp add: constant_time_in_range_8_def lt_args_8_eq)
qed
text \<open>
  C39. The branch-free comparisons are the comparisons they replace, on every pair of 64-bit words:
  the result is the all-ones mask when the relation holds and zero when it does not.
\<close>

theorem constant_time_comparisons:
  "constant_time_lt_w a b = (if a < b then - 1 else 0) \<and>
   constant_time_ge_w a b = (if a \<ge> b then - 1 else 0) \<and>
   constant_time_is_zero_w a = (if a = 0 then - 1 else 0) \<and>
   constant_time_eq_w a b = (if a = b then - 1 else 0)"
  by (simp add: lt_w_eq constant_time_ge_w_def is_zero_w_eq eq_w_eq not_le)

section \<open>The alphabet\<close>

definition b64_alphabet :: "byte list" where
  "b64_alphabet = map of_char ''ABCDEFGHIJKLMNOPQRSTUVWXYZabcdefghijklmnopqrstuvwxyz0123456789+/''"

lemma and_0x3f: "unat (a AND 0x3f) = unat a mod 64" for a :: byte
  using unat_and_mask [of a 6] by (simp add: mask_eq_exp_minus_1)

lemma conv_bin2ascii_if:
  "conv_bin2ascii a0 =
     (let a = a0 AND 0x3f
      in if a < 26 then a + 0x41 else if a < 52 then a - 26 + 0x61
         else if a < 62 then a - 52 + 0x30 else if a = 62 then 0x2b else 0x2f)"
proof -
  have "(ucast (a0 AND 0x3f) :: u64) = 62 \<longleftrightarrow> a0 AND 0x3f = 62"
    using ucast_eq_iff_byte [of "a0 AND 0x3f" 62] by simp
  then show ?thesis
    unfolding conv_bin2ascii_def by (simp add: lt_args_8_eq eq_8_eq select_8_eq Let_def)
qed

lemma ascii_to_bin_if:
  "base64_ascii_to_bin a =
     (if 0x41 \<le> a \<and> a \<le> 0x5a then a - 0x41 else if 0x61 \<le> a \<and> a \<le> 0x7a then a - 0x61 + 26
      else if 0x30 \<le> a \<and> a \<le> 0x39 then a - 0x30 + 52 else if a = 0x2b then 62
      else if a = 0x2f then 63 else if a = 0x3d then 0 else 0xff)"
proof -
  have e: "(ucast a :: u64) = 0x2b \<longleftrightarrow> a = 0x2b" "(ucast a :: u64) = 0x2f \<longleftrightarrow> a = 0x2f"
    "(ucast a :: u64) = 0x3d \<longleftrightarrow> a = 0x3d"
    using ucast_eq_iff_byte [of a "0x2b"] ucast_eq_iff_byte [of a "0x2f"] ucast_eq_iff_byte [of a "0x3d"]
    by simp_all
  show ?thesis
    unfolding base64_ascii_to_bin_def
    by (simp add: in_range_8_eq eq_8_eq e Let_def word_le_nat_alt) 
qed

lemma byte_less_64_cases:
  fixes a :: byte
  assumes "\<forall>n \<in> set [0..<64]. P (word_of_nat n)"
  shows "P (a AND 0x3f)"
proof -
  have "a AND 0x3f = word_of_nat (unat a mod 64)"
    by (rule word_eqI_unat) (simp only: and_0x3f unat_word_of_nat, simp)
  then show ?thesis using assms by simp
qed

lemma conv_bin2ascii_mask: "conv_bin2ascii (a AND 0x3f) = conv_bin2ascii a"
  by (simp add: conv_bin2ascii_if and.assoc)

lemma conv_bin2ascii_alphabet: "conv_bin2ascii a = b64_alphabet ! (unat a mod 64)"
proof -
  have "\<forall>n \<in> set [0..<64]. (\<lambda>a. conv_bin2ascii a = b64_alphabet ! unat a) (word_of_nat n)"
    unfolding conv_bin2ascii_if b64_alphabet_def by code_simp
  then have "conv_bin2ascii (a AND 0x3f) = b64_alphabet ! unat (a AND 0x3f)"
    by (rule byte_less_64_cases)
  then show ?thesis by (simp add: conv_bin2ascii_mask and_0x3f)
qed

lemma conv_bin2ascii_inv:
  "base64_ascii_to_bin (conv_bin2ascii a) = a AND 0x3f \<and> conv_bin2ascii a \<noteq> 0x3d \<and> conv_bin2ascii a \<noteq> 0x20
    \<and> conv_bin2ascii a \<noteq> 0x09 \<and> conv_bin2ascii a \<noteq> 0x0d \<and> conv_bin2ascii a \<noteq> 0x0a"
proof -
  have "\<forall>n \<in> set [0..<64]. (\<lambda>a. base64_ascii_to_bin (conv_bin2ascii a) = a \<and> conv_bin2ascii a \<noteq> 0x3d \<and> conv_bin2ascii a \<noteq> 0x20
    \<and> conv_bin2ascii a \<noteq> 0x09 \<and> conv_bin2ascii a \<noteq> 0x0d \<and> conv_bin2ascii a \<noteq> 0x0a) (word_of_nat n)"
    unfolding conv_bin2ascii_if ascii_to_bin_if by code_simp
  then have "(\<lambda>a. base64_ascii_to_bin (conv_bin2ascii a) = a \<and> conv_bin2ascii a \<noteq> 0x3d \<and> conv_bin2ascii a \<noteq> 0x20
    \<and> conv_bin2ascii a \<noteq> 0x09 \<and> conv_bin2ascii a \<noteq> 0x0d \<and> conv_bin2ascii a \<noteq> 0x0a) (a AND 0x3f)"
    by (rule byte_less_64_cases)
  then show ?thesis by (simp add: conv_bin2ascii_mask)
qed

lemmas ascii_to_bin_conv = conv_bin2ascii_inv [THEN conjunct1]
lemmas conv_not_special = conv_bin2ascii_inv [THEN conjunct2]

lemma and_0x3f_not_ff: "a AND 0x3f \<noteq> 0xff" for a :: byte
  using and_0x3f [of a] by (auto simp: byte_eq_iff)

section \<open>Whole blocks\<close>

lemma and_0x3f_take_bit: "a AND 0x3f = take_bit 6 a" for a :: byte
  by (simp add: take_bit_eq_mask mask_eq_exp_minus_1)

lemma sextets_3:
  fixes l :: u32
  assumes "\<And>n. bit l n \<Longrightarrow> n < 24"
  shows "push_bit 18 (ucast (take_bit 6 (ucast (drop_bit 18 l)) :: byte)) OR
     push_bit 12 (ucast (take_bit 6 (ucast (drop_bit 12 l)) :: byte)) OR
     push_bit 6 (ucast (take_bit 6 (ucast (drop_bit 6 l)) :: byte)) OR
     ucast (take_bit 6 (ucast l) :: byte) = l"
    (is "?v = l")
proof (rule bit_word_eqI)
  fix n assume "n < LENGTH(32)"
  consider "n < 6" | "6 \<le> n" "n < 12" | "12 \<le> n" "n < 18" | "18 \<le> n" by linarith
  then show "bit ?v n \<longleftrightarrow> bit l n"
    by cases (auto simp: bit_simps dest: assms)
qed

lemma bytes_of_24:
  fixes s0 s1 s2 :: byte
  defines "l \<equiv> push_bit 16 (ucast s0) OR push_bit 8 (ucast s1) OR ucast s2 :: u32"
  shows "ucast (drop_bit 16 l) = s0" "ucast (drop_bit 8 l) = s1" "ucast l = s2"
  unfolding l_def by (rule bit_word_eqI; auto simp: bit_simps dest: bit_imp_le_length)+

lemma decode_quad_v:
  fixes l :: u32
  assumes "base64_ascii_to_bin i0 = a" "base64_ascii_to_bin i1 = b"
    and "base64_ascii_to_bin i2 = c" "base64_ascii_to_bin i3 = d"
    and "a \<noteq> 0xff" "b \<noteq> 0xff" "c \<noteq> 0xff" "d \<noteq> 0xff" "i0 \<noteq> 0x3d" "i1 \<noteq> 0x3d"
    and "push_bit 18 (ucast a) OR push_bit 12 (ucast b) OR push_bit 6 (ucast c) OR ucast d = l"
  shows "base64_decode_quad i0 i1 i2 i3 =
    (if i2 \<noteq> 0x3d
     then if i3 \<noteq> 0x3d then Some [ucast (drop_bit 16 l), ucast (drop_bit 8 l), ucast l]
          else Some [ucast (drop_bit 16 l), ucast (drop_bit 8 l)]
     else if i3 = 0x3d then Some [ucast (drop_bit 16 l)] else None)"
  unfolding base64_decode_quad_def Let_def assms(1-4,11) using assms(5-10) by simp

lemma decode_quad_encode:
  fixes s0 s1 s2 :: byte
  defines "l \<equiv> push_bit 16 (ucast s0) OR push_bit 8 (ucast s1) OR ucast s2 :: u32"
  defines "e \<equiv> \<lambda>k. conv_bin2ascii (ucast (drop_bit k l))"
  shows "base64_decode_quad (e 18) (e 12) (e 6) (conv_bin2ascii (ucast l)) = Some [s0, s1, s2]"
    and "s2 = 0 \<Longrightarrow> base64_decode_quad (e 18) (e 12) (e 6) 0x3d = Some [s0, s1]"
    and "s2 = 0 \<Longrightarrow> s1 = 0 \<Longrightarrow> base64_decode_quad (e 18) (e 12) 0x3d 0x3d = Some [s0]"
proof -
  have l: "n < 24" if "bit l n" for n
    using that unfolding l_def by (auto simp: bit_simps dest: bit_imp_le_length)
  have z: "base64_ascii_to_bin 0x3d = 0" by (simp add: ascii_to_bin_if)
  have low: "ucast (drop_bit 16 l) = s0" "ucast (drop_bit 8 l) = s1" "ucast l = s2"
    using bytes_of_24 [of s0 s1 s2] by (simp_all add: l_def)
  have e: "base64_ascii_to_bin (e k) = take_bit 6 (ucast (drop_bit k l))" "e k \<noteq> 0x3d"
    "base64_ascii_to_bin (conv_bin2ascii (ucast l)) = take_bit 6 (ucast l)" for k
    by (simp_all add: e_def ascii_to_bin_conv and_0x3f_take_bit conv_not_special)
  have ff: "take_bit 6 a \<noteq> 0xff" for a :: byte
    using and_0x3f_not_ff [of a] by (simp add: and_0x3f_take_bit)
  note v = sextets_3 [of l, OF l]
  show "base64_decode_quad (e 18) (e 12) (e 6) (conv_bin2ascii (ucast l)) = Some [s0, s1, s2]"
    using decode_quad_v [OF e(1) e(1) e(1) e(3) ff ff ff ff e(2) e(2) v] e(2)
    by (simp add: low conv_not_special)
  have v0: "push_bit 18 (ucast (take_bit 6 (ucast (drop_bit 18 l)) :: byte)) OR
     push_bit 12 (ucast (take_bit 6 (ucast (drop_bit 12 l)) :: byte)) OR
     push_bit 6 (ucast (take_bit 6 (ucast (drop_bit 6 l)) :: byte)) OR ucast (0 :: byte) = l"
    if "s2 = 0"
  proof -
    have "take_bit 6 (ucast l) = (0 :: byte)" using that by (simp add: low)
    then show ?thesis using v by (simp only:)
  qed
  have zff: "(0 :: byte) \<noteq> 0xff" by simp
  show "base64_decode_quad (e 18) (e 12) (e 6) 0x3d = Some [s0, s1]" if "s2 = 0"
    using decode_quad_v [OF e(1) e(1) e(1) z ff ff ff zff e(2) e(2) v0 [OF that]] e(2)
    by (simp add: low)
  show "base64_decode_quad (e 18) (e 12) 0x3d 0x3d = Some [s0]" if "s2 = 0" "s1 = 0"
  proof -
    have "take_bit 6 (ucast (drop_bit 6 l)) = (0 :: byte)"
      unfolding l_def that by (rule bit_word_eqI) (auto simp: bit_simps)
    then have "push_bit 18 (ucast (take_bit 6 (ucast (drop_bit 18 l)) :: byte)) OR
        push_bit 12 (ucast (take_bit 6 (ucast (drop_bit 12 l)) :: byte)) OR
        push_bit 6 (ucast (0 :: byte)) OR ucast (0 :: byte) = l"
      using v0 [OF that(1)] by (simp only:)
    from decode_quad_v [OF e(1) e(1) z z ff ff zff zff e(2) e(2) this]
    show ?thesis by (simp add: low)
  qed
qed

lemmas decode_quad_full = decode_quad_encode(1) [simplified]
lemmas decode_quad_pad1 = decode_quad_encode(2) [OF refl, simplified]
lemmas decode_quad_pad2 = decode_quad_encode(3) [OF refl refl, simplified]

abbreviation (input) b64_space :: "byte \<Rightarrow> bool" where
  "b64_space c \<equiv> c = 0x20 \<or> c = 0x09 \<or> c = 0x0d \<or> c = 0x0a"

lemma EncodeBlock_quad:
  assumes "src \<noteq> []"
  shows "\<exists>q0 q1 q2 q3. EVP_EncodeBlock src = q0 # q1 # q2 # q3 # EVP_EncodeBlock (drop 3 src) \<and>
    base64_decode_quad q0 q1 q2 q3 = Some (take 3 src) \<and>
    (\<forall>q \<in> {q0, q1, q2, q3}. \<not> b64_space q)"
  using assms
  by (cases src rule: EVP_EncodeBlock.cases)
    (simp_all add: decode_quad_full decode_quad_pad1 decode_quad_pad2 conv_not_special Let_def)

lemma EncodeBlock_eq_Nil [simp]: "EVP_EncodeBlock src = [] \<longleftrightarrow> src = []"
  by (cases src rule: EVP_EncodeBlock.cases) (simp_all add: Let_def)

lemma DecodeBase64_loop_EncodeBlock: "EVP_DecodeBase64_loop (EVP_EncodeBlock src) = Some src"
proof (induction src rule: measure_induct_rule [of length])
  case (less src)
  show ?case
  proof (cases "src = []")
    case False
    from EncodeBlock_quad [OF this] obtain q0 q1 q2 q3
      where "EVP_EncodeBlock src = q0 # q1 # q2 # q3 # EVP_EncodeBlock (drop 3 src)"
        and "base64_decode_quad q0 q1 q2 q3 = Some (take 3 src)" by blast
    then show ?thesis using less [of "drop 3 src"] False by (auto simp: min_def)
  qed simp
qed

lemma length_EncodeBlock: "length (EVP_EncodeBlock src) = (length src + 2) div 3 * 4"
proof (induction src rule: EVP_EncodeBlock.induct)
  case (2 s0 s1 s2 src)
  have "(length (s0 # s1 # s2 # src) + 2) div 3 = Suc ((length src + 2) div 3)" by simp
  then show ?case using 2 by (simp add: Let_def)
qed (simp_all add: Let_def)

text \<open>
  C38. A block that the encoder wrote decodes to the bytes it was made of: \<open>EVP_DecodeBase64\<close> with
  room for \<open>EVP_DecodedLength\<close> bytes succeeds on it, and the block is exactly as long as
  \<open>EVP_EncodedLength\<close> announces (which counts the terminating zero byte too).
\<close>

theorem base64_block_roundtrip:
  assumes "(length src + 2) div 3 * 4 < 2 ^ 64 - 1"
    and "(length src + 2) div 3 * 3 \<le> max_out"
  shows "EVP_DecodeBase64 max_out (EVP_EncodeBlock src) = Some src \<and>
    EVP_EncodedLength (length src) = Some (length (EVP_EncodeBlock src) + 1)"
proof
  show "EVP_DecodeBase64 max_out (EVP_EncodeBlock src) = Some src"
    using assms(2)
    by (simp add: EVP_DecodeBase64_def EVP_DecodedLength_def length_EncodeBlock DecodeBase64_loop_EncodeBlock)
  have "length src + 2 < (length src + 2) div 3 * 3 + 3"
    using div_mult_mod_eq [of "length src + 2" 3] mod_less_divisor [of 3 "length src + 2"] by linarith
  then have "length src + 2 < 2 ^ 64" using assms(1) by simp
  then show "EVP_EncodedLength (length src) = Some (length (EVP_EncodeBlock src) + 1)"
    using assms(1) by (simp add: EVP_EncodedLength_def size_add_def size_mul_def length_EncodeBlock)
qed


theorem base64_block_roundtrip_witness:
  "EVP_DecodeBase64 3 (EVP_EncodeBlock [0x4d, 0x61]) = Some [0x4d, 0x61]"
  using base64_block_roundtrip [of "[0x4d, 0x61]" 3] by simp

section \<open>Streaming\<close>

definition encode_text :: "byte list \<Rightarrow> byte list" where
  "encode_text xs =
     (case EVP_EncodeUpdate_loop xs of (lines, rest) \<Rightarrow>
        lines @ (if rest = [] then [] else EVP_EncodeBlock rest @ [0x0a]))"

definition encoder_step :: "EVP_ENCODE_CTX \<Rightarrow> byte list \<Rightarrow> EVP_ENCODE_CTX \<times> byte list" where
  "encoder_step ctx inp = (case EVP_EncodeUpdate ctx inp of (ctx', out, n) \<Rightarrow> (ctx', out))"

definition encoder_at :: "EVP_ENCODE_CTX \<Rightarrow> byte list \<Rightarrow> bool" where
  "encoder_at ctx xs \<longleftrightarrow> length (ec_data ctx) = DATA_SIZE \<and> ec_data_used ctx < DATA_SIZE \<and>
     take (ec_data_used ctx) (ec_data ctx) = snd (EVP_EncodeUpdate_loop xs)"

lemma encode_loop_short: "length xs < 48 \<Longrightarrow> EVP_EncodeUpdate_loop xs = ([], xs)"
  by (simp add: EVP_EncodeUpdate_loop.simps)

lemma encode_loop_line:
  "length xs = 48 \<Longrightarrow> EVP_EncodeUpdate_loop (xs @ ys) =
     (case EVP_EncodeUpdate_loop ys of (out, rest) \<Rightarrow> (EVP_EncodeBlock xs @ 0x0a # out, rest))"
  by (subst EVP_EncodeUpdate_loop.simps) simp

lemma encode_loop_append:
  "EVP_EncodeUpdate_loop (xs @ ys) =
     (case EVP_EncodeUpdate_loop xs of (out1, rest1) \<Rightarrow>
        case EVP_EncodeUpdate_loop (rest1 @ ys) of (out2, rest2) \<Rightarrow> (out1 @ out2, rest2))"
proof (induction xs rule: EVP_EncodeUpdate_loop.induct)
  case (1 xs)
  show ?case
  proof (cases "48 \<le> length xs")
    case True
    let ?a = "take 48 xs" and ?b = "drop 48 xs"
    have "EVP_EncodeUpdate_loop (?a @ ?b @ ys) =
        (case EVP_EncodeUpdate_loop (?b @ ys) of (out, rest) \<Rightarrow> (EVP_EncodeBlock ?a @ 0x0a # out, rest))"
      using True by (intro encode_loop_line) simp
    moreover have "EVP_EncodeUpdate_loop (?a @ ?b) =
        (case EVP_EncodeUpdate_loop ?b of (out, rest) \<Rightarrow> (EVP_EncodeBlock ?a @ 0x0a # out, rest))"
      using True by (intro encode_loop_line) simp
    ultimately show ?thesis using 1 [OF True] by (simp add: append.assoc [symmetric] del: append_assoc split: prod.splits)
  next
    case False
    then show ?thesis by (simp add: encode_loop_short split: prod.splits)
  qed
qed

lemma encode_loop_rest: "length (snd (EVP_EncodeUpdate_loop xs)) < 48"
proof (induction xs rule: EVP_EncodeUpdate_loop.induct)
  case (1 xs)
  then show ?case by (subst EVP_EncodeUpdate_loop.simps) (auto split: prod.splits)
qed

lemma encoder_step_consumes:
  assumes at: "encoder_at ctx xs" and step: "encoder_step ctx ys = (ctx', out)"
  shows "encoder_at ctx' (xs @ ys) \<and>
    fst (EVP_EncodeUpdate_loop (xs @ ys)) = fst (EVP_EncodeUpdate_loop xs) @ out"
proof -
  define u p where "u = ec_data_used ctx" and "p = take u (ec_data ctx)"
  have c: "u < 48" "length (ec_data ctx) = 48" "snd (EVP_EncodeUpdate_loop xs) = p"
    using at by (simp_all add: encoder_at_def u_def p_def)
  then have "length p = u" by (simp add: p_def)
  note p = this c
  have app: "EVP_EncodeUpdate_loop (xs @ ys) =
      (case EVP_EncodeUpdate_loop (p @ ys) of (o2, r2) \<Rightarrow> (fst (EVP_EncodeUpdate_loop xs) @ o2, r2))"
    using encode_loop_append [of xs ys] p(4) by (simp split: prod.splits)
  consider "ys = []" | "ys \<noteq> []" "length ys < 48 - u" | "ys \<noteq> []" "48 - u \<le> length ys" by linarith
  then show ?thesis
  proof cases
    case 1
    then show ?thesis using assms by (simp add: encoder_step_def EVP_EncodeUpdate_def)
  next
    case 2
    then have "EVP_EncodeUpdate_loop (p @ ys) = ([], p @ ys)" using p by (simp add: encode_loop_short)
    then show ?thesis
      using app step 2 p
      by (auto simp: encoder_step_def EVP_EncodeUpdate_def encoder_at_def u_def [symmetric] p_def [symmetric])
  next
    case 3
    define d where "d = p @ take (48 - u) ys"
    have d: "length d = 48" "p @ ys = d @ drop (48 - u) ys" using 3 p by (simp_all add: d_def)
    obtain o2 r2 where l: "EVP_EncodeUpdate_loop (if u = 0 then ys else drop (48 - u) ys) = (o2, r2)"
      by fastforce
    have r2: "length r2 < 48" using encode_loop_rest l by (metis snd_conv)
    show ?thesis
    proof (cases "u = 0")
      case True
      then show ?thesis
        using app step 3 p l r2
        by (auto simp: encoder_step_def EVP_EncodeUpdate_def encoder_at_def Let_def u_def [symmetric])
    next
      case False
      have "EVP_EncodeUpdate_loop (p @ ys) = (EVP_EncodeBlock d @ 0x0a # o2, r2)"
        using l False encode_loop_line [OF d(1)] by (simp only: d(2)) simp
      then show ?thesis
        using app step 3 p l r2 False d(1)
        by (auto simp: encoder_step_def EVP_EncodeUpdate_def encoder_at_def Let_def
            u_def [symmetric] p_def [symmetric] d_def [symmetric])
    qed
  qed
qed

interpretation encoder: stream encoder_step encoder_at "\<lambda>xs. fst (EVP_EncodeUpdate_loop xs)" "\<lambda>xs. True"
  by unfold_locales (simp_all add: encoder_step_consumes)

lemma encoder_at_init: "encoder_at EVP_EncodeInit []"
  by (simp add: encoder_at_def EVP_EncodeInit_def encode_loop_short)

section \<open>Streaming decoder\<close>

definition decoder_step :: "EVP_ENCODE_CTX \<Rightarrow> byte list \<Rightarrow> EVP_ENCODE_CTX \<times> byte list" where
  "decoder_step ctx inp = (case EVP_DecodeUpdate ctx inp of (r, ctx', out) \<Rightarrow> (ctx', out))"

lemma decode_loop_out:
  "EVP_DecodeUpdate_loop ctx (out1 @ out) inp =
     (case EVP_DecodeUpdate_loop ctx out inp of (ok, ctx', out') \<Rightarrow> (ok, ctx', out1 @ out'))"
  by (induction inp arbitrary: ctx out) (simp_all add: Let_def split: option.split)

lemma decode_loop_append:
  "EVP_DecodeUpdate_loop ctx out (xs @ ys) =
     (case EVP_DecodeUpdate_loop ctx out xs of
        (ok, ctx', out') \<Rightarrow> if ok then EVP_DecodeUpdate_loop ctx' out' ys else (ok, ctx', out'))"
  by (induction xs arbitrary: ctx out) (simp_all add: Let_def split: option.split)

lemma decode_loop_error:
  "EVP_DecodeUpdate_loop ctx out xs = (True, ctx', out') \<Longrightarrow>
     ec_error_encountered ctx' = ec_error_encountered ctx"
  by (induction xs arbitrary: ctx out) (auto simp: Let_def split: option.splits if_splits)

definition decoder_out :: "byte list \<Rightarrow> byte list" where
  "decoder_out xs = snd (snd (EVP_DecodeUpdate_loop EVP_DecodeInit [] xs))"

definition decoder_good :: "byte list \<Rightarrow> bool" where
  "decoder_good xs \<longleftrightarrow> fst (EVP_DecodeUpdate_loop EVP_DecodeInit [] xs) \<and> length (decoder_out xs) \<le> INT_MAX"

definition decoder_at :: "EVP_ENCODE_CTX \<Rightarrow> byte list \<Rightarrow> bool" where
  "decoder_at ctx xs \<longleftrightarrow> EVP_DecodeUpdate_loop EVP_DecodeInit [] xs = (True, ctx, decoder_out xs)"

lemma decoder_append:
  assumes "decoder_at ctx xs" and "EVP_DecodeUpdate_loop ctx [] ys = (ok, ctx', out)"
  shows "EVP_DecodeUpdate_loop EVP_DecodeInit [] (xs @ ys) = (ok, ctx', decoder_out xs @ out)"
  using assms decode_loop_out [of ctx "decoder_out xs" "[]" ys]
  by (simp add: decoder_at_def decode_loop_append)

interpretation decoder: stream decoder_step decoder_at decoder_out decoder_good
proof
  fix xs ys :: "byte list"
  assume g: "decoder_good (xs @ ys)"
  obtain ok ctx out where l: "EVP_DecodeUpdate_loop EVP_DecodeInit [] xs = (ok, ctx, out)"
    by (metis prod_cases3)
  have ok: ok using g l by (auto simp: decoder_good_def decode_loop_append split: if_splits)
  then have at: "decoder_at ctx xs" using l by (simp add: decoder_at_def decoder_out_def)
  obtain ok2 ctx2 out2 where l2: "EVP_DecodeUpdate_loop ctx [] ys = (ok2, ctx2, out2)"
    by (metis prod_cases3)
  show "decoder_good xs"
    using g decoder_append [OF at l2] ok l by (simp add: decoder_good_def decoder_out_def)
next
  fix s xs ys s' out
  assume at: "decoder_at s xs" and g: "decoder_good (xs @ ys)" and step: "decoder_step s ys = (s', out)"
  obtain ok2 ctx2 out2 where l2: "EVP_DecodeUpdate_loop s [] ys = (ok2, ctx2, out2)"
    by (metis prod_cases3)
  note app = decoder_append [OF at l2]
  have "ok2" "length out2 \<le> INT_MAX" using g app by (auto simp: decoder_good_def decoder_out_def)
  moreover have "\<not> ec_error_encountered s"
    using at decode_loop_error by (fastforce simp: decoder_at_def EVP_DecodeInit_def)
  ultimately have "s' = ctx2 \<and> out = out2"
    using step l2 by (auto simp: decoder_step_def EVP_DecodeUpdate_def split: if_splits)
  then show "decoder_at s' (xs @ ys) \<and> decoder_out (xs @ ys) = decoder_out xs @ out"
    using app \<open>ok2\<close> by (simp add: decoder_at_def decoder_out_def)
qed

lemma decoder_at_init: "decoder_at EVP_DecodeInit []"
  by (simp add: decoder_at_def decoder_out_def)

definition decoder_ready :: "EVP_ENCODE_CTX \<Rightarrow> bool" where
  "decoder_ready ctx \<longleftrightarrow> ec_data_used ctx = 0 \<and> length (ec_data ctx) = DATA_SIZE"

lemma decode_loop_quad:
  assumes "decoder_ready ctx" "\<not> ec_eof_seen ctx" "base64_decode_quad q0 q1 q2 q3 = Some bytes"
    and "\<forall>q \<in> {q0, q1, q2, q3}. \<not> b64_space q"
  shows "\<exists>ctx'. EVP_DecodeUpdate_loop ctx out (q0 # q1 # q2 # q3 # rest) =
      EVP_DecodeUpdate_loop ctx' (out @ bytes) rest \<and>
    decoder_ready ctx' \<and> ec_eof_seen ctx' = (length bytes < 3)"
  using assms
  by (simp add: decoder_ready_def Let_def nth_list_update numeral_2_eq_2 numeral_3_eq_3) auto

lemma decode_loop_block:
  assumes "decoder_ready ctx" "\<not> ec_eof_seen ctx"
  shows "\<exists>ctx'. EVP_DecodeUpdate_loop ctx out (EVP_EncodeBlock src @ rest) =
      EVP_DecodeUpdate_loop ctx' (out @ src) rest \<and>
    decoder_ready ctx' \<and> ec_eof_seen ctx' = (length src mod 3 \<noteq> 0)"
  using assms
proof (induction src arbitrary: ctx out rule: measure_induct_rule [of length])
  case (less src)
  show ?case
  proof (cases "src = []")
    case True
    then show ?thesis using less.prems by auto
  next
    case False
    from EncodeBlock_quad [OF this] obtain q0 q1 q2 q3
      where e: "EVP_EncodeBlock src = q0 # q1 # q2 # q3 # EVP_EncodeBlock (drop 3 src)"
        and q: "base64_decode_quad q0 q1 q2 q3 = Some (take 3 src)"
        and sp: "\<forall>q \<in> {q0, q1, q2, q3}. \<not> b64_space q" by blast
    from decode_loop_quad [OF less.prems q sp, of out "EVP_EncodeBlock (drop 3 src) @ rest"]
    obtain ctx1 where 1: "EVP_DecodeUpdate_loop ctx out (EVP_EncodeBlock src @ rest) =
        EVP_DecodeUpdate_loop ctx1 (out @ take 3 src) (EVP_EncodeBlock (drop 3 src) @ rest)"
      and r: "decoder_ready ctx1" and eof: "ec_eof_seen ctx1 = (length src < 3)" by (auto simp: e)
    show ?thesis
    proof (cases "length src < 3")
      case True
      then have "length src mod 3 \<noteq> 0" using False by auto
      then show ?thesis using 1 r eof True by auto
    next
      case False
      then have "\<not> ec_eof_seen ctx1" using eof by simp
      from less.IH [OF _ r this, of "drop 3 src" "out @ take 3 src"] False \<open>src \<noteq> []\<close>
      obtain ctx2 where "EVP_DecodeUpdate_loop ctx1 (out @ take 3 src) (EVP_EncodeBlock (drop 3 src) @ rest)
          = EVP_DecodeUpdate_loop ctx2 (out @ src) rest" "decoder_ready ctx2"
        "ec_eof_seen ctx2 = ((length src - 3) mod 3 \<noteq> 0)"
        by auto
      then show ?thesis using 1 False by (auto simp: le_mod_geq)
    qed
  qed
qed

lemma encode_text_line:
  "length xs = 48 \<Longrightarrow> encode_text (xs @ ys) = EVP_EncodeBlock xs @ 0x0a # encode_text ys"
  by (simp add: encode_text_def encode_loop_line split: prod.split)

lemma decode_loop_text:
  assumes "decoder_ready ctx" "\<not> ec_eof_seen ctx"
  shows "\<exists>ctx'. EVP_DecodeUpdate_loop ctx out (encode_text src) = (True, ctx', out @ src) \<and> decoder_ready ctx'"
  using assms
proof (induction src arbitrary: ctx out rule: measure_induct_rule [of length])
  case (less src)
  show ?case
  proof (cases "length src < 48")
    case True
    then show ?thesis
      using less.prems decode_loop_block [OF less.prems, of out src "[0x0a]"]
      by (auto simp: encode_text_def encode_loop_short)
  next
    case False
    then have "encode_text src = EVP_EncodeBlock (take 48 src) @ 0x0a # encode_text (drop 48 src)"
      using encode_text_line [of "take 48 src" "drop 48 src"] by simp
    moreover from decode_loop_block [OF less.prems, of out "take 48 src" "0x0a # encode_text (drop 48 src)"] False
    obtain ctx1 where "EVP_DecodeUpdate_loop ctx out (EVP_EncodeBlock (take 48 src) @ 0x0a # encode_text (drop 48 src))
        = EVP_DecodeUpdate_loop ctx1 (out @ take 48 src) (0x0a # encode_text (drop 48 src))"
      and r: "decoder_ready ctx1" "\<not> ec_eof_seen ctx1" by auto
    ultimately show ?thesis
      using less.IH [OF _ r, of "drop 48 src" "out @ take 48 src"] False by auto
  qed
qed

text \<open>
  C37. The streaming encoder is a function of the bytes fed to it and not of how they are cut into
  chunks: the concatenated output of \<open>EVP_EncodeUpdate\<close> over any chunks, followed by that of
  \<open>EVP_EncodeFinal\<close>, is the text of 64-character lines of their concatenation.
\<close>

theorem base64_encode_chunks:
  "case feed_all encoder_step EVP_EncodeInit chunks of (ctx, out) \<Rightarrow>
     out @ fst (snd (EVP_EncodeFinal ctx)) = encode_text (concat chunks)"
proof -
  obtain ctx out where f: "feed_all encoder_step EVP_EncodeInit chunks = (ctx, out)" by fastforce
  have at: "encoder_at ctx (concat chunks)"
    and out: "fst (EVP_EncodeUpdate_loop (concat chunks)) = out"
    using encoder.feed_all_spec [OF encoder_at_init _ f] by (simp_all add: encode_loop_short)
  then show ?thesis
    by (auto simp: f EVP_EncodeFinal_def encode_text_def encoder_at_def Let_def split: prod.split)
qed

text \<open>
  C36. The streaming decoder undoes the streaming encoder: whatever chunks the encoded text arrives
  in, the decoder returns the bytes it encodes, and \<open>EVP_DecodeFinal\<close> reports success.
\<close>

theorem base64_decode_chunks:
  assumes "concat chunks = encode_text src" and "length src \<le> INT_MAX"
  shows "\<exists>ctx. feed_all decoder_step EVP_DecodeInit chunks = (ctx, src) \<and> EVP_DecodeFinal ctx = 1"
proof -
  have "decoder_ready EVP_DecodeInit" "\<not> ec_eof_seen EVP_DecodeInit"
    by (simp_all add: decoder_ready_def EVP_DecodeInit_def)
  from decode_loop_text [OF this, of "[]" src]
  obtain ctx where l: "EVP_DecodeUpdate_loop EVP_DecodeInit [] (encode_text src) = (True, ctx, src)"
    and r: "decoder_ready ctx" by auto
  have out: "decoder_out (concat chunks) = src" using l assms(1) by (simp add: decoder_out_def)
  have good: "decoder_good ([] @ concat chunks)" using l assms out by (simp add: decoder_good_def)
  obtain ctx' out' where f: "feed_all decoder_step EVP_DecodeInit chunks = (ctx', out')" by fastforce
  from decoder.feed_all_spec [OF decoder_at_init good f] out
  have "decoder_at ctx' (concat chunks)" "out' = src" by (simp_all add: decoder_out_def)
  moreover have "ctx' = ctx" using calculation(1) l assms(1) by (simp add: decoder_at_def)
  moreover have "\<not> ec_error_encountered ctx"
    using decode_loop_error [OF l] by (simp add: EVP_DecodeInit_def)
  ultimately show ?thesis using f r by (simp add: EVP_DecodeFinal_def decoder_ready_def)
qed

theorem base64_decode_chunks_witness:
  "\<exists>ctx. feed_all decoder_step EVP_DecodeInit [[0x54], [0x57, 0x46, 0x75, 0x0a]] = (ctx, [0x4d, 0x61, 0x6e]) \<and>
     EVP_DecodeFinal ctx = 1"
proof -
  have "concat [[0x54], [0x57, 0x46, 0x75, 0x0a]] = encode_text [0x4d, 0x61, 0x6e]"
    by (simp add: encode_text_def encode_loop_short conv_bin2ascii_if Let_def)
  from base64_decode_chunks [OF this] show ?thesis by simp
qed

end
