(* ===== verification/UvHeap.thy ===== *)
theory UvHeap
  imports Prelude "HOL-Library.Multiset" "HOL-Library.Monad_Syntax"
begin

text \<open>
  The intrusive binary heap of libuv (\<^verbatim>\<open>src/heap-inl.h\<close>). The nodes live in the caller's structures
  and are linked by \<open>left\<close>, \<open>right\<close> and \<open>parent\<close> pointers, so the model keeps a store of nodes by
  address. A step that would follow a null pointer, and a loop that does not end, are \<open>None\<close>. The
  refinement at the end of the theory shows that neither happens: the linked structure always is a
  complete binary tree, seen as the list of its nodes in level order, and every operation is the
  list operation of an array heap.
\<close>

section \<open>State\<close>

type_synonym addr = nat
type_synonym node_ptr = "addr option"

record heap_node =
  hn_left :: node_ptr
  hn_right :: node_ptr
  hn_parent :: node_ptr

record heap =
  hp_min :: node_ptr
  hp_nelts :: u32
  hp_nodes :: "addr \<Rightarrow> heap_node"

text \<open>A \<open>struct heap_node**\<close> points to the root pointer or to a child field of a node.\<close>

datatype node_loc = LMin | LLeft addr | LRight addr

fun load :: "heap \<Rightarrow> node_loc \<Rightarrow> node_ptr" where
  "load h LMin = hp_min h"
| "load h (LLeft a) = hn_left (hp_nodes h a)"
| "load h (LRight a) = hn_right (hp_nodes h a)"

definition upd_node :: "addr \<Rightarrow> (heap_node \<Rightarrow> heap_node) \<Rightarrow> heap \<Rightarrow> heap" where
  "upd_node a f h = h\<lparr>hp_nodes := (hp_nodes h)(a := f (hp_nodes h a))\<rparr>"

fun store :: "node_loc \<Rightarrow> node_ptr \<Rightarrow> heap \<Rightarrow> heap" where
  "store LMin p h = h\<lparr>hp_min := p\<rparr>"
| "store (LLeft a) p h = upd_node a (\<lambda>n. n\<lparr>hn_left := p\<rparr>) h"
| "store (LRight a) p h = upd_node a (\<lambda>n. n\<lparr>hn_right := p\<rparr>) h"

text \<open>\<open>if (p != NULL) p->parent = q\<close>\<close>

definition set_parent :: "node_ptr \<Rightarrow> addr \<Rightarrow> heap \<Rightarrow> heap" where
  "set_parent p q h =
     (case p of None \<Rightarrow> h | Some a \<Rightarrow> upd_node a (\<lambda>n. n\<lparr>hn_parent := Some q\<rparr>) h)"

text \<open>Links \<open>new\<close> where \<open>old\<close> was: under the node \<open>g\<close>, or at the root when \<open>g\<close> is null.\<close>

definition replace_child :: "node_ptr \<Rightarrow> addr \<Rightarrow> addr \<Rightarrow> heap \<Rightarrow> heap" where
  "replace_child g old new h =
     (case g of
        None \<Rightarrow> h\<lparr>hp_min := Some new\<rparr>
      | Some a \<Rightarrow>
          if hn_left (hp_nodes h a) = Some old then store (LLeft a) (Some new) h
          else store (LRight a) (Some new) h)"

section \<open>Operations\<close>

definition heap_init :: "heap \<Rightarrow> heap" where
  "heap_init h = h\<lparr>hp_min := None, hp_nelts := 0\<rparr>"

definition heap_min :: "heap \<Rightarrow> node_ptr" where
  "heap_min h = hp_min h"

definition heap_node_swap :: "heap \<Rightarrow> addr \<Rightarrow> addr \<Rightarrow> heap" where
  "heap_node_swap h0 parent child =
     (let t = hp_nodes h0 parent;
          h1 = upd_node parent (\<lambda>_. hp_nodes h0 child) h0;
          h2 = upd_node child (\<lambda>_. t) h1;
          h3 = upd_node parent (\<lambda>n. n\<lparr>hn_parent := Some child\<rparr>) h2;
          (h4, sibling) =
            (if hn_left (hp_nodes h3 child) = Some child
             then let h = store (LLeft child) (Some parent) h3 in (h, hn_right (hp_nodes h child))
             else let h = store (LRight child) (Some parent) h3 in (h, hn_left (hp_nodes h child)));
          h5 = set_parent sibling child h4;
          h6 = set_parent (hn_left (hp_nodes h5 parent)) parent h5;
          h7 = set_parent (hn_right (hp_nodes h6 parent)) parent h6
      in replace_child (hn_parent (hp_nodes h7 child)) parent child h7)"

text \<open>The path from the root to position \<open>n\<close> of the level order, low bit first, and its length.\<close>

function heap_path :: "u32 \<Rightarrow> nat \<Rightarrow> u32 \<Rightarrow> u32 \<times> nat" where
  "heap_path path k n =
     (if n \<ge> 2 then heap_path (push_bit 1 path OR (n AND 1)) (k + 1) (n div 2) else (path, k))"
  by pat_completeness auto
termination
proof (relation "measure (\<lambda>(path, k, n). unat n)")
  fix path :: u32 and k :: nat and n :: u32
  assume "n \<ge> 2"
  then have "unat n > 0" by (simp add: word_le_nat_alt)
  then show "((push_bit 1 path OR (n AND 1), k + 1, n div 2), (path, k, n)) \<in> measure (\<lambda>(path, k, n). unat n)"
    by (simp add: unat_div)
qed simp

declare heap_path.simps [simp del]

text \<open>Follows \<open>k\<close> steps of the path; the results are the last two locations, as \<open>parent\<close> and \<open>child\<close>.\<close>

fun heap_traverse :: "heap \<Rightarrow> node_loc \<Rightarrow> node_loc \<Rightarrow> u32 \<Rightarrow> nat \<Rightarrow> (node_loc \<times> node_loc) option" where
  "heap_traverse h parent child path 0 = Some (parent, child)"
| "heap_traverse h parent child path (Suc k) =
     (case load h child of
        None \<Rightarrow> None
      | Some a \<Rightarrow>
          heap_traverse h child (if path AND 1 \<noteq> 0 then LRight a else LLeft a) (drop_bit 1 path) k)"

partial_function (option) heap_walk_up ::
  "(addr \<Rightarrow> addr \<Rightarrow> bool) \<Rightarrow> heap \<Rightarrow> addr \<Rightarrow> heap option" where
  "heap_walk_up lt h node =
     (case hn_parent (hp_nodes h node) of
        None \<Rightarrow> Some h
      | Some p \<Rightarrow>
          if lt node p then heap_walk_up lt (heap_node_swap h p node) node else Some h)"

partial_function (option) heap_walk_down ::
  "(addr \<Rightarrow> addr \<Rightarrow> bool) \<Rightarrow> heap \<Rightarrow> addr \<Rightarrow> heap option" where
  "heap_walk_down lt h child =
     (let s1 = (case hn_left (hp_nodes h child) of
                  Some l \<Rightarrow> if lt l child then l else child
                | None \<Rightarrow> child);
          smallest = (case hn_right (hp_nodes h child) of
                        Some r \<Rightarrow> if lt r s1 then r else s1
                      | None \<Rightarrow> s1)
      in if smallest = child then Some h
         else heap_walk_down lt (heap_node_swap h child smallest) child)"

definition heap_insert :: "(addr \<Rightarrow> addr \<Rightarrow> bool) \<Rightarrow> heap \<Rightarrow> addr \<Rightarrow> heap option" where
  "heap_insert lt h0 newnode =
     (let h1 = upd_node newnode (\<lambda>n. n\<lparr>hn_left := None, hn_right := None, hn_parent := None\<rparr>) h0;
          (path, k) = heap_path 0 0 (1 + hp_nelts h1)
      in do {
        (parent, child) \<leftarrow> heap_traverse h1 LMin LMin path k;
        let h2 = upd_node newnode (\<lambda>n. n\<lparr>hn_parent := load h1 parent\<rparr>) h1;
        let h3 = store child (Some newnode) h2;
        let h4 = h3\<lparr>hp_nelts := hp_nelts h3 + 1\<rparr>;
        heap_walk_up lt h4 newnode
      })"

definition heap_remove :: "(addr \<Rightarrow> addr \<Rightarrow> bool) \<Rightarrow> heap \<Rightarrow> node_ptr \<Rightarrow> heap option" where
  "heap_remove lt h0 node =
     (if hp_nelts h0 = 0 then Some h0
      else
        let (path, k) = heap_path 0 0 (hp_nelts h0)
        in do {
          (_, mx) \<leftarrow> heap_traverse h0 LMin LMin path k;
          let h1 = h0\<lparr>hp_nelts := hp_nelts h0 - 1\<rparr>;
          let child = load h1 mx;
          let h2 = store mx None h1;
          if child = node
          then Some (if child = hp_min h2 then h2\<lparr>hp_min := None\<rparr> else h2)
          else do {
            c \<leftarrow> child;
            nd \<leftarrow> node;
            let h3 = upd_node c (\<lambda>n. n\<lparr>hn_left := hn_left (hp_nodes h2 nd),
                                      hn_right := hn_right (hp_nodes h2 nd),
                                      hn_parent := hn_parent (hp_nodes h2 nd)\<rparr>) h2;
            let h4 = set_parent (hn_left (hp_nodes h3 c)) c h3;
            let h5 = set_parent (hn_right (hp_nodes h4 c)) c h4;
            let h6 = replace_child (hn_parent (hp_nodes h5 nd)) nd c h5;
            h7 \<leftarrow> heap_walk_down lt h6 c;
            heap_walk_up lt h7 c
          }
        })"

definition heap_dequeue :: "(addr \<Rightarrow> addr \<Rightarrow> bool) \<Rightarrow> heap \<Rightarrow> heap option" where
  "heap_dequeue lt h = heap_remove lt h (hp_min h)"

section \<open>The array view\<close>

definition at :: "'a list \<Rightarrow> nat \<Rightarrow> 'a option" where
  "at xs i = (if 1 \<le> i \<and> i \<le> length xs then Some (xs ! (i - 1)) else None)"

definition node_at :: "addr list \<Rightarrow> nat \<Rightarrow> heap_node" where
  "node_at xs i = \<lparr>hn_left = at xs (2 * i), hn_right = at xs (2 * i + 1), hn_parent = at xs (i div 2)\<rparr>"

definition heap_rep :: "heap \<Rightarrow> addr list \<Rightarrow> bool" where
  "heap_rep h xs \<longleftrightarrow> distinct xs \<and> unat (hp_nelts h) = length xs \<and> hp_min h = at xs 1 \<and>
     (\<forall>i a. at xs i = Some a \<longrightarrow> hp_nodes h a = node_at xs i)"

definition swap_at :: "'a list \<Rightarrow> nat \<Rightarrow> nat \<Rightarrow> 'a list" where
  "swap_at xs i j = xs[i - 1 := xs ! (j - 1), j - 1 := xs ! (i - 1)]"

lemma at_in: "at xs i = Some a \<Longrightarrow> 1 \<le> i \<and> i \<le> length xs \<and> a \<in> set xs"
  by (auto simp: at_def split: if_splits)

lemma at_0 [simp]: "at xs 0 = None"
  by (simp add: at_def)

lemma at_inj: "distinct xs \<Longrightarrow> at xs i = Some a \<Longrightarrow> at xs j = Some a \<Longrightarrow> i = j"
  by (auto simp: at_def nth_eq_iff_index_eq split: if_splits)

lemma at_swap:
  assumes "1 \<le> i" "i \<le> length xs" "1 \<le> j" "j \<le> length xs" "i \<noteq> j"
  shows "at (swap_at xs i j) k = (if k = i then at xs j else if k = j then at xs i else at xs k)"
  using assms by (auto simp: at_def swap_at_def nth_list_update)

lemma length_swap_at [simp]: "length (swap_at xs i j) = length xs"
  by (simp add: swap_at_def)

lemma mset_swap_at:
  assumes "1 \<le> i" "i \<le> length xs" "1 \<le> j" "j \<le> length xs"
  shows "mset (swap_at xs i j) = mset xs"
  unfolding swap_at_def using assms by (intro mset_swap) auto

lemma distinct_swap_at:
  assumes "1 \<le> i" "i \<le> length xs" "1 \<le> j" "j \<le> length xs"
  shows "distinct (swap_at xs i j) = distinct xs"
  using mset_swap_at [OF assms] by (metis mset_eq_imp_distinct_iff)

lemma upd_node_sel [simp]:
  "hp_nodes (upd_node a f h) = (hp_nodes h)(a := f (hp_nodes h a))"
  "hp_min (upd_node a f h) = hp_min h" "hp_nelts (upd_node a f h) = hp_nelts h"
  by (simp_all add: upd_node_def)

lemma set_parent_sel [simp]:
  "hp_nodes (set_parent p q h) a =
     (if p = Some a then (hp_nodes h a)\<lparr>hn_parent := Some q\<rparr> else hp_nodes h a)"
  "hp_min (set_parent p q h) = hp_min h" "hp_nelts (set_parent p q h) = hp_nelts h"
  by (auto simp: set_parent_def split: option.split)

lemma heap_repD:
  assumes "heap_rep h xs"
  shows "distinct xs" "hp_min h = at xs 1" "unat (hp_nelts h) = length xs"
    and "at xs i = Some a \<Longrightarrow> hp_nodes h a = node_at xs i"
  using assms by (auto simp: heap_rep_def)

lemma replace_child_sel [simp]:
  "hp_min (replace_child g old new h) = (if g = None then Some new else hp_min h)"
  "hp_nelts (replace_child g old new h) = hp_nelts h"
  "hp_nodes (replace_child g old new h) a =
     (if g = Some a
      then if hn_left (hp_nodes h a) = Some old then (hp_nodes h a)\<lparr>hn_left := Some new\<rparr>
           else (hp_nodes h a)\<lparr>hn_right := Some new\<rparr>
      else hp_nodes h a)"
  by (auto simp: replace_child_def split: option.split)

lemma heap_node_swap_sel:
  assumes ne: "P \<noteq> C" and P: "hp_nodes h P = \<lparr>hn_left = PL, hn_right = PR, hn_parent = G\<rparr>"
    and C: "hp_nodes h C = \<lparr>hn_left = L, hn_right = R, hn_parent = Some P\<rparr>"
    and sib: "PL = Some C \<and> sib = PR \<or> PL \<noteq> Some C \<and> sib = PL"
    and out: "{sib, L, R, G} \<inter> {Some P, Some C} = {}"
  shows "hp_min (heap_node_swap h P C) = (if G = None then Some C else hp_min h)"
    and "hp_nelts (heap_node_swap h P C) = hp_nelts h"
    and "hp_nodes (heap_node_swap h P C) a =
        (if a = C then \<lparr>hn_left = if PL = Some C then Some P else PL,
                        hn_right = if PL = Some C then PR else Some P, hn_parent = G\<rparr>
        else if a = P then \<lparr>hn_left = L, hn_right = R, hn_parent = Some C\<rparr>
        else
          let n = (hp_nodes h a)\<lparr>hn_parent :=
                     if R = Some a \<or> L = Some a then Some P
                     else if sib = Some a then Some C else hn_parent (hp_nodes h a)\<rparr>
          in if G = Some a
             then if hn_left n = Some P then n\<lparr>hn_left := Some C\<rparr> else n\<lparr>hn_right := Some C\<rparr>
             else n)"
proof -
  define h3 where "h3 = upd_node P (\<lambda>n. n\<lparr>hn_parent := Some C\<rparr>) (upd_node C (\<lambda>_. hp_nodes h P) (upd_node P (\<lambda>_. hp_nodes h C) h))"
  have n3: "hp_nodes h3 = (hp_nodes h)(P := \<lparr>hn_left = L, hn_right = R, hn_parent = Some C\<rparr>,
      C := \<lparr>hn_left = PL, hn_right = PR, hn_parent = G\<rparr>)"
    using ne P C by (auto simp: h3_def)
  define h4 where "h4 = (if PL = Some C then store (LLeft C) (Some P) h3 else store (LRight C) (Some P) h3)"
  have n4: "hp_nodes h4 = (hp_nodes h)(P := \<lparr>hn_left = L, hn_right = R, hn_parent = Some C\<rparr>,
      C := \<lparr>hn_left = if PL = Some C then Some P else PL, hn_right = if PL = Some C then PR else Some P, hn_parent = G\<rparr>)"
    by (auto simp: h4_def n3)
  have h34: "hp_min h4 = hp_min h" "hp_nelts h4 = hp_nelts h" by (simp_all add: h4_def h3_def)
  define h7 where "h7 = set_parent R P (set_parent L P (set_parent sib C h4))"
  have n7: "hp_nodes h7 a = (if a = C \<or> a = P then hp_nodes h4 a else
      (hp_nodes h a)\<lparr>hn_parent := if R = Some a \<or> L = Some a then Some P
                     else if sib = Some a then Some C else hn_parent (hp_nodes h a)\<rparr>)" for a
    using out by (auto simp: h7_def n4)
  have sel3: "hn_left (hp_nodes h3 C) = PL" by (simp add: n3)
  have sel4: "(if PL = Some C then hn_right (hp_nodes h4 C) else hn_left (hp_nodes h4 C)) = sib"
    using sib by (auto simp: n4)
  have sel: "hn_left (hp_nodes (set_parent sib C h4) P) = L"
    "hn_right (hp_nodes (set_parent L P (set_parent sib C h4)) P) = R" "hn_parent (hp_nodes h7 C) = G"
    using out ne by (auto simp: n7 n4)
  have swap: "heap_node_swap h P C = replace_child G P C h7"
  proof (cases "PL = Some C")
    case True
    then have "store (LLeft C) (Some P) h3 = h4" "hn_right (hp_nodes h4 C) = sib" using sel4 by (simp_all add: h4_def)
    then show ?thesis
      unfolding heap_node_swap_def Let_def h3_def [symmetric] sel3 using True sel
      by (simp only: if_True prod.case simp_thms flip: h7_def)
  next
    case False
    then have "store (LRight C) (Some P) h3 = h4" "hn_left (hp_nodes h4 C) = sib" using sel4 by (simp_all add: h4_def)
    then show ?thesis
      unfolding heap_node_swap_def Let_def h3_def [symmetric] sel3 using False sel
      by (simp only: if_False prod.case simp_thms flip: h7_def)
  qed
  have h7: "hp_min h7 = hp_min h" "hp_nelts h7 = hp_nelts h" by (simp_all add: h7_def h34)
  show "hp_min (heap_node_swap h P C) = (if G = None then Some C else hp_min h)"
    "hp_nelts (heap_node_swap h P C) = hp_nelts h" by (simp_all add: swap h7)
  show "hp_nodes (heap_node_swap h P C) a =
        (if a = C then \<lparr>hn_left = if PL = Some C then Some P else PL,
                        hn_right = if PL = Some C then PR else Some P, hn_parent = G\<rparr>
        else if a = P then \<lparr>hn_left = L, hn_right = R, hn_parent = Some C\<rparr>
        else
          let n = (hp_nodes h a)\<lparr>hn_parent :=
                     if R = Some a \<or> L = Some a then Some P
                     else if sib = Some a then Some C else hn_parent (hp_nodes h a)\<rparr>
          in if G = Some a
             then if hn_left n = Some P then n\<lparr>hn_left := Some C\<rparr> else n\<lparr>hn_right := Some C\<rparr>
             else n)"
    using out ne by (auto simp: swap n7 n4 Let_def)
qed

lemma heap_rep_swap:
  assumes rep: "heap_rep h xs" and i: "2 \<le> i" and C: "at xs i = Some C" and P: "at xs (i div 2) = Some P"
  shows "heap_rep (heap_node_swap h P C) (swap_at xs (i div 2) i)"
proof -
  define p s where "p = i div 2" and "s = (if even i then i + 1 else i - 1)"
  note d = heap_repD(1) [OF rep]
  have inj: "at xs j = Some a \<Longrightarrow> at xs k = Some a \<Longrightarrow> j = k" for j k a using at_inj [OF d] by blast
  have P': "at xs p = Some P" using P by (simp add: p_def)
  have nC: "at xs k \<noteq> Some C" if "k \<noteq> i" for k using inj [OF C] that by blast
  have nP: "at xs k \<noteq> Some P" if "k \<noteq> p" for k using inj [OF P'] that by blast
  have "i = 2 * p \<and> even i \<or> i = 2 * p + 1 \<and> odd i" unfolding p_def by presburger
  then have si: "s = 2 * p + 1 \<and> i = 2 * p \<or> s = 2 * p \<and> i = 2 * p + 1" by (auto simp: s_def)
  have p1: "1 \<le> p" using i by (simp add: p_def)
  have ne: "s \<noteq> i \<and> s \<noteq> p \<and> 2 * i \<noteq> i \<and> 2 * i \<noteq> p \<and> 2 * i + 1 \<noteq> i \<and> 2 * i + 1 \<noteq> p \<and> g \<noteq> i \<and>
    g \<noteq> p \<and> s \<noteq> 2 * i \<and> s \<noteq> 2 * i + 1 \<and> g \<noteq> s \<and> g \<noteq> 2 * i \<and> g \<noteq> 2 * i + 1" if "g < p" for g
    using si p1 that by (elim disjE conjE) simp_all
  have "p div 2 < p" using p1 by simp
  note ne = ne [OF this]
  have PC: "P \<noteq> C" using nP [of i] C ne si p1 by fastforce
  have hP: "hp_nodes h P = \<lparr>hn_left = at xs (2 * p), hn_right = at xs (2 * p + 1), hn_parent = at xs (p div 2)\<rparr>"
    using heap_repD(4) [OF rep P'] by (simp add: node_at_def)
  have hC: "hp_nodes h C = \<lparr>hn_left = at xs (2 * i), hn_right = at xs (2 * i + 1), hn_parent = Some P\<rparr>"
    using heap_repD(4) [OF rep C] P by (simp add: node_at_def)
  have sib: "at xs (2 * p) = Some C \<and> at xs s = at xs (2 * p + 1) \<or> at xs (2 * p) \<noteq> Some C \<and> at xs s = at xs (2 * p)"
    using si C nC [of "2 * p"] by auto
  have out: "{at xs s, at xs (2 * i), at xs (2 * i + 1), at xs (p div 2)} \<inter> {Some P, Some C} = {}"
    using ne nC [of s] nP [of s] nC [of "2 * i"] nP [of "2 * i"] nC [of "2 * i + 1"] nP [of "2 * i + 1"]
      nC [of "p div 2"] nP [of "p div 2"] by blast
  note swap = heap_node_swap_sel [OF PC hP hC sib out]
  have len: "1 \<le> p" "p \<le> length xs" "1 \<le> i" "i \<le> length xs" "p \<noteq> i"
    using at_in [OF P'] at_in [OF C] si by auto
  let ?xs = "swap_at xs p i"
  have at': "at ?xs k = (if k = p then Some C else if k = i then Some P else at xs k)" for k
    using at_swap [OF len(1-5)] P' C by simp
  have "hp_nodes (heap_node_swap h P C) a = node_at ?xs j" if j: "at ?xs j = Some a" for j a
  proof -
    consider "j = p" | "j = i" "j \<noteq> p" | "j \<noteq> p" "j \<noteq> i" by blast
    then show ?thesis
    proof cases
      case 1
      then have "a = C" using j at' by simp
      then show ?thesis using si 1 p1 nC [of "2 * p"] C by (auto simp: swap node_at_def at')
    next
      case 2
      then have "a = P" using j at' by simp
      then show ?thesis using 2 PC si p1 by (auto simp: swap node_at_def at')
    next
      case 3
      then have a: "at xs j = Some a" using j at' by simp
      then have "a \<noteq> C" "a \<noteq> P" using nC nP 3 by blast+
      have pos: "at xs k = Some a \<longleftrightarrow> k = j" for k using a inj by blast
      have posP: "at xs k = Some P \<longleftrightarrow> k = p" for k using P' inj by blast
      have ha: "hp_nodes h a = node_at xs j" by (rule heap_repD(4) [OF rep a])
      have "at ?xs (j div 2) = (if j = 2 * i + 1 \<or> j = 2 * i then Some P else if j = s then Some C else at xs (j div 2))"
      proof -
        have "j div 2 = p \<longleftrightarrow> j = s" "j div 2 = i \<longleftrightarrow> j = 2 * i + 1 \<or> j = 2 * i"
          using si 3 by auto
        then show ?thesis using len(5) by (auto simp: at')
      qed
      moreover have "at ?xs (2 * j) = (if j = p div 2 \<and> 2 * j = p then Some C else at xs (2 * j))"
        "at ?xs (2 * j + 1) = (if j = p div 2 \<and> 2 * j \<noteq> p then Some C else at xs (2 * j + 1))"
      proof -
        have i': "i = 2 * p \<or> i = 2 * p + 1" using si by blast
        have "2 * j \<noteq> i" "2 * j + 1 \<noteq> i" using i' 3(1) by presburger+
        moreover have "2 * j = p \<longleftrightarrow> j = p div 2 \<and> 2 * j = p" by presburger
        moreover have "2 * j + 1 = p \<longleftrightarrow> j = p div 2 \<and> 2 * j \<noteq> p" by presburger
        ultimately show "at ?xs (2 * j) = (if j = p div 2 \<and> 2 * j = p then Some C else at xs (2 * j))"
          "at ?xs (2 * j + 1) = (if j = p div 2 \<and> 2 * j \<noteq> p then Some C else at xs (2 * j + 1))"
          by (simp_all only: at' if_False)
      qed
      ultimately show ?thesis
        using \<open>a \<noteq> C\<close> \<open>a \<noteq> P\<close> ha
        by (simp add: swap(3) pos posP node_at_def eq_commute [of _ j]) (use ne in auto)
    qed
  qed
  moreover have "hp_min (heap_node_swap h P C) = at ?xs 1"
  proof -
    have "at xs (p div 2) = None \<longleftrightarrow> p div 2 = 0" using len(2) by (auto simp: at_def)
    then have "at xs (p div 2) = None \<longleftrightarrow> p = 1" using p1 by auto
    then show ?thesis using heap_repD(2) [OF rep] i by (simp add: swap(1) at')
  qed
  ultimately show ?thesis
    using heap_repD(3) [OF rep] d len distinct_swap_at [OF len(1-4)]
    by (simp add: heap_rep_def swap p_def)
qed

section \<open>The loops on the array\<close>

function sift_up :: "('a \<Rightarrow> 'a \<Rightarrow> bool) \<Rightarrow> 'a list \<Rightarrow> nat \<Rightarrow> 'a list" where
  "sift_up lt xs i =
     (if 2 \<le> i \<and> i \<le> length xs \<and> lt (xs ! (i - 1)) (xs ! (i div 2 - 1))
      then sift_up lt (swap_at xs (i div 2) i) (i div 2) else xs)"
  by pat_completeness auto
termination
  by (relation "measure (\<lambda>(lt, xs, i). i)") auto

definition smallest_child :: "('a \<Rightarrow> 'a \<Rightarrow> bool) \<Rightarrow> 'a list \<Rightarrow> nat \<Rightarrow> nat" where
  "smallest_child lt xs i =
     (let s1 = (if 2 * i \<le> length xs \<and> lt (xs ! (2 * i - 1)) (xs ! (i - 1)) then 2 * i else i)
      in if 2 * i + 1 \<le> length xs \<and> lt (xs ! (2 * i)) (xs ! (s1 - 1)) then 2 * i + 1 else s1)"

lemma smallest_child_cases:
  "smallest_child lt xs i = i \<or> (smallest_child lt xs i = 2 * i \<or> smallest_child lt xs i = 2 * i + 1) \<and>
     smallest_child lt xs i \<le> length xs"
  by (auto simp: smallest_child_def Let_def)

function sift_down :: "('a \<Rightarrow> 'a \<Rightarrow> bool) \<Rightarrow> 'a list \<Rightarrow> nat \<Rightarrow> 'a list \<times> nat" where
  "sift_down lt xs i =
     (let s = smallest_child lt xs i
      in if i = 0 \<or> s = i then (xs, i) else sift_down lt (swap_at xs i s) s)"
  by pat_completeness auto
termination
proof (relation "measure (\<lambda>(lt, xs, i). length xs - i)", goal_cases)
  case (2 lt xs i s)
  then show ?case using smallest_child_cases [of lt xs i] by auto
qed simp

declare sift_up.simps [simp del] sift_down.simps [simp del]

lemma at_nth: "1 \<le> i \<Longrightarrow> i \<le> length xs \<Longrightarrow> at xs i = Some (xs ! (i - 1))"
  by (simp add: at_def)

lemma walk_up_rep:
  assumes "heap_rep h xs" and "at xs i = Some a"
  shows "\<exists>h'. heap_walk_up lt h a = Some h' \<and> heap_rep h' (sift_up lt xs i)"
  using assms
proof (induction i arbitrary: h xs rule: less_induct)
  case (less i)
  have i: "1 \<le> i" "i \<le> length xs" "xs ! (i - 1) = a" using less.prems(2) by (auto simp: at_def split: if_splits)
  have pa: "hn_parent (hp_nodes h a) = at xs (i div 2)"
    using heap_repD(4) [OF less.prems] by (simp add: node_at_def)
  show ?case
  proof (cases "2 \<le> i \<and> lt a (xs ! (i div 2 - 1))")
    case True
    define p where "p = i div 2"
    then have p: "1 \<le> p" "p \<le> length xs" "p < i" using True i by auto
    then have P: "at xs p = Some (xs ! (p - 1))" by (simp add: at_def)
    let ?h = "heap_node_swap h (xs ! (p - 1)) a" and ?xs = "swap_at xs p i"
    have "heap_rep ?h ?xs" using heap_rep_swap [OF less.prems(1) _ less.prems(2)] True P by (simp add: p_def)
    moreover have "at ?xs p = Some a" using at_swap [OF p(1,2) i(1,2)] p less.prems(2) by simp
    ultimately obtain h' where "heap_walk_up lt ?h a = Some h'" "heap_rep h' (sift_up lt ?xs p)"
      using less.IH [OF p(3)] by blast
    then show ?thesis
      using True i pa P by (auto simp: heap_walk_up.simps [of lt h] sift_up.simps [of lt xs i] p_def)
  next
    case False
    have "at xs (i div 2) = (if 2 \<le> i then Some (xs ! (i div 2 - 1)) else None)" using i by (auto simp: at_def)
    then show ?thesis
      using False i pa less.prems(1)
      by (auto simp: heap_walk_up.simps [of lt h] sift_up.simps [of lt xs i])
  qed
qed

lemma walk_down_rep:
  assumes "heap_rep h xs" and "at xs i = Some a" and "sift_down lt xs i = (ys, j)"
  shows "\<exists>h'. heap_walk_down lt h a = Some h' \<and> heap_rep h' ys \<and> at ys j = Some a"
  using assms
proof (induction lt xs i arbitrary: h rule: sift_down.induct)
  case (1 lt xs i)
  define c where "c = smallest_child lt xs i"
  have i: "1 \<le> i" "i \<le> length xs" "xs ! (i - 1) = a" using 1(3) by (auto simp: at_def split: if_splits)
  have ch: "hn_left (hp_nodes h a) = at xs (2 * i)" "hn_right (hp_nodes h a) = at xs (2 * i + 1)"
    using heap_repD(4) [OF 1(2,3)] by (simp_all add: node_at_def)
  note d = heap_repD(1) [OF 1(2)]
  let ?s1 = "case hn_left (hp_nodes h a) of Some l \<Rightarrow> if lt l a then l else a | None \<Rightarrow> a"
  let ?sm = "case hn_right (hp_nodes h a) of Some r \<Rightarrow> if lt r ?s1 then r else ?s1 | None \<Rightarrow> ?s1"
  have c: "c = i \<or> (c = 2 * i \<or> c = 2 * i + 1) \<and> c \<le> length xs"
    using smallest_child_cases [of lt xs i] by (simp add: c_def)
  have sm: "?sm = xs ! (c - 1)"
    using i by (auto simp: ch c_def smallest_child_def Let_def at_def)
  have eq: "?sm = a \<longleftrightarrow> c = i"
  proof -
    have "c - 1 < length xs" "i - 1 < length xs" "1 \<le> c" using c i by auto
    then have "xs ! (c - 1) = xs ! (i - 1) \<longleftrightarrow> c = i" using d i(1) by (auto simp: nth_eq_iff_index_eq)
    then show ?thesis unfolding sm using i(3) by simp
  qed
  show ?case
  proof (cases "c = i")
    case True
    then show ?thesis
      using 1(2-4) eq i by (auto simp: heap_walk_down.simps [of lt h] sift_down.simps [of lt xs i] c_def [symmetric] Let_def)
  next
    case False
    then have c2: "2 \<le> c" "c div 2 = i" "c \<le> length xs" using c i by auto
    then have C: "at xs c = Some (xs ! (c - 1))" by (simp add: at_def)
    let ?h = "heap_node_swap h a (xs ! (c - 1))" and ?xs = "swap_at xs i c"
    have "heap_rep ?h ?xs" using heap_rep_swap [OF 1(2) c2(1) C] c2 1(3) by simp
    moreover have "at ?xs c = Some a" using at_swap [of i xs c] c2 i 1(3) False by simp
    moreover have "sift_down lt ?xs c = (ys, j)"
      using 1(4) False i by (simp add: sift_down.simps [of lt xs i] c_def [symmetric] Let_def)
    ultimately have "\<exists>h'. heap_walk_down lt ?h a = Some h' \<and> heap_rep h' ys \<and> at ys j = Some a"
      using 1(1) [of c ?h] False i by (simp add: c_def)
    then show ?thesis
      using eq False sm by (subst heap_walk_down.simps) (simp add: Let_def)
  qed
qed

section \<open>Finding a position\<close>

fun descend :: "nat \<Rightarrow> nat \<Rightarrow> nat \<Rightarrow> nat" where
  "descend i path 0 = i"
| "descend i path (Suc k) = descend (2 * i + path mod 2) (path div 2) k"

definition loc :: "addr list \<Rightarrow> nat \<Rightarrow> node_loc" where
  "loc xs i = (if i \<le> 1 then LMin else if even i then LLeft (xs ! (i div 2 - 1)) else LRight (xs ! (i div 2 - 1)))"

lemma unat_and_1: "unat (w AND 1) = unat w mod 2" for w :: "'a::len word"
  using unat_and_mask [of w 1] by (simp add: mask_eq_exp_minus_1)

lemma and_1_eq_0: "w AND 1 = 0 \<longleftrightarrow> even (unat w)" for w :: "'a::len word"
proof -
  have "w AND 1 = 0 \<longleftrightarrow> unat (w AND 1) = 0" by (simp only: unat_eq_zero)
  then show ?thesis by (simp only: unat_and_1 even_iff_mod_2_eq_zero)
qed

lemma heap_path_descend:
  assumes "heap_path path k n = (path', k')" and "1 \<le> unat n" and "unat n * 2 ^ k < 2 ^ 32"
    and "unat path < 2 ^ k"
  shows "descend 1 (unat path') k' = descend (unat n) (unat path) k"
  using assms
proof (induction path k n rule: heap_path.induct)
  case (1 path k n)
  show ?case
  proof (cases "n \<ge> 2")
    case True
    let ?p = "push_bit 1 path OR (n AND 1)"
    have n2: "2 \<le> unat n" using True by (simp add: word_le_nat_alt)
    then have "2 * 2 ^ k \<le> unat n * 2 ^ k" by (rule mult_le_mono1)
    then have k: "2 * 2 ^ k < (2 :: nat) ^ 32" using 1(4) by linarith
    have "unat (n AND 1) < 2 ^ 1" by (simp add: unat_and_1)
    then have "unat ?p = (unat path * 2 ^ 1 + unat n mod 2) mod 2 ^ 32"
      using unat_push_bit_or [of "n AND 1" 1 path] by (simp add: unat_and_1)
    also have "\<dots> = 2 * unat path + unat n mod 2" using k 1(5) by (simp add: mult.commute)
    finally have p: "unat ?p = 2 * unat path + unat n mod 2" .
    have d: "unat (n div 2) = unat n div 2" by (simp add: unat_div)
    have "unat n div 2 * 2 ^ (k + 1) = (unat n div 2 * 2) * 2 ^ k" by simp
    also have "\<dots> \<le> unat n * 2 ^ k" by (intro mult_le_mono1) simp
    finally have "unat (n div 2) * 2 ^ (k + 1) < 2 ^ 32" using 1(4) unfolding d by (rule le_less_trans)
    moreover have "unat ?p < 2 ^ (k + 1)" using p 1(5) by simp
    moreover have "1 \<le> unat (n div 2)" using d n2 by simp
    moreover have "heap_path ?p (k + 1) (n div 2) = (path', k')"
      using 1(2) True by (simp add: heap_path.simps [of path k n])
    ultimately have "descend 1 (unat path') k' = descend (unat (n div 2)) (unat ?p) (k + 1)"
      using 1(1) [OF True] by blast
    moreover have "(2 * unat path + unat n mod 2) mod 2 = unat n mod 2"
      "(2 * unat path + unat n mod 2) div 2 = unat path" by simp_all
    ultimately show ?thesis unfolding p d by simp
  next
    case False
    then have "unat n = 1" using 1(3) by (simp add: word_le_nat_alt)
    then show ?thesis using False 1(2) by (simp add: heap_path.simps [of path k n])
  qed
qed

lemma load_loc:
  assumes "heap_rep h xs" and "1 \<le> i" and "i div 2 \<le> length xs"
  shows "load h (loc xs i) = at xs i"
proof (cases "i = 1")
  case False
  then have "1 \<le> i div 2" using assms(2) by auto
  then have "at xs (i div 2) = Some (xs ! (i div 2 - 1))" using assms(3) by (simp add: at_def)
  from heap_repD(4) [OF assms(1) this] show ?thesis
    using False assms(2) by (auto simp: loc_def node_at_def dvd_def elim!: oddE)
qed (use assms(1) in \<open>simp add: loc_def heap_repD(2)\<close>)

lemma descend_ge: "1 \<le> i \<Longrightarrow> i * 2 ^ k \<le> descend i path k"
proof (induction k arbitrary: i path)
  case (Suc k)
  have "i * 2 ^ Suc k \<le> (2 * i + path mod 2) * 2 ^ k" by (simp add: algebra_simps)
  also have "\<dots> \<le> descend (2 * i + path mod 2) (path div 2) k" using Suc by auto
  finally show ?case by simp
qed simp

lemma traverse_rep:
  assumes "heap_rep h xs" and "1 \<le> i" and "descend i (unat path) k div 2 \<le> length xs"
  shows "heap_traverse h par (loc xs i) path k =
    Some (if k = 0 then par else loc xs (descend i (unat path) k div 2), loc xs (descend i (unat path) k))"
  using assms(2,3)
proof (induction k arbitrary: i path par)
  case (Suc k)
  let ?i = "2 * i + unat path mod 2" and ?path = "drop_bit 1 path"
  have N: "descend i (unat path) (Suc k) = descend ?i (unat ?path) k" by (simp add: unat_drop_bit)
  have "?i * 2 ^ k \<le> descend ?i (unat ?path) k" using Suc.prems(1) by (intro descend_ge) simp
  moreover have "?i \<le> ?i * 2 ^ k" by simp
  ultimately have "i \<le> descend ?i (unat ?path) k div 2" by linarith
  then have il: "i \<le> length xs" using Suc.prems(2) N by simp
  then have a: "load h (loc xs i) = Some (xs ! (i - 1))"
    using load_loc [OF assms(1) Suc.prems(1)] Suc.prems(1) by (simp add: at_def)
  have "(path AND 1 \<noteq> 0) = odd (unat path)"
    by (simp add: and_1_eq_0)
  then have "(if path AND 1 \<noteq> 0 then LRight (xs ! (i - 1)) else LLeft (xs ! (i - 1))) = loc xs ?i"
    using Suc.prems(1) by (auto simp: loc_def elim!: oddE evenE)
  then have "heap_traverse h par (loc xs i) path (Suc k) = heap_traverse h (loc xs i) (loc xs ?i) ?path k"
    using a by (simp only: heap_traverse.simps option.case)
  also have "\<dots> = Some (if k = 0 then loc xs i else loc xs (descend ?i (unat ?path) k div 2), loc xs (descend ?i (unat ?path) k))"
    using Suc.IH [of ?i ?path] Suc.prems N by simp
  finally show ?case unfolding N by (cases "k = 0") auto
qed simp

lemma path_traverse:
  assumes "heap_rep h xs" and "1 \<le> unat n" and "unat n div 2 \<le> length xs" and "heap_path 0 0 n = (path, k)"
  shows "heap_traverse h LMin LMin path k = Some (loc xs (unat n div 2), loc xs (unat n))"
proof -
  have N: "descend 1 (unat path) k = unat n"
    using heap_path_descend [OF assms(4,2)] unat_less_power [of n] by simp
  have "loc xs 1 = LMin" by (simp add: loc_def)
  moreover have "k = 0 \<Longrightarrow> unat n = 1" using N by simp
  ultimately show ?thesis using traverse_rep [OF assms(1), of 1 path k LMin] assms(3) N by (simp add: loc_def)
qed

section \<open>Insertion and removal on the array\<close>

definition arr_insert :: "('a \<Rightarrow> 'a \<Rightarrow> bool) \<Rightarrow> 'a list \<Rightarrow> 'a \<Rightarrow> 'a list" where
  "arr_insert lt xs x = sift_up lt (xs @ [x]) (length xs + 1)"

definition arr_remove :: "('a \<Rightarrow> 'a \<Rightarrow> bool) \<Rightarrow> 'a list \<Rightarrow> nat \<Rightarrow> 'a list" where
  "arr_remove lt xs p =
     (if p = length xs then butlast xs
      else case sift_down lt ((butlast xs)[p - 1 := last xs]) p of (ys, j) \<Rightarrow> sift_up lt ys j)"

lemma at_append: "at (xs @ [x]) i = (if i = length xs + 1 then Some x else at xs i)"
  by (auto simp: at_def nth_append)

lemma at_update: "1 \<le> p \<Longrightarrow> p \<le> length xs \<Longrightarrow> at (xs[p - 1 := c]) i = (if i = p then Some c else at xs i)"
  by (auto simp: at_def nth_list_update)

lemma heap_rep_cong:
  assumes "heap_rep h xs" and "hp_min h' = hp_min h" and "hp_nelts h' = hp_nelts h"
    and "\<And>a. a \<in> set xs \<Longrightarrow> hp_nodes h' a = hp_nodes h a"
  shows "heap_rep h' xs"
  using assms by (auto simp: heap_rep_def) (metis at_in)

lemma loc_cases:
  assumes "2 \<le> n" and "at xs (n div 2) = Some q"
  shows "loc xs n = (if even n then LLeft q else LRight q)"
  using assms by (auto simp: loc_def at_def split: if_splits)

lemma heap_rep_link:
  assumes rep: "heap_rep h xs" and x: "x \<notin> set xs" and len: "length xs + 1 < 2 ^ 32"
    and N: "N = length xs + 1"
    and node: "hp_nodes h x = \<lparr>hn_left = None, hn_right = None, hn_parent = at xs (N div 2)\<rparr>"
  shows "heap_rep ((store (loc xs N) (Some x) h)\<lparr>hp_nelts := hp_nelts h + 1\<rparr>) (xs @ [x])"
proof -
  let ?h = "store (loc xs N) (Some x) h"
  note D = heap_repD [OF rep]
  have inj: "at xs j = Some a \<Longrightarrow> at xs k = Some a \<Longrightarrow> j = k" for j k a using at_inj [OF D(1)] by blast
  have n: "unat (hp_nelts h + 1) = length xs + 1" using D(3) len by (simp add: unat_word_ariths)
  have "hp_min ?h = at (xs @ [x]) 1 \<and> (\<forall>i a. at (xs @ [x]) i = Some a \<longrightarrow> hp_nodes ?h a = node_at (xs @ [x]) i)"
  proof (cases "xs = []")
    case True
    then have "loc xs N = LMin" using N by (simp add: loc_def)
    then show ?thesis using True node N by (auto simp: at_def node_at_def split: if_splits)
  next
    case False
    then have "1 \<le> length xs" by (simp add: Suc_le_eq)
    then have N2: "2 \<le> N" "1 \<le> N div 2" "N div 2 \<le> length xs" using N by auto
    then obtain q where q: "at xs (N div 2) = Some q" by (simp add: at_def)
    then have qx: "q \<noteq> x" using x at_in by metis
    have xn: "at xs k \<noteq> Some x" for k using x at_in by metis
    have upper: "at (xs @ [x]) (2 * N) = None" "at (xs @ [x]) (2 * N + 1) = None"
      using N by (simp_all add: at_def)
    moreover have "at (xs @ [x]) (N div 2) = Some q" using q N2(3) by (simp add: at_append)
    note upper = upper this
    note loc = loc_cases [OF N2(1) q]
    have "hp_min ?h = at (xs @ [x]) 1" using D(2) False by (simp add: loc at_append)
    moreover have "hp_nodes ?h a = node_at (xs @ [x]) i" if i: "at (xs @ [x]) i = Some a" for i a
    proof (cases "i = N")
      case True
      then have "a = x" using i N by (simp add: at_append)
      then show ?thesis using True upper qx node q by (simp add: loc node_at_def)
    next
      case False
      then have a: "at xs i = Some a" "a \<noteq> x" using i N xn by (auto simp: at_append)
      have iN: "i \<le> length xs" using at_in [OF a(1)] by simp
      have "a = q \<longleftrightarrow> i = N div 2"
        using inj [OF a(1), of "N div 2"] q a(1) by (metis option.inject)
      moreover have "2 * i = N \<longleftrightarrow> i = N div 2 \<and> even N" "2 * i + 1 = N \<longleftrightarrow> i = N div 2 \<and> odd N" by presburger+
      moreover have "i div 2 \<noteq> N" using iN N by simp
      ultimately show ?thesis
        using D(4) [OF a(1)] D(4) [OF q]
        by (simp add: loc node_at_def at_append N [symmetric] del: One_nat_def)
    qed
    ultimately show ?thesis by blast
  qed
  moreover have "distinct (xs @ [x])" using D(1) x by simp
  ultimately show ?thesis using n by (simp add: heap_rep_def)
qed

lemma heap_insert_rep:
  assumes rep: "heap_rep h xs" and x: "x \<notin> set xs" and len: "length xs + 1 < 2 ^ 32"
  shows "\<exists>h'. heap_insert lt h x = Some h' \<and> heap_rep h' (arr_insert lt xs x)"
proof -
  define h1 where "h1 = upd_node x (\<lambda>n. n\<lparr>hn_left := None, hn_right := None, hn_parent := None\<rparr>) h"
  have r1: "heap_rep h1 xs" by (rule heap_rep_cong [OF rep]) (use x in \<open>auto simp: h1_def\<close>)
  let ?N = "length xs + 1"
  have n: "unat (1 + hp_nelts h1) = ?N" using heap_repD(3) [OF r1] len by (simp add: unat_word_ariths)
  obtain path k where pk: "heap_path 0 0 (1 + hp_nelts h1) = (path, k)" by fastforce
  have t: "heap_traverse h1 LMin LMin path k = Some (loc xs (?N div 2), loc xs ?N)"
    using path_traverse [OF r1 _ _ pk] n by simp
  have par: "load h1 (loc xs (?N div 2)) = at xs (?N div 2)"
  proof (cases "xs = []")
    case True
    then show ?thesis using heap_repD(2) [OF r1] by (simp add: loc_def at_def)
  next
    case False
    then have "1 \<le> length xs" by (simp add: Suc_le_eq)
    then show ?thesis by (intro load_loc [OF r1]) auto
  qed
  define h2 where "h2 = upd_node x (\<lambda>n. n\<lparr>hn_parent := at xs (?N div 2)\<rparr>) h1"
  have r2: "heap_rep h2 xs" by (rule heap_rep_cong [OF r1]) (use x in \<open>auto simp: h2_def\<close>)
  let ?h4 = "(store (loc xs ?N) (Some x) h2)\<lparr>hp_nelts := hp_nelts h2 + 1\<rparr>"
  have "hp_nodes h2 x = \<lparr>hn_left = None, hn_right = None, hn_parent = at xs (?N div 2)\<rparr>"
    by (simp add: h2_def h1_def)
  from heap_rep_link [OF r2 x len refl this] have "heap_rep ?h4 (xs @ [x])" .
  from walk_up_rep [OF this, of ?N x lt] obtain h'
    where h': "heap_walk_up lt ?h4 x = Some h'" "heap_rep h' (arr_insert lt xs x)"
    by (auto simp: at_append arr_insert_def)
  have "hp_nelts (store l p h) = hp_nelts h" for l p h by (cases l) simp_all
  then have "heap_insert lt h x = heap_walk_up lt ?h4 x"
    unfolding heap_insert_def h1_def [symmetric] Let_def pk by (simp add: t par [simplified] h2_def)
  then show ?thesis using h' by auto
qed

lemma heap_rep_unlink:
  assumes rep: "heap_rep h xs" and N: "N = length xs" and "1 \<le> N"
  shows "heap_rep (store (loc xs N) None (h\<lparr>hp_nelts := hp_nelts h - 1\<rparr>)) (butlast xs)"
proof -
  let ?h = "store (loc xs N) None (h\<lparr>hp_nelts := hp_nelts h - 1\<rparr>)"
  note D = heap_repD [OF rep]
  have inj: "at xs j = Some a \<Longrightarrow> at xs k = Some a \<Longrightarrow> j = k" for j k a using at_inj [OF D(1)] by blast
  have "1 \<le> hp_nelts h" using D(3) assms(3) N by (simp add: word_le_nat_alt)
  then have n: "unat (hp_nelts h - 1) = N - 1" using D(3) N by (simp add: unat_sub)
  have at': "at (butlast xs) i = (if i = N then None else at xs i)" for i
    using N by (auto simp: at_def nth_butlast)
  have nelts: "hp_nelts (store l p h) = hp_nelts h" for l p h by (cases l) simp_all
  have "hp_min ?h = at (butlast xs) 1 \<and> (\<forall>i a. at (butlast xs) i = Some a \<longrightarrow> hp_nodes ?h a = node_at (butlast xs) i)"
  proof (cases "N = 1")
    case True
    then have "butlast xs = []" using N by (cases xs) auto
    then show ?thesis using True by (simp add: loc_def at_def)
  next
    case False
    then have N2: "2 \<le> N" "1 \<le> N div 2" "N div 2 \<le> length xs" using N assms(3) by auto
    then obtain q where q: "at xs (N div 2) = Some q" by (simp add: at_def)
    note loc = loc_cases [OF N2(1) q]
    have "hp_min ?h = at (butlast xs) 1" using D(2) False by (simp add: loc at')
    moreover have "hp_nodes ?h a = node_at (butlast xs) i" if i: "at (butlast xs) i = Some a" for i a
    proof -
      from i have a: "at xs i = Some a" "i \<noteq> N" by (auto simp: at' split: if_splits)
      have iN: "i \<le> N" using at_in [OF a(1)] N by simp
      have "a = q \<longleftrightarrow> i = N div 2"
        using inj [OF a(1), of "N div 2"] q a(1) by (metis option.inject)
      moreover have "2 * i = N \<longleftrightarrow> i = N div 2 \<and> even N" "2 * i + 1 = N \<longleftrightarrow> i = N div 2 \<and> odd N" by presburger+
      moreover have "i div 2 \<noteq> N" using iN a(2) by linarith
      ultimately show ?thesis
        using D(4) [OF a(1)] D(4) [OF q]
        by (simp add: loc node_at_def at' del: One_nat_def)
    qed
    ultimately show ?thesis by blast
  qed
  then show ?thesis using n D(1) N by (simp add: heap_rep_def nelts distinct_butlast)
qed

lemma heap_rep_replace:
  assumes rep: "heap_rep h xs" and p: "at xs p = Some nd" and c: "c \<notin> set xs"
  defines "h3 \<equiv> upd_node c (\<lambda>n. n\<lparr>hn_left := hn_left (hp_nodes h nd), hn_right := hn_right (hp_nodes h nd),
      hn_parent := hn_parent (hp_nodes h nd)\<rparr>) h"
  defines "h4 \<equiv> set_parent (hn_left (hp_nodes h3 c)) c h3"
  defines "h5 \<equiv> set_parent (hn_right (hp_nodes h4 c)) c h4"
  shows "heap_rep (replace_child (hn_parent (hp_nodes h5 nd)) nd c h5) (xs[p - 1 := c])"
proof -
  let ?h = "replace_child (at xs (p div 2)) nd c h5"
  define ys where "ys = xs[p - 1 := c]"
  note D = heap_repD [OF rep]
  have inj: "at xs j = Some a \<Longrightarrow> at xs k = Some a \<Longrightarrow> j = k" for j k a using at_inj [OF D(1)] by blast
  have pl: "1 \<le> p" "p \<le> length xs" using at_in [OF p] by auto
  have at': "at ys i = (if i = p then Some c else at xs i)" for i
    unfolding ys_def by (rule at_update [OF pl])
  have cn: "at xs k \<noteq> Some c" for k using c at_in by metis
  have cnd: "c \<noteq> nd" using p cn by blast
  have nd: "hp_nodes h nd = \<lparr>hn_left = at xs (2 * p), hn_right = at xs (2 * p + 1), hn_parent = at xs (p div 2)\<rparr>"
    using D(4) [OF p] by (simp add: node_at_def)
  have c3: "hp_nodes h3 c = \<lparr>hn_left = at xs (2 * p), hn_right = at xs (2 * p + 1), hn_parent = at xs (p div 2)\<rparr>"
    by (simp add: h3_def nd)
  have c4: "hp_nodes h4 c = hp_nodes h3 c" using cn by (simp add: h4_def c3)
  have n5: "hp_nodes h5 a = (if a = c then hp_nodes h3 c else (hp_nodes h a)\<lparr>hn_parent :=
      if at xs (2 * p) = Some a \<or> at xs (2 * p + 1) = Some a then Some c else hn_parent (hp_nodes h a)\<rparr>)" for a
    using cn unfolding h5_def c4 by (auto simp: c3 h4_def) (auto simp: h3_def)
  have ne: "2 * p \<noteq> p" "2 * p + 1 \<noteq> p" "p div 2 \<noteq> p" using pl(1) by auto
  have pos: "at xs k = Some nd \<longleftrightarrow> k = p" for k using p inj by blast
  have nd5: "hn_parent (hp_nodes h5 nd) = at xs (p div 2)"
    using ne cnd by (simp add: n5 pos nd)
  have "hp_nodes ?h a = node_at ys i" if i: "at ys i = Some a" for i a
  proof (cases "i = p")
    case True
    then have "a = c" using i by (simp add: at')
    then show ?thesis using True ne cn by (simp add: n5 c3 node_at_def at')
  next
    case False
    then have a: "at xs i = Some a" "a \<noteq> c" using i cn by (auto simp: at')
    have posa: "at xs k = Some a \<longleftrightarrow> k = i" for k using a inj by blast
    have ha: "hp_nodes h a = node_at xs i" by (rule D(4) [OF a(1)])
    have 1: "at ys (i div 2) = (if 2 * p = i \<or> 2 * p + 1 = i then Some c else at xs (i div 2))"
    proof -
      have "i div 2 = p \<longleftrightarrow> 2 * p = i \<or> 2 * p + 1 = i" by auto
      then show ?thesis by (simp only: at')
    qed
    have 2: "at ys (2 * i) = (if p div 2 = i \<and> 2 * i = p then Some c else at xs (2 * i))"
      "at ys (2 * i + 1) = (if p div 2 = i \<and> 2 * i \<noteq> p then Some c else at xs (2 * i + 1))"
    proof -
      have "2 * i = p \<longleftrightarrow> p div 2 = i \<and> 2 * i = p" "2 * i + 1 = p \<longleftrightarrow> p div 2 = i \<and> 2 * i \<noteq> p"
        by presburger+
      then show "at ys (2 * i) = (if p div 2 = i \<and> 2 * i = p then Some c else at xs (2 * i))"
        "at ys (2 * i + 1) = (if p div 2 = i \<and> 2 * i \<noteq> p then Some c else at xs (2 * i + 1))"
        by (simp_all only: at')
    qed
    show ?thesis
      unfolding node_at_def 1 2 using a(2) by (simp add: n5 posa pos ha node_at_def)
  qed
  moreover have "hp_min ?h = at ys 1"
  proof -
    have "at xs (p div 2) = None \<longleftrightarrow> p div 2 = 0" using pl by (auto simp: at_def)
    then have "at xs (p div 2) = None \<longleftrightarrow> p = 1" using pl(1) by auto
    then show ?thesis using D(2) by (simp add: at' h5_def h4_def h3_def)
  qed
  moreover have "distinct ys" using D(1) c by (simp add: ys_def distinct_list_update)
  ultimately show ?thesis unfolding nd5 using D(3) by (simp add: heap_rep_def h5_def h4_def h3_def ys_def)
qed

lemma heap_remove_rep:
  assumes rep: "heap_rep h xs" and p: "at xs p = Some a"
  shows "\<exists>h'. heap_remove lt h (Some a) = Some h' \<and> heap_rep h' (arr_remove lt xs p)"
proof -
  note D = heap_repD [OF rep]
  let ?N = "length xs"
  have pl: "1 \<le> p" "p \<le> ?N" using at_in [OF p] by auto
  obtain path k where pk: "heap_path 0 0 (hp_nelts h) = (path, k)" by fastforce
  have t: "heap_traverse h LMin LMin path k = Some (loc xs (?N div 2), loc xs ?N)"
    using path_traverse [OF rep _ _ pk] D(3) pl by simp
  have "load (h\<lparr>hp_nelts := n\<rparr>) l = load h l" for n l by (cases l) simp_all
  then have child: "load (h\<lparr>hp_nelts := hp_nelts h - 1\<rparr>) (loc xs ?N) = Some (xs ! (?N - 1))"
    using load_loc [OF rep, of ?N] pl by (simp add: at_def)
  have nz: "hp_nelts h \<noteq> 0" using D(3) pl by (auto simp: unat_eq_0)
  let ?c = "xs ! (?N - 1)"
  define h2 where "h2 = store (loc xs ?N) None (h\<lparr>hp_nelts := hp_nelts h - 1\<rparr>)"
  have r2: "heap_rep h2 (butlast xs)"
    unfolding h2_def using heap_rep_unlink [OF rep refl] pl by simp
  have ca: "?c = a \<longleftrightarrow> p = ?N"
    using p pl D(1) by (auto simp: at_def nth_eq_iff_index_eq)
  have "xs \<noteq> []" using pl by auto
  then have lst: "last xs = ?c" by (simp add: last_conv_nth)
  then have "xs = butlast xs @ [?c]" using \<open>xs \<noteq> []\<close> by (metis append_butlast_last_id)
  then have "distinct (butlast xs @ [?c])" using D(1) by metis
  then have c: "?c \<notin> set (butlast xs)" by simp
  note unfold = heap_remove_def Let_def pk t child h2_def [symmetric] nz
  show ?thesis
  proof (cases "p = ?N")
    case True
    have "hp_min h2 \<noteq> Some ?c"
      using heap_repD(2) [OF r2] c at_in by metis
    then have "heap_remove lt h (Some a) = Some h2"
      using True ca nz by (simp add: unfold)
    then show ?thesis using True r2 by (simp add: arr_remove_def)
  next
    case False
    have len: "length (butlast xs) = ?N - 1" "p \<le> ?N - 1" using False pl by auto
    have nd: "at (butlast xs) p = Some a" using p len pl by (simp add: at_def nth_butlast)
    let ?ys = "(butlast xs)[p - 1 := ?c]"
    define h3 where "h3 = upd_node ?c (\<lambda>n. n\<lparr>hn_left := hn_left (hp_nodes h2 a),
      hn_right := hn_right (hp_nodes h2 a), hn_parent := hn_parent (hp_nodes h2 a)\<rparr>) h2"
    define h4 where "h4 = set_parent (hn_left (hp_nodes h3 ?c)) ?c h3"
    define h5 where "h5 = set_parent (hn_right (hp_nodes h4 ?c)) ?c h4"
    define h6 where "h6 = replace_child (hn_parent (hp_nodes h5 a)) a ?c h5"
    have r6: "heap_rep h6 ?ys"
      using heap_rep_replace [OF r2 nd c] by (simp only: h6_def h5_def h4_def h3_def)
    have atc: "at ?ys p = Some ?c" using at_update [of p "butlast xs"] pl(1) len by simp
    obtain zs j where sd: "sift_down lt ?ys p = (zs, j)" by fastforce
    from walk_down_rep [OF r6 atc sd] obtain h7
      where h7: "heap_walk_down lt h6 ?c = Some h7" "heap_rep h7 zs" "at zs j = Some ?c" by blast
    from walk_up_rep [OF h7(2,3)] obtain h8
      where h8: "heap_walk_up lt h7 ?c = Some h8" "heap_rep h8 (sift_up lt zs j)" by blast
    have "heap_remove lt h (Some a) = Some h8"
      using False ca h7(1) h8(1) nz
      by (simp only: unfold prod.case bind.bind_lunit option.inject if_False simp_thms
          h3_def [symmetric] h4_def [symmetric] h5_def [symmetric] h6_def [symmetric])
    moreover have "arr_remove lt xs p = sift_up lt zs j"
      using False sd lst by (simp add: arr_remove_def)
    ultimately show ?thesis using h8(2) by auto
  qed
qed

end
