(* ===== verification/UvHeapOrder.thy ===== *)
theory UvHeapOrder
  imports UvHeap
begin

text \<open>
  The heap order of libuv's binary heap. On the array view of \<open>UvHeap\<close> the two loops restore the
  order around the node they move, so that the linked structure is a priority queue for every strict
  weak order: the interface \<open>priority_queue\<close>, which the timers rely on, is proved for it here.
\<close>

section \<open>The heap order\<close>

text \<open>What the code relies on in a comparison function: a strict weak order.\<close>

definition arr_heap :: "('a \<Rightarrow> 'a \<Rightarrow> bool) \<Rightarrow> 'a list \<Rightarrow> bool" where
  "arr_heap lt xs \<longleftrightarrow> (\<forall>i. 2 \<le> i \<and> i \<le> length xs \<longrightarrow> \<not> lt (xs ! (i - 1)) (xs ! (i div 2 - 1)))"

text \<open>
  The order holds on every edge except the one above \<open>q\<close> (\<open>heap_but_up\<close>), or except the edges around
  \<open>q\<close> (\<open>heap_but\<close>); in both the children of \<open>q\<close> are not below the parent of \<open>q\<close>.
\<close>

definition heap_but_up :: "('a \<Rightarrow> 'a \<Rightarrow> bool) \<Rightarrow> 'a list \<Rightarrow> nat \<Rightarrow> bool" where
  "heap_but_up lt xs q \<longleftrightarrow>
     (\<forall>i. 2 \<le> i \<and> i \<le> length xs \<and> i \<noteq> q \<longrightarrow> \<not> lt (xs ! (i - 1)) (xs ! (i div 2 - 1))) \<and>
     (\<forall>i. i \<le> length xs \<and> i div 2 = q \<and> 2 \<le> q \<longrightarrow> \<not> lt (xs ! (i - 1)) (xs ! (q div 2 - 1)))"

definition heap_but :: "('a \<Rightarrow> 'a \<Rightarrow> bool) \<Rightarrow> 'a list \<Rightarrow> nat \<Rightarrow> bool" where
  "heap_but lt xs q \<longleftrightarrow>
     (\<forall>i. 2 \<le> i \<and> i \<le> length xs \<and> i \<noteq> q \<and> i div 2 \<noteq> q \<longrightarrow>
        \<not> lt (xs ! (i - 1)) (xs ! (i div 2 - 1))) \<and>
     (\<forall>i. i \<le> length xs \<and> i div 2 = q \<and> 2 \<le> q \<longrightarrow> \<not> lt (xs ! (i - 1)) (xs ! (q div 2 - 1)))"

lemma nth_swap_at:
  assumes "1 \<le> i" "i \<le> length xs" "1 \<le> j" "j \<le> length xs" "1 \<le> k" "k \<le> length xs"
  shows "swap_at xs i j ! (k - 1) =
    (if k = i then xs ! (j - 1) else if k = j then xs ! (i - 1) else xs ! (k - 1))"
  using assms by (auto simp: swap_at_def nth_list_update)

lemma sift_up_mset: "mset (sift_up lt xs i) = mset xs"
proof (induction lt xs i rule: sift_up.induct)
  case (1 lt xs i)
  show ?case
  proof (cases "2 \<le> i \<and> i \<le> length xs \<and> lt (xs ! (i - 1)) (xs ! (i div 2 - 1))")
    case True
    then have "1 \<le> i div 2" "i div 2 \<le> length xs" by auto
    then have "mset (swap_at xs (i div 2) i) = mset xs" using True by (intro mset_swap_at) auto
    then show ?thesis using 1 [OF True] True by (simp add: sift_up.simps [of lt xs i])
  qed (auto simp: sift_up.simps [of lt xs i])
qed

lemma sift_down_mset:
  "1 \<le> i \<Longrightarrow> i \<le> length xs \<Longrightarrow> sift_down lt xs i = (ys, q) \<Longrightarrow>
    mset ys = mset xs \<and> 1 \<le> q \<and> q \<le> length ys"
proof (induction lt xs i rule: sift_down.induct)
  case (1 lt xs i)
  let ?s = "smallest_child lt xs i"
  show ?case
  proof (cases "?s = i")
    case True
    then show ?thesis using 1(2-4) by (auto simp: sift_down.simps [of lt xs i])
  next
    case False
    then have s: "1 \<le> ?s" "?s \<le> length xs" using smallest_child_cases [of lt xs i] 1(2) by auto
    have "mset (swap_at xs i ?s) = mset xs" using 1(2,3) s by (intro mset_swap_at)
    moreover have "sift_down lt (swap_at xs i ?s) ?s = (ys, q)"
      using 1(4) False 1(2) by (simp add: sift_down.simps [of lt xs i] Let_def)
    ultimately show ?thesis using 1(1) [OF refl _ s(1)] False s(2) 1(2) by simp
  qed
qed

locale weak_order =
  fixes lt :: "'a \<Rightarrow> 'a \<Rightarrow> bool"
  assumes asym: "lt x y \<Longrightarrow> \<not> lt y x" and neg_trans: "\<not> lt y x \<Longrightarrow> \<not> lt z y \<Longrightarrow> \<not> lt z x"
begin

lemma less_neg: "lt x y \<Longrightarrow> \<not> lt z y \<Longrightarrow> \<not> lt z x"
  using asym neg_trans by blast

lemma sift_up_heap:
  "1 \<le> q \<Longrightarrow> q \<le> length xs \<Longrightarrow> heap_but_up lt xs q \<Longrightarrow> arr_heap lt (sift_up lt xs q)"
proof (induction q arbitrary: xs rule: less_induct)
  case (less q)
  show ?case
  proof (cases "2 \<le> q \<and> lt (xs ! (q - 1)) (xs ! (q div 2 - 1))")
    case False
    then have "sift_up lt xs q = xs" by (auto simp: sift_up.simps [of lt xs q])
    moreover have "\<not> lt (xs ! (i - 1)) (xs ! (i div 2 - 1))" if "2 \<le> i" "i \<le> length xs" for i
      using less.prems(3) False that by (cases "i = q") (auto simp: heap_but_up_def)
    ultimately show ?thesis by (simp add: arr_heap_def)
  next
    case True
    define p where "p = q div 2"
    have p: "1 \<le> p" "p \<le> length xs" "p < q" using True less.prems(2) by (auto simp: p_def)
    have lt: "lt (xs ! (q - 1)) (xs ! (p - 1))" using True by (simp add: p_def)
    note nth = nth_swap_at [OF p(1,2) less.prems(1,2)]
    have edge: "\<not> lt (xs ! (i - 1)) (xs ! (i div 2 - 1))" if "2 \<le> i" "i \<le> length xs" "i \<noteq> q" for i
      using less.prems(3) that by (simp add: heap_but_up_def)
    have grand: "\<not> lt (xs ! (i - 1)) (xs ! (p - 1))" if "i \<le> length xs" "i div 2 = q" for i
      using less.prems(3) that True by (simp add: heap_but_up_def p_def)
    have "heap_but_up lt (swap_at xs p q) p"
      unfolding heap_but_up_def
    proof (intro conjI allI impI)
      fix i assume i: "2 \<le> i \<and> i \<le> length (swap_at xs p q) \<and> i \<noteq> p"
      then have i2: "1 \<le> i div 2" "i div 2 \<le> length xs" "1 \<le> i" "i \<le> length xs" by auto
      have ii: "i div 2 \<noteq> i" using i by auto
      consider "i = q" | "i div 2 = q" | "i div 2 = p" "i \<noteq> q" | "i \<noteq> q" "i div 2 \<noteq> q" "i div 2 \<noteq> p" by blast
      then show "\<not> lt (swap_at xs p q ! (i - 1)) (swap_at xs p q ! (i div 2 - 1))"
      proof cases
        case 1
        then have "i div 2 = p" "i \<noteq> p" using p by (auto simp: p_def)
        then show ?thesis using 1 asym [OF lt] nth [OF i2(3,4)] nth [OF i2(1,2)] by simp
      next
        case 2
        then have "i \<noteq> q" "q \<noteq> p" using ii p by auto
        then show ?thesis using 2 i grand [of i] nth [OF i2(3,4)] nth [OF i2(1,2)] by simp
      next
        case 3
        then have "\<not> lt (xs ! (i - 1)) (xs ! (p - 1))" using edge [of i] i by simp
        with less_neg [OF lt] have "\<not> lt (xs ! (i - 1)) (xs ! (q - 1))" .
        then show ?thesis using 3 i nth [OF i2(3,4)] nth [OF i2(1,2)] by simp
      next
        case 4
        then show ?thesis using i edge [of i] nth [OF i2(3,4)] nth [OF i2(1,2)] by simp
      qed
    next
      fix i assume i: "i \<le> length (swap_at xs p q) \<and> i div 2 = p \<and> 2 \<le> p"
      then have i2: "1 \<le> i" "i \<le> length xs" "i \<noteq> p" "2 \<le> i" by auto
      have pp: "1 \<le> p div 2" "p div 2 \<le> length xs" "p div 2 \<noteq> p" "p div 2 \<noteq> q" using i p by auto
      have ppe: "\<not> lt (xs ! (p - 1)) (xs ! (p div 2 - 1))" using edge [of p] i p by simp
      have "i \<noteq> q \<Longrightarrow> \<not> lt (xs ! (i - 1)) (xs ! (p div 2 - 1))"
        using edge [of i] i i2 neg_trans [OF ppe] by simp
      then show "\<not> lt (swap_at xs p q ! (i - 1)) (swap_at xs p q ! (p div 2 - 1))"
        using ppe i2 pp nth [OF i2(1,2)] nth [OF pp(1,2)] by simp
    qed
    then have "arr_heap lt (sift_up lt (swap_at xs p q) p)"
      using less.IH [OF p(3)] p by simp
    then show ?thesis using True less.prems by (simp add: sift_up.simps [of lt xs q] p_def)
  qed
qed

lemma trans: "lt x y \<Longrightarrow> lt y z \<Longrightarrow> lt x z"
  using asym neg_trans by blast

lemma smallest_child_least:
  fixes xs q defines "s \<equiv> smallest_child lt xs q"
  assumes "c div 2 = q" "1 \<le> q" "c \<le> length xs"
  shows "\<not> lt (xs ! (c - 1)) (xs ! (s - 1))" and "s \<noteq> q \<Longrightarrow> lt (xs ! (s - 1)) (xs ! (q - 1))"
proof -
  have c: "c = 2 * q \<or> c = 2 * q + 1" using assms(2) by presburger
  have irr: "\<not> lt x x" for x using asym by blast
  have l: "lt (xs ! (2 * q)) (xs ! (2 * q - 1)) \<Longrightarrow> \<not> lt (xs ! (2 * q - 1)) (xs ! (2 * q))" by (rule asym)
  have t: "lt (xs ! (2 * q)) (xs ! (q - 1)) \<Longrightarrow> \<not> lt (xs ! (2 * q - 1)) (xs ! (q - 1)) \<Longrightarrow>
      \<not> lt (xs ! (2 * q - 1)) (xs ! (2 * q))" by (rule less_neg)
  show "\<not> lt (xs ! (c - 1)) (xs ! (s - 1))"
    using c assms(3,4) irr l t
    by (auto simp: s_def smallest_child_def Let_def)
  show "lt (xs ! (s - 1)) (xs ! (q - 1))" if "s \<noteq> q"
    using that trans [of "xs ! (2 * q)" "xs ! (2 * q - 1)" "xs ! (q - 1)"]
    by (auto simp: s_def smallest_child_def Let_def split: if_splits)
qed

lemma sift_down_heap:
  assumes "1 \<le> q" "q \<le> length xs" "heap_but lt xs q" "sift_down lt xs q = (ys, r)"
  shows "heap_but_up lt ys r"
  using assms
proof (induction "length xs - q" arbitrary: xs q rule: less_induct)
  case less
  define s where "s = smallest_child lt xs q"
  note W = less.prems(3) [unfolded heap_but_def]
  have least: "\<not> lt (xs ! (c - 1)) (xs ! (s - 1))" if "c div 2 = q" "c \<le> length xs" for c
    using smallest_child_least(1) [OF that(1) less.prems(1) that(2)] by (simp add: s_def)
  show ?case
  proof (cases "s = q")
    case True
    then have "ys = xs" "r = q" using less.prems(4) by (simp_all add: sift_down.simps [of lt xs q] s_def)
    then show ?thesis using W least True unfolding heap_but_up_def by auto
  next
    case False
    then have s: "s div 2 = q" "s \<le> length xs" "q < s" "1 \<le> s" "2 \<le> s"
      using smallest_child_cases [of lt xs q] less.prems(1) by (auto simp: s_def)
    note nth = nth_swap_at [OF less.prems(1,2) s(4,2)]
    have "heap_but lt (swap_at xs q s) s"
      unfolding heap_but_def
    proof (intro conjI allI impI)
      fix i assume i: "2 \<le> i \<and> i \<le> length (swap_at xs q s) \<and> i \<noteq> s \<and> i div 2 \<noteq> s"
      then have i2: "1 \<le> i div 2" "i div 2 \<le> length xs" "1 \<le> i" "i \<le> length xs" "i div 2 \<noteq> i" by auto
      consider "i = q" | "i div 2 = q" "i \<noteq> q" | "i \<noteq> q" "i div 2 \<noteq> q" by blast
      then show "\<not> lt (swap_at xs q s ! (i - 1)) (swap_at xs q s ! (i div 2 - 1))"
      proof cases
        case 1
        then have "\<not> lt (xs ! (s - 1)) (xs ! (q div 2 - 1))" using W s i by simp
        then show ?thesis using 1 i i2 nth [OF i2(3,4)] nth [OF i2(1,2)] by simp
      next
        case 2
        then show ?thesis using i least [of i] nth [OF i2(3,4)] nth [OF i2(1,2)] by simp
      next
        case 3
        then show ?thesis using W i nth [OF i2(3,4)] nth [OF i2(1,2)] by simp
      qed
    next
      fix i assume i: "i \<le> length (swap_at xs q s) \<and> i div 2 = s \<and> 2 \<le> s"
      then have i2: "1 \<le> i" "i \<le> length xs" "i \<noteq> q" "i \<noteq> s" "2 \<le> i" using s by auto
      have "i div 2 \<noteq> q" using i s(3) by simp
      then have "\<not> lt (xs ! (i - 1)) (xs ! (i div 2 - 1))"
        using W [THEN conjunct1, rule_format, of i] i2 by simp
      then have "\<not> lt (xs ! (i - 1)) (xs ! (s - 1))" using i by simp
      then show "\<not> lt (swap_at xs q s ! (i - 1)) (swap_at xs q s ! (s div 2 - 1))"
        using i2 s nth [OF i2(1,2)] nth [OF less.prems(1,2)] by simp
    qed
    moreover have "sift_down lt (swap_at xs q s) s = (ys, r)"
      using less.prems(1,4) False by (simp add: sift_down.simps [of lt xs q] s_def Let_def)
    ultimately show ?thesis using less.hyps [of "swap_at xs q s" s] s by simp
  qed
qed

lemma arr_insert_heap: "arr_heap lt xs \<Longrightarrow> arr_heap lt (arr_insert lt xs x)"
  unfolding arr_insert_def
proof (rule sift_up_heap)
  assume h: "arr_heap lt xs"
  show "heap_but_up lt (xs @ [x]) (length xs + 1)"
    unfolding heap_but_up_def
  proof (intro conjI allI impI)
    fix i assume "2 \<le> i \<and> i \<le> length (xs @ [x]) \<and> i \<noteq> length xs + 1"
    then have "2 \<le> i" "i - 1 < length xs" "i div 2 - 1 < length xs" by auto
    then show "\<not> lt ((xs @ [x]) ! (i - 1)) ((xs @ [x]) ! (i div 2 - 1))"
      using h by (simp add: nth_append arr_heap_def)
  qed auto
qed simp_all

lemma arr_remove_heap:
  assumes h: "arr_heap lt xs" and p: "1 \<le> p" "p \<le> length xs"
  shows "arr_heap lt (arr_remove lt xs p)"
proof -
  have h': "\<not> lt (xs ! (i - 1)) (xs ! (i div 2 - 1))" if "2 \<le> i" "i \<le> length xs" for i
    using h that by (simp add: arr_heap_def)
  have b: "arr_heap lt (butlast xs)"
    unfolding arr_heap_def
  proof (intro allI impI)
    fix i assume i: "2 \<le> i \<and> i \<le> length (butlast xs)"
    then have "i - 1 < length (butlast xs)" "i div 2 - 1 < length (butlast xs)" "i \<le> length xs" by auto
    then show "\<not> lt (butlast xs ! (i - 1)) (butlast xs ! (i div 2 - 1))"
      using h' [of i] i by (simp add: nth_butlast del: length_butlast)
  qed
  show ?thesis
  proof (cases "p = length xs")
    case True
    then show ?thesis using b by (simp add: arr_remove_def)
  next
    case False
    let ?ys = "(butlast xs)[p - 1 := last xs]"
    have p': "p \<le> length ?ys" using p False by simp
    have nth: "?ys ! (k - 1) = (if k = p then last xs else butlast xs ! (k - 1))" if "1 \<le> k" "k \<le> length ?ys" for k
      using that p(1) by (auto simp: nth_list_update)
    have e: "\<not> lt (butlast xs ! (i - 1)) (butlast xs ! (i div 2 - 1))" if "2 \<le> i" "i \<le> length ?ys" for i
      using b that by (simp add: arr_heap_def)
    have "heap_but lt ?ys p"
      unfolding heap_but_def
    proof (intro conjI allI impI)
      fix i assume i: "2 \<le> i \<and> i \<le> length ?ys \<and> i \<noteq> p \<and> i div 2 \<noteq> p"
      then have "1 \<le> i" "i \<le> length ?ys" "1 \<le> i div 2" "i div 2 \<le> length ?ys" by auto
      from nth [OF this(1,2)] nth [OF this(3,4)] show "\<not> lt (?ys ! (i - 1)) (?ys ! (i div 2 - 1))"
        using i e [of i] by simp
    next
      fix i assume i: "i \<le> length ?ys \<and> i div 2 = p \<and> 2 \<le> p"
      then have i2: "1 \<le> i" "2 \<le> i" "i \<le> length ?ys" "1 \<le> p div 2" "p div 2 \<le> length ?ys" "i \<noteq> p" "p div 2 \<noteq> p"
        using p' by auto
      have "\<not> lt (butlast xs ! (i - 1)) (butlast xs ! (p div 2 - 1))"
        using e [OF i2(2,3)] e [of p] i p' neg_trans by auto
      then show "\<not> lt (?ys ! (i - 1)) (?ys ! (p div 2 - 1))"
        using nth [OF i2(1,3)] nth [OF i2(4,5)] i2(6,7) by simp
    qed
    moreover obtain zs q where sd: "sift_down lt ?ys p = (zs, q)" by fastforce
    ultimately have "heap_but_up lt zs q" "1 \<le> q" "q \<le> length zs"
      using sift_down_heap [OF p(1) p' _ sd] sift_down_mset [OF p(1) p' sd] by auto
    then show ?thesis using False sd sift_up_heap by (simp add: arr_remove_def)
  qed
qed

lemma arr_heap_least:
  assumes "arr_heap lt xs" "1 \<le> i" "i \<le> length xs"
  shows "\<not> lt (xs ! (i - 1)) (xs ! 0)"
  using assms(2,3)
proof (induction i rule: less_induct)
  case (less i)
  show ?case
  proof (cases "i = 1")
    case True
    then show ?thesis using asym by auto
  next
    case False
    then have "\<not> lt (xs ! (i - 1)) (xs ! (i div 2 - 1))" "\<not> lt (xs ! (i div 2 - 1)) (xs ! 0)"
      using less assms(1) by (auto simp: arr_heap_def)
    then show ?thesis using neg_trans by blast
  qed
qed

end

lemma arr_insert_mset: "mset (arr_insert lt xs x) = add_mset x (mset xs)"
  by (simp add: arr_insert_def sift_up_mset)

lemma arr_remove_mset:
  assumes p: "1 \<le> p" "p \<le> length xs"
  shows "mset (arr_remove lt xs p) = mset xs - {#xs ! (p - 1)#}"
proof -
  have ne: "xs \<noteq> []" using p by auto
  have m: "mset xs = add_mset (last xs) (mset (butlast xs))"
    using ne by (metis append_butlast_last_id add_mset_add_single mset_append mset.simps)
  show ?thesis
  proof (cases "p = length xs")
    case True
    then show ?thesis using m ne by (simp add: arr_remove_def last_conv_nth)
  next
    case False
    let ?ys = "(butlast xs)[p - 1 := last xs]"
    have p': "p \<le> length ?ys" "p - 1 < length (butlast xs)" using p False by auto
    obtain zs q where sd: "sift_down lt ?ys p = (zs, q)" by fastforce
    then have "mset (arr_remove lt xs p) = mset ?ys"
      using False sift_down_mset [OF p(1) p'(1) sd] by (simp add: arr_remove_def sift_up_mset)
    also have "\<dots> = add_mset (last xs) (mset (butlast xs) - {#xs ! (p - 1)#})"
      using p'(2) by (simp add: mset_update nth_butlast)
    also have "\<dots> = mset xs - {#xs ! (p - 1)#}"
      using p'(2) nth_mem [OF p'(2)] by (simp add: m nth_butlast)
    finally show ?thesis .
  qed
qed

section \<open>The heap as a priority queue\<close>

text \<open>
  The contract of a priority queue with removal of arbitrary elements; \<open>holds q A\<close> says that the queue
  \<open>q\<close> is sound and contains exactly the elements of \<open>A\<close>.
\<close>

fun pq_drain :: "('q \<Rightarrow> 'a option) \<Rightarrow> ('q \<Rightarrow> 'q option) \<Rightarrow> nat \<Rightarrow> 'q \<Rightarrow> 'a list option" where
  "pq_drain mn deq 0 q = Some []"
| "pq_drain mn deq (Suc n) q =
     (case mn q of
        None \<Rightarrow> Some []
      | Some x \<Rightarrow> (case deq q of
                    None \<Rightarrow> None
                  | Some q' \<Rightarrow> map_option ((#) x) (pq_drain mn deq n q')))"

locale priority_queue = weak_order lt for lt :: "'a \<Rightarrow> 'a \<Rightarrow> bool" +
  fixes holds :: "'q \<Rightarrow> 'a set \<Rightarrow> bool" and mn :: "'q \<Rightarrow> 'a option"
    and ins :: "'q \<Rightarrow> 'a \<Rightarrow> 'q option" and rem :: "'q \<Rightarrow> 'a option \<Rightarrow> 'q option"
    and deq :: "'q \<Rightarrow> 'q option" and bound :: nat
  assumes finite: "holds q A \<Longrightarrow> finite A"
    and min_None: "holds q A \<Longrightarrow> mn q = None \<longleftrightarrow> A = {}"
    and min_Some: "holds q A \<Longrightarrow> mn q = Some x \<Longrightarrow> x \<in> A \<and> (\<forall>y \<in> A. \<not> lt y x)"
    and ins: "holds q A \<Longrightarrow> x \<notin> A \<Longrightarrow> card A + 1 < bound \<Longrightarrow> \<exists>q'. ins q x = Some q' \<and> holds q' (insert x A)"
    and rem: "holds q A \<Longrightarrow> x \<in> A \<Longrightarrow> \<exists>q'. rem q (Some x) = Some q' \<and> holds q' (A - {x})"
    and deq: "holds q A \<Longrightarrow> mn q = Some x \<Longrightarrow> \<exists>q'. deq q = Some q' \<and> holds q' (A - {x})"
begin

lemma min_exists: "holds q A \<Longrightarrow> A \<noteq> {} \<Longrightarrow> \<exists>x. mn q = Some x \<and> x \<in> A \<and> (\<forall>y \<in> A. \<not> lt y x)"
  using min_None min_Some by fastforce

lemma drain_sorted:
  assumes "holds q A" and "card A \<le> n"
  shows "\<exists>xs. pq_drain mn deq n q = Some xs \<and> set xs = A \<and> distinct xs \<and> sorted_wrt (\<lambda>x y. \<not> lt y x) xs"
  using assms
proof (induction n arbitrary: q A)
  case 0
  then show ?case using finite by auto
next
  case (Suc n)
  show ?case
  proof (cases "A = {}")
    case True
    then have "mn q = None" using min_None Suc.prems(1) by simp
    then show ?thesis using True by simp
  next
    case False
    then obtain x where x: "mn q = Some x" "x \<in> A" "\<forall>y \<in> A. \<not> lt y x" using min_exists Suc.prems(1) by blast
    then obtain q' where q': "deq q = Some q'" "holds q' (A - {x})" using deq Suc.prems(1) by blast
    have "card (A - {x}) \<le> n" using Suc.prems(2) x(2) finite [OF Suc.prems(1)] by simp
    from Suc.IH [OF q'(2) this] obtain xs where xs: "pq_drain mn deq n q' = Some xs" "set xs = A - {x}"
      "distinct xs" "sorted_wrt (\<lambda>x y. \<not> lt y x) xs" by blast
    then show ?thesis using x q' by (intro exI [of _ "x # xs"]) auto
  qed
qed

end

definition heap_holds :: "(addr \<Rightarrow> addr \<Rightarrow> bool) \<Rightarrow> heap \<Rightarrow> addr set \<Rightarrow> bool" where
  "heap_holds lt h A \<longleftrightarrow> (\<exists>xs. heap_rep h xs \<and> arr_heap lt xs \<and> set xs = A)"

lemma heap_holds_insert:
  assumes "weak_order lt" and "heap_holds lt h A" and "x \<notin> A" and "card A + 1 < 2 ^ 32"
  shows "\<exists>h'. heap_insert lt h x = Some h' \<and> heap_holds lt h' (insert x A)"
proof -
  from assms(2) obtain xs where xs: "heap_rep h xs" "arr_heap lt xs" "set xs = A" by (auto simp: heap_holds_def)
  then have "length xs + 1 < 2 ^ 32" using assms(4) heap_repD(1) [OF xs(1)] distinct_card by fastforce
  from heap_insert_rep [OF xs(1) _ this, of x lt] assms(3) xs(3) obtain h'
    where h': "heap_insert lt h x = Some h'" "heap_rep h' (arr_insert lt xs x)" by auto
  moreover have "set (arr_insert lt xs x) = insert x A"
    using arr_insert_mset [of lt xs x] xs(3) by (metis mset_eq_setD list.set(2) mset.simps(2))
  ultimately show ?thesis
    using weak_order.arr_insert_heap [OF assms(1) xs(2)] by (auto simp: heap_holds_def)
qed

lemma heap_holds_remove:
  assumes "weak_order lt" and "heap_holds lt h A" and "x \<in> A"
  shows "\<exists>h'. heap_remove lt h (Some x) = Some h' \<and> heap_holds lt h' (A - {x})"
proof -
  from assms(2) obtain xs where xs: "heap_rep h xs" "arr_heap lt xs" "set xs = A" by (auto simp: heap_holds_def)
  from assms(3) xs(3) obtain i where i: "i < length xs" "xs ! i = x" by (auto simp: in_set_conv_nth)
  then have p: "1 \<le> i + 1" "i + 1 \<le> length xs" "at xs (i + 1) = Some x" by (auto simp: at_def)
  from heap_remove_rep [OF xs(1) p(3), of lt] obtain h'
    where h': "heap_remove lt h (Some x) = Some h'" "heap_rep h' (arr_remove lt xs (i + 1))" by blast
  have m: "mset (arr_remove lt xs (i + 1)) = mset xs - {#x#}"
    using arr_remove_mset [OF p(1,2)] i(2) by simp
  then have "set (arr_remove lt xs (i + 1)) = set (remove1 x xs)"
    by (metis mset_eq_setD mset_remove1)
  also have "\<dots> = A - {x}" using heap_repD(1) [OF xs(1)] xs(3) by simp
  finally show ?thesis
    using h' weak_order.arr_remove_heap [OF assms(1) xs(2) p(1,2)] by (auto simp: heap_holds_def)
qed

lemma uv_priority_queue:
  assumes "weak_order lt"
  shows "priority_queue lt (heap_holds lt) heap_min (heap_insert lt) (heap_remove lt) (heap_dequeue lt) (2 ^ 32)"
proof (intro priority_queue.intro assms priority_queue_axioms.intro)
  fix q A x
  assume q: "heap_holds lt q A"
  then obtain xs where xs: "heap_rep q xs" "arr_heap lt xs" "set xs = A" by (auto simp: heap_holds_def)
  have mn: "heap_min q = at xs 1" by (simp add: heap_min_def heap_repD(2) [OF xs(1)])
  show "finite A" using xs(3) by auto
  show "heap_min q = None \<longleftrightarrow> A = {}" using mn xs(3) by (auto simp: at_def Suc_le_eq)
  show least: "x \<in> A \<and> (\<forall>y \<in> A. \<not> lt y x)" if "heap_min q = Some x"
  proof -
    have x: "x = xs ! 0" "xs \<noteq> []" using mn that by (auto simp: at_def split: if_splits)
    have "\<not> lt (xs ! i) (xs ! 0)" if "i < length xs" for i
      using weak_order.arr_heap_least [OF assms xs(2), of "i + 1"] that by simp
    moreover have "x \<in> A" using x xs(3) by auto
    ultimately show ?thesis using x(1) xs(3) by (auto simp: in_set_conv_nth)
  qed
  show "\<exists>q'. heap_insert lt q x = Some q' \<and> heap_holds lt q' (insert x A)" if "x \<notin> A" "card A + 1 < 2 ^ 32"
    by (rule heap_holds_insert [OF assms q that])
  show "\<exists>q'. heap_remove lt q (Some x) = Some q' \<and> heap_holds lt q' (A - {x})" if "x \<in> A"
    by (rule heap_holds_remove [OF assms q that])
  show "\<exists>q'. heap_dequeue lt q = Some q' \<and> heap_holds lt q' (A - {x})" if x: "heap_min q = Some x"
    using heap_holds_remove [OF assms q] least [OF x] x by (simp add: heap_dequeue_def heap_min_def)
qed

text \<open>The order on addresses themselves, as a concrete instance.\<close>

lemma addr_order: "weak_order ((<) :: addr \<Rightarrow> addr \<Rightarrow> bool)"
  by unfold_locales linarith+

interpretation addr_heap: priority_queue "(<) :: addr \<Rightarrow> addr \<Rightarrow> bool" "heap_holds (<)" heap_min
  "heap_insert (<)" "heap_remove (<)" "heap_dequeue (<)" "2 ^ 32"
  by (rule uv_priority_queue [OF addr_order])

lemma heap_holds_init: "heap_holds lt (heap_init h) {}"
  by (auto simp: heap_holds_def heap_init_def heap_rep_def arr_heap_def at_def)

text \<open>
  C18. Insertion and removal keep the intrusive heap sound: for every strict weak order, from a heap
  that holds exactly the nodes \<open>A\<close>, linked as a complete binary tree in heap order, inserting a new
  node and removing any present one follow no null pointer, terminate, and leave such a heap with
  that node added or removed. (The 32-bit element count bounds the size.)
\<close>

theorem heap_insert_remove:
  assumes "weak_order lt" and "heap_holds lt h A"
  shows "(x \<notin> A \<and> card A + 1 < 2 ^ 32 \<longrightarrow> (\<exists>h'. heap_insert lt h x = Some h' \<and> heap_holds lt h' (insert x A))) \<and>
    (x \<in> A \<longrightarrow> (\<exists>h'. heap_remove lt h (Some x) = Some h' \<and> heap_holds lt h' (A - {x})))"
  using heap_holds_insert [OF assms] heap_holds_remove [OF assms] by blast

definition heap_zero :: heap where
  "heap_zero = \<lparr>hp_min = None, hp_nelts = 0,
     hp_nodes = \<lambda>a. \<lparr>hn_left = None, hn_right = None, hn_parent = None\<rparr>\<rparr>"

theorem heap_insert_remove_witness:
  "\<exists>h1 h2 h3. heap_insert (<) (heap_init heap_zero) 7 = Some h1 \<and> heap_insert (<) h1 3 = Some h2 \<and>
     heap_remove (<) h2 (Some 7) = Some h3 \<and> heap_holds (<) h3 {3}"
proof -
  note step = heap_insert_remove [OF addr_order]
  from step [OF heap_holds_init, of 7 heap_zero] obtain h1
    where h1: "heap_insert (<) (heap_init heap_zero) 7 = Some h1" "heap_holds (<) h1 {7}" by auto
  from step [OF h1(2), of 3] obtain h2
    where h2: "heap_insert (<) h1 3 = Some h2" "heap_holds (<) h2 {3, 7}" by auto
  have "{3, 7} - {7 :: addr} = {3}" by auto
  with step [OF h2(2), of 7] obtain h3
    where "heap_remove (<) h2 (Some 7) = Some h3" "heap_holds (<) h3 {3}" by auto
  with h1 h2 show ?thesis by blast
qed

text \<open>
  C19. Dequeuing until the heap is empty yields every node once, in order: as many calls of
  \<open>heap_dequeue\<close> as there are nodes, with \<open>heap_min\<close> read before each, return the nodes of the heap,
  none twice, none after one that is less, and leave the heap sound after each. This is what
  makes the timer queue fire timers in order of their deadlines.
\<close>

theorem heap_drain_sorted:
  assumes "weak_order lt" and "heap_holds lt h A"
  shows "(\<exists>xs. pq_drain heap_min (heap_dequeue lt) (card A) h = Some xs \<and> set xs = A \<and> distinct xs \<and>
      sorted_wrt (\<lambda>x y. \<not> lt y x) xs) \<and>
    (A \<noteq> {} \<longrightarrow> (\<exists>x h'. heap_min h = Some x \<and> x \<in> A \<and> heap_dequeue lt h = Some h' \<and> heap_holds lt h' (A - {x})))"
proof -
  note pq = uv_priority_queue [OF assms(1)]
  show ?thesis
    using priority_queue.drain_sorted [OF pq assms(2)] priority_queue.min_exists [OF pq assms(2)]
      priority_queue.deq [OF pq assms(2)] by blast
qed

text \<open>Three nodes, inserted out of order.\<close>

theorem heap_drain_sorted_witness:
  "\<exists>h1 h2 h3. heap_insert (<) (heap_init heap_zero) 7 = Some h1 \<and> heap_insert (<) h1 3 = Some h2 \<and>
     heap_insert (<) h2 5 = Some h3 \<and> pq_drain heap_min (heap_dequeue (<)) 3 h3 = Some [3, 5, 7]"
proof -
  from addr_heap.ins [OF heap_holds_init, of 7 heap_zero] obtain h1
    where h1: "heap_insert (<) (heap_init heap_zero) 7 = Some h1" "heap_holds (<) h1 {7}" by auto
  from addr_heap.ins [OF h1(2), of 3] obtain h2
    where h2: "heap_insert (<) h1 3 = Some h2" "heap_holds (<) h2 {3, 7}" by auto
  from addr_heap.ins [OF h2(2), of 5] obtain h3
    where h3: "heap_insert (<) h2 5 = Some h3" "heap_holds (<) h3 {5, 3, 7}" by auto
  have card: "card {5, 3, 7 :: addr} = 3" by simp
  from heap_drain_sorted [OF addr_order h3(2), unfolded card] obtain xs
    where xs: "pq_drain heap_min (heap_dequeue (<)) 3 h3 = Some xs" "set xs = {5, 3, 7}" "distinct xs"
      "sorted_wrt (\<lambda>x y. \<not> y < x) xs" by blast
  have "xs = [3, 5, 7]"
    by (rule sorted_distinct_set_unique) (use xs(2-4) in \<open>auto simp: not_less\<close>)
  with h1 h2 h3 xs(1) show ?thesis by blast
qed

end
