(* ===== verification/UvTimer.thy ===== *)
theory UvTimer
  imports UvHeapOrder
begin

text \<open>
  The timers of libuv (\<^verbatim>\<open>src/timer.c\<close>), with the handle macros of \<^verbatim>\<open>src/uv-common.h\<close> they use. A
  timer handle is named by the address of its heap node; the loop keeps the handles, the heap of the
  active ones, the clock, and the counter of active handles. Callbacks are a parameter: they act on
  the loop and on a state of their own.
\<close>

section \<open>State\<close>

record uv_timer =
  tm_cb :: "nat option"
  tm_timeout :: u64
  tm_repeat :: u64
  tm_start_id :: u64
  tm_active :: bool
  tm_ref :: bool
  tm_closing :: bool
  tm_closed :: bool

record uv_loop =
  lp_time :: u64
  lp_timer_counter :: u64
  lp_active_handles :: u32
  lp_handle_queue :: "addr list"
  lp_timer_heap :: heap
  lp_timers :: "addr \<Rightarrow> uv_timer"

abbreviation (input) UV_EINVAL :: int where
  "UV_EINVAL \<equiv> - 22"

definition upd_timer :: "addr \<Rightarrow> (uv_timer \<Rightarrow> uv_timer) \<Rightarrow> uv_loop \<Rightarrow> uv_loop" where
  "upd_timer a f lp = lp\<lparr>lp_timers := (lp_timers lp)(a := f (lp_timers lp a))\<rparr>"

section \<open>Operations\<close>

definition uv__is_active :: "uv_loop \<Rightarrow> addr \<Rightarrow> bool" where
  "uv__is_active lp a = tm_active (lp_timers lp a)"

definition uv__is_closing :: "uv_loop \<Rightarrow> addr \<Rightarrow> bool" where
  "uv__is_closing lp a \<longleftrightarrow> tm_closing (lp_timers lp a) \<or> tm_closed (lp_timers lp a)"

definition uv__handle_start :: "uv_loop \<Rightarrow> addr \<Rightarrow> uv_loop" where
  "uv__handle_start lp a =
     (if tm_active (lp_timers lp a) then lp
      else let lp1 = upd_timer a (\<lambda>t. t\<lparr>tm_active := True\<rparr>) lp
           in if tm_ref (lp_timers lp1 a) then lp1\<lparr>lp_active_handles := lp_active_handles lp1 + 1\<rparr>
              else lp1)"

definition uv__handle_stop :: "uv_loop \<Rightarrow> addr \<Rightarrow> uv_loop" where
  "uv__handle_stop lp a =
     (if \<not> tm_active (lp_timers lp a) then lp
      else let lp1 = upd_timer a (\<lambda>t. t\<lparr>tm_active := False\<rparr>) lp
           in if tm_ref (lp_timers lp1 a) then lp1\<lparr>lp_active_handles := lp_active_handles lp1 - 1\<rparr>
              else lp1)"

definition uv__handle_ref :: "uv_loop \<Rightarrow> addr \<Rightarrow> uv_loop" where
  "uv__handle_ref lp a =
     (if tm_ref (lp_timers lp a) then lp
      else let lp1 = upd_timer a (\<lambda>t. t\<lparr>tm_ref := True\<rparr>) lp
           in if tm_closing (lp_timers lp1 a) then lp1
              else if tm_active (lp_timers lp1 a)
              then lp1\<lparr>lp_active_handles := lp_active_handles lp1 + 1\<rparr> else lp1)"

definition uv__handle_unref :: "uv_loop \<Rightarrow> addr \<Rightarrow> uv_loop" where
  "uv__handle_unref lp a =
     (if \<not> tm_ref (lp_timers lp a) then lp
      else let lp1 = upd_timer a (\<lambda>t. t\<lparr>tm_ref := False\<rparr>) lp
           in if tm_closing (lp_timers lp1 a) then lp1
              else if tm_active (lp_timers lp1 a)
              then lp1\<lparr>lp_active_handles := lp_active_handles lp1 - 1\<rparr> else lp1)"

text \<open>Initialising sets every flag but \<open>UV_HANDLE_REF\<close> to zero and queues the handle.\<close>

definition uv__handle_init :: "uv_loop \<Rightarrow> addr \<Rightarrow> uv_loop" where
  "uv__handle_init lp a =
     (upd_timer a (\<lambda>t. t\<lparr>tm_active := False, tm_ref := True, tm_closing := False, tm_closed := False\<rparr>) lp)
       \<lparr>lp_handle_queue := lp_handle_queue lp @ [a]\<rparr>"

definition timer_less_than :: "(addr \<Rightarrow> uv_timer) \<Rightarrow> addr \<Rightarrow> addr \<Rightarrow> bool" where
  "timer_less_than ts a b =
     (if tm_timeout (ts a) < tm_timeout (ts b) then True
      else if tm_timeout (ts b) < tm_timeout (ts a) then False
      else tm_start_id (ts a) < tm_start_id (ts b))"

definition uv_timer_init :: "uv_loop \<Rightarrow> addr \<Rightarrow> int \<times> uv_loop" where
  "uv_timer_init lp a =
     (0, upd_timer a (\<lambda>t. t\<lparr>tm_cb := None, tm_repeat := 0\<rparr>) (uv__handle_init lp a))"

definition uv_timer_stop :: "uv_loop \<Rightarrow> addr \<Rightarrow> (int \<times> uv_loop) option" where
  "uv_timer_stop lp a =
     (if \<not> uv__is_active lp a then Some (0, lp)
      else do {
        h \<leftarrow> heap_remove (timer_less_than (lp_timers lp)) (lp_timer_heap lp) (Some a);
        Some (0, uv__handle_stop (lp\<lparr>lp_timer_heap := h\<rparr>) a)
      })"

definition uv_timer_start ::
  "uv_loop \<Rightarrow> addr \<Rightarrow> nat option \<Rightarrow> u64 \<Rightarrow> u64 \<Rightarrow> (int \<times> uv_loop) option" where
  "uv_timer_start lp0 a cb timeout repeat =
     (if uv__is_closing lp0 a \<or> cb = None then Some (UV_EINVAL, lp0)
      else do {
        (_, lp) \<leftarrow> (if uv__is_active lp0 a then uv_timer_stop lp0 a else Some (0, lp0));
        let sum = lp_time lp + timeout;
        let clamped_timeout = (if sum < timeout then - 1 else sum);
        let lp1 = upd_timer a (\<lambda>t. t\<lparr>tm_cb := cb, tm_timeout := clamped_timeout, tm_repeat := repeat,
                                    tm_start_id := lp_timer_counter lp\<rparr>) lp;
        let lp2 = lp1\<lparr>lp_timer_counter := lp_timer_counter lp1 + 1\<rparr>;
        h \<leftarrow> heap_insert (timer_less_than (lp_timers lp2)) (lp_timer_heap lp2) a;
        Some (0, uv__handle_start (lp2\<lparr>lp_timer_heap := h\<rparr>) a)
      })"

definition uv_timer_again :: "uv_loop \<Rightarrow> addr \<Rightarrow> (int \<times> uv_loop) option" where
  "uv_timer_again lp a =
     (if tm_cb (lp_timers lp a) = None then Some (UV_EINVAL, lp)
      else if tm_repeat (lp_timers lp a) \<noteq> 0
      then do {
        (_, lp1) \<leftarrow> uv_timer_stop lp a;
        (_, lp2) \<leftarrow> uv_timer_start lp1 a (tm_cb (lp_timers lp1 a)) (tm_repeat (lp_timers lp1 a))
                     (tm_repeat (lp_timers lp1 a));
        Some (0, lp2)
      }
      else Some (0, lp))"

definition uv_timer_set_repeat :: "uv_loop \<Rightarrow> addr \<Rightarrow> u64 \<Rightarrow> uv_loop" where
  "uv_timer_set_repeat lp a repeat = upd_timer a (\<lambda>t. t\<lparr>tm_repeat := repeat\<rparr>) lp"

definition uv_timer_get_repeat :: "uv_loop \<Rightarrow> addr \<Rightarrow> u64" where
  "uv_timer_get_repeat lp a = tm_repeat (lp_timers lp a)"

definition uv__next_timeout :: "uv_loop \<Rightarrow> int" where
  "uv__next_timeout lp =
     (case heap_min (lp_timer_heap lp) of
        None \<Rightarrow> - 1
      | Some a \<Rightarrow>
          if tm_timeout (lp_timers lp a) \<le> lp_time lp then 0
          else let diff = tm_timeout (lp_timers lp a) - lp_time lp
               in if diff > 0x7fffffff then 0x7fffffff else int (unat diff))"

text \<open>The callbacks run as \<open>cb id handle (own state, loop)\<close>; a null callback is a fault.\<close>

partial_function (option) uv__run_timers ::
  "(nat \<Rightarrow> addr \<Rightarrow> 'w \<times> uv_loop \<Rightarrow> ('w \<times> uv_loop) option) \<Rightarrow> 'w \<Rightarrow> uv_loop \<Rightarrow> ('w \<times> uv_loop) option" where
  "uv__run_timers cb w lp =
     (case heap_min (lp_timer_heap lp) of
        None \<Rightarrow> Some (w, lp)
      | Some a \<Rightarrow>
          if tm_timeout (lp_timers lp a) > lp_time lp then Some (w, lp)
          else
            (case uv_timer_stop lp a of
              None \<Rightarrow> None
            | Some (_, lp1) \<Rightarrow>
                (case uv_timer_again lp1 a of
                   None \<Rightarrow> None
                 | Some (_, lp2) \<Rightarrow>
                     (case tm_cb (lp_timers lp2 a) of
                        None \<Rightarrow> None
                      | Some f \<Rightarrow>
                          (case cb f a (w, lp2) of
                             None \<Rightarrow> None
                           | Some (w', lp3) \<Rightarrow> uv__run_timers cb w' lp3)))))"

definition uv__timer_close :: "uv_loop \<Rightarrow> addr \<Rightarrow> uv_loop option" where
  "uv__timer_close lp a = map_option snd (uv_timer_stop lp a)"

section \<open>The order of timers\<close>

lemma timer_order: "weak_order (timer_less_than ts)"
  by unfold_locales (auto simp: timer_less_than_def not_less split: if_splits)

interpretation timer_queue: priority_queue "timer_less_than ts" "heap_holds (timer_less_than ts)"
  heap_min "heap_insert (timer_less_than ts)" "heap_remove (timer_less_than ts)"
  "heap_dequeue (timer_less_than ts)" "2 ^ 32"
  for ts
  by (rule uv_priority_queue [OF timer_order])

lemma heap_holds_cong:
  assumes "heap_holds lt h A" and "\<And>x y. x \<in> A \<Longrightarrow> y \<in> A \<Longrightarrow> lt' x y = lt x y"
  shows "heap_holds lt' h A"
proof -
  from assms(1) obtain xs where xs: "heap_rep h xs" "arr_heap lt xs" "set xs = A" by (auto simp: heap_holds_def)
  have "\<not> lt' (xs ! (i - 1)) (xs ! (i div 2 - 1))" if "2 \<le> i" "i \<le> length xs" for i
  proof -
    have "xs ! (i - 1) \<in> A" "xs ! (i div 2 - 1) \<in> A" using that xs(3) by auto
    then show ?thesis using assms(2) xs(2) that by (simp add: arr_heap_def)
  qed
  then show ?thesis using xs by (auto simp: heap_holds_def arr_heap_def)
qed

definition active_timers :: "uv_loop \<Rightarrow> addr set" where
  "active_timers lp = {a. tm_active (lp_timers lp a)}"

definition loop_inv :: "uv_loop \<Rightarrow> bool" where
  "loop_inv lp \<longleftrightarrow> heap_holds (timer_less_than (lp_timers lp)) (lp_timer_heap lp) (active_timers lp) \<and>
     (\<forall>a \<in> active_timers lp. tm_cb (lp_timers lp a) \<noteq> None \<and> \<not> uv__is_closing lp a)"

lemma heap_holds_card:
  assumes "heap_holds lt h A"
  shows "card A < 2 ^ 32"
proof -
  from assms obtain xs where xs: "heap_rep h xs" "set xs = A" by (auto simp: heap_holds_def)
  have "unat (hp_nelts h) < 2 ^ 32" using unat_less_power [of "hp_nelts h"] by simp
  then show ?thesis using heap_repD(1,3) [OF xs(1)] xs(2) by (auto simp: distinct_card)
qed

lemma timer_less_iff:
  "timer_less_than ts a b \<longleftrightarrow> tm_timeout (ts a) < tm_timeout (ts b) \<or>
     tm_timeout (ts a) = tm_timeout (ts b) \<and> tm_start_id (ts a) < tm_start_id (ts b)"
  by (auto simp: timer_less_than_def)

lemma timer_less_upd:
  assumes "\<And>x. tm_timeout (f x) = tm_timeout x" "\<And>x. tm_start_id (f x) = tm_start_id x"
  shows "timer_less_than (ts(a := f (ts a))) = timer_less_than ts"
  by (intro ext) (auto simp: timer_less_iff assms)

lemma upd_timer_sel [simp]:
  "lp_timers (upd_timer a f lp) = (lp_timers lp)(a := f (lp_timers lp a))"
  "lp_time (upd_timer a f lp) = lp_time lp" "lp_timer_counter (upd_timer a f lp) = lp_timer_counter lp"
  "lp_timer_heap (upd_timer a f lp) = lp_timer_heap lp"
  "lp_active_handles (upd_timer a f lp) = lp_active_handles lp"
  by (simp_all add: upd_timer_def)

lemma handle_start_sel [simp]:
  "lp_timers (uv__handle_start lp a) = (lp_timers lp)(a := (lp_timers lp a)\<lparr>tm_active := True\<rparr>)"
  "lp_time (uv__handle_start lp a) = lp_time lp" "lp_timer_heap (uv__handle_start lp a) = lp_timer_heap lp"
  "lp_timer_counter (uv__handle_start lp a) = lp_timer_counter lp"
  "lp_active_handles (uv__handle_start lp a) =
     lp_active_handles lp + of_bool (\<not> tm_active (lp_timers lp a) \<and> tm_ref (lp_timers lp a))"
  by (auto simp: uv__handle_start_def Let_def)

lemma handle_stop_sel [simp]:
  "lp_timers (uv__handle_stop lp a) = (lp_timers lp)(a := (lp_timers lp a)\<lparr>tm_active := False\<rparr>)"
  "lp_time (uv__handle_stop lp a) = lp_time lp" "lp_timer_heap (uv__handle_stop lp a) = lp_timer_heap lp"
  "lp_timer_counter (uv__handle_stop lp a) = lp_timer_counter lp"
  "lp_active_handles (uv__handle_stop lp a) =
     lp_active_handles lp - of_bool (tm_active (lp_timers lp a) \<and> tm_ref (lp_timers lp a))"
  by (auto simp: uv__handle_stop_def Let_def)

lemma timer_stop_ok:
  assumes inv: "loop_inv lp"
  shows "\<exists>lp'. uv_timer_stop lp a = Some (0, lp') \<and> loop_inv lp' \<and> lp_time lp' = lp_time lp \<and>
    lp_timer_counter lp' = lp_timer_counter lp \<and>
    lp_active_handles lp' = lp_active_handles lp - of_bool (tm_active (lp_timers lp a) \<and> tm_ref (lp_timers lp a)) \<and>
    lp_timers lp' = (lp_timers lp)(a := (lp_timers lp a)\<lparr>tm_active := False\<rparr>)"
proof (cases "uv__is_active lp a")
  case False
  then show ?thesis using inv by (auto simp: uv_timer_stop_def uv__is_active_def)
next
  case True
  then have a: "a \<in> active_timers lp" by (simp add: uv__is_active_def active_timers_def)
  have "heap_holds (timer_less_than (lp_timers lp)) (lp_timer_heap lp) (active_timers lp)"
    using inv by (simp add: loop_inv_def)
  from timer_queue.rem [OF this a] obtain h
    where h: "heap_remove (timer_less_than (lp_timers lp)) (lp_timer_heap lp) (Some a) = Some h"
      "heap_holds (timer_less_than (lp_timers lp)) h (active_timers lp - {a})" by blast
  let ?lp = "uv__handle_stop (lp\<lparr>lp_timer_heap := h\<rparr>) a"
  have act: "active_timers ?lp = active_timers lp - {a}" by (auto simp: active_timers_def)
  have "heap_holds (timer_less_than (lp_timers ?lp)) h (active_timers ?lp)"
    unfolding act by (rule heap_holds_cong [OF h(2)]) (simp add: timer_less_than_def)
  then have "loop_inv ?lp" using inv act by (auto simp: loop_inv_def uv__is_closing_def)
  then show ?thesis using True h(1) by (auto simp: uv_timer_stop_def)
qed

definition clamp_add :: "u64 \<Rightarrow> u64 \<Rightarrow> nat" where
  "clamp_add t d = min (unat t + unat d) (2 ^ 64 - 1)"

lemma clamp_unat:
  fixes t d :: u64
  shows "unat (if t + d < d then - 1 else t + d) = clamp_add t d"
proof -
  have t: "unat t < 2 ^ 64" "unat d < 2 ^ 64" using unat_less_power [of t] unat_less_power [of d] by simp_all
  have sum: "unat (t + d) = (if unat t + unat d < 2 ^ 64 then unat t + unat d else unat t + unat d - 2 ^ 64)"
    using t by (simp add: unat_plus_if_size word_size)
  then have "t + d < d \<longleftrightarrow> \<not> unat t + unat d < 2 ^ 64" using t by (auto simp: word_less_nat_alt)
  moreover have "unat (- 1 :: u64) = 2 ^ 64 - 1"
    by (simp add: unsigned_minus_1_eq_mask mask_eq_exp_minus_1)
  ultimately show ?thesis using sum by (auto simp: clamp_add_def min_def)
qed

text \<open>A started timer: the deadline and the order are those of the start.\<close>

definition started :: "uv_loop \<Rightarrow> nat option \<Rightarrow> u64 \<Rightarrow> u64 \<Rightarrow> uv_timer \<Rightarrow> uv_timer" where
  "started lp cb timeout repeat t =
     t\<lparr>tm_cb := cb, tm_timeout := word_of_nat (clamp_add (lp_time lp) timeout), tm_repeat := repeat,
       tm_start_id := lp_timer_counter lp, tm_active := True\<rparr>"

lemma unat_clamp: "unat (word_of_nat (clamp_add t d) :: u64) = clamp_add t d"
  unfolding clamp_unat [symmetric] by simp

lemma timer_start_ok:
  assumes inv: "loop_inv lp" and "\<not> uv__is_closing lp a" and "cb \<noteq> None"
    and bound: "card (active_timers lp - {a}) + 1 < 2 ^ 32"
  shows "\<exists>lp'. uv_timer_start lp a cb timeout repeat = Some (0, lp') \<and> loop_inv lp' \<and>
    lp_time lp' = lp_time lp \<and> lp_timer_counter lp' = lp_timer_counter lp + 1 \<and>
    lp_active_handles lp' = lp_active_handles lp + of_bool (\<not> tm_active (lp_timers lp a) \<and> tm_ref (lp_timers lp a)) \<and>
    lp_timers lp' = (lp_timers lp)(a := started lp cb timeout repeat (lp_timers lp a))"
proof -
  from timer_stop_ok [OF inv, of a] obtain lp1
    where st: "uv_timer_stop lp a = Some (0, lp1)" and lp1: "loop_inv lp1" "lp_time lp1 = lp_time lp"
      "lp_timer_counter lp1 = lp_timer_counter lp"
      "lp_active_handles lp1 = lp_active_handles lp - of_bool (tm_active (lp_timers lp a) \<and> tm_ref (lp_timers lp a))"
      "lp_timers lp1 = (lp_timers lp)(a := (lp_timers lp a)\<lparr>tm_active := False\<rparr>)" by blast
  have stop: "(if uv__is_active lp a then uv_timer_stop lp a else Some (0, lp)) = Some (0, lp1)"
    using st by (cases "uv__is_active lp a") (simp_all add: uv_timer_stop_def)
  define T where "T = (if lp_time lp1 + timeout < timeout then - 1 else lp_time lp1 + timeout)"
  let ?n = "lp_timer_counter lp1"
  define lp2 where "lp2 = (upd_timer a (\<lambda>t. t\<lparr>tm_cb := cb, tm_timeout := T, tm_repeat := repeat,
      tm_start_id := ?n\<rparr>) lp1)\<lparr>lp_timer_counter := ?n + 1\<rparr>"
  have act: "active_timers lp1 = active_timers lp - {a}" using lp1(5) by (auto simp: active_timers_def)
  have "heap_holds (timer_less_than (lp_timers lp2)) (lp_timer_heap lp1) (active_timers lp1)"
    using lp1(1) unfolding loop_inv_def
    by (elim conjE) (rule heap_holds_cong, assumption, simp add: timer_less_than_def lp2_def act)
  from timer_queue.ins [OF this, of a] bound act obtain h
    where h: "heap_insert (timer_less_than (lp_timers lp2)) (lp_timer_heap lp1) a = Some h"
      "heap_holds (timer_less_than (lp_timers lp2)) h (insert a (active_timers lp1))" by auto
  let ?lp = "uv__handle_start (lp2\<lparr>lp_timer_heap := h\<rparr>) a"
  have act': "active_timers ?lp = insert a (active_timers lp1)" by (auto simp: active_timers_def lp2_def)
  have "heap_holds (timer_less_than (lp_timers ?lp)) h (active_timers ?lp)"
    using h(2) act' timer_less_upd [of "\<lambda>t. t\<lparr>tm_active := True\<rparr>" "lp_timers lp2" a] by simp
  moreover have "\<forall>b \<in> active_timers ?lp. tm_cb (lp_timers ?lp b) \<noteq> None \<and> \<not> uv__is_closing ?lp b"
    using lp1(1) assms(2,3) lp1(5) unfolding act' by (auto simp: loop_inv_def uv__is_closing_def lp2_def)
  ultimately have "loop_inv ?lp" by (simp add: loop_inv_def)
  moreover have "uv_timer_start lp a cb timeout repeat = Some (0, ?lp)"
    using assms(2,3) stop h(1) by (simp add: uv_timer_start_def Let_def T_def lp2_def)
  moreover have "T = word_of_nat (clamp_add (lp_time lp) timeout)"
    unfolding T_def lp1(2) clamp_unat [symmetric] by simp
  then have "lp_timers ?lp = (lp_timers lp)(a := started lp cb timeout repeat (lp_timers lp a))"
    by (auto simp: lp2_def lp1(3,5) started_def)
  moreover have "lp_active_handles ?lp =
      lp_active_handles lp + of_bool (\<not> tm_active (lp_timers lp a) \<and> tm_ref (lp_timers lp a))"
    by (auto simp: lp2_def lp1(4,5))
  ultimately show ?thesis using lp1(2,3) by (auto simp: lp2_def)
qed

section \<open>Properties\<close>

text \<open>
  C15. Starting a timer arms it or reports \<open>UV_EINVAL\<close>. On a sound loop, \<open>uv_timer_start\<close> for a handle that
  is closing, or with a null callback, returns \<open>UV_EINVAL\<close> and changes nothing. For any other handle it
  succeeds, whether the timer was running or not, and keeps the loop sound; the handle is then
  active with the callback and the repeat value given, the deadline \<open>time + timeout\<close> clamped to the
  largest 64-bit value, and the next number of the loop's counter as its \<open>start_id\<close>; no other
  timer changes, and the loop counts one more active handle if the timer was not running and is
  referenced. (The 32-bit element count of the heap bounds the number of timers.)
\<close>

theorem uv_timer_start_arms:
  assumes "loop_inv lp" and "card (active_timers lp - {a}) + 1 < 2 ^ 32"
  shows "if uv__is_closing lp a \<or> cb = None
    then uv_timer_start lp a cb timeout repeat = Some (UV_EINVAL, lp)
    else \<exists>lp'. uv_timer_start lp a cb timeout repeat = Some (0, lp') \<and> loop_inv lp' \<and>
      active_timers lp' = insert a (active_timers lp) \<and>
      lp_timers lp' = (lp_timers lp)(a := (lp_timers lp a)\<lparr>tm_cb := cb,
        tm_timeout := word_of_nat (min (unat (lp_time lp) + unat timeout) (2 ^ 64 - 1)), tm_repeat := repeat,
        tm_start_id := lp_timer_counter lp, tm_active := True\<rparr>) \<and>
      lp_time lp' = lp_time lp \<and> lp_timer_counter lp' = lp_timer_counter lp + 1 \<and>
      lp_active_handles lp' =
        lp_active_handles lp + (if tm_active (lp_timers lp a) \<or> \<not> tm_ref (lp_timers lp a) then 0 else 1)"
proof (cases "uv__is_closing lp a \<or> cb = None")
  case True
  then show ?thesis by (auto simp: uv_timer_start_def)
next
  case False
  then have ok: "\<not> uv__is_closing lp a" "cb \<noteq> None" by simp_all
  from timer_start_ok [OF assms(1) ok assms(2)] obtain lp'
    where "uv_timer_start lp a cb timeout repeat = Some (0, lp')" "loop_inv lp'" "lp_time lp' = lp_time lp"
      "lp_timer_counter lp' = lp_timer_counter lp + 1"
      "lp_active_handles lp' = lp_active_handles lp + of_bool (\<not> tm_active (lp_timers lp a) \<and> tm_ref (lp_timers lp a))"
      and ts: "lp_timers lp' = (lp_timers lp)(a := started lp cb timeout repeat (lp_timers lp a))" by blast
  moreover from ts have "active_timers lp' = insert a (active_timers lp)"
    by (auto simp: active_timers_def started_def)
  ultimately show ?thesis
    using False by (auto simp: started_def clamp_add_def)
qed

text \<open>
  C16. Stopping a timer is idempotent and exact: it succeeds on a sound loop, keeps the loop sound, and
  the active timers are those there were but the one stopped.
\<close>

theorem uv_timer_stop_exact:
  assumes "loop_inv lp"
  shows "\<exists>lp'. uv_timer_stop lp a = Some (0, lp') \<and> loop_inv lp' \<and>
    active_timers lp' = active_timers lp - {a} \<and> uv_timer_stop lp' a = Some (0, lp')"
proof -
  from timer_stop_ok [OF assms, of a] obtain lp'
    where lp': "uv_timer_stop lp a = Some (0, lp')" "loop_inv lp'"
      and ts: "lp_timers lp' = (lp_timers lp)(a := (lp_timers lp a)\<lparr>tm_active := False\<rparr>)" by blast
  have "active_timers lp' = active_timers lp - {a}" by (auto simp: ts active_timers_def)
  then show ?thesis using lp' by (auto simp: uv_timer_stop_def uv__is_active_def ts)
qed

lemma loop_min:
  assumes "loop_inv lp"
  shows "heap_min (lp_timer_heap lp) = None \<longleftrightarrow> active_timers lp = {}"
    and "heap_min (lp_timer_heap lp) = Some a \<Longrightarrow>
      a \<in> active_timers lp \<and> (\<forall>b \<in> active_timers lp. \<not> timer_less_than (lp_timers lp) b a)"
  using timer_queue.min_None timer_queue.min_Some assms unfolding loop_inv_def by blast+

lemma not_timer_less: "\<not> timer_less_than ts b a \<Longrightarrow> tm_timeout (ts a) \<le> tm_timeout (ts b)"
  by (auto simp: timer_less_than_def split: if_splits)

text \<open>
  C17. The time to sleep is exact: \<open>uv__next_timeout\<close> is \<open>-1\<close> when no timer is active, and otherwise the
  time left until the earliest deadline among the active timers, zero when that has passed, and never
  more than the largest \<open>int\<close>.
\<close>

theorem uv__next_timeout_exact:
  assumes "loop_inv lp"
  shows "uv__next_timeout lp =
    (if active_timers lp = {} then - 1
     else min 0x7fffffff
       (int (Min ((\<lambda>a. unat (tm_timeout (lp_timers lp a))) ` active_timers lp) - unat (lp_time lp))))"
proof (cases "heap_min (lp_timer_heap lp)")
  case None
  then show ?thesis using loop_min(1) [OF assms] by (simp add: uv__next_timeout_def)
next
  case (Some a)
  let ?f = "\<lambda>a. unat (tm_timeout (lp_timers lp a))"
  from loop_min(2) [OF assms Some] have a: "a \<in> active_timers lp"
    and le: "\<And>b. b \<in> active_timers lp \<Longrightarrow> ?f a \<le> ?f b"
    using not_timer_less by (auto simp: word_le_nat_alt)
  have "finite (active_timers lp)" using assms timer_queue.finite unfolding loop_inv_def by blast
  then have m: "Min (?f ` active_timers lp) = ?f a" using a le by (intro Min_eqI) auto
  have n: "active_timers lp \<noteq> {}" using a by blast
  let ?T = "tm_timeout (lp_timers lp a)"
  show ?thesis
  proof (cases "?T \<le> lp_time lp")
    case True
    then show ?thesis using Some m n by (simp add: uv__next_timeout_def word_le_nat_alt)
  next
    case False
    then have d: "unat (?T - lp_time lp) = unat ?T - unat (lp_time lp)" by (simp add: unat_sub)
    have "(?T - lp_time lp > 0x7fffffff) = (unat ?T - unat (lp_time lp) > 0x7fffffff)"
      unfolding word_less_nat_alt d by simp
    then show ?thesis using Some m n False d by (simp add: uv__next_timeout_def Let_def min_def)
  qed
qed

definition due :: "uv_loop \<Rightarrow> addr set" where
  "due lp = {a \<in> active_timers lp. tm_timeout (lp_timers lp a) \<le> lp_time lp}"

text \<open>
  What the loop does to a timer it fires, at the time \<open>now\<close>: a repeating one is started again, with the
  repeat value as its timeout and a new number \<open>n\<close>, and any other is stopped.
\<close>

definition fired_timer :: "u64 \<Rightarrow> u64 \<Rightarrow> uv_timer \<Rightarrow> uv_timer" where
  "fired_timer now n t =
     (if tm_repeat t = 0 then t\<lparr>tm_active := False\<rparr>
      else t\<lparr>tm_timeout := word_of_nat (min (unat now + unat (tm_repeat t)) (2 ^ 64 - 1)), tm_start_id := n\<rparr>)"

lemma fired_timer_cb [simp]: "tm_cb (fired_timer now n t) = tm_cb t"
  by (simp add: fired_timer_def)

lemma clamp_later:
  assumes "unat t < 2 ^ 64 - 1" and "d \<noteq> 0"
  shows "t < (word_of_nat (clamp_add t d) :: u64)"
proof -
  have "0 < unat d" using assms(2) by (simp add: unat_gt_0)
  then show ?thesis using assms(1) unfolding word_less_nat_alt unat_clamp by (simp add: clamp_add_def)
qed

lemma fire_one:
  assumes inv: "loop_inv lp" and a: "a \<in> due lp" and t: "unat (lp_time lp) < 2 ^ 64 - 1"
  shows "\<exists>lp1 r lp2 f n. uv_timer_stop lp a = Some (0, lp1) \<and> uv_timer_again lp1 a = Some (r, lp2) \<and>
    tm_cb (lp_timers lp a) = Some f \<and> loop_inv lp2 \<and> lp_time lp2 = lp_time lp \<and> due lp2 = due lp - {a} \<and>
    lp_timers lp2 = (lp_timers lp)(a := fired_timer (lp_time lp) n (lp_timers lp a))"
proof -
  from a have act: "a \<in> active_timers lp" by (simp add: due_def)
  then obtain f where f: "tm_cb (lp_timers lp a) = Some f" and cl: "\<not> uv__is_closing lp a"
    using inv by (auto simp: loop_inv_def)
  from timer_stop_ok [OF inv, of a] obtain lp1
    where lp1: "uv_timer_stop lp a = Some (0, lp1)" "loop_inv lp1" "lp_time lp1 = lp_time lp"
      and ts1: "lp_timers lp1 = (lp_timers lp)(a := (lp_timers lp a)\<lparr>tm_active := False\<rparr>)" by blast
  have d1: "due lp1 = due lp - {a}" by (auto simp: due_def active_timers_def ts1 lp1(3))
  show ?thesis
  proof (cases "tm_repeat (lp_timers lp a) = 0")
    case True
    then have "uv_timer_again lp1 a = Some (0, lp1)" using f by (simp add: uv_timer_again_def ts1)
    then show ?thesis using lp1 d1 f True by (auto simp: ts1 fired_timer_def)
  next
    case False
    let ?r = "tm_repeat (lp_timers lp a)"
    have st: "uv_timer_stop lp1 a = Some (0, lp1)" by (simp add: uv_timer_stop_def uv__is_active_def ts1)
    have cl1: "\<not> uv__is_closing lp1 a" using cl by (simp add: uv__is_closing_def ts1)
    have bound: "card (active_timers lp1 - {a}) + 1 < 2 ^ 32"
    proof -
      have h: "heap_holds (timer_less_than (lp_timers lp)) (lp_timer_heap lp) (active_timers lp)"
        using inv by (simp add: loop_inv_def)
      have "active_timers lp1 - {a} = active_timers lp - {a}" by (auto simp: active_timers_def ts1)
      moreover have "card (active_timers lp - {a}) + 1 = card (active_timers lp)"
        using card.remove [OF timer_queue.finite [OF h] act] by simp
      ultimately show ?thesis using heap_holds_card [OF h] by simp
    qed
    from timer_start_ok [OF lp1(2) cl1 _ bound, of "Some f" ?r ?r] lp1(3) obtain lp2
      where lp2: "uv_timer_start lp1 a (Some f) ?r ?r = Some (0, lp2)" "loop_inv lp2" "lp_time lp2 = lp_time lp"
        "lp_timers lp2 = (lp_timers lp1)(a := started lp1 (Some f) ?r ?r (lp_timers lp1 a))"
      by auto
    have "started lp1 (Some f) ?r ?r (lp_timers lp1 a) =
        fired_timer (lp_time lp) (lp_timer_counter lp1) (lp_timers lp a)"
      using act f False by (simp add: started_def fired_timer_def clamp_add_def ts1 lp1(3) active_timers_def)
    then have ts2: "lp_timers lp2 =
        (lp_timers lp)(a := fired_timer (lp_time lp) (lp_timer_counter lp1) (lp_timers lp a))"
      using lp2(4) by (simp add: ts1)
    have again: "uv_timer_again lp1 a = Some (0, lp2)"
      using f False st lp2(1) by (simp add: uv_timer_again_def ts1)
    have "lp_time lp < word_of_nat (clamp_add (lp_time lp) ?r)" using clamp_later [OF t False] .
    then have "due lp2 = due lp - {a}"
      using False by (auto simp: due_def active_timers_def ts2 lp2(3) fired_timer_def clamp_add_def)
    then show ?thesis using lp1(1) lp2(2,3) again f ts2 by blast
  qed
qed

text \<open>The first due timer, and the end of the loop when there is none.\<close>

lemma due_finite: "loop_inv lp \<Longrightarrow> finite (due lp)"
  using timer_queue.finite unfolding loop_inv_def due_def by fastforce

lemma run_timers_end:
  assumes "loop_inv lp" and "due lp = {}"
  shows "uv__run_timers cb w lp = Some (w, lp)"
proof (cases "heap_min (lp_timer_heap lp)")
  case None
  then show ?thesis by (simp add: uv__run_timers.simps)
next
  case (Some a)
  then have "lp_time lp < tm_timeout (lp_timers lp a)"
    using loop_min(2) [OF assms(1)] assms(2) by (auto simp: due_def not_le)
  then show ?thesis using Some by (simp add: uv__run_timers.simps)
qed

lemma first_due:
  assumes "loop_inv lp" and "due lp \<noteq> {}"
  obtains a where "heap_min (lp_timer_heap lp) = Some a" and "a \<in> due lp" and "\<not> lp_time lp < tm_timeout (lp_timers lp a)"
    and "\<And>b. b \<in> due lp \<Longrightarrow> \<not> timer_less_than (lp_timers lp) b a"
proof -
  from assms obtain x where x: "x \<in> due lp" by blast
  then obtain a where a: "heap_min (lp_timer_heap lp) = Some a"
    using loop_min(1) [OF assms(1)] by (auto simp: due_def)
  note least = loop_min(2) [OF assms(1) a]
  have "tm_timeout (lp_timers lp a) \<le> tm_timeout (lp_timers lp x)"
    using least x not_timer_less by (auto simp: due_def)
  then show thesis using that [OF a] least x by (auto simp: due_def)
qed

text \<open>
  Callbacks may act on the timers, too: as long as they keep the loop sound and the clock as it is and
  make no timer due (a timer is due at once when it is started with the timeout 0), the loop ends.
\<close>

lemma uv__run_timers_returns:
  assumes "loop_inv lp" and "unat (lp_time lp) < 2 ^ 64 - 1"
    and cb: "\<And>f a w l. loop_inv l \<Longrightarrow>
      \<exists>w' l'. cb f a (w, l) = Some (w', l') \<and> loop_inv l' \<and> lp_time l' = lp_time l \<and> due l' \<subseteq> due l"
  shows "\<exists>w' lp'. uv__run_timers cb w lp = Some (w', lp') \<and> loop_inv lp' \<and> due lp' = {}"
  using assms(1,2)
proof (induction "card (due lp)" arbitrary: lp w rule: less_induct)
  case less
  show ?case
  proof (cases "due lp = {}")
    case True
    then show ?thesis using less.prems(1) by (auto simp: run_timers_end)
  next
    case False
    with less.prems(1) obtain a where a: "heap_min (lp_timer_heap lp) = Some a" "a \<in> due lp"
      "\<not> lp_time lp < tm_timeout (lp_timers lp a)" by (rule first_due) blast
    from fire_one [OF less.prems(1) a(2) less.prems(2)] obtain lp1 r lp2 f n
      where st: "uv_timer_stop lp a = Some (0, lp1)" "uv_timer_again lp1 a = Some (r, lp2)"
        "tm_cb (lp_timers lp a) = Some f" and inv2: "loop_inv lp2" and t2: "lp_time lp2 = lp_time lp"
        and d2: "due lp2 = due lp - {a}"
        and ts2: "lp_timers lp2 = (lp_timers lp)(a := fired_timer (lp_time lp) n (lp_timers lp a))" by blast
    from cb [OF inv2] obtain w' lp3
      where c: "cb f a (w, lp2) = Some (w', lp3)" and inv3: "loop_inv lp3" and t3: "lp_time lp3 = lp_time lp2"
        and d3: "due lp3 \<subseteq> due lp2" by blast
    have "due lp3 \<subset> due lp" using d3 d2 a(2) by blast
    then have "card (due lp3) < card (due lp)" by (rule psubset_card_mono [OF due_finite [OF less.prems(1)]])
    from less.hyps [OF this inv3, of w'] less.prems(2) t2 t3
    have "\<exists>w'' lp'. uv__run_timers cb w' lp3 = Some (w'', lp') \<and> loop_inv lp' \<and> due lp' = {}" by simp
    then show ?thesis using a(1,3) st c ts2 by (subst uv__run_timers.simps) simp
  qed
qed

text \<open>The calls of a run over callbacks that only read the loop, each with the loop it is called in.\<close>

lemma run_timers_calls:
  assumes cb: "\<And>f a w l. cb f a (w, l) = Some (g f a l w, l)"
    and "loop_inv lp" and "unat (lp_time lp) < 2 ^ 64 - 1"
  shows "\<exists>calls lp' ids.
    uv__run_timers cb w lp =
      Some (foldl (\<lambda>w (a, l). g (the (tm_cb (lp_timers lp a))) a l w) w calls, lp') \<and>
    set (map fst calls) = due lp \<and> distinct (map fst calls) \<and>
    sorted_wrt (\<lambda>a b. \<not> timer_less_than (lp_timers lp) b a) (map fst calls) \<and>
    (\<forall>(a, l) \<in> set calls. lp_timers l a = fired_timer (lp_time lp) (ids a) (lp_timers lp a)) \<and>
    loop_inv lp' \<and> due lp' = {} \<and>
    lp_timers lp' = (\<lambda>b. if b \<in> due lp then fired_timer (lp_time lp) (ids b) (lp_timers lp b) else lp_timers lp b)"
  using assms(2,3)
proof (induction "card (due lp)" arbitrary: lp w rule: less_induct)
  case less
  show ?case
  proof (cases "due lp = {}")
    case True
    then show ?thesis
      using run_timers_end [OF less.prems(1)] less.prems(1) by (intro exI [of _ "[]"] exI [of _ lp]) simp
  next
    case False
    with less.prems(1) obtain a where a: "heap_min (lp_timer_heap lp) = Some a" "a \<in> due lp"
      "\<not> lp_time lp < tm_timeout (lp_timers lp a)"
      and least: "\<And>b. b \<in> due lp \<Longrightarrow> \<not> timer_less_than (lp_timers lp) b a" by (rule first_due) blast
    from fire_one [OF less.prems(1) a(2) less.prems(2)] obtain lp1 r lp2 f n
      where st: "uv_timer_stop lp a = Some (0, lp1)" "uv_timer_again lp1 a = Some (r, lp2)"
        and f: "tm_cb (lp_timers lp a) = Some f" and inv2: "loop_inv lp2" and t2: "lp_time lp2 = lp_time lp"
        and d2: "due lp2 = due lp - {a}"
        and ts2: "lp_timers lp2 = (lp_timers lp)(a := fired_timer (lp_time lp) n (lp_timers lp a))" by blast
    have "card (due lp2) < card (due lp)"
      using psubset_card_mono [OF due_finite [OF less.prems(1)], of "due lp2"] d2 a(2) by blast
    note shorter = this
    have "unat (lp_time lp2) < 2 ^ 64 - 1" using less.prems(2) t2 by simp
    from less.hyps [OF shorter inv2 this, of "g f a lp2 w", unfolded t2] obtain calls lp' ids
      where run: "uv__run_timers cb (g f a lp2 w) lp2 =
          Some (foldl (\<lambda>w (a, l). g (the (tm_cb (lp_timers lp2 a))) a l w) (g f a lp2 w) calls, lp')"
        and fired: "set (map fst calls) = due lp2" "distinct (map fst calls)"
          "sorted_wrt (\<lambda>a b. \<not> timer_less_than (lp_timers lp2) b a) (map fst calls)"
        and seen: "\<forall>(b, l) \<in> set calls. lp_timers l b = fired_timer (lp_time lp) (ids b) (lp_timers lp2 b)"
        and post: "loop_inv lp'" "due lp' = {}"
        and ts': "lp_timers lp' =
          (\<lambda>b. if b \<in> due lp2 then fired_timer (lp_time lp) (ids b) (lp_timers lp2 b) else lp_timers lp2 b)"
      by (elim exE conjE) (rule that; assumption)
    let ?calls = "(a, lp2) # calls" and ?ids = "ids(a := n)"
    have cbs: "tm_cb (lp_timers lp2 b) = tm_cb (lp_timers lp b)" for b by (simp add: ts2)
    have other: "b \<noteq> a \<and> lp_timers lp2 b = lp_timers lp b" if "b \<in> due lp2" for b
      using that d2 by (simp add: ts2)
    have run': "uv__run_timers cb w lp =
        Some (foldl (\<lambda>w (a, l). g (the (tm_cb (lp_timers lp a))) a l w) w ?calls, lp')"
      using a(1,3) st f run cb by (subst uv__run_timers.simps) (simp add: cbs)
    have fired': "set (map fst ?calls) = due lp" "distinct (map fst ?calls)" using fired(1,2) d2 a(2) by auto
    have sorted': "sorted_wrt (\<lambda>a b. \<not> timer_less_than (lp_timers lp) b a) (map fst ?calls)"
    proof -
      have "sorted_wrt (\<lambda>a b. \<not> timer_less_than (lp_timers lp) b a) (map fst calls)"
        by (rule sorted_wrt_mono_rel [OF _ fired(3)]) (simp add: timer_less_iff other fired(1) del: set_map)
      moreover have "\<not> timer_less_than (lp_timers lp) b a" if "b \<in> set (map fst calls)" for b
        using that least [of b] fired(1) d2 by simp
      ultimately show ?thesis by simp
    qed
    have seen': "\<forall>(b, l) \<in> set ?calls. lp_timers l b = fired_timer (lp_time lp) (?ids b) (lp_timers lp b)"
    proof -
      have "lp_timers l b = fired_timer (lp_time lp) (?ids b) (lp_timers lp b)" if "(b, l) \<in> set calls" for b l
      proof -
        have "b \<in> set (map fst calls)" using that by force
        then show ?thesis using that seen other [of b] fired(1) by auto
      qed
      then show ?thesis by (auto simp: ts2)
    qed
    have "lp_timers lp' =
        (\<lambda>b. if b \<in> due lp then fired_timer (lp_time lp) (?ids b) (lp_timers lp b) else lp_timers lp b)"
    proof (rule ext)
      fix b
      show "lp_timers lp' b =
          (if b \<in> due lp then fired_timer (lp_time lp) (?ids b) (lp_timers lp b) else lp_timers lp b)"
        using a(2) by (cases "b = a") (simp_all add: ts' ts2 d2)
    qed
    note facts = run' fired' sorted' seen' post this
    show ?thesis
      by (rule exI [of _ ?calls], rule exI [of _ lp'], rule exI [of _ ?ids]) (intro conjI facts)
  qed
qed

text \<open>
  C14. Timers fire in order, once each, and the loop ends. With callbacks that read the loop and act on a
  state of their own, but leave the loop as it is, \<open>uv__run_timers\<close> calls exactly the timers that are
  due, each once and with its own callback, by deadline and, among equal deadlines, in the order they
  were started. When a timer is called it has been stopped already, or, if it repeats, started
  again at the clamped sum of clock and repeat value; afterwards the due timers are in that state, all
  others are untouched, the loop is sound and no timer is due. The clock must not stand at its
  largest value, where the deadline of a repeating timer cannot move past it.
\<close>

theorem uv__run_timers_fires_in_order:
  assumes "loop_inv lp" and "unat (lp_time lp) < 2 ^ 64 - 1"
    and "\<And>f a w l. cb f a (w, l) = Some (g f a l w, l)"
  shows "\<exists>calls lp' ids.
    uv__run_timers cb w lp =
      Some (foldl (\<lambda>w (a, l). g (the (tm_cb (lp_timers lp a))) a l w) w calls, lp') \<and>
    set (map fst calls) = due lp \<and> distinct (map fst calls) \<and>
    sorted_wrt (\<lambda>a b. \<not> timer_less_than (lp_timers lp) b a) (map fst calls) \<and>
    (\<forall>(a, l) \<in> set calls. lp_timers l a = fired_timer (lp_time lp) (ids a) (lp_timers lp a)) \<and>
    loop_inv lp' \<and> due lp' = {} \<and>
    lp_timers lp' = (\<lambda>b. if b \<in> due lp then fired_timer (lp_time lp) (ids b) (lp_timers lp b) else lp_timers lp b)"
  by (rule run_timers_calls [OF assms(3,1,2)])

section \<open>A loop with timers\<close>

definition loop_zero :: uv_loop where
  "loop_zero = \<lparr>lp_time = 100, lp_timer_counter = 0, lp_active_handles = 0, lp_handle_queue = [],
     lp_timer_heap = heap_init heap_zero,
     lp_timers = \<lambda>a. \<lparr>tm_cb = None, tm_timeout = 0, tm_repeat = 0, tm_start_id = 0, tm_active = False,
       tm_ref = True, tm_closing = False, tm_closed = False\<rparr>\<rparr>"

lemma loop_zero_inv: "loop_inv loop_zero" "active_timers loop_zero = {}"
proof -
  show a: "active_timers loop_zero = {}" by (simp add: active_timers_def loop_zero_def)
  then show "loop_inv loop_zero" using heap_holds_init by (simp add: loop_inv_def) (simp add: loop_zero_def heap_holds_init)
qed

lemma loop_zero_started:
  obtains lp where "uv_timer_start loop_zero 7 (Some 1) 50 0 = Some (0, lp)" and "loop_inv lp"
    and "active_timers lp = {7}" and "lp_time lp = 100" and "tm_timeout (lp_timers lp 7) = 150"
proof -
  have "\<not> uv__is_closing loop_zero 7" "card (active_timers loop_zero - {7}) + 1 < 2 ^ 32"
    using loop_zero_inv(2) by (simp_all add: uv__is_closing_def, simp add: loop_zero_def)
  from timer_start_ok [OF loop_zero_inv(1) this(1) _ this(2), of "Some 1" 50 0] obtain lp
    where lp: "uv_timer_start loop_zero 7 (Some 1) 50 0 = Some (0, lp)" "loop_inv lp" "lp_time lp = lp_time loop_zero"
      and ts: "lp_timers lp = (lp_timers loop_zero)(7 := started loop_zero (Some 1) 50 0 (lp_timers loop_zero 7))"
    by blast
  have "active_timers lp = insert 7 (active_timers loop_zero)" by (auto simp: active_timers_def ts started_def)
  moreover have "tm_timeout (lp_timers lp 7) = 150" by (simp add: ts started_def clamp_add_def loop_zero_def)
  ultimately show thesis using that [OF lp(1,2)] lp(3) loop_zero_inv(2) by (simp add: loop_zero_def)
qed

theorem uv_timer_start_arms_witness:
  "uv_timer_start loop_zero 7 None 50 0 = Some (- 22, loop_zero) \<and>
   (\<exists>lp. uv_timer_start loop_zero 7 (Some 1) 50 0 = Some (0, lp) \<and> loop_inv lp \<and> active_timers lp = {7} \<and>
     tm_timeout (lp_timers lp 7) = 150 \<and> tm_start_id (lp_timers lp 7) = 0 \<and> lp_active_handles lp = 1)"
proof -
  have card: "card (active_timers loop_zero - {7}) + 1 < 2 ^ 32" using loop_zero_inv(2) by simp
  have "\<not> uv__is_closing loop_zero 7" by (simp add: uv__is_closing_def loop_zero_def)
  with uv_timer_start_arms [OF loop_zero_inv(1) card, of None 50 0]
    uv_timer_start_arms [OF loop_zero_inv(1) card, of "Some 1" 50 0] loop_zero_inv(2)
  show ?thesis by (auto simp: loop_zero_def)
qed

theorem uv_timer_stop_exact_witness:
  "\<exists>lp lp'. uv_timer_start loop_zero 7 (Some 1) 50 0 = Some (0, lp) \<and> active_timers lp = {7} \<and>
     uv_timer_stop lp 7 = Some (0, lp') \<and> loop_inv lp' \<and> active_timers lp' = {}"
proof (rule loop_zero_started)
  fix lp assume lp: "uv_timer_start loop_zero 7 (Some 1) 50 0 = Some (0, lp)" "loop_inv lp" "active_timers lp = {7}"
  from uv_timer_stop_exact [OF lp(2), of 7] lp(1,3) show ?thesis by auto
qed

theorem uv__next_timeout_exact_witness:
  "\<exists>lp. uv_timer_start loop_zero 7 (Some 1) 50 0 = Some (0, lp) \<and> uv__next_timeout lp = 50"
proof (rule loop_zero_started)
  fix lp assume lp: "uv_timer_start loop_zero 7 (Some 1) 50 0 = Some (0, lp)" "loop_inv lp" "active_timers lp = {7}"
    "lp_time lp = 100" "tm_timeout (lp_timers lp 7) = 150"
  from uv__next_timeout_exact [OF lp(2)] lp(1,3-5) show ?thesis by simp
qed

text \<open>
  Two timers that are due at the same time, the repeating one started second, and callbacks that log
  their number, the timer, and the deadline they find.
\<close>

lemma two_due:
  obtains lp1 lp where "uv_timer_start loop_zero 9 (Some 2) 0 0 = Some (0, lp1)"
    and "uv_timer_start lp1 7 (Some 1) 0 5 = Some (0, lp)" and "loop_inv lp" and "lp_time lp = 100"
    and "due lp = {7, 9}" and "timer_less_than (lp_timers lp) 9 7" and "active_timers lp = {7, 9}"
    and "tm_cb (lp_timers lp 7) = Some 1" "tm_cb (lp_timers lp 9) = Some 2"
    and "tm_repeat (lp_timers lp 7) = 5" "tm_repeat (lp_timers lp 9) = 0" "tm_timeout (lp_timers lp 9) = 100"
proof -
  have "\<not> uv__is_closing loop_zero 9" "card (active_timers loop_zero - {9}) + 1 < 2 ^ 32"
    using loop_zero_inv(2) by (simp_all add: uv__is_closing_def, simp add: loop_zero_def)
  from timer_start_ok [OF loop_zero_inv(1) this(1) _ this(2), of "Some 2" 0 0] obtain lp1
    where lp1: "uv_timer_start loop_zero 9 (Some 2) 0 0 = Some (0, lp1)" "loop_inv lp1"
        "lp_time lp1 = lp_time loop_zero" "lp_timer_counter lp1 = lp_timer_counter loop_zero + 1"
      and ts1: "lp_timers lp1 = (lp_timers loop_zero)(9 := started loop_zero (Some 2) 0 0 (lp_timers loop_zero 9))"
    by blast
  have a1: "active_timers lp1 = {9}" by (auto simp: active_timers_def ts1 started_def loop_zero_def)
  then have "card (active_timers lp1 - {7}) + 1 < 2 ^ 32" by simp
  moreover have "\<not> uv__is_closing lp1 7" by (simp add: uv__is_closing_def ts1) (simp add: loop_zero_def)
  ultimately obtain lp
    where lp: "uv_timer_start lp1 7 (Some 1) 0 5 = Some (0, lp)" "loop_inv lp" "lp_time lp = lp_time lp1"
      and ts: "lp_timers lp = (lp_timers lp1)(7 := started lp1 (Some 1) 0 5 (lp_timers lp1 7))"
    using timer_start_ok [OF lp1(2), of 7 "Some 1" 0 5] by blast
  have t9: "lp_timers lp 9 = started loop_zero (Some 2) 0 0 (lp_timers loop_zero 9)" by (simp add: ts ts1)
  have t7: "lp_timers lp 7 = started lp1 (Some 1) 0 5 (lp_timers loop_zero 7)" by (simp add: ts ts1)
  have clamp: "clamp_add 100 0 = 100" by (simp add: clamp_add_def)
  have time: "lp_time loop_zero = 100" "lp_timer_counter loop_zero = 0" by (simp_all add: loop_zero_def)
  have f9: "tm_timeout (lp_timers lp 9) = 100" "tm_start_id (lp_timers lp 9) = 0" "tm_active (lp_timers lp 9)"
    "tm_repeat (lp_timers lp 9) = 0" "tm_cb (lp_timers lp 9) = Some 2"
    unfolding t9 by (simp_all add: started_def time clamp)
  have f7: "tm_timeout (lp_timers lp 7) = 100" "tm_start_id (lp_timers lp 7) = 1" "tm_active (lp_timers lp 7)"
    "tm_repeat (lp_timers lp 7) = 5" "tm_cb (lp_timers lp 7) = Some 1"
    unfolding t7 by (simp_all add: started_def time clamp lp1(3,4))
  have act: "active_timers lp = {7, 9}"
    using a1 by (auto simp: active_timers_def ts started_def)
  then have "due lp = {7, 9}" using f7(1) f9(1) lp(3) lp1(3) time(1) by (auto simp: due_def act)
  moreover have "timer_less_than (lp_timers lp) 9 7" using f7 f9 by (simp add: timer_less_than_def)
  ultimately show thesis using that [OF lp1(1) lp(1,2)] lp(3) lp1(3) time(1) f7 f9 act by simp
qed

theorem uv__run_timers_fires_in_order_witness:
  "\<exists>lp1 lp lp'. uv_timer_start loop_zero 9 (Some 2) 0 0 = Some (0, lp1) \<and>
     uv_timer_start lp1 7 (Some 1) 0 5 = Some (0, lp) \<and>
     uv__run_timers (\<lambda>f a (w, l). Some (w @ [(f, a, tm_timeout (lp_timers l a))], l)) [] lp =
       Some ([(2, 9, 100), (1, 7, 105)], lp') \<and> active_timers lp' = {7}"
proof (rule two_due)
  fix lp1 lp
  assume lp: "uv_timer_start loop_zero 9 (Some 2) 0 0 = Some (0, lp1)" "uv_timer_start lp1 7 (Some 1) 0 5 = Some (0, lp)"
      "loop_inv lp" "lp_time lp = 100" "due lp = {7, 9}" "timer_less_than (lp_timers lp) 9 7"
    and act: "active_timers lp = {7, 9}"
    and t: "tm_cb (lp_timers lp 7) = Some 1" "tm_cb (lp_timers lp 9) = Some 2"
      "tm_repeat (lp_timers lp 7) = 5" "tm_repeat (lp_timers lp 9) = 0" "tm_timeout (lp_timers lp 9) = 100"
  let ?g = "\<lambda>(f :: nat) (a :: addr) (l :: uv_loop) w. w @ [(f, a, tm_timeout (lp_timers l a))]"
  let ?cb = "\<lambda>(f :: nat) (a :: addr) (w, l :: uv_loop). Some (w @ [(f, a, tm_timeout (lp_timers l a))], l)"
  have now: "unat (lp_time lp) < 2 ^ 64 - 1" by (simp add: lp(4))
  have "?cb f a (w, l) = Some (?g f a l w, l)" for f a w l by simp
  from uv__run_timers_fires_in_order [where cb = ?cb and g = ?g and w = "[]", OF lp(3) now this]
  obtain calls lp' ids
    where run: "uv__run_timers ?cb [] lp =
        Some (foldl (\<lambda>w (a, l). ?g (the (tm_cb (lp_timers lp a))) a l w) [] calls, lp')"
      and fired: "set (map fst calls) = {7, 9}" "distinct (map fst calls)"
        "sorted_wrt (\<lambda>a b. \<not> timer_less_than (lp_timers lp) b a) (map fst calls)"
      and seen: "\<forall>(a, l) \<in> set calls. lp_timers l a = fired_timer 100 (ids a) (lp_timers lp a)"
      and ts': "lp_timers lp' =
        (\<lambda>b. if b \<in> {7, 9} then fired_timer 100 (ids b) (lp_timers lp b) else lp_timers lp b)"
    unfolding lp(4,5) by (elim exE conjE) (rule that; assumption)
  have "length calls = 2" using distinct_card [OF fired(2)] fired(1) by simp
  then obtain x y where "calls = [x, y]" by (auto simp: length_Suc_conv numeral_2_eq_2)
  moreover obtain a l b k where "x = (a, l)" "y = (b, k)" by fastforce
  ultimately have calls: "calls = [(a, l), (b, k)]" by simp
  have "a = 9" "b = 7" using fired lp(6) unfolding calls by (auto simp: doubleton_eq_iff)
  with calls have calls: "calls = [(9, l), (7, k)]" by simp
  have "tm_timeout (lp_timers l 9) = 100" "tm_timeout (lp_timers k 7) = 105"
    using seen t unfolding calls by (simp_all add: fired_timer_def)
  then have "foldl (\<lambda>w (a, l). ?g (the (tm_cb (lp_timers lp a))) a l w) [] calls = [(2, 9, 100), (1, 7, 105)]"
    using t unfolding calls by simp
  moreover have "active_timers lp' = {7}"
  proof -
    have "tm_active (lp_timers lp b) \<longleftrightarrow> b = 7 \<or> b = 9" for b
      using act by (auto simp: active_timers_def)
    then show ?thesis using t unfolding active_timers_def ts' by (auto simp: fired_timer_def)
  qed
  ultimately show ?thesis using run lp(1,2) by auto
qed

end
