(* ===== verification/Threadpool.thy ===== *)
theory Threadpool
  imports Prelude "HOL-Library.Multiset"
begin

text \<open>
  The worker threads of libuv (\<^verbatim>\<open>src/threadpool.c\<close>) as a state machine. Every critical section of the
  code, under the global mutex or under the mutex of a loop, is one atomic step, and the steps of the
  workers, of the threads that submit and cancel work, and of the loops that collect it interleave in
  any order. A wait on the condition variable ends by a signal or spuriously; a signal wakes one waiting
  thread, any one, when there is one. The counters are natural numbers: the invariant bounds them
  by the number of threads, which is at most 1024.
\<close>

section \<open>State\<close>

text \<open>
  An entry of the global queue \<open>wq\<close>, where \<open>MWork w\<close> is the queue node of the request \<open>w\<close>; the field
  \<open>work\<close> of a request; the states of a worker: before the locked loop, waiting, woken but not yet
  holding the mutex, with a request to execute, having executed it, having handed it to its loop.
\<close>

datatype qmsg = MExit | MSlow | MWork nat
datatype uv__work_kind = UV__WORK_CPU | UV__WORK_FAST_IO | UV__WORK_SLOW_IO
datatype work_fn = WNull | WFun | WCancelled
datatype thread_state =
  TReady | TWaiting | TWoken | TRun nat bool | TFinish nat bool | TRelock bool | TExited

record uv__work =
  wk_loop :: nat
  wk_fn :: work_fn
  wk_linked :: bool

record pool =
  tp_wq :: "qmsg list"
  tp_slow_pending :: "nat list"
  tp_idle :: nat
  tp_slow_running :: nat
  tp_nthreads :: nat
  tp_threads :: "thread_state list"
  tp_works :: "nat \<Rightarrow> uv__work"
  tp_cancelling :: "nat list"
  tp_loop_wq :: "(nat \<times> nat) list"
  tp_local :: "(nat \<times> nat) list"
  tp_aborted :: bool

text \<open>
  \<open>tp_loop_wq\<close> holds the queues of all loops, \<open>(l, w)\<close> for the request \<open>w\<close> in the queue of \<open>l\<close>;
  \<open>tp_local\<close> what \<open>uv__work_done\<close> has moved out of them. The history records submissions, executions
  and completions with their status; it is not part of the program.
\<close>

record history =
  hs_submitted :: "nat list"
  hs_ran :: "nat list"
  hs_done :: "(nat \<times> int) list"

text \<open>The error numbers of Darwin, the platform of the application.\<close>

abbreviation (input) UV_EBUSY :: int where "UV_EBUSY \<equiv> - 16"
abbreviation (input) UV_ECANCELED :: int where "UV_ECANCELED \<equiv> - 89"
abbreviation (input) MAX_THREADPOOL_SIZE :: nat where "MAX_THREADPOOL_SIZE \<equiv> 1024"

definition upd_work :: "nat \<Rightarrow> (uv__work \<Rightarrow> uv__work) \<Rightarrow> pool \<Rightarrow> pool" where
  "upd_work w f s = s\<lparr>tp_works := (tp_works s)(w := f (tp_works s w))\<rparr>"

definition set_thread :: "nat \<Rightarrow> thread_state \<Rightarrow> pool \<Rightarrow> pool" where
  "set_thread t st s = s\<lparr>tp_threads := (tp_threads s)[t := st]\<rparr>"

section \<open>Operations\<close>

text \<open>\<open>val\<close> is the result of \<open>atoi\<close> on the environment variable when it is set.\<close>

definition init_threads :: "int option \<Rightarrow> bool \<Rightarrow> pool \<Rightarrow> pool" where
  "init_threads val malloc_ok s =
     (let n0 = (case val of None \<Rightarrow> 4 | Some v \<Rightarrow> nat (v mod 2 ^ 32));
          n1 = (if n0 = 0 then 1 else n0);
          n2 = (if n1 > MAX_THREADPOOL_SIZE then MAX_THREADPOOL_SIZE else n1);
          n3 = (if n2 > 4 \<and> \<not> malloc_ok then 4 else n2)
      in s\<lparr>tp_nthreads := n3, tp_wq := [], tp_slow_pending := [],
           tp_threads := replicate n3 TReady\<rparr>)"

definition slow_work_thread_threshold :: "pool \<Rightarrow> nat" where
  "slow_work_thread_threshold s = (tp_nthreads s + 1) div 2"

text \<open>The waiting thread that a signal wakes is \<open>k\<close> when \<open>k\<close> waits, and the first one otherwise.\<close>

fun first_waiting :: "thread_state list \<Rightarrow> nat option" where
  "first_waiting [] = None"
| "first_waiting (t # ts) = (if t = TWaiting then Some 0 else map_option Suc (first_waiting ts))"

definition uv_cond_signal :: "nat \<Rightarrow> pool \<Rightarrow> pool" where
  "uv_cond_signal k s =
     (if k < length (tp_threads s) \<and> tp_threads s ! k = TWaiting then set_thread k TWoken s
      else case first_waiting (tp_threads s) of
        None \<Rightarrow> s
      | Some j \<Rightarrow> set_thread j TWoken s)"

text \<open>The condition under which a worker waits.\<close>

definition must_wait :: "pool \<Rightarrow> bool" where
  "must_wait s \<longleftrightarrow> tp_wq s = [] \<or>
     (tp_wq s = [MSlow] \<and> tp_slow_running s \<ge> slow_work_thread_threshold s)"

definition post :: "nat \<Rightarrow> qmsg \<Rightarrow> uv__work_kind \<Rightarrow> pool \<Rightarrow> pool" where
  "post k q kind s =
     (let insert_wq = (\<lambda>m s. let s1 = s\<lparr>tp_wq := tp_wq s @ [m]\<rparr>
                              in if tp_idle s1 > 0 then uv_cond_signal k s1 else s1)
      in if kind = UV__WORK_SLOW_IO
         then let s1 = (case q of
                          MWork w \<Rightarrow> (upd_work w (\<lambda>r. r\<lparr>wk_linked := True\<rparr>) s)
                                       \<lparr>tp_slow_pending := tp_slow_pending s @ [w]\<rparr>
                        | _ \<Rightarrow> s)
              in if MSlow \<in> set (tp_wq s1) then s1 else insert_wq MSlow s1
         else let s1 = (case q of MWork w \<Rightarrow> upd_work w (\<lambda>r. r\<lparr>wk_linked := True\<rparr>) s | _ \<Rightarrow> s)
              in insert_wq q s1)"

text \<open>
  One pass of a worker through its locked section, from the head of the loop to the wait, to the
  \<open>continue\<close>, to the unlock before the work, or to the exit.
\<close>

definition worker_section :: "nat \<Rightarrow> nat \<Rightarrow> pool \<Rightarrow> pool" where
  "worker_section k t s0 =
     (let s = (if tp_threads s0 ! t = TWoken then s0\<lparr>tp_idle := tp_idle s0 - 1\<rparr> else s0)
      in if must_wait s then set_thread t TWaiting (s\<lparr>tp_idle := tp_idle s + 1\<rparr>)
         else (case tp_wq s of
           [] \<Rightarrow> s
         | MExit # rest \<Rightarrow> set_thread t TExited (uv_cond_signal k s)
         | MWork w # rest \<Rightarrow>
             set_thread t (TRun w False) (upd_work w (\<lambda>r. r\<lparr>wk_linked := False\<rparr>) (s\<lparr>tp_wq := rest\<rparr>))
         | MSlow # rest \<Rightarrow>
             let s1 = s\<lparr>tp_wq := rest\<rparr>
             in if tp_slow_running s1 \<ge> slow_work_thread_threshold s1
                then set_thread t TReady (s1\<lparr>tp_wq := tp_wq s1 @ [MSlow]\<rparr>)
                else (case tp_slow_pending s1 of
                  [] \<Rightarrow> set_thread t TReady s1
                | w # others \<Rightarrow>
                    let s2 = upd_work w (\<lambda>r. r\<lparr>wk_linked := False\<rparr>)
                               (s1\<lparr>tp_slow_running := tp_slow_running s1 + 1, tp_slow_pending := others\<rparr>);
                        s3 = set_thread t (TRun w True) s2
                    in if others \<noteq> []
                       then let s4 = s3\<lparr>tp_wq := tp_wq s3 @ [MSlow]\<rparr>
                            in if tp_idle s4 > 0 then uv_cond_signal k s4 else s4
                       else s3)))"

text \<open>Calling \<open>w->work\<close>; \<open>uv__cancelled\<close> aborts the process and a null pointer is a fault.\<close>

definition worker_exec :: "nat \<Rightarrow> nat \<Rightarrow> bool \<Rightarrow> pool \<Rightarrow> pool" where
  "worker_exec t w slow s =
     (if wk_fn (tp_works s w) = WFun then set_thread t (TFinish w slow) s
      else s\<lparr>tp_aborted := True\<rparr>)"

definition worker_finish :: "nat \<Rightarrow> nat \<Rightarrow> bool \<Rightarrow> pool \<Rightarrow> pool" where
  "worker_finish t w slow s =
     set_thread t (TRelock slow)
       ((upd_work w (\<lambda>r. r\<lparr>wk_fn := WNull, wk_linked := True\<rparr>) s)
          \<lparr>tp_loop_wq := tp_loop_wq s @ [(wk_loop (tp_works s w), w)]\<rparr>)"

definition worker_relock :: "nat \<Rightarrow> bool \<Rightarrow> pool \<Rightarrow> pool" where
  "worker_relock t slow s =
     set_thread t TReady (if slow then s\<lparr>tp_slow_running := tp_slow_running s - 1\<rparr> else s)"

definition uv__work_submit :: "nat \<Rightarrow> nat \<Rightarrow> nat \<Rightarrow> uv__work_kind \<Rightarrow> pool \<Rightarrow> pool" where
  "uv__work_submit k l w kind s =
     post k (MWork w) kind (upd_work w (\<lambda>r. r\<lparr>wk_loop := l, wk_fn := WFun\<rparr>) s)"

text \<open>
  The locked part of \<open>uv__work_cancel\<close> unlinks the request from whichever queue it is in; the second
  part hands it to the loop. The result of the first part is the value that the function returns. The
  assignment of \<open>uv__cancelled\<close> follows the unlock in the code; it is part of the first step here,
  because no other thread reads the field of a request that is in no queue.
\<close>

definition uv__work_cancel :: "nat \<Rightarrow> pool \<Rightarrow> int \<times> pool" where
  "uv__work_cancel w s =
     (if wk_linked (tp_works s w) \<and> wk_fn (tp_works s w) \<noteq> WNull
      then (0, upd_work w (\<lambda>r. r\<lparr>wk_fn := WCancelled\<rparr>)
                 (s\<lparr>tp_wq := removeAll (MWork w) (tp_wq s),
                    tp_slow_pending := removeAll w (tp_slow_pending s),
                    tp_loop_wq := filter (\<lambda>(l, v). v \<noteq> w) (tp_loop_wq s),
                    tp_local := filter (\<lambda>(l, v). v \<noteq> w) (tp_local s),
                    tp_cancelling := tp_cancelling s @ [w]\<rparr>))
      else (UV_EBUSY, s))"

definition uv__work_cancel_push :: "nat \<Rightarrow> pool \<Rightarrow> pool" where
  "uv__work_cancel_push w s =
     s\<lparr>tp_cancelling := remove1 w (tp_cancelling s),
       tp_loop_wq := tp_loop_wq s @ [(wk_loop (tp_works s w), w)]\<rparr>"

datatype uv_req_type =
  UV_UNKNOWN_REQ | UV_REQ | UV_CONNECT | UV_WRITE | UV_SHUTDOWN | UV_UDP_SEND | UV_FS | UV_WORK
| UV_GETADDRINFO | UV_GETNAMEINFO | UV_RANDOM | UV_REQ_TYPE_MAX

definition uv_cancel :: "uv_req_type \<Rightarrow> nat \<Rightarrow> pool \<Rightarrow> int \<times> pool" where
  "uv_cancel ty w s =
     (if ty = UV_FS \<or> ty = UV_GETADDRINFO \<or> ty = UV_GETNAMEINFO \<or> ty = UV_RANDOM \<or> ty = UV_WORK
      then uv__work_cancel w s else (- 22, s))"

definition uv_queue_work :: "nat \<Rightarrow> nat \<Rightarrow> nat \<Rightarrow> nat option \<Rightarrow> pool \<Rightarrow> int \<times> pool" where
  "uv_queue_work k l w work_cb s =
     (if work_cb = None then (- 22, s) else (0, uv__work_submit k l w UV__WORK_CPU s))"

text \<open>\<open>uv__work_done\<close>: the move of the loop's queue, and one round of the loop over it.\<close>

definition work_done_move :: "nat \<Rightarrow> pool \<Rightarrow> pool" where
  "work_done_move l s =
     s\<lparr>tp_local := tp_local s @ filter (\<lambda>(l', w). l' = l) (tp_loop_wq s),
       tp_loop_wq := filter (\<lambda>(l', w). l' \<noteq> l) (tp_loop_wq s)\<rparr>"

definition work_done_one :: "nat \<Rightarrow> pool \<Rightarrow> ((nat \<times> int) \<times> pool) option" where
  "work_done_one l s =
     (case filter (\<lambda>(l', w). l' = l) (tp_local s) of
        [] \<Rightarrow> None
      | (l', w) # rest \<Rightarrow>
          Some ((w, if wk_fn (tp_works s w) = WCancelled then UV_ECANCELED else 0),
                s\<lparr>tp_local := remove1 (l', w) (tp_local s)\<rparr>))"

section \<open>The transition system\<close>

text \<open>
  The events name the thread and the choices of the environment. A request is submitted only while it
  is not in the system, as the code requires of its callers, and cancelled only while it is, by the
  thread that runs its loop, which cannot be in the middle of another cancellation of it. The exit
  message is posted by the destructor of the library, once.
\<close>

datatype event =
  ESection nat nat | ESpurious nat | EExec nat | EFinish nat | ERelock nat
| ESubmit nat nat nat uv__work_kind | ECancel nat | ECancelPush nat | EMove nat | EDone nat | EExit nat

fun wq_works :: "qmsg list \<Rightarrow> nat multiset" where
  "wq_works [] = {#}"
| "wq_works (MWork w # q) = add_mset w (wq_works q)"
| "wq_works (m # q) = wq_works q"

fun thread_work :: "thread_state \<Rightarrow> nat multiset" where
  "thread_work (TRun w b) = {#w#}"
| "thread_work (TFinish w b) = {#w#}"
| "thread_work st = {#}"

definition busy :: "pool \<Rightarrow> nat multiset" where
  "busy s = sum_list (map thread_work (tp_threads s))"

definition queued :: "pool \<Rightarrow> nat multiset" where
  "queued s = wq_works (tp_wq s) + mset (tp_slow_pending s)"

definition collected :: "pool \<Rightarrow> nat multiset" where
  "collected s = mset (map snd (tp_loop_wq s)) + mset (map snd (tp_local s))"

definition in_flight :: "pool \<Rightarrow> nat multiset" where
  "in_flight s = queued s + busy s + mset (tp_cancelling s) + collected s"

fun pool_step :: "event \<Rightarrow> pool \<times> history \<Rightarrow> (pool \<times> history) option" where
  "pool_step (ESection k t) (s, h) =
     (if t < length (tp_threads s) \<and> (tp_threads s ! t = TReady \<or> tp_threads s ! t = TWoken)
      then Some (worker_section k t s, h) else None)"
| "pool_step (ESpurious t) (s, h) =
     (if t < length (tp_threads s) \<and> tp_threads s ! t = TWaiting
      then Some (set_thread t TWoken s, h) else None)"
| "pool_step (EExec t) (s, h) =
     (if t < length (tp_threads s)
      then case tp_threads s ! t of
             TRun w slow \<Rightarrow> Some (worker_exec t w slow s, h\<lparr>hs_ran := hs_ran h @ [w]\<rparr>)
           | _ \<Rightarrow> None
      else None)"
| "pool_step (EFinish t) (s, h) =
     (if t < length (tp_threads s)
      then case tp_threads s ! t of TFinish w slow \<Rightarrow> Some (worker_finish t w slow s, h) | _ \<Rightarrow> None
      else None)"
| "pool_step (ERelock t) (s, h) =
     (if t < length (tp_threads s)
      then case tp_threads s ! t of TRelock slow \<Rightarrow> Some (worker_relock t slow s, h) | _ \<Rightarrow> None
      else None)"
| "pool_step (ESubmit k l w kind) (s, h) =
     (if w \<in># in_flight s then None
      else Some (uv__work_submit k l w kind s, h\<lparr>hs_submitted := hs_submitted h @ [w]\<rparr>))"
| "pool_step (ECancel w) (s, h) =
     (if w \<in># in_flight s \<and> w \<notin> set (tp_cancelling s) then Some (snd (uv__work_cancel w s), h) else None)"
| "pool_step (ECancelPush w) (s, h) =
     (if w \<in> set (tp_cancelling s) then Some (uv__work_cancel_push w s, h) else None)"
| "pool_step (EMove l) (s, h) = Some (work_done_move l s, h)"
| "pool_step (EDone l) (s, h) =
     (case work_done_one l s of
        None \<Rightarrow> None
      | Some (d, s') \<Rightarrow> Some (s', h\<lparr>hs_done := hs_done h @ [d]\<rparr>))"
| "pool_step (EExit k) (s, h) =
     (if MExit \<in> set (tp_wq s) then None else Some (post k MExit UV__WORK_CPU s, h))"

definition pool_start :: "int option \<Rightarrow> bool \<Rightarrow> pool \<times> history" where
  "pool_start val malloc_ok =
     (init_threads val malloc_ok
        \<lparr>tp_wq = [], tp_slow_pending = [], tp_idle = 0, tp_slow_running = 0, tp_nthreads = 0,
         tp_threads = [], tp_works = \<lambda>w. \<lparr>wk_loop = 0, wk_fn = WNull, wk_linked = False\<rparr>,
         tp_cancelling = [], tp_loop_wq = [], tp_local = [], tp_aborted = False\<rparr>,
      \<lparr>hs_submitted = [], hs_ran = [], hs_done = []\<rparr>)"

inductive pool_reach :: "pool \<times> history \<Rightarrow> bool" where
  start: "pool_reach (pool_start val malloc_ok)"
| step: "pool_reach x \<Longrightarrow> pool_step e x = Some y \<Longrightarrow> pool_reach y"

lemma pool_reach_inv:
  assumes "\<And>val ok. P (pool_start val ok)"
    and "\<And>e x y. P x \<Longrightarrow> pool_step e x = Some y \<Longrightarrow> P y"
    and "pool_reach x"
  shows "P x"
  using assms(3) by (induction rule: pool_reach.induct) (use assms(1,2) in blast)+

section \<open>Sums over the threads\<close>

lemma tsum_upd:
  fixes f :: "thread_state \<Rightarrow> 'm::cancel_comm_monoid_add"
  assumes "t < length ts"
  shows "sum_list (map f (ts[t := x])) + f (ts ! t) = sum_list (map f ts) + f x"
  using assms
proof (induction ts arbitrary: t)
  case (Cons y ts)
  show ?case
  proof (cases t)
    case (Suc u)
    then have "sum_list (map f (ts[u := x])) + f (ts ! u) = sum_list (map f ts) + f x" using Cons by simp
    then show ?thesis using Suc by (simp add: add.assoc)
  qed (simp add: ac_simps)
qed simp

lemma set_thread_sel [simp]:
  "tp_threads (set_thread t x s) = (tp_threads s)[t := x]" "tp_wq (set_thread t x s) = tp_wq s"
  "tp_slow_pending (set_thread t x s) = tp_slow_pending s" "tp_idle (set_thread t x s) = tp_idle s"
  "tp_slow_running (set_thread t x s) = tp_slow_running s" "tp_nthreads (set_thread t x s) = tp_nthreads s"
  "tp_works (set_thread t x s) = tp_works s" "tp_cancelling (set_thread t x s) = tp_cancelling s"
  "tp_loop_wq (set_thread t x s) = tp_loop_wq s" "tp_local (set_thread t x s) = tp_local s"
  "tp_aborted (set_thread t x s) = tp_aborted s"
  by (simp_all add: set_thread_def)

lemma upd_work_sel [simp]:
  "tp_threads (upd_work w f s) = tp_threads s" "tp_wq (upd_work w f s) = tp_wq s"
  "tp_slow_pending (upd_work w f s) = tp_slow_pending s" "tp_idle (upd_work w f s) = tp_idle s"
  "tp_slow_running (upd_work w f s) = tp_slow_running s" "tp_nthreads (upd_work w f s) = tp_nthreads s"
  "tp_works (upd_work w f s) = (tp_works s)(w := f (tp_works s w))" "tp_cancelling (upd_work w f s) = tp_cancelling s"
  "tp_loop_wq (upd_work w f s) = tp_loop_wq s" "tp_local (upd_work w f s) = tp_local s"
  "tp_aborted (upd_work w f s) = tp_aborted s"
  by (simp_all add: upd_work_def)

lemma first_waiting_Some: "first_waiting ts = Some j \<Longrightarrow> j < length ts \<and> ts ! j = TWaiting"
  by (induction ts arbitrary: j) (auto split: if_splits)

lemma first_waiting_None: "first_waiting ts = None \<longleftrightarrow> TWaiting \<notin> set ts"
  by (induction ts) auto

lemma signal_disj:
  "uv_cond_signal k s = s \<and> TWaiting \<notin> set (tp_threads s) \<or>
   (\<exists>j. uv_cond_signal k s = set_thread j TWoken s \<and> j < length (tp_threads s) \<and> tp_threads s ! j = TWaiting)"
proof (cases "k < length (tp_threads s) \<and> tp_threads s ! k = TWaiting")
  case False
  then show ?thesis
    using first_waiting_Some [of "tp_threads s"] first_waiting_None [of "tp_threads s"]
    by (cases "first_waiting (tp_threads s)") (auto simp: uv_cond_signal_def)
qed (auto simp: uv_cond_signal_def)

lemma signal_cases:
  obtains "uv_cond_signal k s = s" "TWaiting \<notin> set (tp_threads s)"
  | j where "uv_cond_signal k s = set_thread j TWoken s" "j < length (tp_threads s)" "tp_threads s ! j = TWaiting"
  using signal_disj by blast

lemma signal_sel [simp]:
  "tp_wq (uv_cond_signal k s) = tp_wq s"
  "tp_slow_pending (uv_cond_signal k s) = tp_slow_pending s" "tp_idle (uv_cond_signal k s) = tp_idle s"
  "tp_slow_running (uv_cond_signal k s) = tp_slow_running s" "tp_nthreads (uv_cond_signal k s) = tp_nthreads s"
  "tp_works (uv_cond_signal k s) = tp_works s" "tp_cancelling (uv_cond_signal k s) = tp_cancelling s"
  "tp_loop_wq (uv_cond_signal k s) = tp_loop_wq s" "tp_local (uv_cond_signal k s) = tp_local s"
  "tp_aborted (uv_cond_signal k s) = tp_aborted s"
  by (rule signal_cases [of k s]; simp)+

lemma signal_length [simp]: "length (tp_threads (uv_cond_signal k s)) = length (tp_threads s)"
  by (rule signal_cases [of k s]) simp_all

lemma signal_nth:
  "t < length (tp_threads s) \<Longrightarrow> tp_threads s ! t \<noteq> TWaiting \<Longrightarrow> tp_threads (uv_cond_signal k s) ! t = tp_threads s ! t"
  by (rule signal_cases [of k s]) (auto simp: nth_list_update)

lemma signal_sum:
  fixes f :: "thread_state \<Rightarrow> 'm::cancel_comm_monoid_add"
  assumes "f TWaiting = f TWoken"
  shows "sum_list (map f (tp_threads (uv_cond_signal k s))) = sum_list (map f (tp_threads s))"
proof (rule signal_cases [of k s])
  fix j assume j: "uv_cond_signal k s = set_thread j TWoken s" "j < length (tp_threads s)" "tp_threads s ! j = TWaiting"
  have "sum_list (map f ((tp_threads s)[j := TWoken])) + f TWaiting = sum_list (map f (tp_threads s)) + f TWoken"
    using tsum_upd [OF j(2), of f TWoken] j(3) by simp
  then show ?thesis using j(1) assms by simp
qed simp


section \<open>The outcomes of a locked section\<close>

definition wake :: "nat \<Rightarrow> pool \<Rightarrow> pool" where
  "wake t s = (if tp_threads s ! t = TWoken then s\<lparr>tp_idle := tp_idle s - 1\<rparr> else s)"

lemma wake_sel [simp]:
  "tp_threads (wake t s) = tp_threads s" "tp_wq (wake t s) = tp_wq s"
  "tp_slow_pending (wake t s) = tp_slow_pending s"
  "tp_slow_running (wake t s) = tp_slow_running s" "tp_nthreads (wake t s) = tp_nthreads s"
  "tp_works (wake t s) = tp_works s" "tp_cancelling (wake t s) = tp_cancelling s"
  "tp_loop_wq (wake t s) = tp_loop_wq s" "tp_local (wake t s) = tp_local s"
  "tp_aborted (wake t s) = tp_aborted s"
  by (simp_all add: wake_def)

lemma must_wait_wake [simp]: "must_wait (wake t s) = must_wait s"
  by (simp add: must_wait_def slow_work_thread_threshold_def)

text \<open>The state in which a worker has taken slow work, before it schedules the rest.\<close>

definition take_slow :: "nat \<Rightarrow> nat \<Rightarrow> nat list \<Rightarrow> qmsg list \<Rightarrow> pool \<Rightarrow> pool" where
  "take_slow t w others rest s =
     set_thread t (TRun w True) (upd_work w (\<lambda>r. r\<lparr>wk_linked := False\<rparr>)
       (s\<lparr>tp_wq := rest, tp_slow_running := tp_slow_running s + 1, tp_slow_pending := others\<rparr>))"

lemma section_cases:
  obtains (wait) "must_wait s" "worker_section k t s = set_thread t TWaiting ((wake t s)\<lparr>tp_idle := tp_idle (wake t s) + 1\<rparr>)"
  | (exit) rest where "\<not> must_wait s" "tp_wq s = MExit # rest"
      "worker_section k t s = set_thread t TExited (uv_cond_signal k (wake t s))"
  | (run) w rest where "\<not> must_wait s" "tp_wq s = MWork w # rest"
      "worker_section k t s =
        set_thread t (TRun w False) (upd_work w (\<lambda>r. r\<lparr>wk_linked := False\<rparr>) ((wake t s)\<lparr>tp_wq := rest\<rparr>))"
  | (busy_slow) rest where "\<not> must_wait s" "tp_wq s = MSlow # rest" "tp_slow_running s \<ge> slow_work_thread_threshold s"
      "worker_section k t s = set_thread t TReady ((wake t s)\<lparr>tp_wq := rest @ [MSlow]\<rparr>)"
  | (no_slow) rest where "\<not> must_wait s" "tp_wq s = MSlow # rest" "tp_slow_running s < slow_work_thread_threshold s"
      "tp_slow_pending s = []" "worker_section k t s = set_thread t TReady ((wake t s)\<lparr>tp_wq := rest\<rparr>)"
  | (last_slow) w rest where "\<not> must_wait s" "tp_wq s = MSlow # rest" "tp_slow_running s < slow_work_thread_threshold s"
      "tp_slow_pending s = [w]" "worker_section k t s = take_slow t w [] rest (wake t s)"
  | (more_slow) w others rest s' where "\<not> must_wait s" "tp_wq s = MSlow # rest"
      "tp_slow_running s < slow_work_thread_threshold s" "tp_slow_pending s = w # others" "others \<noteq> []"
      "s' = (take_slow t w others rest (wake t s))\<lparr>tp_wq := rest @ [MSlow]\<rparr>"
      "worker_section k t s = (if tp_idle s' > 0 then uv_cond_signal k s' else s')"
proof (cases "must_wait s")
  case True
  then show ?thesis using wait by (simp add: worker_section_def wake_def [symmetric] Let_def)
next
  case nw: False
  note unfold = worker_section_def wake_def [symmetric] Let_def
  show ?thesis
  proof (cases "tp_wq s")
    case Nil
    then show ?thesis using nw by (simp add: must_wait_def)
  next
    case (Cons m rest)
    show ?thesis
    proof (cases m)
      case MExit
      then show ?thesis using exit [of rest] nw Cons by (simp add: unfold)
    next
      case (MWork w)
      then show ?thesis using run [of w rest] nw Cons by (simp add: unfold)
    next
      case MSlow
      show ?thesis
      proof (cases "tp_slow_running s \<ge> slow_work_thread_threshold s")
        case True
        then show ?thesis using busy_slow [of rest] nw Cons MSlow
          by (simp add: unfold slow_work_thread_threshold_def)
      next
        case False
        show ?thesis
        proof (cases "tp_slow_pending s")
          case Nil
          then show ?thesis using no_slow [of rest] nw Cons MSlow False
            by (simp add: unfold slow_work_thread_threshold_def)
        next
          case p: (Cons w others)
          show ?thesis
          proof (cases "others = []")
            case True
            then show ?thesis using last_slow [of rest w] nw Cons MSlow False p
              by (simp add: unfold slow_work_thread_threshold_def take_slow_def)
          next
            case False
            then show ?thesis
              using more_slow [of rest w others] nw Cons MSlow \<open>\<not> tp_slow_running s \<ge> slow_work_thread_threshold s\<close> p
              by (simp add: unfold slow_work_thread_threshold_def take_slow_def set_thread_def upd_work_def)
          qed
        qed
      qed
    qed
  qed
qed
end
