(* ===== verification/ThreadpoolInv.thy ===== *)
theory ThreadpoolInv
  imports Threadpool
begin

text \<open>
  The thread pool keeps its promises under every interleaving of the threads: the invariants of the
  transition system of theory Threadpool, each preserved by every step and so true in every reachable
  state, and the properties that follow: requests are completed exactly once, the counters count, no
  wake-up is lost, and a cancellation is answered by where the request is.
\<close>

section \<open>The outcomes of a submission\<close>

definition enqueue :: "nat \<Rightarrow> qmsg \<Rightarrow> pool \<Rightarrow> pool" where
  "enqueue k m s =
     (let s1 = s\<lparr>tp_wq := tp_wq s @ [m]\<rparr> in if tp_idle s1 > 0 then uv_cond_signal k s1 else s1)"

lemma enqueue_sel [simp]:
  "tp_wq (enqueue k m s) = tp_wq s @ [m]"
  "tp_slow_pending (enqueue k m s) = tp_slow_pending s" "tp_idle (enqueue k m s) = tp_idle s"
  "tp_slow_running (enqueue k m s) = tp_slow_running s" "tp_nthreads (enqueue k m s) = tp_nthreads s"
  "tp_works (enqueue k m s) = tp_works s" "tp_cancelling (enqueue k m s) = tp_cancelling s"
  "tp_loop_wq (enqueue k m s) = tp_loop_wq s" "tp_local (enqueue k m s) = tp_local s"
  "tp_aborted (enqueue k m s) = tp_aborted s" "length (tp_threads (enqueue k m s)) = length (tp_threads s)"
  by (simp_all add: enqueue_def Let_def)

lemma enqueue_sum:
  fixes f :: "thread_state \<Rightarrow> 'm::cancel_comm_monoid_add"
  assumes "f TWaiting = f TWoken"
  shows "sum_list (map f (tp_threads (enqueue k m s))) = sum_list (map f (tp_threads s))"
  using signal_sum [of f k "s\<lparr>tp_wq := tp_wq s @ [m]\<rparr>", OF assms] by (simp add: enqueue_def Let_def)

definition fresh_work :: "nat \<Rightarrow> nat \<Rightarrow> pool \<Rightarrow> pool" where
  "fresh_work l w s = upd_work w (\<lambda>r. r\<lparr>wk_loop := l, wk_fn := WFun, wk_linked := True\<rparr>) s"

lemma fresh_work_sel [simp]:
  "tp_threads (fresh_work l w s) = tp_threads s" "tp_wq (fresh_work l w s) = tp_wq s"
  "tp_slow_pending (fresh_work l w s) = tp_slow_pending s" "tp_idle (fresh_work l w s) = tp_idle s"
  "tp_slow_running (fresh_work l w s) = tp_slow_running s" "tp_nthreads (fresh_work l w s) = tp_nthreads s"
  "tp_works (fresh_work l w s) = (tp_works s)(w := (tp_works s w)\<lparr>wk_loop := l, wk_fn := WFun, wk_linked := True\<rparr>)"
  "tp_cancelling (fresh_work l w s) = tp_cancelling s"
  "tp_loop_wq (fresh_work l w s) = tp_loop_wq s" "tp_local (fresh_work l w s) = tp_local s"
  "tp_aborted (fresh_work l w s) = tp_aborted s"
  by (simp_all add: fresh_work_def)

lemma submit_cases:
  obtains (plain) "kind \<noteq> UV__WORK_SLOW_IO" "uv__work_submit k l w kind s = enqueue k (MWork w) (fresh_work l w s)"
  | (scheduled) "MSlow \<in> set (tp_wq s)"
      "uv__work_submit k l w kind s = (fresh_work l w s)\<lparr>tp_slow_pending := tp_slow_pending s @ [w]\<rparr>"
  | (schedule) "MSlow \<notin> set (tp_wq s)"
      "uv__work_submit k l w kind s =
         enqueue k MSlow ((fresh_work l w s)\<lparr>tp_slow_pending := tp_slow_pending s @ [w]\<rparr>)"
proof -
  have u: "upd_work w (\<lambda>r. r\<lparr>wk_linked := True\<rparr>) (upd_work w (\<lambda>r. r\<lparr>wk_loop := l, wk_fn := WFun\<rparr>) s) = fresh_work l w s"
    by (simp add: upd_work_def fresh_work_def)
  show ?thesis
    using plain scheduled schedule
    by (cases "kind = UV__WORK_SLOW_IO"; cases "MSlow \<in> set (tp_wq s)")
      (simp_all add: uv__work_submit_def post_def u enqueue_def Let_def)
qed

lemma post_exit: "post k MExit UV__WORK_CPU s = enqueue k MExit s"
  by (simp add: post_def enqueue_def Let_def)

section \<open>The counters\<close>

fun is_idle :: "thread_state \<Rightarrow> nat" where
  "is_idle TWaiting = 1"
| "is_idle TWoken = 1"
| "is_idle st = 0"

fun is_slow :: "thread_state \<Rightarrow> nat" where
  "is_slow (TRun w b) = of_bool b"
| "is_slow (TFinish w b) = of_bool b"
| "is_slow (TRelock b) = of_bool b"
| "is_slow st = 0"

definition threads_inv :: "pool \<Rightarrow> bool" where
  "threads_inv s \<longleftrightarrow> length (tp_threads s) = tp_nthreads s \<and> 1 \<le> tp_nthreads s \<and>
     tp_nthreads s \<le> MAX_THREADPOOL_SIZE \<and> tp_idle s = sum_list (map is_idle (tp_threads s)) \<and>
     tp_slow_running s = sum_list (map is_slow (tp_threads s)) \<and>
     tp_slow_running s \<le> slow_work_thread_threshold s"

lemma threads_inv_start: "threads_inv (fst (pool_start val ok))"
  by (auto simp: threads_inv_def pool_start_def init_threads_def Let_def slow_work_thread_threshold_def
      sum_list_replicate split: option.splits)

lemma section_sums:
  assumes "threads_inv s" and "t < length (tp_threads s)" and "tp_threads s ! t = TReady \<or> tp_threads s ! t = TWoken"
  shows "tp_idle (wake t s) + is_idle x = sum_list (map is_idle ((tp_threads s)[t := x]))"
    and "tp_slow_running s + is_slow x = sum_list (map is_slow ((tp_threads s)[t := x]))"
    and "tp_idle s = tp_idle (wake t s) + is_idle (tp_threads s ! t)"
proof -
  have i: "tp_idle s = sum_list (map is_idle (tp_threads s))" and "tp_slow_running s = sum_list (map is_slow (tp_threads s))"
    using assms(1) by (simp_all add: threads_inv_def)
  moreover have "is_idle (tp_threads s ! t) \<le> sum_list (map is_idle (tp_threads s))"
    using assms(2) by (intro member_le_sum_list) auto
  ultimately show "tp_idle s = tp_idle (wake t s) + is_idle (tp_threads s ! t)"
    using assms(3) by (auto simp: wake_def)
  then show "tp_idle (wake t s) + is_idle x = sum_list (map is_idle ((tp_threads s)[t := x]))"
    using tsum_upd [OF assms(2), of is_idle x] i by simp
  show "tp_slow_running s + is_slow x = sum_list (map is_slow ((tp_threads s)[t := x]))"
    using tsum_upd [OF assms(2), of is_slow x] assms(3) \<open>tp_slow_running s = _\<close> by auto
qed

lemma threads_inv_signal: "threads_inv (uv_cond_signal k s) = threads_inv s"
  by (simp add: threads_inv_def signal_sum slow_work_thread_threshold_def)

lemma threads_inv_enqueue: "threads_inv (enqueue k m s) = threads_inv s"
  by (simp add: threads_inv_def enqueue_sum slow_work_thread_threshold_def)

lemma threads_inv_cong:
  "tp_threads s' = tp_threads s \<Longrightarrow> tp_nthreads s' = tp_nthreads s \<Longrightarrow> tp_idle s' = tp_idle s \<Longrightarrow>
   tp_slow_running s' = tp_slow_running s \<Longrightarrow> threads_inv s' = threads_inv s"
  by (simp add: threads_inv_def slow_work_thread_threshold_def)

lemma threads_inv_section:
  assumes inv: "threads_inv s" and t: "t < length (tp_threads s)" "tp_threads s ! t = TReady \<or> tp_threads s ! t = TWoken"
  shows "threads_inv (worker_section k t s)"
proof -
  note sums = section_sums [OF assms]
  have n: "length (tp_threads s) = tp_nthreads s" "1 \<le> tp_nthreads s" "tp_nthreads s \<le> MAX_THREADPOOL_SIZE"
    "tp_slow_running s \<le> slow_work_thread_threshold s" using inv by (simp_all add: threads_inv_def)
  show ?thesis
  proof (cases rule: section_cases [of s k t])
    case wait
    then show ?thesis using sums(1,2) [of TWaiting] n
      by (simp add: threads_inv_def slow_work_thread_threshold_def)
  next
    case (exit rest)
    have "is_idle TExited = 0" by simp
    let ?s = "uv_cond_signal k (wake t s)"
    have t': "tp_threads ?s ! t = tp_threads s ! t" using t signal_nth [of t "wake t s" k] by auto
    have "sum_list (map is_idle ((tp_threads ?s)[t := TExited])) = tp_idle (wake t s)"
      using tsum_upd [of t "tp_threads ?s" is_idle TExited] t t' signal_sum [of is_idle k "wake t s"] sums(3) inv
      by (simp add: threads_inv_def)
    moreover have "sum_list (map is_slow ((tp_threads ?s)[t := TExited])) = tp_slow_running s"
      using tsum_upd [of t "tp_threads ?s" is_slow TExited] t t' signal_sum [of is_slow k "wake t s"] inv
      by (auto simp: threads_inv_def)
    ultimately show ?thesis using exit n by (simp add: threads_inv_def slow_work_thread_threshold_def)
  next
    case (run w rest)
    then show ?thesis using sums(1,2) [of "TRun w False"] n
      by (simp add: threads_inv_def slow_work_thread_threshold_def)
  next
    case (busy_slow rest)
    then show ?thesis using sums(1,2) [of TReady] n
      by (simp add: threads_inv_def slow_work_thread_threshold_def)
  next
    case (no_slow rest)
    then show ?thesis using sums(1,2) [of TReady] n
      by (simp add: threads_inv_def slow_work_thread_threshold_def)
  next
    case (last_slow w rest)
    then show ?thesis using sums(1,2) [of "TRun w True"] n
      by (simp add: threads_inv_def slow_work_thread_threshold_def take_slow_def)
  next
    case (more_slow w others rest s')
    then have "threads_inv s'" using sums(1,2) [of "TRun w True"] n
      by (simp add: threads_inv_def slow_work_thread_threshold_def take_slow_def)
    then show ?thesis using more_slow(7) by (simp add: threads_inv_signal)
  qed
qed

lemma threads_inv_replace:
  assumes "threads_inv s" and "t < length (tp_threads s)" and "is_idle x = is_idle (tp_threads s ! t)"
    and "is_slow x = is_slow (tp_threads s ! t)" and "tp_threads s' = (tp_threads s)[t := x]"
    and "tp_nthreads s' = tp_nthreads s" "tp_idle s' = tp_idle s" "tp_slow_running s' = tp_slow_running s"
  shows "threads_inv s'"
  using assms tsum_upd [OF assms(2), of is_idle x] tsum_upd [OF assms(2), of is_slow x]
  by (simp add: threads_inv_def slow_work_thread_threshold_def)

lemma threads_inv_step:
  assumes "threads_inv (fst x)" and "pool_step e x = Some y"
  shows "threads_inv (fst y)"
proof -
  obtain s h where x: "x = (s, h)" by fastforce
  have inv: "threads_inv s" using assms(1) x by simp
  show ?thesis
  proof (cases e)
    case (ESection k t)
    then show ?thesis using assms(2) x threads_inv_section [OF inv] by (auto split: if_splits)
  next
    case (ESpurious t)
    then show ?thesis using assms(2) x threads_inv_replace [OF inv, of t TWoken] by (auto split: if_splits)
  next
    case (EExec t)
    then obtain w b where tw: "t < length (tp_threads s)" "tp_threads s ! t = TRun w b" "fst y = worker_exec t w b s"
      using assms(2) x by (auto split: if_splits thread_state.splits)
    then show ?thesis
      using threads_inv_replace [OF inv, of t "TFinish w b"] threads_inv_cong [of "s\<lparr>tp_aborted := True\<rparr>" s] inv
      by (simp add: worker_exec_def)
  next
    case (EFinish t)
    then obtain w b where tw: "t < length (tp_threads s)" "tp_threads s ! t = TFinish w b" "fst y = worker_finish t w b s"
      using assms(2) x by (auto split: if_splits thread_state.splits)
    then show ?thesis
      using threads_inv_replace [OF inv, of t "TRelock b" "fst y"] by (simp add: worker_finish_def)
  next
    case (ERelock t)
    then obtain b where tw: "t < length (tp_threads s)" "tp_threads s ! t = TRelock b" "fst y = worker_relock t b s"
      using assms(2) x by (auto split: if_splits thread_state.splits)
    have "sum_list (map is_idle ((tp_threads s)[t := TReady])) = tp_idle s"
      "sum_list (map is_slow ((tp_threads s)[t := TReady])) + of_bool b = tp_slow_running s"
      using tsum_upd [OF tw(1), of is_idle TReady] tsum_upd [OF tw(1), of is_slow TReady] tw(2) inv
      by (simp_all add: threads_inv_def)
    then show ?thesis using inv tw(3)
      by (cases b) (auto simp: threads_inv_def worker_relock_def slow_work_thread_threshold_def)
  next
    case (ESubmit k l w kind)
    then have y: "fst y = uv__work_submit k l w kind s" using assms(2) x by (auto split: if_splits)
    have "threads_inv (fresh_work l w s)" "threads_inv ((fresh_work l w s)\<lparr>tp_slow_pending := p\<rparr>)" for p
      using inv threads_inv_cong [of "fresh_work l w s" s] threads_inv_cong [of "(fresh_work l w s)\<lparr>tp_slow_pending := p\<rparr>" s]
      by simp_all
    then show ?thesis unfolding y by (cases rule: submit_cases [of kind k l w s]) (simp_all add: threads_inv_enqueue)
  next
    case (ECancel w)
    then show ?thesis using assms(2) x inv
      by (auto simp: uv__work_cancel_def threads_inv_def slow_work_thread_threshold_def split: if_splits)
  next
    case (ECancelPush w)
    then show ?thesis using assms(2) x inv
      by (auto simp: uv__work_cancel_push_def threads_inv_def slow_work_thread_threshold_def split: if_splits)
  next
    case (EMove l)
    then show ?thesis using assms(2) x inv by (auto simp: work_done_move_def threads_inv_def slow_work_thread_threshold_def)
  next
    case (EDone l)
    then show ?thesis using assms(2) x inv
      by (auto simp: work_done_one_def threads_inv_def slow_work_thread_threshold_def split: list.splits)
  next
    case (EExit k)
    then show ?thesis using assms(2) x inv by (auto simp: post_exit threads_inv_enqueue split: if_splits)
  qed
qed
section \<open>No slow work is forgotten, and no wake-up is lost\<close>

definition slow_inv :: "pool \<Rightarrow> bool" where
  "slow_inv s \<longleftrightarrow> (tp_slow_pending s \<noteq> [] \<longrightarrow> MSlow \<in> set (tp_wq s)) \<and> count_list (tp_wq s) MSlow \<le> 1"

lemma count_list_removeAll_other: "x \<noteq> y \<Longrightarrow> count_list (removeAll x xs) y = count_list xs y"
  by (induction xs) auto

lemma count_list_0: "count_list xs MSlow = 0 \<longleftrightarrow> MSlow \<notin> set xs"
  by (simp add: count_list_0_iff)

lemma slow_inv_section: "slow_inv s \<Longrightarrow> slow_inv (worker_section k t s)"
proof (cases rule: section_cases [of s k t])
  case (more_slow w others rest s')
  assume "slow_inv s"
  then have "slow_inv s'" using more_slow by (auto simp: slow_inv_def take_slow_def count_list_0)
  then show ?thesis using more_slow(7) by (simp add: slow_inv_def)
qed (auto simp: slow_inv_def take_slow_def count_list_0)

lemma slow_inv_submit: "slow_inv s \<Longrightarrow> slow_inv (uv__work_submit k l w kind s)"
  by (cases rule: submit_cases [of kind k l w s]) (auto simp: slow_inv_def count_list_0)

lemma slow_inv_step:
  assumes "slow_inv (fst x)" and "pool_step e x = Some y"
  shows "slow_inv (fst y)"
proof -
  obtain s h where x: "x = (s, h)" by fastforce
  have inv: "slow_inv s" using assms(1) x by simp
  show ?thesis
  proof (cases e)
    case (ESection k t)
    then show ?thesis using assms(2) x inv slow_inv_section by (auto split: if_splits)
  next
    case (ESubmit k l w kind)
    then show ?thesis using assms(2) x inv slow_inv_submit by (auto split: if_splits)
  qed (use assms(2) x inv in \<open>auto simp: slow_inv_def worker_exec_def worker_finish_def worker_relock_def
        uv__work_cancel_def uv__work_cancel_push_def work_done_move_def work_done_one_def post_exit count_list_removeAll_other
        split: if_splits thread_state.splits list.splits\<close>)
qed

definition awake :: "thread_state list \<Rightarrow> bool" where
  "awake ts \<longleftrightarrow> (\<exists>st \<in> set ts. st \<noteq> TWaiting \<and> st \<noteq> TExited)"

definition wake_inv :: "pool \<Rightarrow> bool" where
  "wake_inv s \<longleftrightarrow> must_wait s \<or> awake (tp_threads s) \<or> (\<forall>st \<in> set (tp_threads s). st = TExited)"

lemma awake_upd: "t < length ts \<Longrightarrow> x \<noteq> TWaiting \<Longrightarrow> x \<noteq> TExited \<Longrightarrow> awake (ts[t := x])"
  by (auto simp: awake_def set_update_memI)

lemma awake_signal: "TWaiting \<in> set (tp_threads s) \<or> awake (tp_threads s) \<Longrightarrow> awake (tp_threads (uv_cond_signal k s))"
  by (rule signal_cases [of k s]) (auto intro: awake_upd)

lemma idle_pos:
  assumes "threads_inv s" and "TWaiting \<in> set (tp_threads s)"
  shows "0 < tp_idle s"
proof -
  have "is_idle TWaiting \<in> set (map is_idle (tp_threads s))" unfolding set_map using assms(2) by (rule imageI)
  then have "is_idle TWaiting \<le> sum_list (map is_idle (tp_threads s))" by (rule member_le_sum_list) simp
  then show ?thesis using assms(1) by (simp add: threads_inv_def)
qed

lemma enqueue_wake:
  assumes "threads_inv s"
  shows "awake (tp_threads (enqueue k m s)) \<or> (\<forall>st \<in> set (tp_threads (enqueue k m s)). st = TExited)"
proof (cases "TWaiting \<in> set (tp_threads s)")
  case True
  then show ?thesis
    using idle_pos [OF assms] awake_signal [of "s\<lparr>tp_wq := tp_wq s @ [m]\<rparr>" k] by (simp add: enqueue_def)
next
  case False
  have "uv_cond_signal k (s\<lparr>tp_wq := tp_wq s @ [m]\<rparr>) = s\<lparr>tp_wq := tp_wq s @ [m]\<rparr>"
    by (rule signal_cases [of k "s\<lparr>tp_wq := tp_wq s @ [m]\<rparr>"]) (use False in \<open>auto simp: in_set_conv_nth\<close>)
  then have "tp_threads (enqueue k m s) = tp_threads s" by (simp add: enqueue_def Let_def)
  then show ?thesis using False by (auto simp: awake_def)
qed

lemma wake_inv_section:
  assumes t: "t < length (tp_threads s)" "tp_threads s ! t = TReady \<or> tp_threads s ! t = TWoken"
  shows "wake_inv (worker_section k t s)"
proof (cases rule: section_cases [of s k t])
  case wait
  then show ?thesis by (simp add: wake_inv_def must_wait_def slow_work_thread_threshold_def)
next
  case (exit rest)
  show ?thesis
  proof (rule signal_cases [of k "wake t s"])
    assume "uv_cond_signal k (wake t s) = wake t s" "TWaiting \<notin> set (tp_threads (wake t s))"
    then have "\<forall>st \<in> set ((tp_threads s)[t := TExited]). st \<noteq> TWaiting"
      by (auto dest!: subsetD [OF set_update_subset_insert])
    then show ?thesis using exit(3) \<open>uv_cond_signal k (wake t s) = wake t s\<close> by (auto simp: wake_inv_def awake_def)
  next
    fix j assume j: "uv_cond_signal k (wake t s) = set_thread j TWoken (wake t s)" "j < length (tp_threads (wake t s))"
      "tp_threads (wake t s) ! j = TWaiting"
    then have "j \<noteq> t" using t by auto
    then have "((tp_threads s)[j := TWoken, t := TExited]) ! j = TWoken" using j(2) by simp
    then have "TWoken \<in> set ((tp_threads s)[j := TWoken, t := TExited])"
      using j(2) nth_mem [of j "(tp_threads s)[j := TWoken, t := TExited]"] by simp
    then have "awake ((tp_threads s)[j := TWoken, t := TExited])" unfolding awake_def by blast
    then show ?thesis using exit(3) j(1) by (simp add: wake_inv_def)
  qed
next
  case (more_slow w others rest s')
  then have "awake (tp_threads s')" using t(1) by (simp add: take_slow_def awake_upd)
  then show ?thesis using more_slow(7) awake_signal by (simp add: wake_inv_def)
qed (use t(1) in \<open>simp_all add: wake_inv_def awake_upd take_slow_def\<close>)

lemma wake_inv_submit:
  assumes "wake_inv s" and "threads_inv s"
  shows "wake_inv (uv__work_submit k l w kind s)"
proof -
  have f: "threads_inv (fresh_work l w s)" "threads_inv ((fresh_work l w s)\<lparr>tp_slow_pending := p\<rparr>)" for p
    using assms(2) threads_inv_cong [of "fresh_work l w s" s] threads_inv_cong [of "(fresh_work l w s)\<lparr>tp_slow_pending := p\<rparr>" s]
    by simp_all
  show ?thesis
  proof (cases rule: submit_cases [of kind k l w s])
    case plain
    then show ?thesis using enqueue_wake [OF f(1)] by (simp add: wake_inv_def)
  next
    case scheduled
    then show ?thesis using assms(1) by (simp add: wake_inv_def must_wait_def slow_work_thread_threshold_def)
  next
    case schedule
    then show ?thesis using enqueue_wake [OF f(2)] by (simp add: wake_inv_def)
  qed
qed

lemma wake_inv_step:
  assumes "threads_inv (fst x)" and "wake_inv (fst x)" and "pool_step e x = Some y"
  shows "wake_inv (fst y)"
proof -
  obtain s h where x: "x = (s, h)" by fastforce
  have inv: "wake_inv s" "threads_inv s" using assms(1,2) x by simp_all
  show ?thesis
  proof (cases e)
    case (ESection k t)
    then show ?thesis using assms(3) x wake_inv_section by (auto split: if_splits)
  next
    case (ESubmit k l w kind)
    then show ?thesis using assms(3) x inv wake_inv_submit by (auto split: if_splits)
  next
    case (ECancel w)
    have "must_wait s \<Longrightarrow> must_wait (s\<lparr>tp_wq := removeAll (MWork w) (tp_wq s)\<rparr>)"
      by (auto simp: must_wait_def slow_work_thread_threshold_def)
    then show ?thesis using ECancel assms(3) x inv(1)
      by (auto simp: wake_inv_def uv__work_cancel_def must_wait_def slow_work_thread_threshold_def split: if_splits)
  next
    case (EExit k)
    then show ?thesis using assms(3) x enqueue_wake [OF inv(2), of k MExit] by (auto simp: wake_inv_def post_exit split: if_splits)
  qed (use assms(3) x inv(1) in \<open>auto simp: wake_inv_def worker_exec_def worker_finish_def worker_relock_def
        uv__work_cancel_push_def work_done_move_def work_done_one_def awake_upd must_wait_def slow_work_thread_threshold_def
        split: if_splits thread_state.splits list.splits\<close>)
qed
section \<open>Where the requests are\<close>

text \<open>
  Every request in the system is in one place only. It is linked unless a worker has it, which is what
  tells \<open>uv__work_cancel\<close> that it is executing; its \<open>work\<close> field is set until it has been executed or
  cancelled.
\<close>

definition work_inv :: "pool \<Rightarrow> bool" where
  "work_inv s \<longleftrightarrow> (\<forall>w. count (in_flight s) w \<le> 1) \<and>
     (\<forall>w. w \<in># in_flight s \<longrightarrow> wk_linked (tp_works s w) = (w \<notin># busy s)) \<and>
     (\<forall>w. w \<in># queued s + busy s \<longrightarrow> wk_fn (tp_works s w) = WFun) \<and>
     (\<forall>w. w \<in> set (tp_cancelling s) \<longrightarrow> wk_fn (tp_works s w) = WCancelled) \<and>
     (\<forall>w. w \<in># collected s \<longrightarrow> wk_fn (tp_works s w) \<noteq> WFun) \<and> \<not> tp_aborted s"

fun thread_ran :: "thread_state \<Rightarrow> nat multiset" where
  "thread_ran (TFinish w b) = {#w#}"
| "thread_ran st = {#}"

definition executed :: "pool \<Rightarrow> nat multiset" where
  "executed s = sum_list (map thread_ran (tp_threads s))"

definition hist_inv :: "pool \<Rightarrow> history \<Rightarrow> bool" where
  "hist_inv s h \<longleftrightarrow> mset (hs_submitted h) = in_flight s + mset (map fst (hs_done h)) \<and>
     mset (hs_ran h) = executed s + {#w \<in># collected s. wk_fn (tp_works s w) = WNull#} +
       mset (map fst (filter (\<lambda>d. snd d = 0) (hs_done h))) \<and>
     (\<forall>d \<in> set (hs_done h). snd d = 0 \<or> snd d = UV_ECANCELED)"

lemma wq_works_append: "wq_works (p @ q) = wq_works p + wq_works q"
  by (induction p rule: wq_works.induct) auto

lemma wq_works_removeAll: "wq_works (removeAll (MWork w) q) = {#v \<in># wq_works q. v \<noteq> w#}"
  by (induction q rule: wq_works.induct) auto

lemma busy_signal [simp]: "busy (uv_cond_signal k s) = busy s"
  by (simp add: busy_def signal_sum)

lemma executed_signal [simp]: "executed (uv_cond_signal k s) = executed s"
  by (simp add: executed_def signal_sum)

lemma busy_enqueue [simp]: "busy (enqueue k m s) = busy s"
  by (simp add: busy_def enqueue_sum)

lemma executed_enqueue [simp]: "executed (enqueue k m s) = executed s"
  by (simp add: executed_def enqueue_sum)

lemma collected_signal [simp]: "collected (uv_cond_signal k s) = collected s"
  and queued_signal [simp]: "queued (uv_cond_signal k s) = queued s"
  and collected_enqueue [simp]: "collected (enqueue k m s) = collected s"
  by (simp_all add: collected_def queued_def)

lemma thread_upd:
  assumes "t < length (tp_threads s)" and "tp_threads s' = (tp_threads s)[t := x]"
  shows "busy s' + thread_work (tp_threads s ! t) = busy s + thread_work x"
    and "executed s' + thread_ran (tp_threads s ! t) = executed s + thread_ran x"
  using tsum_upd [OF assms(1), of thread_work x] tsum_upd [OF assms(1), of thread_ran x]
  by (simp_all add: busy_def executed_def assms(2))

text \<open>What a step may do to the requests, in terms of the places they are in.\<close>

lemma move_to_busy:
  assumes inv: "work_inv s" "hist_inv s h"
    and "queued s = add_mset w (queued s')" and "busy s' = add_mset w (busy s)" and "executed s' = executed s"
    and "collected s' = collected s" and "tp_cancelling s' = tp_cancelling s" and "tp_aborted s' = tp_aborted s"
    and works: "tp_works s' = (tp_works s)(w := (tp_works s w)\<lparr>wk_linked := False\<rparr>)"
  shows "work_inv s' \<and> hist_inv s' h"
proof -
  have fl: "in_flight s' = in_flight s" using assms(3,4,6,7) by (simp add: in_flight_def)
  have fn: "wk_fn (tp_works s' v) = wk_fn (tp_works s v)" for v by (simp add: works)
  have w1: "count (in_flight s) w \<le> 1" using inv(1) by (simp add: work_inv_def)
  have "\<forall>v. v \<in># in_flight s \<longrightarrow> wk_linked (tp_works s' v) = (v \<notin># busy s')"
    using inv(1) by (auto simp: work_inv_def works assms(4))
  moreover have "\<forall>v. v \<in># queued s' + busy s' \<longrightarrow> wk_fn (tp_works s' v) = WFun"
    using inv(1) assms(3,4) by (auto simp: work_inv_def fn)
  ultimately have "work_inv s'" using inv(1) by (simp add: work_inv_def fl fn assms(6,7,8))
  moreover have "hist_inv s' h" using inv(2) by (simp add: hist_inv_def fl fn assms(5,6))
  ultimately show ?thesis by blast
qed

lemma same_places:
  assumes inv: "work_inv s" "hist_inv s h"
    and "queued s' = queued s" and "busy s' = busy s" and "executed s' = executed s"
    and "collected s' = collected s" and "tp_cancelling s' = tp_cancelling s" and "tp_aborted s' = tp_aborted s"
    and "tp_works s' = tp_works s"
  shows "work_inv s' \<and> hist_inv s' h"
  using inv assms(3-) by (simp add: work_inv_def hist_inv_def in_flight_def)

lemma inv_section:
  assumes inv: "work_inv s" "hist_inv s h" and t: "t < length (tp_threads s)"
    and st: "tp_threads s ! t = TReady \<or> tp_threads s ! t = TWoken"
  shows "work_inv (worker_section k t s) \<and> hist_inv (worker_section k t s) h"
proof -
  have none: "thread_work (tp_threads s ! t) = {#}" "thread_ran (tp_threads s ! t) = {#}" using st by auto
  have upd: "busy s' = busy s + thread_work x" "executed s' = executed s + thread_ran x"
    if "tp_threads s' = (tp_threads s)[t := x]" for s' x
    using thread_upd [OF t that] none by auto
  show ?thesis
  proof (cases rule: section_cases [of s k t])
    case wait
    then show ?thesis
      using upd [of "worker_section k t s" TWaiting]
      by (intro same_places [OF inv]) (simp_all add: queued_def collected_def)
  next
    case (exit rest)
    let ?s = "uv_cond_signal k (wake t s)"
    have t': "tp_threads ?s ! t = tp_threads s ! t" "t < length (tp_threads ?s)"
      using t st signal_nth [of t "wake t s" k] by auto
    have "busy (wake t s) = busy s" "executed (wake t s) = executed s" by (simp_all add: busy_def executed_def)
    then show ?thesis
      using exit thread_upd [OF t'(2), of "worker_section k t s" TExited] t' none
      by (intro same_places [OF inv]) (simp_all add: queued_def collected_def)
  next
    case (run w rest)
    then show ?thesis
      using upd [of "worker_section k t s" "TRun w False"]
      by (intro move_to_busy [OF inv, of w]) (simp_all add: queued_def collected_def)
  next
    case (busy_slow rest)
    then show ?thesis
      using upd [of "worker_section k t s" TReady]
      by (intro same_places [OF inv]) (simp_all add: queued_def collected_def wq_works_append)
  next
    case (no_slow rest)
    then show ?thesis
      using upd [of "worker_section k t s" TReady]
      by (intro same_places [OF inv]) (simp_all add: queued_def collected_def)
  next
    case (last_slow w rest)
    then show ?thesis
      using upd [of "worker_section k t s" "TRun w True"]
      by (intro move_to_busy [OF inv, of w]) (simp_all add: queued_def collected_def take_slow_def)
  next
    case (more_slow w others rest s')
    have "work_inv s' \<and> hist_inv s' h"
      using more_slow(2,4,6) upd [of s' "TRun w True"]
      by (intro move_to_busy [OF inv, of w]) (simp_all add: queued_def collected_def take_slow_def wq_works_append)
    then show ?thesis using more_slow(7) same_places [of s' h "uv_cond_signal k s'"] by simp
  qed
qed

lemma inv_submit:
  assumes inv: "work_inv s" "hist_inv s h" and w: "w \<notin># in_flight s"
  shows "work_inv (uv__work_submit k l w kind s) \<and>
    hist_inv (uv__work_submit k l w kind s) (h\<lparr>hs_submitted := hs_submitted h @ [w]\<rparr>)"
proof -
  let ?s = "uv__work_submit k l w kind s"
  have places: "queued ?s = add_mset w (queued s) \<and> busy ?s = busy s \<and> executed ?s = executed s \<and>
      collected ?s = collected s \<and> tp_cancelling ?s = tp_cancelling s \<and> tp_aborted ?s = tp_aborted s \<and>
      tp_works ?s = (tp_works s)(w := (tp_works s w)\<lparr>wk_loop := l, wk_fn := WFun, wk_linked := True\<rparr>)"
    by (cases rule: submit_cases [of kind k l w s])
      (simp_all add: queued_def collected_def wq_works_append, simp_all add: busy_def executed_def)
  then have fl: "in_flight ?s = add_mset w (in_flight s)" by (simp add: in_flight_def)
  have no: "w \<notin># queued s" "w \<notin># busy s" "w \<notin> set (tp_cancelling s)" "w \<notin># collected s"
    using w by (auto simp: in_flight_def)
  have c0: "count (in_flight s) w = 0" using w by (simp add: count_eq_zero_iff)
  have fn: "v \<noteq> w \<Longrightarrow> tp_works ?s v = tp_works s v" for v using places by simp
  have "work_inv ?s"
    using inv(1) places no c0 unfolding work_inv_def fl by auto
  moreover have "{#v \<in># collected s. wk_fn (tp_works ?s v) = WNull#} = {#v \<in># collected s. wk_fn (tp_works s v) = WNull#}"
    by (rule filter_mset_cong [OF refl]) (use no(4) fn in metis)
  ultimately show ?thesis using inv(2) places by (simp add: hist_inv_def fl)
qed

lemma inv_exec:
  assumes inv: "work_inv s" "hist_inv s h" and t: "t < length (tp_threads s)" "tp_threads s ! t = TRun w b"
  shows "work_inv (worker_exec t w b s) \<and> hist_inv (worker_exec t w b s) (h\<lparr>hs_ran := hs_ran h @ [w]\<rparr>)"
proof -
  have "{#w#} \<subseteq># busy s"
    using thread_upd(1) [OF t(1), of "set_thread t TReady s" TReady] t(2) by (metis add.right_neutral mset_subset_eq_add_right set_thread_sel(1) thread_work.simps(1,3))
  then have "w \<in># busy s" by simp
  then have fn: "wk_fn (tp_works s w) = WFun" using inv(1) by (simp add: work_inv_def)
  let ?s = "set_thread t (TFinish w b) s"
  have "busy ?s = busy s" "executed ?s = add_mset w (executed s)"
    using thread_upd [OF t(1), of ?s "TFinish w b"] t(2) by simp_all
  moreover have "queued ?s = queued s" "collected ?s = collected s" by (simp_all add: queued_def collected_def)
  ultimately show ?thesis
    using inv fn by (simp add: worker_exec_def work_inv_def hist_inv_def in_flight_def)
qed

lemma inv_finish:
  assumes inv: "work_inv s" "hist_inv s h" and t: "t < length (tp_threads s)" "tp_threads s ! t = TFinish w b"
  shows "work_inv (worker_finish t w b s) \<and> hist_inv (worker_finish t w b s) h"
proof -
  let ?s = "worker_finish t w b s"
  have b: "busy s = add_mset w (busy ?s)" "executed s = add_mset w (executed ?s)"
    using thread_upd [OF t(1), of ?s "TRelock b"] t(2) by (simp_all add: worker_finish_def)
  have q: "queued ?s = queued s" "collected ?s = add_mset w (collected s)" "tp_cancelling ?s = tp_cancelling s"
    "tp_aborted ?s = tp_aborted s"
    by (simp_all add: queued_def collected_def worker_finish_def)
  then have fl: "in_flight ?s = in_flight s" using b by (simp add: in_flight_def)
  have "count (in_flight s) w \<le> 1" using inv(1) by (simp add: work_inv_def)
  then have no: "w \<notin># queued s" "w \<notin># busy ?s" "w \<notin> set (tp_cancelling s)" "w \<notin># collected s"
    by (auto simp: in_flight_def b(1) not_in_iff)
  have works: "tp_works ?s = (tp_works s)(w := (tp_works s w)\<lparr>wk_fn := WNull, wk_linked := True\<rparr>)"
    by (simp add: worker_finish_def)
  have "work_inv ?s"
    using inv(1) no unfolding work_inv_def fl q b(1) works by auto
  moreover have "{#v \<in># collected s. wk_fn (tp_works ?s v) = WNull#} = {#v \<in># collected s. wk_fn (tp_works s v) = WNull#}"
    by (rule filter_mset_cong [OF refl]) (use no(4) works in auto)
  then have "{#v \<in># collected ?s. wk_fn (tp_works ?s v) = WNull#} = add_mset w {#v \<in># collected s. wk_fn (tp_works s v) = WNull#}"
    by (simp add: q works)
  ultimately show ?thesis using inv(2) by (simp add: hist_inv_def fl b(2))
qed

lemma filter_out_mset:
  "image_mset snd {#x \<in># mset xs. case x of (l, v) \<Rightarrow> v \<noteq> w#} = {#v \<in># image_mset snd (mset xs). v \<noteq> w#}"
  by (induction xs) auto

lemma mset_removeAll_filter: "mset (removeAll w xs) = {#v \<in># mset xs. v \<noteq> w#}"
  by (induction xs) auto

lemma work_cancel_sel:
  fixes w s defines "s' \<equiv> snd (uv__work_cancel w s)"
  assumes "wk_linked (tp_works s w)" and "wk_fn (tp_works s w) \<noteq> WNull"
  shows "tp_works s' = (tp_works s)(w := (tp_works s w)\<lparr>wk_fn := WCancelled\<rparr>)" "busy s' = busy s"
    "executed s' = executed s" "tp_cancelling s' = tp_cancelling s @ [w]" "tp_aborted s' = tp_aborted s"
    "queued s' = {#v \<in># queued s. v \<noteq> w#}" "collected s' = {#v \<in># collected s. v \<noteq> w#}"
  using assms(2,3) by (simp_all add: s'_def uv__work_cancel_def queued_def collected_def wq_works_removeAll
      filter_out_mset mset_removeAll_filter busy_def executed_def)

lemma inv_cancel:
  assumes inv: "work_inv s" "hist_inv s h" and w: "w \<in># in_flight s" "w \<notin> set (tp_cancelling s)"
  shows "work_inv (snd (uv__work_cancel w s)) \<and> hist_inv (snd (uv__work_cancel w s)) h"
proof (cases "wk_linked (tp_works s w) \<and> wk_fn (tp_works s w) \<noteq> WNull")
  case False
  then show ?thesis using inv by (auto simp: uv__work_cancel_def)
next
  case True
  let ?s = "snd (uv__work_cancel w s)"
  note s = work_cancel_sel [OF True [THEN conjunct1] True [THEN conjunct2]]
  have nb: "w \<notin># busy s" using True inv(1) w(1) by (simp add: work_inv_def)
  have c1: "count (in_flight s) w = 1"
    using inv(1) w(1) by (metis One_nat_def Suc_leI count_greater_zero_iff le_antisym work_inv_def)
  have fl: "in_flight ?s = in_flight s"
  proof (rule multiset_eqI)
    fix v
    show "count (in_flight ?s) v = count (in_flight s) v"
    proof (cases "v = w")
      case True
      then show ?thesis
        using c1 nb w(2) by (simp add: in_flight_def s not_in_iff)
    qed (simp add: in_flight_def s)
  qed
  have "work_inv ?s"
    using inv(1) nb w(2) unfolding work_inv_def fl s by auto
  moreover have "{#v \<in># collected ?s. wk_fn (tp_works ?s v) = WNull#} = {#v \<in># collected s. wk_fn (tp_works s v) = WNull#}"
    unfolding s using True by (auto simp: filter_filter_mset intro!: filter_mset_cong)
  ultimately show ?thesis using inv(2) by (simp add: hist_inv_def fl s(3))
qed

lemma inv_cancel_push:
  assumes inv: "work_inv s" "hist_inv s h" and w: "w \<in> set (tp_cancelling s)"
  shows "work_inv (uv__work_cancel_push w s) \<and> hist_inv (uv__work_cancel_push w s) h"
proof -
  let ?s = "uv__work_cancel_push w s"
  have c: "mset (tp_cancelling s) = add_mset w (mset (tp_cancelling ?s))"
    using w by (simp add: uv__work_cancel_push_def)
  have s: "tp_works ?s = tp_works s" "busy ?s = busy s" "executed ?s = executed s" "tp_aborted ?s = tp_aborted s"
    "queued ?s = queued s" "collected ?s = add_mset w (collected s)"
    by (simp_all add: uv__work_cancel_push_def queued_def collected_def busy_def executed_def)
  have fl: "in_flight ?s = in_flight s" by (simp add: in_flight_def s c)
  have fn: "wk_fn (tp_works s w) = WCancelled" using inv(1) w by (simp add: work_inv_def)
  have sub: "v \<in> set (tp_cancelling s)" if "v \<in> set (tp_cancelling ?s)" for v
    using that notin_set_remove1 [of v "tp_cancelling s" w] by (auto simp: uv__work_cancel_push_def)
  have "work_inv ?s" using inv(1) fn sub unfolding work_inv_def fl s by auto
  moreover have "hist_inv ?s h" using inv(2) fn by (simp add: hist_inv_def fl s)
  ultimately show ?thesis by blast
qed

lemma inv_move: "work_inv s \<Longrightarrow> hist_inv s h \<Longrightarrow> work_inv (work_done_move l s) \<and> hist_inv (work_done_move l s) h"
proof -
  assume inv: "work_inv s" "hist_inv s h"
  have "mset (map snd (filter (\<lambda>(l', w). l' \<noteq> l) xs)) + mset (map snd (filter (\<lambda>(l', w). l' = l) xs)) = mset (map snd xs)" for xs :: "(nat \<times> nat) list"
    by (induction xs) auto
  then have "collected (work_done_move l s) = collected s"
    by (simp add: collected_def work_done_move_def)
  then show ?thesis
    by (intro same_places [OF inv]) (simp_all add: work_done_move_def queued_def busy_def executed_def)
qed

lemma inv_done:
  assumes inv: "work_inv s" "hist_inv s h" and d: "work_done_one k s = Some (d, s')"
  shows "work_inv s' \<and> hist_inv s' (h\<lparr>hs_done := hs_done h @ [d]\<rparr>)"
proof -
  obtain l w rest where f: "filter (\<lambda>(l', w). l' = k) (tp_local s) = (l, w) # rest"
    and l: "s' = s\<lparr>tp_local := remove1 (l, w) (tp_local s)\<rparr>"
      "d = (w, if wk_fn (tp_works s w) = WCancelled then UV_ECANCELED else 0)"
    using d by (auto simp: work_done_one_def split: list.splits)
  have "(l, w) \<in> set (filter (\<lambda>(l', w). l' = k) (tp_local s))" unfolding f by simp
  then have "(l, w) \<in># mset (tp_local s)" by auto
  then have m: "image_mset snd (mset (tp_local s)) = add_mset w (image_mset snd (mset (tp_local s) - {#(l, w)#}))"
    by (metis image_mset_add_mset insert_DiffM snd_conv)
  have s: "tp_works s' = tp_works s" "busy s' = busy s" "executed s' = executed s" "tp_aborted s' = tp_aborted s"
    "queued s' = queued s" "tp_cancelling s' = tp_cancelling s" "collected s = add_mset w (collected s')"
    using l m by (simp_all add: queued_def collected_def busy_def executed_def)
  have fl: "in_flight s = add_mset w (in_flight s')" by (simp add: in_flight_def s)
  have fn: "wk_fn (tp_works s w) \<noteq> WFun" using inv(1) s(7) by (simp add: work_inv_def)
  have "\<forall>v. count (in_flight s') v \<le> 1"
  proof
    fix v
    have "count (in_flight s') v \<le> count (in_flight s) v" by (simp add: fl)
    then show "count (in_flight s') v \<le> 1" using inv(1) unfolding work_inv_def by (meson le_trans)
  qed
  then have "work_inv s'" using inv(1) unfolding work_inv_def s(1-6) unfolding fl s(7) by auto
  moreover have "hist_inv s' (h\<lparr>hs_done := hs_done h @ [d]\<rparr>)"
    using inv(2) fn unfolding hist_inv_def fl s l(2) by (cases "wk_fn (tp_works s w)") auto
  ultimately show ?thesis by blast
qed

lemma inv_step:
  assumes "work_inv (fst x) \<and> hist_inv (fst x) (snd x)" and "pool_step e x = Some y"
  shows "work_inv (fst y) \<and> hist_inv (fst y) (snd y)"
proof -
  obtain s h where x: "x = (s, h)" by fastforce
  have inv: "work_inv s" "hist_inv s h" using assms(1) x by simp_all
  show ?thesis
  proof (cases e)
    case (ESection k t)
    then show ?thesis using assms(2) x inv_section [OF inv] by (auto split: if_splits)
  next
    case (ESpurious t)
    then have t: "t < length (tp_threads s)" "tp_threads s ! t = TWaiting" "y = (set_thread t TWoken s, h)"
      using assms(2) x by (auto split: if_splits)
    have "busy (set_thread t TWoken s) = busy s" "executed (set_thread t TWoken s) = executed s"
      using thread_upd [OF t(1), of "set_thread t TWoken s" TWoken] t(2) by simp_all
    then show ?thesis unfolding t(3) fst_conv snd_conv
      by (intro same_places [OF inv]) (simp_all add: queued_def collected_def)
  next
    case (EExec t)
    then show ?thesis using assms(2) x inv_exec [OF inv] by (auto split: if_splits thread_state.splits)
  next
    case (EFinish t)
    then show ?thesis using assms(2) x inv_finish [OF inv] by (auto split: if_splits thread_state.splits)
  next
    case (ERelock t)
    then obtain b where t: "t < length (tp_threads s)" "tp_threads s ! t = TRelock b" "y = (worker_relock t b s, h)"
      using assms(2) x by (auto split: if_splits thread_state.splits)
    have "busy (worker_relock t b s) = busy s" "executed (worker_relock t b s) = executed s"
      using thread_upd [OF t(1), of "worker_relock t b s" TReady] t(2) by (simp_all add: worker_relock_def)
    then show ?thesis unfolding t(3) fst_conv snd_conv
      by (intro same_places [OF inv]) (simp_all add: queued_def collected_def worker_relock_def)
  next
    case (ESubmit k l w kind)
    then show ?thesis using assms(2) x inv_submit [OF inv] by (auto split: if_splits)
  next
    case (ECancel w)
    then show ?thesis using assms(2) x inv_cancel [OF inv] by (auto split: if_splits)
  next
    case (ECancelPush w)
    then show ?thesis using assms(2) x inv_cancel_push [OF inv] by (auto split: if_splits)
  next
    case (EMove l)
    then show ?thesis using assms(2) x inv_move [OF inv] by auto
  next
    case (EDone l)
    then obtain d s' where "work_done_one l s = Some (d, s')" "y = (s', h\<lparr>hs_done := hs_done h @ [d]\<rparr>)"
      using assms(2) x by (auto split: option.splits)
    then show ?thesis using inv_done [OF inv] by simp
  next
    case (EExit k)
    then have y: "y = (enqueue k MExit s, h)" using assms(2) x by (simp add: post_exit split: if_splits)
    show ?thesis unfolding y fst_conv snd_conv
      by (intro same_places [OF inv]) (simp_all add: queued_def wq_works_append)
  qed
qed

lemma sum_list_replicate_empty [simp]: "sum_list (replicate n {#}) = {#}"
  by (induction n) auto

lemma pool_start_inv:
  "work_inv (fst (pool_start val ok)) \<and> hist_inv (fst (pool_start val ok)) (snd (pool_start val ok)) \<and>
   slow_inv (fst (pool_start val ok)) \<and> wake_inv (fst (pool_start val ok))"
  by (simp add: pool_start_def init_threads_def Let_def work_inv_def hist_inv_def slow_inv_def wake_inv_def
      must_wait_def in_flight_def queued_def collected_def busy_def executed_def)

definition pool_inv :: "pool \<times> history \<Rightarrow> bool" where
  "pool_inv x \<longleftrightarrow> threads_inv (fst x) \<and> slow_inv (fst x) \<and> wake_inv (fst x) \<and> work_inv (fst x) \<and>
     hist_inv (fst x) (snd x)"

lemma pool_reach_pool_inv: "pool_reach x \<Longrightarrow> pool_inv x"
proof (induction rule: pool_reach.induct)
  case (start val malloc_ok)
  then show ?case using pool_start_inv threads_inv_start by (simp add: pool_inv_def)
next
  case (step x e y)
  then show ?case
    using threads_inv_step [of x e y] slow_inv_step [of x e y] wake_inv_step [of x e y] inv_step [of x e y]
    by (simp add: pool_inv_def)
qed

section \<open>Properties\<close>

text \<open>
  C10. Every request is completed once and executed at most once. In every reachable state the requests
  submitted are those still in the system and those completed, as multisets, so that when nothing is in
  flight each submission has been completed exactly once. The executions are those of requests
  completed with status 0, awaiting collection or just finished: a request completed with
  \<open>UV_ECANCELED\<close> was not executed. No worker ever calls a cancelled request (which would abort).
\<close>

theorem threadpool_exactly_once:
  assumes "pool_reach (s, h)"
  shows "mset (hs_submitted h) = in_flight s + mset (map fst (hs_done h)) \<and>
    mset (hs_ran h) = executed s + {#w \<in># collected s. wk_fn (tp_works s w) = WNull#} +
      mset (map fst (filter (\<lambda>d. snd d = 0) (hs_done h))) \<and>
    (\<forall>d \<in> set (hs_done h). snd d = 0 \<or> snd d = UV_ECANCELED) \<and> \<not> tp_aborted s"
  using pool_reach_pool_inv [OF assms] by (simp add: pool_inv_def hist_inv_def work_inv_def)

text \<open>
  C12. The pool has between 1 and 1024 threads, its counter of idle threads counts the threads that wait
  or have been woken, and at most half of the threads, rounded up, run slow I/O work at a time.
\<close>

theorem threadpool_counters:
  assumes "pool_reach (s, h)"
  shows "length (tp_threads s) = tp_nthreads s \<and> 1 \<le> tp_nthreads s \<and> tp_nthreads s \<le> 1024 \<and>
    tp_idle s = sum_list (map is_idle (tp_threads s)) \<and>
    tp_slow_running s = sum_list (map is_slow (tp_threads s)) \<and>
    tp_slow_running s \<le> (tp_nthreads s + 1) div 2"
  using pool_reach_pool_inv [OF assms] by (simp add: pool_inv_def threads_inv_def slow_work_thread_threshold_def)

text \<open>
  C11. No wake-up is lost: in every reachable state in which the queue holds work that a worker may take,
  some worker is neither waiting nor gone, unless all have exited; and pending slow work always has its
  message in the queue.
\<close>

theorem threadpool_no_lost_wakeup:
  assumes "pool_reach (s, h)"
  shows "(must_wait s \<or> (\<exists>st \<in> set (tp_threads s). st \<noteq> TWaiting \<and> st \<noteq> TExited) \<or>
      (\<forall>st \<in> set (tp_threads s). st = TExited)) \<and>
    (tp_slow_pending s = [] \<or> MSlow \<in> set (tp_wq s))"
  using pool_reach_pool_inv [OF assms] by (auto simp: pool_inv_def wake_inv_def awake_def slow_inv_def)

text \<open>
  C13. Cancellation is decided by the type and the state of the request. For the five types that use the
  pool, \<open>uv_cancel\<close> answers \<open>UV_EBUSY\<close> and changes nothing exactly where a worker executes the request or
  has executed it; otherwise (no worker has taken it yet, or a cancellation has already caught it) it
  succeeds, marks the request as cancelled, takes it out of every queue, so that no worker can take it,
  and leaves all other requests where they are. Every other type is \<open>UV_EINVAL\<close>.
\<close>

theorem uv_cancel_result:
  assumes "pool_reach (s, h)" and "w \<in># in_flight s"
  shows "if ty \<in> {UV_FS, UV_GETADDRINFO, UV_GETNAMEINFO, UV_RANDOM, UV_WORK}
    then if w \<in># busy s \<or> w \<in># collected s \<and> wk_fn (tp_works s w) = WNull
      then uv_cancel ty w s = (UV_EBUSY, s)
      else \<exists>s'. uv_cancel ty w s = (0, s') \<and> wk_fn (tp_works s' w) = WCancelled \<and>
        w \<notin># queued s' \<and> w \<notin># collected s' \<and> w \<in> set (tp_cancelling s') \<and> busy s' = busy s \<and>
        (\<forall>v. v \<noteq> w \<longrightarrow> tp_works s' v = tp_works s v \<and> count (queued s') v = count (queued s) v \<and>
          count (collected s') v = count (collected s) v)
    else uv_cancel ty w s = (- 22, s)"
proof -
  have inv: "work_inv s" using pool_reach_pool_inv [OF assms(1)] by (simp add: pool_inv_def)
  have l: "wk_linked (tp_works s w) = (w \<notin># busy s)" using inv assms(2) by (simp add: work_inv_def)
  have n: "wk_fn (tp_works s w) = WNull \<Longrightarrow> w \<in># collected s"
    using inv assms(2) unfolding work_inv_def in_flight_def by fastforce
  have pool: "uv_cancel ty w s = uv__work_cancel w s"
    if "ty \<in> {UV_FS, UV_GETADDRINFO, UV_GETNAMEINFO, UV_RANDOM, UV_WORK}"
    using that by (auto simp: uv_cancel_def)
  show ?thesis
  proof (cases "w \<in># busy s \<or> w \<in># collected s \<and> wk_fn (tp_works s w) = WNull")
    case True
    then have "uv__work_cancel w s = (UV_EBUSY, s)" using l by (auto simp: uv__work_cancel_def)
    then show ?thesis using True pool by (auto simp: uv_cancel_def)
  next
    case False
    then have c: "wk_linked (tp_works s w)" "wk_fn (tp_works s w) \<noteq> WNull" using l n by auto
    then have "uv__work_cancel w s = (0, snd (uv__work_cancel w s))" by (simp add: uv__work_cancel_def)
    then show ?thesis using False pool work_cancel_sel [OF c] by (auto simp: uv_cancel_def)
  qed
qed

lemma one_request:
  obtains s h where "pool_step (ESubmit 0 0 7 UV__WORK_CPU) (pool_start None True) = Some (s, h)"
    "pool_reach (s, h)" "hs_submitted h = [7]" "hs_done h = []" "\<not> must_wait s" "7 \<in># in_flight s" "busy s = {#}"
    "collected s = {#}"
proof -
  obtain s0 h0 where x: "pool_start None True = (s0, h0)" by fastforce
  have e: "in_flight s0 = {#}" "hs_submitted h0 = []" "hs_done h0 = []" "busy s0 = {#}" "collected s0 = {#}" "tp_wq s0 = []"
    using x by (auto simp: pool_start_def init_threads_def Let_def in_flight_def queued_def collected_def busy_def)
  let ?s = "uv__work_submit 0 0 7 UV__WORK_CPU s0" and ?h = "h0\<lparr>hs_submitted := hs_submitted h0 @ [7]\<rparr>"
  have st: "pool_step (ESubmit 0 0 7 UV__WORK_CPU) (pool_start None True) = Some (?s, ?h)" by (simp add: x e)
  have s: "?s = enqueue 0 (MWork 7) (fresh_work 0 7 s0)"
    by (simp add: uv__work_submit_def post_def upd_work_def fresh_work_def enqueue_def Let_def)
  have "busy ?s = busy s0" unfolding s by (simp, simp add: busy_def)
  then have "busy ?s = {#}" using e by simp
  moreover have "collected ?s = {#}" "7 \<in># in_flight ?s" "\<not> must_wait ?s"
    using e by (simp_all add: s collected_def in_flight_def queued_def wq_works_append must_wait_def)
  moreover have "pool_reach (?s, ?h)" using pool_reach.step [OF pool_reach.start st] .
  ultimately show ?thesis using that [OF st] e by simp
qed

theorem threadpool_exactly_once_witness:
  "\<exists>s h. pool_step (ESubmit 0 0 7 UV__WORK_CPU) (pool_start None True) = Some (s, h) \<and>
     mset (hs_submitted h) = in_flight s \<and> in_flight s = {#7#}"
proof (rule one_request)
  fix s h assume h: "pool_step (ESubmit 0 0 7 UV__WORK_CPU) (pool_start None True) = Some (s, h)" "pool_reach (s, h)"
    "hs_submitted h = [7]" "hs_done h = []"
  from threadpool_exactly_once [OF h(2)] h show ?thesis by auto
qed

theorem threadpool_counters_witness:
  "\<exists>s h. pool_step (ESubmit 0 0 7 UV__WORK_CPU) (pool_start None True) = Some (s, h) \<and>
     tp_slow_running s \<le> (tp_nthreads s + 1) div 2"
proof (rule one_request)
  fix s h assume h: "pool_step (ESubmit 0 0 7 UV__WORK_CPU) (pool_start None True) = Some (s, h)" "pool_reach (s, h)"
  from threadpool_counters [OF h(2)] h(1) show ?thesis by blast
qed

theorem threadpool_no_lost_wakeup_witness:
  "\<exists>s h. pool_step (ESubmit 0 0 7 UV__WORK_CPU) (pool_start None True) = Some (s, h) \<and> \<not> must_wait s \<and>
     ((\<exists>st \<in> set (tp_threads s). st \<noteq> TWaiting \<and> st \<noteq> TExited) \<or> (\<forall>st \<in> set (tp_threads s). st = TExited))"
proof (rule one_request)
  fix s h assume h: "pool_step (ESubmit 0 0 7 UV__WORK_CPU) (pool_start None True) = Some (s, h)" "pool_reach (s, h)"
    "\<not> must_wait s"
  from threadpool_no_lost_wakeup [OF h(2)] h show ?thesis by blast
qed

theorem uv_cancel_result_witness:
  "\<exists>s h s'. pool_step (ESubmit 0 0 7 UV__WORK_CPU) (pool_start None True) = Some (s, h) \<and>
     uv_cancel UV_FS 7 s = (0, s') \<and> wk_fn (tp_works s' 7) = WCancelled \<and> uv_cancel UV_UDP_SEND 7 s = (- 22, s)"
proof (rule one_request)
  fix s h assume h: "pool_step (ESubmit 0 0 7 UV__WORK_CPU) (pool_start None True) = Some (s, h)" "pool_reach (s, h)"
    "7 \<in># in_flight s" "busy s = {#}" "collected s = {#}"
  from uv_cancel_result [OF h(2,3), of UV_FS] uv_cancel_result [OF h(2,3), of UV_UDP_SEND] h(1,4,5)
  show ?thesis by auto
qed

end
