(* ===== verification/InetText.thy ===== *)
theory InetText
  imports InetParse
begin

text \<open>
  What the printers of theory Inet write: the run of zeros that \<open>inet_ntop6\<close> picks consists of zeros, the
  text has one of the shapes that theory InetParse reads back, it fits its buffer, and the bounded copy
  stays within the destination.
\<close>

section \<open>What \<open>inet_ntop6\<close> writes\<close>

text \<open>A run is absent, or a range of zero words.\<close>

definition run_ok :: "u32 list \<Rightarrow> int \<Rightarrow> zero_run \<Rightarrow> bool" where
  "run_ok words k r \<longleftrightarrow> rn_base r = - 1 \<or>
     (0 \<le> rn_base r \<and> 1 \<le> rn_len r \<and> rn_base r + rn_len r \<le> k \<and>
      (\<forall>j. rn_base r \<le> j \<and> j < rn_base r + rn_len r \<longrightarrow> words ! nat j = 0))"

lemma run_ok_none [simp]: "rn_base r = - 1 \<Longrightarrow> run_ok words k r"
  by (simp add: run_ok_def)

lemma run_ok_mono: "run_ok words k r \<Longrightarrow> k \<le> k' \<Longrightarrow> run_ok words k' r"
  by (auto simp: run_ok_def)

lemma run_ok_better: "run_ok words k a \<Longrightarrow> run_ok words k b \<Longrightarrow> run_ok words k (better_run a b)"
  by (simp add: better_run_def)

lemma scan_ok:
  "words = ws0 @ ws \<Longrightarrow> i = int (length ws0) \<Longrightarrow> run_ok words i best \<Longrightarrow> run_ok words i cur \<Longrightarrow>
   (rn_base cur \<noteq> - 1 \<longrightarrow> rn_base cur + rn_len cur = i) \<Longrightarrow> ntop6_scan ws i best cur = (best', cur') \<Longrightarrow>
   run_ok words (int (length words)) best' \<and> run_ok words (int (length words)) cur'"
proof (induction ws arbitrary: ws0 i best cur)
  case (Cons w ws)
  have w: "words ! nat i = w" using Cons.prems(1,2) by simp
  note step = Cons.IH [of "ws0 @ [w]" "i + 1"]
  have m: "run_ok words (i + 1) best" using run_ok_mono [OF Cons.prems(3)] by simp
  consider (new) "w = 0" "rn_base cur = - 1" | (more) "w = 0" "rn_base cur \<noteq> - 1" | (close) "w \<noteq> 0" "rn_base cur \<noteq> - 1"
    | (none) "w \<noteq> 0" "rn_base cur = - 1" by blast
  then show ?case
  proof cases
    case new
    have "run_ok words (i + 1) \<lparr>rn_base = i, rn_len = 1\<rparr>"
    proof -
      have "j = i" if "i \<le> j" "j < i + 1" for j :: int using that by simp
      then show ?thesis using new w Cons.prems(2) by (auto simp: run_ok_def)
    qed
    then show ?thesis using step [of best "\<lparr>rn_base = i, rn_len = 1\<rparr>"] m new Cons.prems by simp
  next
    case more
    have "words ! nat j = 0" if "rn_base cur \<le> j" "j < i + 1" for j
      using that Cons.prems(4,5) more w by (cases "j = i") (auto simp: run_ok_def)
    then have "run_ok words (i + 1) (cur\<lparr>rn_len := rn_len cur + 1\<rparr>)"
      using Cons.prems(4,5) more by (auto simp: run_ok_def)
    then show ?thesis using step [of best "cur\<lparr>rn_len := rn_len cur + 1\<rparr>"] m more Cons.prems by simp
  next
    case close
    have "run_ok words (i + 1) (better_run best cur)"
      using run_ok_better [OF Cons.prems(3,4)] run_ok_mono by (smt (verit))
    then show ?thesis using step [of "better_run best cur" "cur\<lparr>rn_base := - 1\<rparr>"] close Cons.prems by simp
  next
    case none
    then show ?thesis using step [of best cur] m Cons.prems by simp
  qed
qed simp

lemma best_run:
  assumes "length words = 8"
  shows "rn_base (ntop6_best words) = - 1 \<or>
    (\<exists>base len. rn_base (ntop6_best words) = int base \<and> rn_len (ntop6_best words) = int len \<and> 2 \<le> len \<and> base + len \<le> 8 \<and>
      (\<forall>j. base \<le> j \<and> j < base + len \<longrightarrow> words ! j = 0))"
proof -
  let ?n = "\<lparr>rn_base = - 1, rn_len = 0\<rparr>"
  obtain best cur where s: "ntop6_scan words 0 ?n ?n = (best, cur)" by fastforce
  have "run_ok words 8 best \<and> run_ok words 8 cur"
    using scan_ok [of words "[]" words 0 ?n ?n best cur] s assms by simp
  then have "run_ok words 8 (if rn_base cur \<noteq> - 1 then better_run best cur else best)" using run_ok_better by auto
  then obtain b where b: "run_ok words 8 b"
    "ntop6_best words = (if rn_base b \<noteq> - 1 \<and> rn_len b < 2 then b\<lparr>rn_base := - 1\<rparr> else b)"
    by (simp add: ntop6_best_def s Let_def)
  show ?thesis
  proof (cases "rn_base b = - 1 \<or> rn_len b < 2")
    case True
    then show ?thesis using b(2) by auto
  next
    case False
    then have r: "0 \<le> rn_base b" "2 \<le> rn_len b" "rn_base b + rn_len b \<le> 8"
      "\<forall>j. rn_base b \<le> j \<and> j < rn_base b + rn_len b \<longrightarrow> words ! nat j = 0"
      using b(1) by (auto simp: run_ok_def)
    have "words ! j = 0" if "nat (rn_base b) \<le> j" "j < nat (rn_base b) + nat (rn_len b)" for j
    proof -
      have "rn_base b \<le> int j \<and> int j < rn_base b + rn_len b" using that r by auto
      then have "words ! nat (int j) = 0" using r(4) by blast
      then show ?thesis by simp
    qed
    then show ?thesis
      using False b(2) r by (intro disjI2 exI [of _ "nat (rn_base b)"] exI [of _ "nat (rn_len b)"]) auto
  qed
qed

definition in_run :: "zero_run \<Rightarrow> nat \<Rightarrow> bool" where
  "in_run best i \<longleftrightarrow> rn_base best \<noteq> - 1 \<and> int i \<ge> rn_base best \<and> int i < rn_base best + rn_len best"

definition as_v4 :: "u32 list \<Rightarrow> zero_run \<Rightarrow> bool" where
  "as_v4 words best \<longleftrightarrow> rn_base best = 0 \<and>
     (rn_len best = 6 \<or> (rn_len best = 7 \<and> words ! 7 \<noteq> 0x0001) \<or> (rn_len best = 5 \<and> words ! 5 = 0xffff))"

definition piece :: "u32 list \<Rightarrow> nat \<Rightarrow> byte list" where
  "piece words i = (if i \<noteq> 0 then [58] else []) @ hex_text (unat (words ! i))"

lemma format_word:
  "i < 8 \<Longrightarrow> \<not> in_run best i \<Longrightarrow> \<not> (i = 6 \<and> as_v4 words best) \<Longrightarrow>
   ntop6_format src words best i tmp = ntop6_format src words best (i + 1) (tmp @ piece words i)"
  by (subst ntop6_format.simps) (auto simp: in_run_def as_v4_def piece_def Let_def)

lemma format_words:
  "i \<le> k \<Longrightarrow> k \<le> 8 \<Longrightarrow> (\<And>j. i \<le> j \<Longrightarrow> j < k \<Longrightarrow> \<not> in_run best j \<and> \<not> (j = 6 \<and> as_v4 words best)) \<Longrightarrow>
   ntop6_format src words best i tmp = ntop6_format src words best k (tmp @ concat (map (piece words) [i..<k]))"
proof (induction "k - i" arbitrary: i tmp)
  case (Suc n)
  then have i: "i < k" by simp
  have "ntop6_format src words best i tmp = ntop6_format src words best (i + 1) (tmp @ piece words i)"
    by (rule format_word) (use i Suc.prems(2) Suc.prems(3) [of i] in simp_all)
  also have "\<dots> = ntop6_format src words best k ((tmp @ piece words i) @ concat (map (piece words) [i + 1..<k]))"
  proof (rule Suc.hyps(1))
    fix j assume "i + 1 \<le> j" "j < k"
    then show "\<not> in_run best j \<and> \<not> (j = 6 \<and> as_v4 words best)" by (intro Suc.prems(3)) simp_all
  qed (use i Suc.hyps(2) Suc.prems(2) in auto)
  finally show ?case using i by (simp add: upt_conv_Cons)
qed simp

lemma format_run:
  "rn_base best = int base \<Longrightarrow> rn_len best = int len \<Longrightarrow> base + len \<le> 8 \<Longrightarrow> base < i \<Longrightarrow> i \<le> base + len \<Longrightarrow>
   ntop6_format src words best i tmp = ntop6_format src words best (base + len) tmp"
proof (induction "base + len - i" arbitrary: i)
  case (Suc n)
  have "i < base + len" using Suc.hyps(2) by simp
  then have "ntop6_format src words best i tmp = ntop6_format src words best (i + 1) tmp"
    using Suc.prems by (subst ntop6_format.simps) simp
  also have "\<dots> = ntop6_format src words best (base + len) tmp"
    by (rule Suc.hyps(1)) (use Suc.hyps(2) Suc.prems in auto)
  finally show ?case .
qed simp

lemma format_start_run:
  assumes "rn_base best = int base" "rn_len best = int len" "base + len \<le> 8" "0 < len"
  shows "ntop6_format src words best base tmp = ntop6_format src words best (base + len) (tmp @ [58])"
  using assms format_run [of best base len "base + 1" src words "tmp @ [58]"] by (subst ntop6_format.simps) simp


section \<open>The bounded copy\<close>

lemma strscpy_fit:
  "0 \<notin> set s \<Longrightarrow> length s < n \<Longrightarrow> n \<le> length d \<Longrightarrow> int (length s) \<le> SSIZE_MAX \<Longrightarrow> i \<le> length s \<Longrightarrow>
   strscpy_loop (take i s @ drop i d) s n i = (int (length s), s @ 0 # drop (Suc (length s)) d)"
proof (induction "length s - i" arbitrary: i)
  case 0
  then have "i = length s" by simp
  moreover have "drop (length s) d = d ! length s # drop (Suc (length s)) d"
    using 0 by (simp add: Cons_nth_drop_Suc)
  ultimately show ?case using 0 by (subst strscpy_loop.simps) (simp add: char_at_def Let_def)
next
  case (Suc k)
  then have i: "i < length s" "i < n" "i < length d" by simp_all
  then have nz: "char_at s i \<noteq> 0" using Suc.prems(1) by (metis char_at_def nth_mem)
  have "(take i s @ drop i d) [i := char_at s i] = take (Suc i) s @ drop (Suc i) d"
    using i by (simp add: char_at_def list_update_append take_Suc_conv_app_nth Cons_nth_drop_Suc [symmetric])
  then have "strscpy_loop (take i s @ drop i d) s n i = strscpy_loop (take (Suc i) s @ drop (Suc i) d) s n (Suc i)"
    using i nz by (subst strscpy_loop.simps) (simp add: Let_def)
  then show ?case using Suc.hyps(1) [of "Suc i"] Suc.hyps(2) Suc.prems i by simp
qed

lemma strscpy_trunc:
  "0 \<notin> set s \<Longrightarrow> n \<le> length s \<Longrightarrow> 0 < n \<Longrightarrow> n \<le> length d \<Longrightarrow> i \<le> n \<Longrightarrow>
   strscpy_loop (take i s @ drop i d) s n i = (UV_E2BIG, take (n - 1) s @ 0 # drop n d)"
proof (induction "n - i" arbitrary: i)
  case 0
  then have "i = n" by simp
  moreover have "take n s = take (n - 1) s @ [s ! (n - 1)]" using 0 by (cases n) (simp_all add: take_Suc_conv_app_nth)
  then have "(take n s @ drop n d) [n - 1 := 0] = take (n - 1) s @ 0 # drop n d" using 0 by (simp add: list_update_append)
  ultimately show ?case using 0 by (subst strscpy_loop.simps) simp
next
  case (Suc k)
  then have i: "i < length s" "i < n" "i < length d" by simp_all
  then have nz: "char_at s i \<noteq> 0" using Suc.prems(1) by (metis char_at_def nth_mem)
  have "(take i s @ drop i d) [i := char_at s i] = take (Suc i) s @ drop (Suc i) d"
    using i by (simp add: char_at_def list_update_append take_Suc_conv_app_nth Cons_nth_drop_Suc [symmetric])
  then have "strscpy_loop (take i s @ drop i d) s n i = strscpy_loop (take (Suc i) s @ drop (Suc i) d) s n (Suc i)"
    using i nz by (subst strscpy_loop.simps) (simp add: Let_def)
  then show ?case using Suc.hyps(1) [of "Suc i"] Suc.hyps(2) Suc.prems i by simp
qed

lemma uv__strscpy_fits:
  "0 \<notin> set s \<Longrightarrow> length s < n \<Longrightarrow> n \<le> length d \<Longrightarrow> int (length s) \<le> SSIZE_MAX \<Longrightarrow>
   uv__strscpy d s n = (int (length s), s @ 0 # drop (Suc (length s)) d)"
  using strscpy_fit [of s n d 0] by (simp add: uv__strscpy_def)

lemma uv__strscpy_truncates:
  "0 \<notin> set s \<Longrightarrow> n \<le> length s \<Longrightarrow> 0 < n \<Longrightarrow> n \<le> length d \<Longrightarrow>
   uv__strscpy d s n = (UV_E2BIG, take (n - 1) s @ 0 # drop n d)"
  using strscpy_trunc [of s n d 0] by (simp add: uv__strscpy_def)

lemma strscpy_loop_frame:
  "length (snd (strscpy_loop d s n i)) = length d \<and> drop (max n i) (snd (strscpy_loop d s n i)) = drop (max n i) d"
proof (induction d s n i rule: strscpy_loop.induct)
  case (1 d s n i)
  show ?case
  proof (cases "i < n \<and> char_at s i \<noteq> 0")
    case True
    then have "max n (i + 1) = n" "max n i = n" by simp_all
    then show ?thesis using 1 True by (subst (1 2) strscpy_loop.simps) (simp add: Let_def)
  next
    case False
    then show ?thesis by (subst (1 2) strscpy_loop.simps) (auto simp: Let_def)
  qed
qed

lemma uv__strscpy_frame:
  "length (snd (uv__strscpy d s n)) = length d \<and> drop n (snd (uv__strscpy d s n)) = drop n d"
  using strscpy_loop_frame [of d s n 0] by (simp add: uv__strscpy_def)

lemma c_str_terminated: "0 \<notin> set s \<Longrightarrow> c_str (s @ 0 # xs) = s"
  using c_str_id [of s] by (simp add: c_str_def takeWhile_tail)

section \<open>IPv4\<close>

lemma dotted_length: "bs \<noteq> [] \<Longrightarrow> length (dotted bs) + 1 \<le> 4 * length bs"
proof (induction bs rule: dotted.induct)
  case (2 b)
  then show ?case using byte_dec_length [of b] by simp
next
  case (3 b c bs)
  then show ?case using byte_dec_length [of b] by simp
qed simp

lemma dotted_ne: "bs \<noteq> [] \<Longrightarrow> dotted bs \<noteq> []"
  by (cases bs rule: dotted.cases) simp_all

lemma inet_ntop4_eq:
  assumes "length src = 4" and "sz \<le> length dst"
  shows "inet_ntop4 src dst sz =
    (if length (dotted src) < sz then (0, dotted src @ 0 # drop (Suc (length (dotted src))) dst) else (UV_ENOSPC, dst))"
proof -
  have "src \<noteq> []" using assms(1) by auto
  then have l: "length (dotted src) \<le> 15" "dotted src \<noteq> []" using dotted_length [of src] dotted_ne assms(1) by auto
  have "0 \<notin> set (dotted src)" using dotted_chars by blast
  then show ?thesis
    using l assms uv__strscpy_fits [of "dotted src" sz dst] by (simp add: inet_ntop4_def Let_def)
qed

section \<open>The text of an IPv6 address\<close>

lemma ntop6_words_bytes:
  assumes "length src = 16"
  shows "length (ntop6_words src) = 8" "groups_bytes (map unat (ntop6_words src)) = src"
    "\<forall>w \<in> set (ntop6_words src). unat w < 2 ^ 16"
proof -
  obtain a0 a1 a2 a3 a4 a5 a6 a7 a8 a9 b0 b1 b2 b3 b4 b5 where
    s: "src = [a0, a1, a2, a3, a4, a5, a6, a7, a8, a9, b0, b1, b2, b3, b4, b5]"
    using assms by (auto simp: numeral_eq_Suc length_Suc_conv)
  have r: "replicate 8 x = [x, x, x, x, x, x, x, x]" for x :: u32 by (simp add: numeral_eq_Suc)
  have i: "[0..<16] = [0, 1, 2, 3, 4, 5, 6, 7, 8, 9, 10, 11, 12, 13, 14, 15 :: nat]" by (simp add: upt_rec)
  let ?w = "\<lambda>a b. (push_bit 8 (ucast (a :: byte)) OR ucast (b :: byte)) :: u32"
  have w: "ntop6_words src = [?w a0 a1, ?w a2 a3, ?w a4 a5, ?w a6 a7, ?w a8 a9, ?w b0 b1, ?w b2 b3, ?w b4 b5]"
    unfolding s ntop6_words_def i r by simp
  have u: "unat (?w a b) = unat a * 256 + unat b" for a b
    using unat_push_bit_or [of "ucast b :: u32" 8 "ucast a"] byte_less [of a] byte_less [of b] by (simp add: unat_ucast_up)
  have "be_bytes 2 (unat a * 256 + unat b) = [a, b]" for a b :: byte
    using byte_of_nat_unat [of b "unat a"] by (simp add: numeral_2_eq_2 add.commute mult.commute)
  then show "groups_bytes (map unat (ntop6_words src)) = src" unfolding w by (simp add: u s)
  show "length (ntop6_words src) = 8" unfolding w by simp
  have "unat (?w a b) < 2 ^ 16" for a b
  proof -
    have "unat a \<le> 255" "unat b \<le> 255" using byte_less [of a] byte_less [of b] by linarith+
    then show ?thesis unfolding u by simp
  qed
  then show "\<forall>w \<in> set (ntop6_words src). unat w < 2 ^ 16" unfolding w by simp
qed


lemma pieces_colon:
  "0 < k \<Longrightarrow> k \<le> length words \<Longrightarrow>
   concat (map (piece words) [0..<k]) @ [58] = groups_colon (map unat (take k words))"
proof (induction k)
  case (Suc k)
  have t: "take (Suc k) words = take k words @ [words ! k]" using Suc.prems(2) by (simp add: take_Suc_conv_app_nth)
  show ?case
  proof (cases "k = 0")
    case True
    then show ?thesis using t by (simp add: piece_def groups_colon_def)
  next
    case False
    then have ih: "concat (map (piece words) [0..<k]) @ [58] = groups_colon (map unat (take k words))"
      using Suc by simp
    have "concat (map (piece words) [0..<Suc k]) @ [58] =
        (concat (map (piece words) [0..<k]) @ [58]) @ hex_text (unat (words ! k)) @ [58]"
      using False by (simp add: piece_def [of words k])
    then show ?thesis unfolding ih t by (simp add: groups_colon_def)
  qed
qed simp

lemma pieces_after:
  "0 < m \<Longrightarrow> m < n \<Longrightarrow> n = length words \<Longrightarrow>
   concat (map (piece words) [m..<n]) = 58 # colons (map unat (drop m words))"
proof (induction "n - m" arbitrary: m)
  case (Suc k)
  have d: "drop m words = words ! m # drop (Suc m) words" using Suc.prems by (simp add: Cons_nth_drop_Suc)
  show ?case
  proof (cases "Suc m < n")
    case True
    then have "concat (map (piece words) [Suc m..<n]) = 58 # colons (map unat (drop (Suc m) words))"
      by (intro Suc.hyps(1)) (use Suc in auto)
    moreover obtain v vs where "map unat (drop (Suc m) words) = v # vs" using True Suc.prems by (cases "drop (Suc m) words") auto
    ultimately show ?thesis using Suc.prems d by (simp add: upt_conv_Cons piece_def)
  next
    case False
    then have "n = Suc m" using Suc.prems by simp
    then show ?thesis using Suc.prems d by (simp add: upt_conv_Cons piece_def)
  qed
qed simp

lemma pieces_all:
  assumes "length words = Suc n"
  shows "concat (map (piece words) [0..<Suc n]) = colons (map unat words)"
proof -
  obtain w ws where w: "words = w # ws" using assms by (cases words) auto
  show ?thesis
  proof (cases n)
    case 0
    then show ?thesis using assms w by (simp add: piece_def)
  next
    case (Suc k)
    then have "ws \<noteq> []" using assms w by auto
    then obtain u us where "ws = u # us" by (cases ws) auto
    then show ?thesis
      using pieces_after [of 1 "Suc n" words] assms w Suc by (simp add: upt_conv_Cons [of 0] piece_def [of _ 0] del: upt_Suc)
  qed
qed

lemma groups_bytes_zeros: "\<forall>v \<in> set vs. v = 0 \<Longrightarrow> groups_bytes vs = replicate (2 * length vs) 0"
  by (induction vs) (auto simp: numeral_2_eq_2)

text \<open>The words around a run of zeros.\<close>

lemma zero_run_split:
  assumes "length (words :: u32 list) = 8" and "base + len \<le> 8" and "\<forall>j. base \<le> j \<and> j < base + len \<longrightarrow> words ! j = 0"
  shows "groups_bytes (map unat words) = groups_bytes (map unat (take base words)) @ replicate (2 * len) 0 @
    groups_bytes (map unat (drop (base + len) words))"
proof -
  have "words = take base words @ take len (drop base words) @ drop (base + len) words"
    by (metis add.commute append_take_drop_id drop_drop)
  moreover have "\<forall>v \<in> set (map unat (take len (drop base words))). v = 0"
    using assms by (auto simp: in_set_conv_nth)
  then have "groups_bytes (map unat (take len (drop base words))) = replicate (2 * len) 0"
    using groups_bytes_zeros [of "map unat (take len (drop base words))"] assms(1,2) by simp
  ultimately show ?thesis by (metis groups_bytes_simps(3) map_append)
qed

definition text_ok :: "byte list \<Rightarrow> bool" where
  "text_ok t \<longleftrightarrow> 0 \<notin> set t \<and> 37 \<notin> set t \<and> length t \<le> 45"

lemma hex_char_ok: "v < 2 ^ 16 \<Longrightarrow> 0 \<notin> set (hex_text v) \<and> 37 \<notin> set (hex_text v) \<and> length (hex_text v) \<le> 4"
  using hex_text_chars [of 0 v] hex_text_chars [of 37 v] digit_char_props hex_text_length [of v 3] by fastforce

lemma groups_colon_ok:
  "\<forall>v \<in> set vs. v < 2 ^ 16 \<Longrightarrow> 0 \<notin> set (groups_colon vs) \<and> 37 \<notin> set (groups_colon vs) \<and> length (groups_colon vs) \<le> 5 * length vs"
  using hex_char_ok by (induction vs) fastforce+

lemma colons_ok:
  "\<forall>v \<in> set vs. v < 2 ^ 16 \<Longrightarrow> 0 \<notin> set (colons vs) \<and> 37 \<notin> set (colons vs) \<and> length (colons vs) \<le> 5 * length vs"
  using hex_char_ok by (induction vs rule: colons.induct) fastforce+

lemma v6_text_ok:
  assumes "\<forall>v \<in> set (pre @ post). v < 2 ^ 16" and "length pre + length post \<le> 6"
  shows "text_ok (v6_text pre post)"
  using groups_colon_ok [of pre] colons_ok [of post] assms by (auto simp: text_ok_def v6_text_def)


text \<open>The whole text, with the colon of a trailing run.\<close>

definition ntop6_text :: "byte list \<Rightarrow> int + byte list" where
  "ntop6_text src =
     (let words = ntop6_words src; best = ntop6_best words
      in case ntop6_format src words best 0 [] of
           Inl err \<Rightarrow> Inl err
         | Inr tmp \<Rightarrow> Inr (if rn_base best \<noteq> - 1 \<and> rn_base best + rn_len best = 8 then tmp @ [58] else tmp))"

lemma inet_ntop6_text:
  "inet_ntop6 src dst sz = (case ntop6_text src of
     Inl err \<Rightarrow> (err, dst)
   | Inr t \<Rightarrow> (case uv__strscpy dst t sz of (r, dst1) \<Rightarrow> (if r = UV_E2BIG then UV_ENOSPC else 0, dst1)))"
  by (simp add: inet_ntop6_def ntop6_text_def Let_def split: sum.split)

lemma format_done: "ntop6_format src words best 8 tmp = Inr tmp"
  by (subst ntop6_format.simps) simp

lemma text_no_run:
  assumes len: "length src = 16" and none: "rn_base (ntop6_best (ntop6_words src)) = - 1"
  shows "ntop6_text src = Inr (colons (map unat (ntop6_words src)))"
proof -
  let ?w = "ntop6_words src" and ?b = "ntop6_best (ntop6_words src)"
  have "ntop6_format src ?w ?b 0 [] = ntop6_format src ?w ?b 8 ([] @ concat (map (piece ?w) [0..<8]))"
    by (rule format_words) (use none in \<open>auto simp: in_run_def as_v4_def\<close>)
  moreover have "concat (map (piece ?w) [0..<Suc 7]) = colons (map unat ?w)"
    by (rule pieces_all) (use ntop6_words_bytes(1) [OF len] in simp)
  ultimately show ?thesis using none by (simp add: ntop6_text_def format_done Let_def)
qed

lemma format_before_run:
  assumes "rn_base best = int base" "rn_len best = int len" "base + len \<le> 8" "2 \<le> len"
  shows "ntop6_format src words best 0 [] =
    ntop6_format src words best (base + len) (concat (map (piece words) [0..<base]) @ [58])"
proof -
  have "ntop6_format src words best 0 [] = ntop6_format src words best base ([] @ concat (map (piece words) [0..<base]))"
    by (rule format_words) (use assms in \<open>auto simp: in_run_def as_v4_def\<close>)
  then show ?thesis using format_start_run [OF assms(1-3), of src words] assms(4) by simp
qed

lemma text_run:
  assumes len: "length src = 16" and r: "rn_base (ntop6_best (ntop6_words src)) = int base"
    "rn_len (ntop6_best (ntop6_words src)) = int l" "base + l \<le> 8" "2 \<le> l"
    and v4: "\<not> (as_v4 (ntop6_words src) (ntop6_best (ntop6_words src)) \<and> l \<noteq> 7)"
  shows "ntop6_text src = Inr (v6_text (map unat (take base (ntop6_words src))) (map unat (drop (base + l) (ntop6_words src))))"
proof -
  let ?w = "ntop6_words src" and ?b = "ntop6_best (ntop6_words src)"
  have w: "length ?w = 8" by (rule ntop6_words_bytes(1) [OF len])
  let ?t = "concat (map (piece ?w) [0..<base]) @ [58]"
  have t: "?t = (if base = 0 then [58] else groups_colon (map unat (take base ?w)))"
    using pieces_colon [of base ?w] w r(3,4) by auto
  have "ntop6_format src ?w ?b (base + l) ?t = ntop6_format src ?w ?b 8 (?t @ concat (map (piece ?w) [base + l..<8]))"
  proof (rule format_words)
    fix j assume j: "base + l \<le> j" "j < 8"
    have "base = 0" if "as_v4 ?w ?b" using that r(1) by (simp add: as_v4_def)
    then show "\<not> in_run ?b j \<and> \<not> (j = 6 \<and> as_v4 ?w ?b)" using j r v4 by (auto simp: in_run_def)
  qed (use r in auto)
  then have f: "ntop6_format src ?w ?b 0 [] = Inr (?t @ concat (map (piece ?w) [base + l..<8]))"
    using format_before_run [OF r] by (simp add: format_done)
  have e: "(if rn_base ?b \<noteq> - 1 \<and> rn_base ?b + rn_len ?b = 8 then ?t @ concat (map (piece ?w) [base + l..<8]) @ [58]
        else ?t @ concat (map (piece ?w) [base + l..<8])) =
      ?t @ 58 # colons (map unat (drop (base + l) ?w))"
  proof (cases "base + l = 8")
    case True
    then show ?thesis using r w by simp
  next
    case False
    then have "concat (map (piece ?w) [base + l..<8]) = 58 # colons (map unat (drop (base + l) ?w))"
      by (intro pieces_after) (use False w r(3,4) in simp_all)
    then show ?thesis using False r by simp
  qed
  have "ntop6_text src = Inr (?t @ 58 # colons (map unat (drop (base + l) ?w)))"
    unfolding ntop6_text_def Let_def f sum.case e [symmetric] by simp
  moreover have "(map unat (take base ?w) = []) = (base = 0)" using w by auto
  ultimately show ?thesis unfolding t v6_text_def by simp
qed

lemma text_v4:
  assumes len: "length src = 16" and r: "rn_base (ntop6_best (ntop6_words src)) = int base"
    "rn_len (ntop6_best (ntop6_words src)) = int l" "base + l \<le> 8" "2 \<le> l"
    and v4: "as_v4 (ntop6_words src) (ntop6_best (ntop6_words src))" "l \<noteq> 7"
  shows "base = 0 \<and> (l = 5 \<or> l = 6) \<and>
    ntop6_text src = Inr (58 # 58 # groups_colon (map unat (take (6 - l) (drop l (ntop6_words src)))) @ dotted (drop 12 src))"
proof -
  let ?w = "ntop6_words src" and ?b = "ntop6_best (ntop6_words src)"
  have w: "length ?w = 8" by (rule ntop6_words_bytes(1) [OF len])
  have b: "base = 0" "l = 5 \<or> l = 6" using v4 r(1,2) by (auto simp: as_v4_def)
  let ?t = "[58] @ concat (map (piece ?w) [l..<6])"
  have "ntop6_format src ?w ?b 0 [] = ntop6_format src ?w ?b l [58]"
    using format_before_run [OF r] b by simp
  also have "\<dots> = ntop6_format src ?w ?b 6 ?t"
    by (rule format_words) (use b r in \<open>auto simp: in_run_def\<close>)
  also have "\<dots> = Inr (?t @ 58 # dotted (drop 12 src))"
  proof -
    have d: "length (drop 12 src) = 4" using len by simp
    have tl: "length (?t @ [58]) \<le> 8"
    proof (cases "l = 5")
      case True
      then have "[l..<6] = [5]" by (simp add: upt_rec)
      moreover have "unat (?w ! 5) < 2 ^ 16" using ntop6_words_bytes(3) [OF len] w by simp
      then have "length (hex_text (unat (?w ! 5))) \<le> 4" using hex_char_ok by blast
      ultimately show ?thesis by (simp add: piece_def)
    qed (use b in simp)
    let ?room = "46 - length (?t @ [58])"
    have "drop 12 src \<noteq> []" using d by auto
    then have "length (dotted (drop 12 src)) < ?room" using dotted_length [of "drop 12 src"] d tl by linarith
    then have "inet_ntop4 (drop 12 src) (replicate ?room 0) ?room =
        (0, dotted (drop 12 src) @ 0 # drop (Suc (length (dotted (drop 12 src)))) (replicate ?room 0))"
      using inet_ntop4_eq [OF d, of ?room "replicate ?room 0"] by simp
    moreover have "0 \<notin> set (dotted (drop 12 src))" using dotted_chars by blast
    moreover have "\<not> in_run ?b 6" using b r by (auto simp: in_run_def)
    ultimately show ?thesis
      using v4 by (subst ntop6_format.simps) (simp add: in_run_def as_v4_def c_str_terminated Let_def)
  qed
  finally have f: "ntop6_format src ?w ?b 0 [] = Inr (?t @ 58 # dotted (drop 12 src))" .
  have "concat (map (piece ?w) [l..<6]) @ [58] = 58 # groups_colon (map unat (take (6 - l) (drop l ?w)))"
  proof (cases "l = 5")
    case True
    then have "[l..<6] = [5]" by (simp add: upt_rec)
    moreover have "take 1 (drop 5 ?w) = [?w ! 5]" using w by (simp add: take_Suc_conv_app_nth)
    ultimately show ?thesis using True by (simp add: piece_def)
  qed (use b in simp)
  then have "?t @ 58 # dotted (drop 12 src) =
      58 # 58 # groups_colon (map unat (take (6 - l) (drop l ?w))) @ dotted (drop 12 src)"
    by (metis append.assoc append_Cons append_Nil)
  then show ?thesis using f b r by (auto simp: ntop6_text_def Let_def)
qed

text \<open>Every address has a text, which fits the buffer and reads back as the address.\<close>

lemma ntop6_text_ok:
  assumes len: "length src = 16"
  shows "\<exists>t. ntop6_text src = Inr t \<and> text_ok t \<and> inet_pton6 t = Inr src"
proof -
  let ?w = "ntop6_words src" and ?b = "ntop6_best (ntop6_words src)"
  note w = ntop6_words_bytes [OF len]
  have vs: "\<forall>v \<in> set (map unat ?w). v < 2 ^ 16" using w(3) by simp
  consider (none) "rn_base ?b = - 1"
    | (run) base l where "rn_base ?b = int base" "rn_len ?b = int l" "base + l \<le> 8" "2 \<le> l"
        "\<forall>j. base \<le> j \<and> j < base + l \<longrightarrow> ?w ! j = 0" "\<not> (as_v4 ?w ?b \<and> l \<noteq> 7)"
    | (v4) base l where "rn_base ?b = int base" "rn_len ?b = int l" "base + l \<le> 8" "2 \<le> l"
        "\<forall>j. base \<le> j \<and> j < base + l \<longrightarrow> ?w ! j = 0" "as_v4 ?w ?b" "l \<noteq> 7"
    using best_run [OF w(1)] by blast
  then show ?thesis
  proof cases
    case none
    have "text_ok (colons (map unat ?w))" using colons_ok [OF vs] w(1) by (simp add: text_ok_def)
    then show ?thesis using text_no_run [OF len none] pton6_full [OF vs] w by simp
  next
    case run
    let ?pre = "map unat (take base ?w)" and ?post = "map unat (drop (base + l) ?w)"
    have v: "\<forall>v \<in> set (?pre @ ?post). v < 2 ^ 16" using w(3) by (auto dest: in_set_takeD in_set_dropD)
    have n: "length ?pre + length ?post = 8 - l" using w(1) run(3) by simp
    have "16 - 2 * (length ?pre + length ?post) = 2 * l" using n run(3) by simp
    then have "inet_pton6 (v6_text ?pre ?post) = Inr (groups_bytes ?pre @ replicate (2 * l) 0 @ groups_bytes ?post)"
      using pton6_gap [OF v] n run(4) by simp
    then have "inet_pton6 (v6_text ?pre ?post) = Inr src" using zero_run_split [OF w(1) run(3,5)] w(2) by simp
    moreover have "text_ok (v6_text ?pre ?post)" using v6_text_ok [OF v] n run(4) by simp
    ultimately show ?thesis using text_run [OF len run(1-4,6)] by simp
  next
    case v4
    let ?vs = "map unat (take (6 - l) (drop l ?w))"
    note t = text_v4 [OF len v4(1-4,6,7)]
    have v: "\<forall>v \<in> set ?vs. v < 2 ^ 16" using w(3) by (auto dest: in_set_takeD in_set_dropD)
    have n: "length ?vs = 6 - l" using w(1) t by auto
    have d: "length (drop 12 src) = 4" using len by simp
    have "drop 6 ?w = drop (6 - l) (drop l ?w)" using t by auto
    then have "drop l ?w = take (6 - l) (drop l ?w) @ drop 6 ?w" by (simp only: append_take_drop_id)
    then have "map unat (drop l ?w) = ?vs @ map unat (drop 6 ?w)" by (metis map_append)
    then have "groups_bytes (map unat (drop l ?w)) = groups_bytes ?vs @ groups_bytes (map unat (drop 6 ?w))"
      by (simp only: groups_bytes_simps)
    then have s: "src = replicate (2 * l) 0 @ groups_bytes ?vs @ groups_bytes (map unat (drop 6 ?w))"
      using zero_run_split [OF w(1) v4(3,5)] w(2) t by simp
    have "length (replicate (2 * l) 0 @ groups_bytes ?vs :: byte list) = 12" using n t by auto
    then have "drop 12 src = groups_bytes (map unat (drop 6 ?w))" using s by (metis append.assoc append_eq_conv_conj)
    then have e: "replicate (2 * l) 0 @ groups_bytes ?vs @ drop 12 src = src" by (simp only: s [symmetric])
    have "12 - 2 * length ?vs = 2 * l" "length ?vs < 6" using n t by auto
    then have "inet_pton6 (58 # 58 # groups_colon ?vs @ dotted (drop 12 src)) = Inr src"
      using pton6_v4 [OF v d] by (simp only: e)
    moreover have "drop 12 src \<noteq> []" using d by auto
    then have "length (dotted (drop 12 src)) \<le> 15" using dotted_length [of "drop 12 src"] d by simp
    then have "text_ok (58 # 58 # groups_colon ?vs @ dotted (drop 12 src))"
      using groups_colon_ok [OF v] dotted_chars [of 0 "drop 12 src"] dotted_chars [of 37 "drop 12 src"] n t
      by (auto simp: text_ok_def)
    ultimately show ?thesis using t by auto
  qed
qed


lemma c_str_Cons: "c_str (ch # s) = (if ch = 0 then [] else ch # c_str s)"
  by (simp add: c_str_def)

lemma c_str_Nil [simp]: "c_str [] = []"
  by (simp add: c_str_def)

lemma char_at_c_str: "char_at (c_str s) 0 = char_at s 0"
  by (cases s) (auto simp: char_at_def c_str_Cons)

lemma inet_pton4_c_str: "inet_pton4 (c_str s) = inet_pton4 s"
  by (simp add: inet_pton4_def pton4_loop_c_str)

lemma pton6_loop_c_str: "pton6_loop (c_str src) (c_str curtok) st = pton6_loop src curtok st"
  by (induction src arbitrary: curtok st)
    (auto simp: c_str_Cons Let_def char_at_c_str inet_pton4_c_str split: option.split)

lemma inet_pton6_c_str: "inet_pton6 (c_str s) = inet_pton6 s"
proof (cases "char_at s 0 = 58")
  case True
  then obtain s' where s: "s = 58 # s'" by (cases s) (auto simp: char_at_def)
  have "char_at (c_str s) 1 = char_at s 1" using char_at_c_str [of s'] by (simp add: s c_str_Cons char_at_def split: if_splits)
  moreover have "drop 1 (c_str s) = c_str (drop 1 s)" by (simp add: s c_str_Cons)
  ultimately show ?thesis by (simp add: inet_pton6_def char_at_c_str pton6_loop_c_str Let_def)
next
  case False
  then show ?thesis by (simp add: inet_pton6_def char_at_c_str pton6_loop_c_str Let_def)
qed

lemma strchr_None: "ch \<notin> set s \<Longrightarrow> strchr s ch = None"
  by (induction s) auto

lemma inet_ntop4_frame: "length (snd (inet_ntop4 src dst sz)) = length dst \<and> drop sz (snd (inet_ntop4 src dst sz)) = drop sz dst"
  using uv__strscpy_frame by (simp add: inet_ntop4_def Let_def)

lemma inet_ntop6_frame: "length (snd (inet_ntop6 src dst sz)) = length dst \<and> drop sz (snd (inet_ntop6 src dst sz)) = drop sz dst"
  using uv__strscpy_frame [of dst _ sz] by (simp add: inet_ntop6_text split: sum.split prod.split) (metis snd_conv)

lemma inet_ntop6_eq:
  assumes "length src = 16" and "0 < sz" and "sz \<le> length dst"
  shows "\<exists>t. text_ok t \<and> inet_pton6 t = Inr src \<and> inet_ntop6 src dst sz =
    (if length t < sz then (0, t @ 0 # drop (Suc (length t)) dst) else (UV_ENOSPC, take (sz - 1) t @ 0 # drop sz dst))"
proof -
  obtain t where t: "ntop6_text src = Inr t" "text_ok t" "inet_pton6 t = Inr src" using ntop6_text_ok [OF assms(1)] by blast
  then have "uv__strscpy dst t sz = (if length t < sz then (int (length t), t @ 0 # drop (Suc (length t)) dst)
      else (UV_E2BIG, take (sz - 1) t @ 0 # drop sz dst))"
    using uv__strscpy_fits [of t sz dst] uv__strscpy_truncates [of t sz dst] assms(2,3) by (auto simp: text_ok_def)
  then show ?thesis using t by (auto simp: inet_ntop6_text)
qed

section \<open>Properties\<close>

text \<open>
  C20. Addresses survive the trip through text, in both families: \<open>uv_inet_ntop\<close> succeeds exactly when the
  text and its terminator fit the buffer, and then leaves there a text which \<open>uv_inet_pton\<close> reads as the
  address it came from; otherwise it reports \<open>UV_ENOSPC\<close>. The buffer lengths that the header promises
  are always enough. For IPv6 this covers the zero run that is written as two colons, wherever it is,
  and the embedded IPv4 forms.
\<close>

theorem inet_text_roundtrip:
  assumes "af = AF_INET \<and> length src = 4 \<and> cap = UV__INET_ADDRSTRLEN \<or>
      af = AF_INET6 \<and> length src = 16 \<and> cap = UV__INET6_ADDRSTRLEN"
    and "0 < sz" and "sz \<le> length dst"
  shows "\<exists>text. length text < cap \<and> uv_inet_pton af (Some text) False = Inr src \<and>
    fst (uv_inet_ntop af src dst sz) = (if length text < sz then 0 else UV_ENOSPC) \<and>
    (length text < sz \<longrightarrow> c_str (snd (uv_inet_ntop af src dst sz)) = text \<and>
       uv_inet_pton af (Some (snd (uv_inet_ntop af src dst sz))) False = Inr src)"
proof (cases "af = AF_INET")
  case True
  then have l: "length src = 4" "cap = 16" using assms(1) by auto
  have z: "0 \<notin> set (dotted src)" using dotted_chars by blast
  have "src \<noteq> []" using l by auto
  then have "length (dotted src) < cap" using dotted_length [of src] l by simp
  moreover have p: "inet_pton4 (dotted src @ 0 # xs) = Inr src" "inet_pton4 (dotted src) = Inr src" for xs
    using l z by (simp_all add: inet_pton4_iff c_str_terminated c_str_id)
  ultimately show ?thesis
    using True inet_ntop4_eq [OF l(1) assms(3)] z
    by (intro exI [of _ "dotted src"]) (simp add: uv_inet_ntop_def uv_inet_pton_def c_str_terminated)
next
  case False
  then have l: "af = AF_INET6" "length src = 16" "cap = 46" using assms(1) by auto
  obtain t where t: "text_ok t" "inet_pton6 t = Inr src" "inet_ntop6 src dst sz =
      (if length t < sz then (0, t @ 0 # drop (Suc (length t)) dst) else (UV_ENOSPC, take (sz - 1) t @ 0 # drop sz dst))"
    using inet_ntop6_eq [OF l(2) assms(2,3)] by blast
  then have z: "0 \<notin> set t" "37 \<notin> set t" "length t < 46" by (simp_all add: text_ok_def)
  have "inet_pton6 (t @ 0 # xs) = Inr src" for xs using t(2) z(1) inet_pton6_c_str [of "t @ 0 # xs"] by (simp add: c_str_terminated)
  then show ?thesis
    using t z l False
    by (intro exI [of _ t]) (simp add: uv_inet_ntop_def uv_inet_pton_def c_str_terminated c_str_id strchr_None)
qed

text \<open>
  C21. The IPv4 parser accepts exactly the canonical texts: a string is read as the four bytes of an
  address if and only if it is what the address prints as. In particular leading zeros, empty parts,
  values above 255, and fewer or more than four parts are refused.
\<close>

theorem inet_pton4_exact:
  "uv_inet_pton AF_INET (Some s) False = Inr bs \<longleftrightarrow> length bs = 4 \<and> c_str s = dotted bs"
  by (simp add: uv_inet_pton_def inet_pton4_iff)

text \<open>
  C22. \<open>uv_inet_ntop\<close> never writes outside the first \<open>sz\<close> bytes of the destination, whatever the family, the
  address and the size, on success and on failure.
\<close>

theorem uv_inet_ntop_in_bounds:
  "length (snd (uv_inet_ntop af src dst sz)) = length dst \<and> drop sz (snd (uv_inet_ntop af src dst sz)) = drop sz dst"
  using inet_ntop4_frame inet_ntop6_frame by (simp add: uv_inet_ntop_def)

text \<open>
  With a buffer of size zero the two families differ: IPv4 reports \<open>UV_ENOSPC\<close>, IPv6 reports success
  although nothing has been written, because \<open>uv__strscpy\<close> returns 0 for a size of 0.
\<close>

lemma inet_ntop6_zero_size:
  "fst (uv_inet_ntop AF_INET [127, 0, 0, 1] dst 0) = UV_ENOSPC \<and>
   uv_inet_ntop AF_INET6 (replicate 15 0 @ [1]) dst 0 = (0, dst)"
proof -
  obtain t where "ntop6_text (replicate 15 0 @ [1]) = Inr t" using ntop6_text_ok [of "replicate 15 0 @ [1]"] by auto
  moreover have "uv__strscpy dst t 0 = (0, dst)" by (simp add: uv__strscpy_def) (subst strscpy_loop.simps, simp)
  ultimately show ?thesis by (simp add: uv_inet_ntop_def inet_ntop6_text inet_ntop4_def Let_def)
qed

theorem inet_text_roundtrip_witness:
  "\<exists>text. uv_inet_pton AF_INET6 (Some text) False = Inr (replicate 15 0 @ [1])"
  using inet_text_roundtrip [of AF_INET6 "replicate 15 0 @ [1]" 46 46 "replicate 46 0"] by auto


end
