(* ===== verification/PbIter.thy ===== *)
theory PbIter
  imports Prelude "HOL-Library.Monad_Syntax"
begin

unbundle bit_operations_syntax

text \<open>
  The field descriptors of nanopb (\<^verbatim>\<open>pb.h\<close>) and the iterator over the fields of a message
  (\<^verbatim>\<open>pb_common.c\<close>, and \<open>find_extension_field\<close> of \<^verbatim>\<open>pb_decode.c\<close>). The pod is built with
  \<open>PB_FIELD_32BIT\<close>, so \<open>pb_size_t\<close> is a 32-bit word; an address is a 64-bit word and the null pointer is 0.
  An array of descriptors is the list of its entries up to and including the terminator, a pointer into
  it is an index, and reading behind the array gives \<open>None\<close>.
\<close>

section \<open>Descriptors\<close>

type_synonym addr = "u64"

record pb_field =
  pf_tag :: u32
  pf_type :: byte
  pf_data_offset :: u32
  pf_size_offset :: u32
  pf_data_size :: u32
  pf_array_size :: u32
  pf_ptr :: addr

abbreviation (input) PB_LTYPE_BOOL :: byte where "PB_LTYPE_BOOL \<equiv> 0x00"
abbreviation (input) PB_LTYPE_VARINT :: byte where "PB_LTYPE_VARINT \<equiv> 0x01"
abbreviation (input) PB_LTYPE_UVARINT :: byte where "PB_LTYPE_UVARINT \<equiv> 0x02"
abbreviation (input) PB_LTYPE_SVARINT :: byte where "PB_LTYPE_SVARINT \<equiv> 0x03"
abbreviation (input) PB_LTYPE_FIXED32 :: byte where "PB_LTYPE_FIXED32 \<equiv> 0x04"
abbreviation (input) PB_LTYPE_FIXED64 :: byte where "PB_LTYPE_FIXED64 \<equiv> 0x05"
abbreviation (input) PB_LTYPE_LAST_PACKABLE :: byte where "PB_LTYPE_LAST_PACKABLE \<equiv> 0x05"
abbreviation (input) PB_LTYPE_BYTES :: byte where "PB_LTYPE_BYTES \<equiv> 0x06"
abbreviation (input) PB_LTYPE_STRING :: byte where "PB_LTYPE_STRING \<equiv> 0x07"
abbreviation (input) PB_LTYPE_SUBMESSAGE :: byte where "PB_LTYPE_SUBMESSAGE \<equiv> 0x08"
abbreviation (input) PB_LTYPE_EXTENSION :: byte where "PB_LTYPE_EXTENSION \<equiv> 0x09"
abbreviation (input) PB_LTYPE_FIXED_LENGTH_BYTES :: byte where "PB_LTYPE_FIXED_LENGTH_BYTES \<equiv> 0x0A"
abbreviation (input) PB_HTYPE_REQUIRED :: byte where "PB_HTYPE_REQUIRED \<equiv> 0x00"
abbreviation (input) PB_HTYPE_OPTIONAL :: byte where "PB_HTYPE_OPTIONAL \<equiv> 0x10"
abbreviation (input) PB_HTYPE_REPEATED :: byte where "PB_HTYPE_REPEATED \<equiv> 0x20"
abbreviation (input) PB_HTYPE_ONEOF :: byte where "PB_HTYPE_ONEOF \<equiv> 0x30"
abbreviation (input) PB_ATYPE_STATIC :: byte where "PB_ATYPE_STATIC \<equiv> 0x00"
abbreviation (input) PB_ATYPE_POINTER :: byte where "PB_ATYPE_POINTER \<equiv> 0x80"
abbreviation (input) PB_ATYPE_CALLBACK :: byte where "PB_ATYPE_CALLBACK \<equiv> 0x40"
abbreviation (input) PB_SIZE_MAX :: u32 where "PB_SIZE_MAX \<equiv> 0xffffffff"

definition PB_LTYPE :: "byte \<Rightarrow> byte" where "PB_LTYPE x = x AND 0x0F"
definition PB_HTYPE :: "byte \<Rightarrow> byte" where "PB_HTYPE x = x AND 0x30"
definition PB_ATYPE :: "byte \<Rightarrow> byte" where "PB_ATYPE x = x AND 0xC0"

section \<open>The iterator\<close>

record pb_field_iter =
  pi_start :: "pb_field list"
  pi_pos :: nat
  pi_required_field_index :: u32
  pi_dest_struct :: addr
  pi_pData :: addr
  pi_pSize :: addr

definition field_at :: "pb_field list \<Rightarrow> nat \<Rightarrow> pb_field option" where
  "field_at fs i = (if i < length fs then Some (fs ! i) else None)"

definition pb_field_iter_begin :: "pb_field list \<Rightarrow> addr \<Rightarrow> (bool \<times> pb_field_iter) option" where
  "pb_field_iter_begin fs dest_struct = do {
     f \<leftarrow> field_at fs 0;
     let pData = (if dest_struct = 0 then 0 else dest_struct + ucast (pf_data_offset f));
     let pSize = (if dest_struct = 0 then 0 else pData + scast (pf_size_offset f));
     Some (pf_tag f \<noteq> 0,
       \<lparr>pi_start = fs, pi_pos = 0, pi_required_field_index = 0, pi_dest_struct = dest_struct,
        pi_pData = pData, pi_pSize = pSize\<rparr>)
   }"

definition pb_field_iter_next :: "pb_field_iter \<Rightarrow> (bool \<times> pb_field_iter) option" where
  "pb_field_iter_next it = do {
     prev_field \<leftarrow> field_at (pi_start it) (pi_pos it);
     if pf_tag prev_field = 0 then Some (False, it)
     else do {
       let it1 = it\<lparr>pi_pos := pi_pos it + 1\<rparr>;
       f \<leftarrow> field_at (pi_start it1) (pi_pos it1);
       if pf_tag f = 0
       then map_option (\<lambda>(_, it2). (False, it2)) (pb_field_iter_begin (pi_start it1) (pi_dest_struct it1))
       else if PB_HTYPE (pf_type prev_field) = PB_HTYPE_ONEOF \<and> PB_HTYPE (pf_type f) = PB_HTYPE_ONEOF \<and>
               pf_data_offset f = PB_SIZE_MAX
       then Some (True, it1)
       else
         let prev_size =
               (if PB_ATYPE (pf_type prev_field) = PB_ATYPE_STATIC \<and> PB_HTYPE (pf_type prev_field) = PB_HTYPE_REPEATED
                then ucast (pf_data_size prev_field) * ucast (pf_array_size prev_field)
                else if PB_ATYPE (pf_type prev_field) = PB_ATYPE_POINTER then 8
                else ucast (pf_data_size prev_field));
             it2 = (if PB_HTYPE (pf_type prev_field) = PB_HTYPE_REQUIRED
                    then it1\<lparr>pi_required_field_index := pi_required_field_index it1 + 1\<rparr> else it1);
             pData = pi_pData it2 + prev_size + ucast (pf_data_offset f);
             pSize = pData + scast (pf_size_offset f)
         in Some (True, it2\<lparr>pi_pData := pData, pi_pSize := pSize\<rparr>)
     }
   }"

text \<open>The loop of \<open>pb_field_iter_find\<close> and of \<open>find_extension_field\<close>; the test is the argument.\<close>

partial_function (option) find_loop ::
    "(pb_field \<Rightarrow> bool) \<Rightarrow> nat \<Rightarrow> pb_field_iter \<Rightarrow> (bool \<times> pb_field_iter) option" where
  "find_loop wanted start it = do {
     f \<leftarrow> field_at (pi_start it) (pi_pos it);
     if wanted f then Some (True, it)
     else do {
       (_, it1) \<leftarrow> pb_field_iter_next it;
       if pi_pos it1 \<noteq> start then find_loop wanted start it1 else Some (False, it1)
     }
   }"

definition pb_field_iter_find :: "pb_field_iter \<Rightarrow> u32 \<Rightarrow> (bool \<times> pb_field_iter) option" where
  "pb_field_iter_find it tag =
     find_loop (\<lambda>f. pf_tag f = tag \<and> PB_LTYPE (pf_type f) \<noteq> PB_LTYPE_EXTENSION) (pi_pos it) it"

definition find_extension_field :: "pb_field_iter \<Rightarrow> (bool \<times> pb_field_iter) option" where
  "find_extension_field it = find_loop (\<lambda>f. PB_LTYPE (pf_type f) = PB_LTYPE_EXTENSION) (pi_pos it) it"

text \<open>The loop \<open>do body while (pb_field_iter_next(iter))\<close>, left when the body returns \<open>false\<close>.\<close>

partial_function (option) iter_loop ::
    "(pb_field_iter \<Rightarrow> 's \<Rightarrow> (bool \<times> 's) option) \<Rightarrow> pb_field_iter \<Rightarrow> 's \<Rightarrow> (bool \<times> 's) option" where
  "iter_loop body it s = do {
     (ok, s1) \<leftarrow> body it s;
     if \<not> ok then Some (False, s1)
     else do {
       (again, it1) \<leftarrow> pb_field_iter_next it;
       if again then iter_loop body it1 s1 else Some (True, s1)
     }
   }"

section \<open>Where the fields are\<close>

text \<open>
  The layout the descriptors stand for: a field lies behind the storage of the field before it, and the
  members of a union, marked by the offset \<open>PB_SIZE_MAX\<close>, share the place of the first one. \<open>place\<close> is the
  address of the \<open>i\<close>-th field and of its count or presence flag.
\<close>

definition fields_ok :: "pb_field list \<Rightarrow> bool" where
  "fields_ok fs \<longleftrightarrow> fs \<noteq> [] \<and> pf_tag (last fs) = 0 \<and> (\<forall>f \<in> set (butlast fs). pf_tag f \<noteq> 0)"

definition nfields :: "pb_field list \<Rightarrow> nat" where
  "nfields fs = length fs - 1"

definition storage_size :: "pb_field \<Rightarrow> u64" where
  "storage_size f =
     (if PB_ATYPE (pf_type f) = PB_ATYPE_POINTER then 8
      else if PB_ATYPE (pf_type f) = PB_ATYPE_STATIC \<and> PB_HTYPE (pf_type f) = PB_HTYPE_REPEATED
      then ucast (pf_data_size f) * ucast (pf_array_size f)
      else ucast (pf_data_size f))"

definition same_union :: "pb_field \<Rightarrow> pb_field \<Rightarrow> bool" where
  "same_union f g \<longleftrightarrow> PB_HTYPE (pf_type f) = PB_HTYPE_ONEOF \<and> PB_HTYPE (pf_type g) = PB_HTYPE_ONEOF \<and>
     pf_data_offset g = PB_SIZE_MAX"

fun place :: "pb_field list \<Rightarrow> addr \<Rightarrow> nat \<Rightarrow> addr \<times> addr" where
  "place fs d 0 =
     (if d = 0 then (0, 0)
      else (d + ucast (pf_data_offset (fs ! 0)),
            d + ucast (pf_data_offset (fs ! 0)) + scast (pf_size_offset (fs ! 0))))"
| "place fs d (Suc i) =
     (if same_union (fs ! i) (fs ! Suc i) then place fs d i
      else let p = fst (place fs d i) + storage_size (fs ! i) + ucast (pf_data_offset (fs ! Suc i))
           in (p, p + scast (pf_size_offset (fs ! Suc i))))"

definition required_before :: "pb_field list \<Rightarrow> nat \<Rightarrow> nat" where
  "required_before fs i = length (filter (\<lambda>f. PB_HTYPE (pf_type f) = PB_HTYPE_REQUIRED) (take i fs))"

definition iter_at :: "pb_field list \<Rightarrow> addr \<Rightarrow> nat \<Rightarrow> pb_field_iter" where
  "iter_at fs d i =
     \<lparr>pi_start = fs, pi_pos = i, pi_required_field_index = word_of_nat (required_before fs i),
      pi_dest_struct = d, pi_pData = fst (place fs d i), pi_pSize = snd (place fs d i)\<rparr>"

lemma fields_ok_length: "fields_ok fs \<Longrightarrow> length fs = Suc (nfields fs)"
  by (cases fs) (auto simp: fields_ok_def nfields_def)

lemma fields_ok_tag:
  assumes "fields_ok fs"
  shows "i < nfields fs \<Longrightarrow> pf_tag (fs ! i) \<noteq> 0" and "pf_tag (fs ! nfields fs) = 0"
proof -
  show "pf_tag (fs ! i) \<noteq> 0" if "i < nfields fs"
  proof -
    have "fs ! i \<in> set (butlast fs)"
      using that by (metis length_butlast nfields_def nth_butlast nth_mem)
    then show ?thesis using assms by (simp add: fields_ok_def)
  qed
  show "pf_tag (fs ! nfields fs) = 0"
    using assms by (auto simp: fields_ok_def nfields_def last_conv_nth)
qed

lemma field_at_ok: "fields_ok fs \<Longrightarrow> i \<le> nfields fs \<Longrightarrow> field_at fs i = Some (fs ! i)"
  by (simp add: field_at_def fields_ok_length)

lemma iter_at_sel [simp]:
  "pi_start (iter_at fs d i) = fs" "pi_pos (iter_at fs d i) = i"
  "pi_dest_struct (iter_at fs d i) = d" "pi_pData (iter_at fs d i) = fst (place fs d i)"
  "pi_pSize (iter_at fs d i) = snd (place fs d i)"
  by (simp_all add: iter_at_def)

lemma required_before_Suc:
  "i < length fs \<Longrightarrow> required_before fs (Suc i) =
     required_before fs i + (if PB_HTYPE (pf_type (fs ! i)) = PB_HTYPE_REQUIRED then 1 else 0)"
  by (simp add: required_before_def take_Suc_conv_app_nth)

lemma iter_begin_ok:
  assumes "fields_ok fs"
  shows "pb_field_iter_begin fs d = Some (nfields fs > 0, iter_at fs d 0)"
proof -
  have "pf_tag (fs ! 0) \<noteq> 0 \<longleftrightarrow> nfields fs > 0"
    using fields_ok_tag [OF assms] by (cases "nfields fs") auto
  then show ?thesis
    using assms by (simp add: pb_field_iter_begin_def field_at_ok iter_at_def required_before_def Let_def)
qed

lemma iter_next_ok:
  assumes "fields_ok fs" and "i < nfields fs"
  shows "pb_field_iter_next (iter_at fs d i) =
           Some (Suc i < nfields fs, iter_at fs d (Suc i mod nfields fs))"
proof -
  have f: "field_at fs i = Some (fs ! i)" "field_at fs (Suc i) = Some (fs ! Suc i)"
    and t: "pf_tag (fs ! i) \<noteq> 0"
    using assms fields_ok_tag [OF assms(1)] by (auto intro!: field_at_ok)
  show ?thesis
  proof (cases "Suc i < nfields fs")
    case False
    then have "Suc i = nfields fs" using assms by simp
    then have "pf_tag (fs ! Suc i) = 0" and "Suc i mod nfields fs = 0"
      using fields_ok_tag(2) [OF assms(1)] by simp_all
    then show ?thesis using f t False by (simp add: pb_field_iter_next_def iter_begin_ok [OF assms(1)])
  next
    case True
    then have t2: "pf_tag (fs ! Suc i) \<noteq> 0" by (rule fields_ok_tag [OF assms(1)])
    have r: "required_before fs (Suc i) =
        required_before fs i + (if PB_HTYPE (pf_type (fs ! i)) = PB_HTYPE_REQUIRED then 1 else 0)"
      using assms by (intro required_before_Suc) (simp add: fields_ok_length)
    show ?thesis
    proof (cases "same_union (fs ! i) (fs ! Suc i)")
      case u: True
      then show ?thesis using f t t2 True r
        by (simp add: pb_field_iter_next_def iter_at_def same_union_def)
    next
      case u: False
      then show ?thesis using f t t2 True r
        by (auto simp: pb_field_iter_next_def iter_at_def same_union_def storage_size_def Let_def)
    qed
  qed
qed

text \<open>The search goes once around, from the present position.\<close>

definition find_from :: "(pb_field \<Rightarrow> bool) \<Rightarrow> pb_field list \<Rightarrow> nat \<Rightarrow> nat option" where
  "find_from wanted fs i =
     find (\<lambda>j. wanted (fs ! j)) (map (\<lambda>k. (i + k) mod nfields fs) [0..<nfields fs])"

lemma find_loop_ok:
  assumes "fields_ok fs" and i: "i < nfields fs" and k: "k < nfields fs"
  shows "find_loop wanted i (iter_at fs d ((i + k) mod nfields fs)) =
           (case find (\<lambda>j. wanted (fs ! j)) (map (\<lambda>k. (i + k) mod nfields fs) [k..<nfields fs]) of
              Some j \<Rightarrow> Some (True, iter_at fs d j)
            | None \<Rightarrow> Some (False, iter_at fs d i))"
  using k
proof (induction "nfields fs - k" arbitrary: k)
  case (Suc m)
  let ?n = "nfields fs" and ?j = "(i + k) mod nfields fs"
  have j: "?j < ?n" using i by simp
  then have at: "field_at fs ?j = Some (fs ! ?j)" using assms(1) by (intro field_at_ok) auto
  have nx: "pb_field_iter_next (iter_at fs d ?j) = Some (Suc ?j < ?n, iter_at fs d ((i + Suc k) mod ?n))"
    using iter_next_ok [OF assms(1) j, of d] by (simp add: mod_Suc_eq)
  have cons: "[k..<?n] = k # [Suc k..<?n]" using Suc.prems by (simp add: upt_conv_Cons)
  show ?case
  proof (cases "Suc k < ?n")
    case True
    have "(i + Suc k) mod ?n \<noteq> i"
    proof
      assume "(i + Suc k) mod ?n = i"
      then have "(i + Suc k) mod ?n = i mod ?n" using i by simp
      then have "?n dvd Suc k" by (metis add_diff_cancel_left' mod_eq_dvd_iff_nat le_add1)
      then show False using True by (simp add: nat_dvd_not_less)
    qed
    then show ?thesis using Suc.hyps(1) [of "Suc k"] Suc.hyps(2) True
      by (subst find_loop.simps) (simp add: at nx cons)
  next
    case False
    then have "Suc k = ?n" using Suc.prems by simp
    moreover have "(i + ?n) mod ?n = i" using i by simp
    ultimately show ?thesis
      by (subst find_loop.simps) (simp add: at nx cons del: add_Suc_right)
  qed
qed simp

lemma find_ok:
  assumes "fields_ok fs" and "i < nfields fs"
  shows "find_loop wanted i (iter_at fs d i) =
           (case find_from wanted fs i of
              Some j \<Rightarrow> Some (True, iter_at fs d j)
            | None \<Rightarrow> Some (False, iter_at fs d i))"
  using find_loop_ok [OF assms(1,2), of 0] assms(2) by (simp add: find_from_def)

end
