(* ===== verification/PbWire.thy ===== *)
theory PbWire
  imports Prelude
begin

unbundle bit_operations_syntax

text \<open>
  The streams and the wire format of nanopb: the helpers of \<^verbatim>\<open>pb_encode.c\<close> and \<^verbatim>\<open>pb_decode.c\<close> on which
  messages are built, in the configuration of the pod (callback streams, error messages, 64-bit
  integers). A stream's callback is a function of the stream's state, and \<open>'s\<close> is the type of that
  state. A function that returns \<open>false\<close> returns \<open>None\<close> or \<open>False\<close> here; an error message is set only if
  there is none yet. Counters of type \<open>size_t\<close> are natural numbers with their wrap-around written out,
  \<open>uint_fast8_t\<close> is an octet.
\<close>

section \<open>Output streams\<close>

record 's pb_ostream =
  os_callback :: "('s \<Rightarrow> byte list \<Rightarrow> bool \<times> 's) option"
  os_state :: 's
  os_max_size :: nat
  os_bytes_written :: nat
  os_errmsg :: "string option"

definition os_error :: "'s pb_ostream \<Rightarrow> string \<Rightarrow> bool \<times> 's pb_ostream" where
  "os_error st msg = (False, st\<lparr>os_errmsg := (case os_errmsg st of None \<Rightarrow> Some msg | Some m \<Rightarrow> Some m)\<rparr>)"

text \<open>The state of a buffer stream is the memory it points into and the position in it.\<close>

definition buf_write :: "byte list \<times> nat \<Rightarrow> byte list \<Rightarrow> bool \<times> (byte list \<times> nat)" where
  "buf_write s buf =
     (case s of (mem, pos) \<Rightarrow>
        (True, (take pos mem @ buf @ drop (pos + length buf) mem, pos + length buf)))"

definition pb_ostream_from_buffer :: "byte list \<Rightarrow> nat \<Rightarrow> (byte list \<times> nat) pb_ostream" where
  "pb_ostream_from_buffer buf bufsize =
     \<lparr>os_callback = Some buf_write, os_state = (buf, 0), os_max_size = bufsize, os_bytes_written = 0,
      os_errmsg = None\<rparr>"

definition PB_OSTREAM_SIZING :: "'s \<Rightarrow> 's pb_ostream" where
  "PB_OSTREAM_SIZING s =
     \<lparr>os_callback = None, os_state = s, os_max_size = 0, os_bytes_written = 0, os_errmsg = None\<rparr>"

definition pb_write :: "'s pb_ostream \<Rightarrow> byte list \<Rightarrow> nat \<Rightarrow> bool \<times> 's pb_ostream" where
  "pb_write st buf count =
     (case os_callback st of
        Some cb \<Rightarrow>
          if count > 0 then
            if size_add (os_bytes_written st) count < os_bytes_written st \<or>
               size_add (os_bytes_written st) count > os_max_size st
            then os_error st ''stream full''
            else (case cb (os_state st) (take count buf) of
                    (ok, s') \<Rightarrow>
                      if \<not> ok then os_error (st\<lparr>os_state := s'\<rparr>) ''io error''
                      else (True, st\<lparr>os_state := s', os_bytes_written := size_add (os_bytes_written st) count\<rparr>))
          else (True, st)
      | None \<Rightarrow> (True, st\<lparr>os_bytes_written := size_add (os_bytes_written st) count\<rparr>))"

section \<open>Encoding\<close>

function varint_loop :: "u64 \<Rightarrow> byte list \<Rightarrow> byte list" where
  "varint_loop v buffer =
     (if v \<noteq> 0 then varint_loop (drop_bit 7 v) (buffer @ [ucast ((v AND 0x7f) OR 0x80)]) else buffer)"
  by pat_completeness auto
termination
proof (relation "measure (\<lambda>(v, buffer). unat v)")
  fix v :: u64 and buffer :: "byte list"
  assume "v \<noteq> 0"
  then have "unat v div 128 < unat v" by (simp add: unat_gt_0)
  then show "((drop_bit 7 v, buffer @ [ucast ((v AND 0x7f) OR 0x80)]), (v, buffer)) \<in> measure (\<lambda>(v, buffer). unat v)"
    by (simp add: unat_drop_bit)
qed simp

declare varint_loop.simps [simp del]

definition pb_encode_varint :: "'s pb_ostream \<Rightarrow> u64 \<Rightarrow> bool \<times> 's pb_ostream" where
  "pb_encode_varint st v =
     (if v \<le> 0x7f then pb_write st [ucast v] 1
      else
        let buffer = varint_loop v [];
            i = length buffer;
            buffer1 = buffer [i - 1 := buffer ! (i - 1) AND 0x7f]
        in pb_write st buffer1 i)"

definition pb_encode_svarint :: "'s pb_ostream \<Rightarrow> u64 \<Rightarrow> bool \<times> 's pb_ostream" where
  "pb_encode_svarint st v =
     (let zigzagged = (if v <s 0 then NOT (push_bit 1 v) else push_bit 1 v)
      in pb_encode_varint st zigzagged)"

definition pb_encode_fixed32 :: "'s pb_ostream \<Rightarrow> u32 \<Rightarrow> bool \<times> 's pb_ostream" where
  "pb_encode_fixed32 st val =
     pb_write st [ucast (val AND 0xff), ucast (drop_bit 8 val AND 0xff), ucast (drop_bit 16 val AND 0xff),
                  ucast (drop_bit 24 val AND 0xff)] 4"

definition pb_encode_fixed64 :: "'s pb_ostream \<Rightarrow> u64 \<Rightarrow> bool \<times> 's pb_ostream" where
  "pb_encode_fixed64 st val =
     pb_write st [ucast (val AND 0xff), ucast (drop_bit 8 val AND 0xff), ucast (drop_bit 16 val AND 0xff),
                  ucast (drop_bit 24 val AND 0xff), ucast (drop_bit 32 val AND 0xff), ucast (drop_bit 40 val AND 0xff),
                  ucast (drop_bit 48 val AND 0xff), ucast (drop_bit 56 val AND 0xff)] 8"

text \<open>The wire types are the values of the enumeration.\<close>

abbreviation (input) PB_WT_VARINT :: u32 where "PB_WT_VARINT \<equiv> 0"
abbreviation (input) PB_WT_64BIT :: u32 where "PB_WT_64BIT \<equiv> 1"
abbreviation (input) PB_WT_STRING :: u32 where "PB_WT_STRING \<equiv> 2"
abbreviation (input) PB_WT_32BIT :: u32 where "PB_WT_32BIT \<equiv> 5"

definition pb_encode_tag :: "'s pb_ostream \<Rightarrow> u32 \<Rightarrow> u32 \<Rightarrow> bool \<times> 's pb_ostream" where
  "pb_encode_tag st wiretype field_number = pb_encode_varint st (push_bit 3 (ucast field_number) OR ucast wiretype)"

definition pb_encode_string :: "'s pb_ostream \<Rightarrow> byte list \<Rightarrow> nat \<Rightarrow> bool \<times> 's pb_ostream" where
  "pb_encode_string st buffer sz =
     (case pb_encode_varint st (word_of_nat sz) of
        (False, st1) \<Rightarrow> (False, st1)
      | (True, st1) \<Rightarrow> pb_write st1 buffer sz)"

section \<open>Input streams\<close>

text \<open>
  A callback reads a number of bytes; \<open>is_callback\<close> is \<open>None\<close> for the built-in \<open>buf_read\<close>, whose state is
  \<open>is_source\<close>, the memory from the pointer on.
\<close>

record 's pb_istream =
  is_callback :: "('s \<Rightarrow> nat \<Rightarrow> (byte list \<times> bool) \<times> 's) option"
  is_source :: "byte list"
  is_state :: 's
  is_bytes_left :: nat
  is_errmsg :: "string option"

definition is_set_error :: "string \<Rightarrow> 's pb_istream \<Rightarrow> 's pb_istream" where
  "is_set_error msg st = st\<lparr>is_errmsg := (case is_errmsg st of None \<Rightarrow> Some msg | Some m \<Rightarrow> Some m)\<rparr>"

definition buf_read :: "'s pb_istream \<Rightarrow> nat \<Rightarrow> (byte list \<times> bool) \<times> 's pb_istream" where
  "buf_read st count = ((take count (is_source st), True), st\<lparr>is_source := drop count (is_source st)\<rparr>)"

definition stream_callback :: "'s pb_istream \<Rightarrow> nat \<Rightarrow> (byte list \<times> bool) \<times> 's pb_istream" where
  "stream_callback st count =
     (case is_callback st of
        None \<Rightarrow> buf_read st count
      | Some cb \<Rightarrow> (case cb (is_state st) count of (r, s') \<Rightarrow> (r, st\<lparr>is_state := s'\<rparr>)))"

definition pb_read_bytes :: "'s pb_istream \<Rightarrow> nat \<Rightarrow> byte list option \<times> 's pb_istream" where
  "pb_read_bytes st count =
     (if count = 0 then (Some [], st)
      else if is_bytes_left st < count then (None, is_set_error ''end-of-stream'' st)
      else (case stream_callback st count of
              ((bytes, ok), st1) \<Rightarrow>
                if \<not> ok then (None, is_set_error ''io error'' st1)
                else (Some bytes, st1\<lparr>is_bytes_left := is_bytes_left st1 - count\<rparr>)))"

function pb_read_skip :: "'s pb_istream \<Rightarrow> nat \<Rightarrow> byte list option \<times> 's pb_istream" where
  "pb_read_skip st count =
     (if count > 16
      then (case pb_read_bytes st 16 of
              (None, st1) \<Rightarrow> (None, st1)
            | (Some _, st1) \<Rightarrow> pb_read_skip st1 (count - 16))
      else pb_read_bytes st count)"
  by pat_completeness auto
termination
  by (relation "measure (\<lambda>(st, count). count)") auto

declare pb_read_skip.simps [simp del]

text \<open>\<open>pb_read\<close> with a buffer, or with a null pointer to skip.\<close>

definition pb_read :: "'s pb_istream \<Rightarrow> bool \<Rightarrow> nat \<Rightarrow> byte list option \<times> 's pb_istream" where
  "pb_read st buf_null count =
     (if count = 0 then (Some [], st)
      else if buf_null \<and> is_callback st \<noteq> None then pb_read_skip st count
      else pb_read_bytes st count)"

definition pb_readbyte :: "'s pb_istream \<Rightarrow> byte option \<times> 's pb_istream" where
  "pb_readbyte st =
     (if is_bytes_left st = 0 then (None, is_set_error ''end-of-stream'' st)
      else (case stream_callback st 1 of
              ((bytes, ok), st1) \<Rightarrow>
                if \<not> ok then (None, is_set_error ''io error'' st1)
                else (Some (case bytes of [] \<Rightarrow> 0 | b # _ \<Rightarrow> b), st1\<lparr>is_bytes_left := is_bytes_left st1 - 1\<rparr>)))"

definition pb_istream_from_buffer :: "byte list \<Rightarrow> nat \<Rightarrow> unit pb_istream" where
  "pb_istream_from_buffer buf bufsize =
     \<lparr>is_callback = None, is_source = buf, is_state = (), is_bytes_left = bufsize, is_errmsg = None\<rparr>"

lemma stream_callback_bytes_left: "stream_callback st n = (r, st1) \<Longrightarrow> is_bytes_left st1 = is_bytes_left st"
  by (auto simp: stream_callback_def buf_read_def split: option.splits prod.splits)

text \<open>A byte read is a byte less: the loops below end.\<close>

lemma pb_readbyte_decreases: "pb_readbyte st = (Some b, st1) \<Longrightarrow> is_bytes_left st1 < is_bytes_left st"
  by (auto simp: pb_readbyte_def dest!: stream_callback_bytes_left split: if_splits prod.splits)

lemma pb_read_1_decreases: "pb_read st False 1 = (Some bs, st1) \<Longrightarrow> is_bytes_left st1 < is_bytes_left st"
  by (auto simp: pb_read_def pb_read_bytes_def dest!: stream_callback_bytes_left split: if_splits prod.splits)

section \<open>Decoding\<close>

function varint32_loop :: "'s pb_istream \<Rightarrow> u32 \<Rightarrow> byte \<Rightarrow> (u32 \<times> byte \<times> byte) option \<times> 's pb_istream" where
  "varint32_loop st result bitpos =
     (case pb_readbyte st of
        (None, st1) \<Rightarrow> (None, st1)
      | (Some b, st1) \<Rightarrow>
          let sign_extension = (if bitpos < 63 then 0xff else 0x01);
              result1 = (if bitpos \<ge> 32 then result
                         else result OR push_bit (unat bitpos) (ucast (b AND 0x7f)));
              bitpos1 = bitpos + 7
          in if bitpos \<ge> 32 \<and> b AND 0x7f \<noteq> 0 \<and> (drop_bit 31 result = 0 \<or> b \<noteq> sign_extension)
             then (None, is_set_error ''varint overflow'' st1)
             else if b AND 0x80 \<noteq> 0 then varint32_loop st1 result1 bitpos1
             else (Some (result1, bitpos1, b), st1))"
  by pat_completeness auto
termination
  by (relation "measure (\<lambda>(st, result, bitpos). is_bytes_left st)")
    (auto dest: pb_readbyte_decreases [OF sym] split: if_splits)

declare varint32_loop.simps [simp del]

text \<open>The second result says whether \<open>*eof\<close> is set.\<close>

definition pb_decode_varint32_eof :: "'s pb_istream \<Rightarrow> (u32 option \<times> bool) \<times> 's pb_istream" where
  "pb_decode_varint32_eof st =
     (case pb_readbyte st of
        (None, st1) \<Rightarrow> ((None, is_bytes_left st1 = 0), st1)
      | (Some b, st1) \<Rightarrow>
          if b AND 0x80 = 0 then ((Some (ucast b), False), st1)
          else (case varint32_loop st1 (ucast (b AND 0x7f)) 7 of
                  (None, st2) \<Rightarrow> ((None, False), st2)
                | (Some (result, bitpos, b2), st2) \<Rightarrow>
                    if bitpos = 35 \<and> b2 AND 0x70 \<noteq> 0
                    then ((None, False), is_set_error ''varint overflow'' st2)
                    else ((Some result, False), st2)))"

definition pb_decode_varint32 :: "'s pb_istream \<Rightarrow> u32 option \<times> 's pb_istream" where
  "pb_decode_varint32 st = (case pb_decode_varint32_eof st of ((r, _), st1) \<Rightarrow> (r, st1))"

function decode_varint_loop :: "'s pb_istream \<Rightarrow> u64 \<Rightarrow> byte \<Rightarrow> u64 option \<times> 's pb_istream" where
  "decode_varint_loop st result bitpos =
     (if bitpos \<ge> 64 then (None, is_set_error ''varint overflow'' st)
      else (case pb_readbyte st of
              (None, st1) \<Rightarrow> (None, st1)
            | (Some b, st1) \<Rightarrow>
                let result1 = result OR push_bit (unat bitpos) (ucast (b AND 0x7f))
                in if b AND 0x80 \<noteq> 0 then decode_varint_loop st1 result1 (bitpos + 7)
                   else (Some result1, st1)))"
  by pat_completeness auto
termination
  by (relation "measure (\<lambda>(st, result, bitpos). is_bytes_left st)")
    (auto dest: pb_readbyte_decreases [OF sym] split: if_splits)

declare decode_varint_loop.simps [simp del]

definition pb_decode_varint :: "'s pb_istream \<Rightarrow> u64 option \<times> 's pb_istream" where
  "pb_decode_varint st = decode_varint_loop st 0 0"

function pb_skip_varint :: "'s pb_istream \<Rightarrow> bool \<times> 's pb_istream" where
  "pb_skip_varint st =
     (case pb_read st False 1 of
        (None, st1) \<Rightarrow> (False, st1)
      | (Some bytes, st1) \<Rightarrow>
          if (case bytes of [] \<Rightarrow> 0 | b # _ \<Rightarrow> b) AND 0x80 \<noteq> 0 then pb_skip_varint st1 else (True, st1))"
  by pat_completeness auto
termination
  by (relation "measure is_bytes_left") (auto dest: pb_read_1_decreases [unfolded One_nat_def, OF sym] split: if_splits)

declare pb_skip_varint.simps [simp del]

definition pb_skip_string :: "'s pb_istream \<Rightarrow> bool \<times> 's pb_istream" where
  "pb_skip_string st =
     (case pb_decode_varint32 st of
        (None, st1) \<Rightarrow> (False, st1)
      | (Some len, st1) \<Rightarrow> (case pb_read st1 True (unat len) of (r, st2) \<Rightarrow> (r \<noteq> None, st2)))"

record tag_result =
  tg_ok :: bool
  tg_wire_type :: u32
  tg_tag :: u32
  tg_eof :: bool

definition pb_decode_tag :: "'s pb_istream \<Rightarrow> tag_result \<times> 's pb_istream" where
  "pb_decode_tag st =
     (case pb_decode_varint32_eof st of
        ((None, eof), st1) \<Rightarrow> (\<lparr>tg_ok = False, tg_wire_type = 0, tg_tag = 0, tg_eof = eof\<rparr>, st1)
      | ((Some temp, eof), st1) \<Rightarrow>
          if temp = 0 then (\<lparr>tg_ok = False, tg_wire_type = 0, tg_tag = 0, tg_eof = True\<rparr>, st1)
          else (\<lparr>tg_ok = True, tg_wire_type = temp AND 7, tg_tag = drop_bit 3 temp, tg_eof = eof\<rparr>, st1))"

definition pb_skip_field :: "'s pb_istream \<Rightarrow> u32 \<Rightarrow> bool \<times> 's pb_istream" where
  "pb_skip_field st wire_type =
     (if wire_type = PB_WT_VARINT then pb_skip_varint st
      else if wire_type = PB_WT_64BIT then (case pb_read st True 8 of (r, st1) \<Rightarrow> (r \<noteq> None, st1))
      else if wire_type = PB_WT_STRING then pb_skip_string st
      else if wire_type = PB_WT_32BIT then (case pb_read st True 4 of (r, st1) \<Rightarrow> (r \<noteq> None, st1))
      else (False, is_set_error ''invalid wire_type'' st))"

text \<open>\<open>read_raw_value\<close>: the bytes of the value, whose number is \<open>*size\<close> on return.\<close>

fun raw_varint_loop :: "nat \<Rightarrow> 's pb_istream \<Rightarrow> byte list \<Rightarrow> byte list option \<times> 's pb_istream" where
  "raw_varint_loop 0 st buf = (None, st)"
| "raw_varint_loop (Suc room) st buf =
     (case pb_read st False 1 of
        (None, st1) \<Rightarrow> (None, st1)
      | (Some bytes, st1) \<Rightarrow>
          let b = (case bytes of [] \<Rightarrow> 0 | b # _ \<Rightarrow> b)
          in if b AND 0x80 \<noteq> 0 then raw_varint_loop room st1 (buf @ [b]) else (Some (buf @ [b]), st1))"

definition read_raw_value :: "'s pb_istream \<Rightarrow> u32 \<Rightarrow> nat \<Rightarrow> byte list option \<times> 's pb_istream" where
  "read_raw_value st wire_type max_size =
     (if wire_type = PB_WT_VARINT then raw_varint_loop max_size st []
      else if wire_type = PB_WT_64BIT then pb_read st False 8
      else if wire_type = PB_WT_32BIT then pb_read st False 4
      else (None, is_set_error ''invalid wire_type'' st))"

definition pb_make_string_substream :: "'s pb_istream \<Rightarrow> 's pb_istream option \<times> 's pb_istream" where
  "pb_make_string_substream st =
     (case pb_decode_varint32 st of
        (None, st1) \<Rightarrow> (None, st1)
      | (Some sz, st1) \<Rightarrow>
          if is_bytes_left st1 < unat sz then (None, is_set_error ''parent stream too short'' st1)
          else (Some (st1\<lparr>is_bytes_left := unat sz\<rparr>), st1\<lparr>is_bytes_left := is_bytes_left st1 - unat sz\<rparr>))"

definition pb_close_string_substream :: "'s pb_istream \<Rightarrow> 's pb_istream \<Rightarrow> bool \<times> 's pb_istream \<times> 's pb_istream" where
  "pb_close_string_substream st sub =
     (let (ok, sub1) = (if is_bytes_left sub \<noteq> 0
                        then (case pb_read sub True (is_bytes_left sub) of (r, s) \<Rightarrow> (r \<noteq> None, s))
                        else (True, sub))
      in if \<not> ok then (False, st, sub1)
         else (True, st\<lparr>is_source := is_source sub1, is_state := is_state sub1, is_errmsg := is_errmsg sub1\<rparr>, sub1))"

definition pb_decode_svarint :: "'s pb_istream \<Rightarrow> u64 option \<times> 's pb_istream" where
  "pb_decode_svarint st =
     (case pb_decode_varint st of
        (None, st1) \<Rightarrow> (None, st1)
      | (Some v, st1) \<Rightarrow> (Some (if v AND 1 \<noteq> 0 then NOT (drop_bit 1 v) else drop_bit 1 v), st1))"

definition pb_decode_fixed32 :: "'s pb_istream \<Rightarrow> u32 option \<times> 's pb_istream" where
  "pb_decode_fixed32 st =
     (case pb_read st False 4 of
        (None, st1) \<Rightarrow> (None, st1)
      | (Some bytes, st1) \<Rightarrow>
          (Some (push_bit 0 (ucast (bytes ! 0)) OR push_bit 8 (ucast (bytes ! 1)) OR
                 push_bit 16 (ucast (bytes ! 2)) OR push_bit 24 (ucast (bytes ! 3))), st1))"

definition pb_decode_fixed64 :: "'s pb_istream \<Rightarrow> u64 option \<times> 's pb_istream" where
  "pb_decode_fixed64 st =
     (case pb_read st False 8 of
        (None, st1) \<Rightarrow> (None, st1)
      | (Some bytes, st1) \<Rightarrow>
          (Some (push_bit 0 (ucast (bytes ! 0)) OR push_bit 8 (ucast (bytes ! 1)) OR
                 push_bit 16 (ucast (bytes ! 2)) OR push_bit 24 (ucast (bytes ! 3)) OR
                 push_bit 32 (ucast (bytes ! 4)) OR push_bit 40 (ucast (bytes ! 5)) OR
                 push_bit 48 (ucast (bytes ! 6)) OR push_bit 56 (ucast (bytes ! 7))), st1))"

end
