(* ===== verification/PbCodec.thy ===== *)
theory PbCodec
  imports PbWire
begin

unbundle bit_operations_syntax

text \<open>
  The wire format of theory PbWire is a codec. Encoders are proved once against any sink, a callback that
  takes what it is given, and decoders against any source, a callback that serves what it has: the
  locales \<open>pb_sink\<close> and \<open>pb_source\<close>, which nanopb's own buffer streams and every conforming user callback
  interpret.
\<close>

section \<open>Varints\<close>

fun varint_bytes :: "nat \<Rightarrow> byte list" where
  "varint_bytes n =
     (if n < 128 then [word_of_nat n] else word_of_nat (n mod 128 + 128) # varint_bytes (n div 128))"

declare varint_bytes.simps [simp del]

fun varint_chunks :: "nat \<Rightarrow> byte list" where
  "varint_chunks n = (if n = 0 then [] else word_of_nat (n mod 128 + 128) # varint_chunks (n div 128))"

declare varint_chunks.simps [simp del]

lemma varint_bytes_ne [simp]: "varint_bytes n \<noteq> []"
  by (subst varint_bytes.simps) simp

lemma chunk_byte: "ucast ((v AND 0x7f) OR 0x80) = (word_of_nat (unat v mod 128 + 128) :: byte)" for v :: u64
proof -
  have m: "unat (v AND 0x7f) = unat v mod 128" using unat_and_mask [of v 7] by (simp add: mask_eq_exp_minus_1)
  have "unat ((v AND 0x7f) OR push_bit 7 1) = unat v mod 128 + 128"
    using unat_push_bit_or [of "v AND 0x7f" 7 1] m by (simp add: or.commute)
  then have "unat (ucast ((v AND 0x7f) OR 0x80) :: byte) = (unat v mod 128 + 128) mod 256"
    by (simp add: unat_ucast_mod push_bit_eq_mult)
  then show ?thesis by (intro word_eqI_unat) (simp only: unat_word_of_nat, simp)
qed

lemma varint_loop_chunks: "varint_loop v buf = buf @ varint_chunks (unat v)"
proof (induction v buf rule: varint_loop.induct)
  case (1 v buf)
  show ?case
  proof (cases "v = 0")
    case True
    then show ?thesis by (subst varint_loop.simps) (simp add: varint_chunks.simps)
  next
    case False
    then have "unat v \<noteq> 0" by (simp add: unat_eq_0)
    then have "varint_chunks (unat v) = word_of_nat (unat v mod 128 + 128) # varint_chunks (unat v div 128)"
      by (subst varint_chunks.simps) simp
    then show ?thesis
      using 1 [OF False] False by (subst varint_loop.simps) (simp add: chunk_byte unat_drop_bit)
  qed
qed

lemma clear_top: "m < 128 \<Longrightarrow> (word_of_nat (m + 128) :: byte) AND 0x7f = word_of_nat m"
  by (rule word_eqI_unat) (simp only: and_0x7f unat_word_of_nat, simp)

lemma varint_chunks_clear:
  "n \<noteq> 0 \<Longrightarrow> (varint_chunks n) [length (varint_chunks n) - 1 := varint_chunks n ! (length (varint_chunks n) - 1) AND 0x7f] =
    varint_bytes n"
proof (induction n rule: varint_bytes.induct)
  case (1 n)
  show ?case
  proof (cases "n < 128")
    case True
    then show ?thesis
      using 1(2) by (subst (1 2 3 4) varint_chunks.simps, subst varint_bytes.simps) (use clear_top [of n] in \<open>simp add: varint_chunks.simps\<close>)
  next
    case False
    then have d: "n div 128 \<noteq> 0" by simp
    then have "varint_chunks (n div 128) \<noteq> []" by (subst varint_chunks.simps) simp
    moreover have "varint_chunks n = word_of_nat (n mod 128 + 128) # varint_chunks (n div 128)"
      using 1(2) by (subst varint_chunks.simps) simp
    moreover have "varint_bytes n = word_of_nat (n mod 128 + 128) # varint_bytes (n div 128)"
      using False by (subst varint_bytes.simps) simp
    ultimately show ?thesis using 1(1) [OF False d] by (cases "varint_chunks (n div 128)") simp_all
  qed
qed

lemma varint_chunks_length: "n \<noteq> 0 \<Longrightarrow> length (varint_chunks n) = length (varint_bytes n)"
  by (metis length_list_update varint_chunks_clear)

lemma pb_encode_varint_bytes:
  "pb_encode_varint st v = pb_write st (varint_bytes (unat v)) (length (varint_bytes (unat v)))"
proof (cases "v \<le> 0x7f")
  case True
  then have "unat v < 128" by (simp add: word_le_nat_alt)
  then have "varint_bytes (unat v) = [ucast v]" by (subst varint_bytes.simps) (simp add: word_eqI_unat unat_ucast_mod)
  then show ?thesis using True by (simp add: pb_encode_varint_def)
next
  case False
  then have "unat v \<noteq> 0" by (auto simp: unat_eq_0)
  then show ?thesis
    using False varint_chunks_clear [of "unat v"] varint_chunks_length [of "unat v"]
    by (simp add: pb_encode_varint_def varint_loop_chunks Let_def)
qed

lemma varint_bytes_length: "n < 128 ^ Suc k \<Longrightarrow> length (varint_bytes n) \<le> Suc k"
proof (induction k arbitrary: n)
  case (Suc k)
  have "n div 128 < 128 ^ Suc k" using Suc.prems by (simp add: less_mult_imp_div_less)
  then show ?case using Suc.IH by (subst varint_bytes.simps) simp
qed (subst varint_bytes.simps, simp)


section \<open>Sinks\<close>

text \<open>
  What an encoder relies on of the callback of its stream: it takes what it is given as long as there is
  room. \<open>out\<close> is what has been taken so far, and \<open>limit\<close> bounds the size a stream may announce.
\<close>

locale pb_sink =
  fixes cb :: "'s \<Rightarrow> byte list \<Rightarrow> bool \<times> 's"
    and out :: "'s \<Rightarrow> byte list"
    and room :: "'s \<Rightarrow> nat"
    and limit :: nat
  assumes limit: "limit < SIZE_BOUND"
    and takes: "length bs \<le> room s \<Longrightarrow> \<exists>s'. cb s bs = (True, s') \<and> out s' = out s @ bs \<and> room s' = room s - length bs"
begin

definition sinks :: "'s pb_ostream \<Rightarrow> bool" where
  "sinks st \<longleftrightarrow> os_callback st = Some cb \<and> os_max_size st \<le> limit \<and> os_bytes_written st \<le> os_max_size st \<and>
     os_max_size st - os_bytes_written st \<le> room (os_state st)"

text \<open>\<open>emits enc bs\<close>: the encoder writes the bytes \<open>bs\<close> if they fit, reports failure if they do not, and
  only counts them on a sizing stream.\<close>

definition emits :: "('s pb_ostream \<Rightarrow> bool \<times> 's pb_ostream) \<Rightarrow> byte list \<Rightarrow> bool" where
  "emits enc bs \<longleftrightarrow>
     (\<forall>st. sinks st \<longrightarrow> os_bytes_written st + length bs \<le> os_max_size st \<longrightarrow>
        (\<exists>st'. enc st = (True, st') \<and> sinks st' \<and> out (os_state st') = out (os_state st) @ bs \<and>
           room (os_state st') = room (os_state st) - length bs \<and>
           os_bytes_written st' = os_bytes_written st + length bs \<and> os_max_size st' = os_max_size st \<and>
           (os_errmsg st = None \<longrightarrow> os_errmsg st' = None))) \<and>
     (\<forall>st. sinks st \<longrightarrow> os_bytes_written st + length bs > os_max_size st \<longrightarrow> \<not> fst (enc st)) \<and>
     (\<forall>st. os_callback st = None \<longrightarrow> os_bytes_written st < SIZE_BOUND \<longrightarrow> enc st = (True, st\<lparr>os_bytes_written := size_add (os_bytes_written st) (length bs)\<rparr>))"

lemma emits_fits:
  assumes "emits enc bs" and "sinks st" and "os_bytes_written st + length bs \<le> os_max_size st"
  obtains st' where "enc st = (True, st')" "sinks st'" "out (os_state st') = out (os_state st) @ bs"
    "room (os_state st') = room (os_state st) - length bs"
    "os_bytes_written st' = os_bytes_written st + length bs" "os_max_size st' = os_max_size st"
    "os_errmsg st = None \<longrightarrow> os_errmsg st' = None"
  using assms unfolding emits_def by blast

lemma emits_full:
  "emits enc bs \<Longrightarrow> sinks st \<Longrightarrow> os_bytes_written st + length bs > os_max_size st \<Longrightarrow> \<not> fst (enc st)"
  unfolding emits_def by blast

lemma emits_sizing:
  "emits enc bs \<Longrightarrow> os_callback st = None \<Longrightarrow> os_bytes_written st < SIZE_BOUND \<Longrightarrow>
   enc st = (True, st\<lparr>os_bytes_written := size_add (os_bytes_written st) (length bs)\<rparr>)"
  unfolding emits_def by blast

lemma emits_write: "length bs < SIZE_BOUND \<Longrightarrow> emits (\<lambda>st. pb_write st bs (length bs)) bs"
  unfolding emits_def
proof (intro conjI allI impI)
  fix st assume st: "sinks st" "os_bytes_written st + length bs \<le> os_max_size st"
  show "\<exists>st'. pb_write st bs (length bs) = (True, st') \<and> sinks st' \<and> out (os_state st') = out (os_state st) @ bs \<and>
      room (os_state st') = room (os_state st) - length bs \<and>
      os_bytes_written st' = os_bytes_written st + length bs \<and> os_max_size st' = os_max_size st \<and>
      (os_errmsg st = None \<longrightarrow> os_errmsg st' = None)"
  proof (cases "bs = []")
    case True
    then show ?thesis using st by (simp add: pb_write_def sinks_def)
  next
    case False
    have room: "length bs \<le> room (os_state st)" using st unfolding sinks_def by linarith
    from takes [OF room] obtain s' where s': "cb (os_state st) bs = (True, s')" "out s' = out (os_state st) @ bs"
      "room s' = room (os_state st) - length bs" by blast
    have "size_add (os_bytes_written st) (length bs) = os_bytes_written st + length bs"
      using st limit by (intro size_add_small) (simp add: sinks_def)
    moreover have "os_max_size st - (os_bytes_written st + length bs) \<le> room (os_state st) - length bs"
      using st unfolding sinks_def by linarith
    ultimately show ?thesis using st s' False by (simp add: pb_write_def sinks_def)
  qed
next
  fix st assume len: "length bs < SIZE_BOUND" and st: "sinks st" "os_bytes_written st + length bs > os_max_size st"
  show "\<not> fst (pb_write st bs (length bs))"
  proof (cases "os_bytes_written st + length bs < SIZE_BOUND")
    case True
    then show ?thesis using st by (auto simp: pb_write_def sinks_def os_error_def size_add_small)
  next
    case False
    have "os_bytes_written st < SIZE_BOUND" using st limit unfolding sinks_def by linarith
    then have "size_add (os_bytes_written st) (length bs) < os_bytes_written st"
      using False len size_add_overflow [of "os_bytes_written st" "length bs"] by simp
    then show ?thesis using st by (auto simp: pb_write_def sinks_def os_error_def)
  qed
qed (simp add: pb_write_def)

lemma emits_seq:
  assumes "emits e1 bs1" and "emits e2 bs2"
  shows "emits (\<lambda>st. case e1 st of (False, st1) \<Rightarrow> (False, st1) | (True, st1) \<Rightarrow> e2 st1) (bs1 @ bs2)"
  unfolding emits_def
proof (intro conjI allI impI)
  fix st assume st: "sinks st" "os_bytes_written st + length (bs1 @ bs2) \<le> os_max_size st"
  have "os_bytes_written st + length bs1 \<le> os_max_size st" using st(2) by simp
  from emits_fits [OF assms(1) st(1) this] obtain st1 where s1: "e1 st = (True, st1)" "sinks st1"
    "out (os_state st1) = out (os_state st) @ bs1" "room (os_state st1) = room (os_state st) - length bs1"
    "os_bytes_written st1 = os_bytes_written st + length bs1"
    "os_max_size st1 = os_max_size st" "os_errmsg st = None \<longrightarrow> os_errmsg st1 = None" .
  have "os_bytes_written st1 + length bs2 \<le> os_max_size st1" using s1 st(2) by simp
  from emits_fits [OF assms(2) s1(2) this] obtain st2 where "e2 st1 = (True, st2)" "sinks st2"
    "out (os_state st2) = out (os_state st1) @ bs2" "room (os_state st2) = room (os_state st1) - length bs2"
    "os_bytes_written st2 = os_bytes_written st1 + length bs2"
    "os_max_size st2 = os_max_size st1" "os_errmsg st1 = None \<longrightarrow> os_errmsg st2 = None" .
  then show "\<exists>st'. (case e1 st of (False, st1) \<Rightarrow> (False, st1) | (True, st1) \<Rightarrow> e2 st1) = (True, st') \<and> sinks st' \<and>
      out (os_state st') = out (os_state st) @ bs1 @ bs2 \<and>
      room (os_state st') = room (os_state st) - length (bs1 @ bs2) \<and>
      os_bytes_written st' = os_bytes_written st + length (bs1 @ bs2) \<and> os_max_size st' = os_max_size st \<and>
      (os_errmsg st = None \<longrightarrow> os_errmsg st' = None)"
    using s1 by simp
next
  fix st assume st: "sinks st" "os_bytes_written st + length (bs1 @ bs2) > os_max_size st"
  show "\<not> fst (case e1 st of (False, st1) \<Rightarrow> (False, st1) | (True, st1) \<Rightarrow> e2 st1)"
  proof (cases "os_bytes_written st + length bs1 \<le> os_max_size st")
    case True
    from emits_fits [OF assms(1) st(1) this] obtain st1 where s1: "e1 st = (True, st1)" "sinks st1"
      "os_bytes_written st1 = os_bytes_written st + length bs1" "os_max_size st1 = os_max_size st" .
    then have "\<not> fst (e2 st1)" using st(2) by (intro emits_full [OF assms(2) s1(2)]) simp
    then show ?thesis using s1 by simp
  next
    case False
    then have "\<not> fst (e1 st)" by (intro emits_full [OF assms(1) st(1)]) simp
    then show ?thesis by (auto split: prod.split bool.split)
  qed
next
  fix st :: "'s pb_ostream" assume st: "os_callback st = None" "os_bytes_written st < SIZE_BOUND"
  then have "e1 st = (True, st\<lparr>os_bytes_written := size_add (os_bytes_written st) (length bs1)\<rparr>)"
    by (rule emits_sizing [OF assms(1)])
  moreover have "e2 st1 = (True, st1\<lparr>os_bytes_written := size_add (os_bytes_written st1) (length bs2)\<rparr>)"
    if "os_callback st1 = None" "os_bytes_written st1 < SIZE_BOUND" for st1
    by (rule emits_sizing [OF assms(2) that])
  moreover have "size_add (size_add a b) c = size_add a (b + c)" for a b c
    by (simp add: size_add_def mod_add_left_eq add.assoc)
  ultimately show "(case e1 st of (False, st1) \<Rightarrow> (False, st1) | (True, st1) \<Rightarrow> e2 st1) =
      (True, st\<lparr>os_bytes_written := size_add (os_bytes_written st) (length (bs1 @ bs2))\<rparr>)"
    using st size_add_less [of "os_bytes_written st" "length bs1"] by simp
qed

lemma emits_varint: "emits (\<lambda>st. pb_encode_varint st v) (varint_bytes (unat v))"
proof -
  have "unat v < 128 ^ Suc 9" using unat_less_power [of v] by simp
  then have "length (varint_bytes (unat v)) < SIZE_BOUND" using varint_bytes_length [of "unat v" 9] by simp
  then show ?thesis unfolding pb_encode_varint_bytes by (rule emits_write)
qed

lemma emits_svarint:
  "emits (\<lambda>st. pb_encode_svarint st v) (varint_bytes (unat (if v <s 0 then NOT (push_bit 1 v) else push_bit 1 v)))"
  unfolding pb_encode_svarint_def Let_def by (rule emits_varint)

lemma emits_tag:
  "emits (\<lambda>st. pb_encode_tag st wt n) (varint_bytes (unat (push_bit 3 (ucast n) OR ucast wt :: u64)))"
  unfolding pb_encode_tag_def by (rule emits_varint)

lemma emits_string:
  assumes "length buf < SIZE_BOUND"
  shows "emits (\<lambda>st. pb_encode_string st buf (length buf)) (varint_bytes (length buf) @ buf)"
proof -
  have "unat (word_of_nat (length buf) :: u64) = length buf" using assms by (simp add: unat_word_of_nat)
  then show ?thesis
    unfolding pb_encode_string_def using emits_seq [OF emits_varint [of "word_of_nat (length buf)"] emits_write [OF assms]]
    by simp
qed

end

lemma buf_write_takes:
  fixes bs :: "byte list" and s :: "byte list \<times> nat"
  assumes "length bs \<le> (case s of (mem, pos) \<Rightarrow> length mem - pos)"
  shows "\<exists>s'. buf_write s bs = (True, s') \<and>
      (case s' of (mem, pos) \<Rightarrow> take pos mem) = (case s of (mem, pos) \<Rightarrow> take pos mem) @ bs \<and>
      (case s' of (mem, pos) \<Rightarrow> length mem - pos) = (case s of (mem, pos) \<Rightarrow> length mem - pos) - length bs"
proof -
  obtain mem pos where s: "s = (mem, pos)" by fastforce
  then have "length bs \<le> length mem - pos" using assms by simp
  then show ?thesis by (cases "pos \<le> length mem") (auto simp: s buf_write_def)
qed

definition SIZE_T_MAX :: nat where
  "SIZE_T_MAX = 2 ^ 64 - 1"

interpretation buf: pb_sink buf_write "\<lambda>(mem, pos). take pos mem" "\<lambda>(mem, pos). length mem - pos" SIZE_T_MAX
  by unfold_locales (simp add: SIZE_T_MAX_def, rule buf_write_takes)


section \<open>Sources\<close>

text \<open>
  What a decoder relies on of the callback of its stream: it serves the bytes that are there, in order.
  \<open>avail\<close> is what the source still has, independently of how much of it the stream may use.
\<close>

locale pb_source =
  fixes good :: "'s pb_istream \<Rightarrow> bool"
    and avail :: "'s pb_istream \<Rightarrow> byte list"
  assumes serves: "good st \<Longrightarrow> n \<le> length (avail st) \<Longrightarrow>
      \<exists>st'. stream_callback st n = ((take n (avail st), True), st') \<and> avail st' = drop n (avail st) \<and> good st' \<and>
        is_errmsg st' = is_errmsg st \<and> is_callback st' = is_callback st"
    and state_only: "is_callback a = is_callback b \<Longrightarrow> is_source a = is_source b \<Longrightarrow> is_state a = is_state b \<Longrightarrow>
      good a = good b \<and> avail a = avail b"
begin

lemma avail_update [simp]:
  "avail (st\<lparr>is_bytes_left := n\<rparr>) = avail st" "avail (st\<lparr>is_errmsg := e\<rparr>) = avail st"
  "good (st\<lparr>is_bytes_left := n\<rparr>) = good st" "good (st\<lparr>is_errmsg := e\<rparr>) = good st"
  using state_only [of "st\<lparr>is_bytes_left := n\<rparr>" st] state_only [of "st\<lparr>is_errmsg := e\<rparr>" st] by simp_all

text \<open>The bytes that the stream can deliver are \<open>bs\<close>.\<close>

definition holds :: "'s pb_istream \<Rightarrow> byte list \<Rightarrow> bool" where
  "holds st bs \<longleftrightarrow> good st \<and> is_bytes_left st = length bs \<and> take (length bs) (avail st) = bs"

text \<open>A stream left with \<open>bs\<close> to read, otherwise like \<open>st\<close>.\<close>

definition leaves :: "'s pb_istream \<Rightarrow> 's pb_istream \<Rightarrow> byte list \<Rightarrow> bool" where
  "leaves st st' bs \<longleftrightarrow> holds st' bs \<and> is_errmsg st' = is_errmsg st \<and> is_callback st' = is_callback st \<and>
     avail st' = drop (is_bytes_left st - length bs) (avail st) \<and> length bs \<le> is_bytes_left st"

lemma leaves_holds [dest]: "leaves st st' bs \<Longrightarrow> holds st' bs"
  by (simp add: leaves_def)

lemma leaves_trans: "leaves a b bs \<Longrightarrow> leaves b c cs \<Longrightarrow> leaves a c cs"
proof -
  assume h: "leaves a b bs" "leaves b c cs"
  then have "is_bytes_left b = length bs" by (simp add: leaves_def holds_def)
  then show ?thesis using h by (simp add: leaves_def add.commute)
qed

lemma leaves_refl: "holds st bs \<Longrightarrow> leaves st st bs"
  by (simp add: leaves_def holds_def)

lemma holds_avail: "holds st bs \<Longrightarrow> length bs \<le> length (avail st)"
  by (metis holds_def length_take min_def nat_le_linear)

lemma serve_holds:
  assumes "holds st (xs @ ys)"
  obtains st' where "stream_callback st (length xs) = ((xs, True), st')"
    "leaves st (st'\<lparr>is_bytes_left := is_bytes_left st' - length xs\<rparr>) ys"
proof -
  let ?n = "length xs"
  have g: "good st" "is_bytes_left st = ?n + length ys" "take (?n + length ys) (avail st) = xs @ ys"
    using assms by (simp_all add: holds_def)
  have "?n \<le> length (avail st)" using holds_avail [OF assms] by simp
  from serves [OF g(1) this] obtain st' where s: "stream_callback st ?n = ((take ?n (avail st), True), st')"
    "avail st' = drop ?n (avail st)" "good st'" "is_errmsg st' = is_errmsg st" "is_callback st' = is_callback st" by blast
  have x: "take ?n (avail st) = xs" using arg_cong [OF g(3), of "take ?n"] by (simp add: min_def)
  have y: "take (length ys) (drop ?n (avail st)) = ys"
    using arg_cong [OF g(3), of "drop ?n"] by (simp add: drop_take)
  have "is_bytes_left st' = is_bytes_left st" using stream_callback_bytes_left [OF s(1)] .
  then show thesis using that [of st'] s x y g(2) by (simp add: leaves_def holds_def)
qed

lemma readbyte_ok:
  assumes "holds st (b # bs)"
  obtains st' where "pb_readbyte st = (Some b, st')" "leaves st st' bs"
proof -
  from assms have "holds st ([b] @ bs)" by simp
  from serve_holds [OF this] obtain st' where s: "stream_callback st 1 = (([b], True), st')"
    "leaves st (st'\<lparr>is_bytes_left := is_bytes_left st' - 1\<rparr>) bs" by auto
  then show thesis using assms that by (auto simp: pb_readbyte_def holds_def)
qed

lemma readbyte_eof: "holds st [] \<Longrightarrow> pb_readbyte st = (None, is_set_error ''end-of-stream'' st)"
  by (simp add: pb_readbyte_def holds_def)

lemma read_bytes_ok:
  assumes "holds st (xs @ ys)"
  obtains st' where "pb_read_bytes st (length xs) = (Some xs, st')" "leaves st st' ys"
proof (cases "xs = []")
  case True
  then show thesis using assms that [of st] leaves_refl by (simp add: pb_read_bytes_def)
next
  case False
  from serve_holds [OF assms] obtain st' where s: "stream_callback st (length xs) = ((xs, True), st')"
    "leaves st (st'\<lparr>is_bytes_left := is_bytes_left st' - length xs\<rparr>) ys" .
  then show thesis using assms False that by (auto simp: pb_read_bytes_def holds_def)
qed

lemma read_skip_ok:
  "holds st (xs @ ys) \<Longrightarrow> \<exists>r st'. pb_read_skip st (length xs) = (Some r, st') \<and> leaves st st' ys"
proof (induction "length xs" arbitrary: xs st rule: less_induct)
  case less
  show ?case
  proof (cases "length xs > 16")
    case True
    then have xs: "xs @ ys = take 16 xs @ (drop 16 xs @ ys)" and l: "length (take 16 xs) = 16" by simp_all
    have "holds st (take 16 xs @ (drop 16 xs @ ys))" using less.prems xs by metis
    from read_bytes_ok [OF this] obtain st1 where s1: "pb_read_bytes st 16 = (Some (take 16 xs), st1)"
      "leaves st st1 (drop 16 xs @ ys)" using l by metis
    have "length (drop 16 xs) < length xs" using True by simp
    from less.hyps [OF this leaves_holds [OF s1(2)]] obtain r st2 where
      "pb_read_skip st1 (length xs - 16) = (Some r, st2)" "leaves st1 st2 ys" by auto
    then show ?thesis using s1 True leaves_trans by (subst pb_read_skip.simps) auto
  next
    case False
    from read_bytes_ok [OF less.prems] obtain st' where "pb_read_bytes st (length xs) = (Some xs, st')" "leaves st st' ys" .
    then show ?thesis using False by (subst pb_read_skip.simps) auto
  qed
qed

lemma read_ok:
  assumes "holds st (xs @ ys)"
  obtains st' where "pb_read st False (length xs) = (Some xs, st')" "leaves st st' ys"
proof -
  from read_bytes_ok [OF assms] obtain st' where "pb_read_bytes st (length xs) = (Some xs, st')" "leaves st st' ys" .
  then show thesis using that [of st'] assms leaves_refl that [of st] by (cases "xs = []") (auto simp: pb_read_def)
qed

lemma skip_ok:
  assumes "holds st (xs @ ys)"
  obtains r st' where "pb_read st True (length xs) = (Some r, st')" "leaves st st' ys"
proof (cases "xs = []")
  case True
  then show thesis using assms that leaves_refl by (auto simp: pb_read_def)
next
  case False
  from read_bytes_ok [OF assms] obtain st1 where "pb_read_bytes st (length xs) = (Some xs, st1)" "leaves st st1 ys" .
  then show thesis
    using that False read_skip_ok [OF assms] by (cases "is_callback st") (auto simp: pb_read_def)
qed

lemma read_short:
  assumes "holds st bs" and "length bs < n"
  shows "pb_read st False n = (None, is_set_error ''end-of-stream'' st)"
  using assms by (auto simp: pb_read_def pb_read_bytes_def holds_def)

end

interpretation src: pb_source "\<lambda>st :: 's pb_istream. is_callback st = None" is_source
  by unfold_locales (auto simp: stream_callback_def buf_read_def)

text \<open>Any callback that keeps the documented contract makes a source.\<close>

lemma callback_source:
  fixes f :: "'a \<Rightarrow> nat \<Rightarrow> (byte list \<times> bool) \<times> 'a"
  assumes "\<And>s n. n \<le> length (rem s) \<Longrightarrow> \<exists>s'. f s n = ((take n (rem s), True), s') \<and> rem s' = drop n (rem s)"
  shows "pb_source (\<lambda>st. is_callback st = Some f) (\<lambda>st. rem (is_state st))"
proof
  fix st :: "'a pb_istream" and n assume "is_callback st = Some f" "n \<le> length (rem (is_state st))"
  then show "\<exists>st'. stream_callback st n = ((take n (rem (is_state st)), True), st') \<and>
      rem (is_state st') = drop n (rem (is_state st)) \<and> is_callback st' = Some f \<and>
      is_errmsg st' = is_errmsg st \<and> is_callback st' = is_callback st"
    using assms [of n "is_state st"] by (auto simp: stream_callback_def)
qed simp


section \<open>Decoding varints\<close>

lemma or_chunk:
  fixes r :: "'a::len word"
  assumes "unat r < 2 ^ k"
  shows "r OR push_bit k x = r + x * 2 ^ k"
  using push_bit_or_add [OF assms, of x] by (simp add: or.commute add.commute)

lemma low_bits: "m < 128 \<Longrightarrow> unat ((word_of_nat (m + 128) :: byte) AND 0x7f) = m" "m < 128 \<Longrightarrow> unat ((word_of_nat m :: byte) AND 0x7f) = m"
  by (simp_all only: and_0x7f unat_word_of_nat) simp_all

lemma top_bit: "m < 128 \<Longrightarrow> (word_of_nat (m + 128) :: byte) AND 0x80 \<noteq> 0" "m < 128 \<Longrightarrow> (word_of_nat m :: byte) AND 0x80 = 0"
  by (simp_all only: and_0x80_eq_0_iff unat_word_of_nat) simp_all

lemma ucast_low_bits:
  assumes "unat (b AND 0x7f) = m"
  shows "ucast (b AND 0x7f) = (word_of_nat m :: 'a::len word)"
  by (simp flip: assms)

lemma varint_bytes_unfold:
  "n < 128 \<Longrightarrow> varint_bytes n = [word_of_nat n]"
  "\<not> n < 128 \<Longrightarrow> varint_bytes n = word_of_nat (n mod 128 + 128) # varint_bytes (n div 128)"
  by (subst varint_bytes.simps, simp)+

text \<open>Accumulating a chunk, at any width.\<close>

lemma accumulate:
  assumes "r < 2 ^ k" "r + m * 2 ^ k < 2 ^ LENGTH('a)" "unat (b AND 0x7f) = m" "k < LENGTH('a)"
  shows "(word_of_nat r :: 'a::len word) OR push_bit k (ucast (b AND 0x7f)) = word_of_nat (r + m * 2 ^ k)"
proof -
  have "r < 2 ^ LENGTH('a)" using assms(2) by simp
  then have "unat (word_of_nat r :: 'a word) < 2 ^ k" using assms(1) by (simp add: unat_word_of_nat)
  then show ?thesis by (simp add: or_chunk ucast_low_bits [OF assms(3)])
qed

lemma shift_split:
  "r + n * 2 ^ k = (r + n mod 128 * 2 ^ k) + n div 128 * 2 ^ (k + 7)" for n :: nat
proof -
  define q where "q = n div 128"
  define m where "m = n mod 128"
  have n: "n = m + q * 128" by (simp add: q_def m_def)
  show ?thesis unfolding q_def [symmetric] m_def [symmetric] by (subst n) (simp add: power_add algebra_simps)
qed

lemma more_bits:
  assumes "r < 2 ^ k" and "r + n * 2 ^ k < 2 ^ w" and "\<not> n < (128::nat)"
  shows "r + n mod 128 * 2 ^ k < 2 ^ (k + 7)" "k + 7 < w" "r + n mod 128 * 2 ^ k + n div 128 * 2 ^ (k + 7) < 2 ^ w"
    "r + n mod 128 * 2 ^ k < 2 ^ w"
proof -
  have "n mod 128 + 1 \<le> 128" by (simp add: Suc_leI)
  then have "(n mod 128 + 1) * 2 ^ k \<le> 128 * 2 ^ k" by (rule mult_le_mono1)
  moreover have "r + n mod 128 * 2 ^ k < (n mod 128 + 1) * 2 ^ k" using assms(1) by simp
  moreover have p: "(2::nat) ^ (k + 7) = 128 * 2 ^ k" by (simp add: power_add)
  ultimately show "r + n mod 128 * 2 ^ k < 2 ^ (k + 7)" by linarith
  have "128 * 2 ^ k \<le> n * 2 ^ k" using assms(3) by (intro mult_le_mono1) simp
  then have "(2::nat) ^ (k + 7) < 2 ^ w" using assms(2) p by linarith
  then show "k + 7 < w" by simp
  show "r + n mod 128 * 2 ^ k + n div 128 * 2 ^ (k + 7) < 2 ^ w" using assms(2) shift_split [of r n k] by simp
  then show "r + n mod 128 * 2 ^ k < 2 ^ w" by simp
qed

lemma bitpos_step: "k + 7 < 256 \<Longrightarrow> word_of_nat k + 7 = (word_of_nat (k + 7) :: byte)"
  by simp

context pb_source
begin

lemma decode_varint_loop_ok:
  "holds st (varint_bytes n @ rest) \<Longrightarrow> r < 2 ^ k \<Longrightarrow> r + n * 2 ^ k < 2 ^ 64 \<Longrightarrow> k < 64 \<Longrightarrow>
   \<exists>st'. decode_varint_loop st (word_of_nat r) (word_of_nat k) = (Some (word_of_nat (r + n * 2 ^ k)), st') \<and> leaves st st' rest"
proof (induction n arbitrary: st r k rule: varint_bytes.induct)
  case (1 n)
  have k: "unat (word_of_nat k :: byte) = k" using 1(5) by (intro byte_word_of_nat) simp
  then have pos: "\<not> (word_of_nat k :: byte) \<ge> 64" using 1(5) by (simp add: word_le_nat_alt)
  show ?case
  proof (cases "n < 128")
    case True
    then have "holds st (word_of_nat n # rest)" using 1(2) by (simp add: varint_bytes_unfold)
    from readbyte_ok [OF this] obtain st1 where s1: "pb_readbyte st = (Some (word_of_nat n), st1)" "leaves st st1 rest" .
    have "(word_of_nat r :: u64) OR push_bit k (ucast ((word_of_nat n :: byte) AND 0x7f)) = word_of_nat (r + n * 2 ^ k)"
      by (rule accumulate) (use 1 True low_bits in auto)
    then show ?thesis using s1 pos k top_bit(2) [OF True] by (subst decode_varint_loop.simps) (simp add: Let_def)
  next
    case False
    let ?b = "word_of_nat (n mod 128 + 128) :: byte" and ?r = "r + n mod 128 * 2 ^ k"
    note mb = more_bits [OF 1(3,4) False]
    have m: "n mod 128 < 128" by simp
    have "holds st (?b # (varint_bytes (n div 128) @ rest))" using 1(2) False by (simp add: varint_bytes_unfold)
    from readbyte_ok [OF this] obtain st1 where s1: "pb_readbyte st = (Some ?b, st1)"
      "leaves st st1 (varint_bytes (n div 128) @ rest)" .
    have acc: "(word_of_nat r :: u64) OR push_bit k (ucast (?b AND 0x7f)) = word_of_nat ?r"
      by (rule accumulate) (use 1 mb m low_bits(1) in auto)
    obtain st2 where s2: "decode_varint_loop st1 (word_of_nat ?r) (word_of_nat (k + 7)) =
        (Some (word_of_nat (?r + n div 128 * 2 ^ (k + 7))), st2)" "leaves st1 st2 rest"
      using 1(1) [OF False leaves_holds [OF s1(2)] mb(1,3,2)] by blast
    have "decode_varint_loop st (word_of_nat r) (word_of_nat k) = decode_varint_loop st1 (word_of_nat ?r) (word_of_nat (k + 7))"
      using s1 pos k top_bit(1) [OF m] acc by (subst decode_varint_loop.simps) (simp add: Let_def)
    then show ?thesis using s2 leaves_trans [OF s1(2) s2(2)] shift_split [of r n k] by simp
  qed
qed

lemma varint_ok:
  assumes "holds st (varint_bytes (unat v) @ rest)"
  obtains st' where "pb_decode_varint st = (Some v, st')" "leaves st st' rest"
  using decode_varint_loop_ok [OF assms, of 0 0] unat_less_power [of v] that by (auto simp: pb_decode_varint_def)

lemma varint32_loop_ok:
  "holds st (varint_bytes n @ rest) \<Longrightarrow> r < 2 ^ k \<Longrightarrow> r + n * 2 ^ k < 2 ^ 32 \<Longrightarrow> k < 32 \<Longrightarrow>
   \<exists>st' j c. varint32_loop st (word_of_nat r) (word_of_nat k) = (Some (word_of_nat (r + n * 2 ^ k), word_of_nat (j + 7), c), st') \<and>
     leaves st st' rest \<and> j < 32 \<and> unat c < 128 \<and> unat c * 2 ^ j < 2 ^ 32"
proof (induction n arbitrary: st r k rule: varint_bytes.induct)
  case (1 n)
  have k: "unat (word_of_nat k :: byte) = k" using 1(5) by (intro byte_word_of_nat) simp
  then have pos: "\<not> (word_of_nat k :: byte) \<ge> 32" using 1(5) by (simp add: word_le_nat_alt)
  show ?case
  proof (cases "n < 128")
    case True
    then have "holds st (word_of_nat n # rest)" using 1(2) by (simp add: varint_bytes_unfold)
    from readbyte_ok [OF this] obtain st1 where s1: "pb_readbyte st = (Some (word_of_nat n), st1)" "leaves st st1 rest" .
    have acc: "(word_of_nat r :: u32) OR push_bit k (ucast ((word_of_nat n :: byte) AND 0x7f)) = word_of_nat (r + n * 2 ^ k)"
      by (rule accumulate) (use 1 True low_bits in auto)
    have u: "unat (word_of_nat n :: byte) = n" using True by (intro byte_word_of_nat) simp
    have "varint32_loop st (word_of_nat r) (word_of_nat k) =
        (Some (word_of_nat (r + n * 2 ^ k), word_of_nat (k + 7), word_of_nat n), st1)"
      using s1 pos k top_bit(2) [OF True] acc by (subst varint32_loop.simps) (simp add: Let_def)
    moreover have "n * 2 ^ k < 2 ^ 32" using 1(4) by simp
    ultimately show ?thesis using s1 u True 1(5) by (intro exI conjI) (assumption | simp)+
  next
    case False
    let ?b = "word_of_nat (n mod 128 + 128) :: byte" and ?r = "r + n mod 128 * 2 ^ k"
    note mb = more_bits [OF 1(3,4) False]
    have m: "n mod 128 < 128" by simp
    have "holds st (?b # (varint_bytes (n div 128) @ rest))" using 1(2) False by (simp add: varint_bytes_unfold)
    from readbyte_ok [OF this] obtain st1 where s1: "pb_readbyte st = (Some ?b, st1)"
      "leaves st st1 (varint_bytes (n div 128) @ rest)" .
    have acc: "(word_of_nat r :: u32) OR push_bit k (ucast (?b AND 0x7f)) = word_of_nat ?r"
      by (rule accumulate) (use 1 mb m low_bits(1) in auto)
    have "varint32_loop st (word_of_nat r) (word_of_nat k) = varint32_loop st1 (word_of_nat ?r) (word_of_nat (k + 7))"
      using s1 pos k top_bit(1) [OF m] acc by (subst varint32_loop.simps) (simp add: Let_def)
    then show ?thesis
      using 1(1) [OF False leaves_holds [OF s1(2)] mb(1,3,2)] leaves_trans [OF s1(2)] shift_split [of r n k] by fastforce
  qed
qed

end


section \<open>Decoding the other wire types\<close>

lemma and_0x70: "unat c < 16 \<Longrightarrow> c AND 0x70 = 0" for c :: byte
proof -
  have "\<forall>m \<in> set [0..<16]. (word_of_nat m :: byte) AND 0x70 = 0" by code_simp
  moreover assume "unat c < 16"
  then have "unat c \<in> set [0..<16]" by simp
  ultimately have "(word_of_nat (unat c) :: byte) AND 0x70 = 0" by (rule bspec)
  then show ?thesis by simp
qed

lemma byte_of_word: "ucast (w AND 0xff) = (ucast w :: byte)" for w :: "'a::len word"
proof -
  have "w AND 0xff = take_bit 8 w" by (simp add: take_bit_eq_mask mask_eq_exp_minus_1)
  then show ?thesis by (intro bit_word_eqI) (auto simp: bit_simps dest: bit_imp_le_length)
qed

lemma zigzag: "(if z AND 1 \<noteq> 0 then NOT (drop_bit 1 z) else drop_bit 1 z) = v"
  if "z = (if v <s 0 then NOT (push_bit 1 v) else push_bit 1 v)" for v z :: u64
proof -
  have sgn: "v <s 0 \<longleftrightarrow> bit v 63" using bit_last_iff [of v] by (simp add: word_sless_alt)
  have odd: "z AND 1 \<noteq> 0 \<longleftrightarrow> bit z 0" by (simp add: bit_0 and_one_eq odd_iff_mod_2_eq_one)
  have b: "bit v n = bit v 63" if "\<not> n < 63" "n < 64" for n
  proof -
    have "n = 63" using that by linarith
    then show ?thesis by simp
  qed
  have dbl: "bit (v * 2) (Suc n) \<longleftrightarrow> n < 63 \<and> bit v n" for n
    using bit_push_bit_iff [of 1 v "Suc n"] by auto
  show ?thesis
  proof (cases "bit v 63")
    case True
    then have z: "z = NOT (push_bit 1 v)" using that sgn by simp
    then have "bit z 0" by (simp add: bit_not_iff bit_0)
    moreover have "NOT (drop_bit 1 z) = v"
    proof (rule bit_word_eqI)
      fix n assume "n < LENGTH(64)"
      then show "bit (NOT (drop_bit 1 z)) n = bit v n"
        using True b [of n] by (cases "n < 63") (auto simp: z dbl bit_simps)
    qed
    ultimately show ?thesis using odd by simp
  next
    case False
    then have z: "z = push_bit 1 v" using that sgn by simp
    then have "\<not> bit z 0" by (simp add: bit_0)
    moreover have "drop_bit 1 z = v"
    proof (rule bit_word_eqI)
      fix n assume "n < LENGTH(64)"
      then show "bit (drop_bit 1 z) n = bit v n"
        using False b [of n] by (cases "n < 63") (auto simp: z dbl bit_simps)
    qed
    ultimately show ?thesis using odd by simp
  qed
qed

lemma le_first: "push_bit 0 (ucast (ucast v :: byte)) = take_bit 8 v" for v :: "'a::len word"
  by (rule bit_word_eqI) (auto simp: bit_simps)

lemma le_step: "take_bit k v OR push_bit k (ucast (ucast (drop_bit k v) :: byte)) = take_bit (k + 8) v" for v :: "'a::len word"
  by (rule bit_word_eqI) (auto simp: bit_simps)

lemma fixed32_bytes:
  "push_bit 0 (ucast (ucast (v AND 0xff) :: byte)) OR push_bit 8 (ucast (ucast (drop_bit 8 v AND 0xff) :: byte)) OR
   push_bit 16 (ucast (ucast (drop_bit 16 v AND 0xff) :: byte)) OR push_bit 24 (ucast (ucast (drop_bit 24 v AND 0xff) :: byte)) = v"
  for v :: u32
  using le_step [of 8 v] le_step [of 16 v] le_step [of 24 v]
  by (simp only: byte_of_word le_first or.assoc [symmetric]) (simp add: take_bit_word_eq_self)

lemma fixed64_bytes:
  "push_bit 0 (ucast (ucast (v AND 0xff) :: byte)) OR push_bit 8 (ucast (ucast (drop_bit 8 v AND 0xff) :: byte)) OR
   push_bit 16 (ucast (ucast (drop_bit 16 v AND 0xff) :: byte)) OR push_bit 24 (ucast (ucast (drop_bit 24 v AND 0xff) :: byte)) OR
   push_bit 32 (ucast (ucast (drop_bit 32 v AND 0xff) :: byte)) OR push_bit 40 (ucast (ucast (drop_bit 40 v AND 0xff) :: byte)) OR
   push_bit 48 (ucast (ucast (drop_bit 48 v AND 0xff) :: byte)) OR push_bit 56 (ucast (ucast (drop_bit 56 v AND 0xff) :: byte)) = v"
  for v :: u64
  using le_step [of 8 v] le_step [of 16 v] le_step [of 24 v] le_step [of 32 v] le_step [of 40 v] le_step [of 48 v] le_step [of 56 v]
  by (simp only: byte_of_word le_first or.assoc [symmetric]) (simp add: take_bit_word_eq_self)

lemma tag_word:
  fixes n wt :: u32
  assumes "unat wt < 8"
  shows "unat (push_bit 3 (ucast n) OR ucast wt :: u64) = unat n * 8 + unat wt"
proof -
  have w: "unat (ucast wt :: u64) = unat wt" "unat (ucast n :: u64) = unat n" by (simp_all add: unat_ucast_up)
  have "unat n < 2 ^ 32" using unat_less_power [of n] by simp
  then show ?thesis using unat_push_bit_or [of "ucast wt :: u64" 3 "ucast n"] w assms by simp
qed

lemma tag_split:
  assumes "unat wt < 8" "unat n < 2 ^ 29"
  shows "(word_of_nat (unat n * 8 + unat wt) :: u32) AND 7 = wt" "drop_bit 3 (word_of_nat (unat n * 8 + unat wt) :: u32) = n"
proof -
  let ?t = "word_of_nat (unat n * 8 + unat wt) :: u32"
  have t: "unat ?t = unat n * 8 + unat wt" using assms by (simp only: unat_word_of_nat) simp
  show "?t AND 7 = wt"
    by (rule word_eqI_unat) (use unat_and_mask [of ?t 3] t assms in \<open>simp add: mask_eq_exp_minus_1\<close>)
  show "drop_bit 3 ?t = n" by (rule word_eqI_unat) (use t assms in \<open>simp add: unat_drop_bit\<close>)
qed

context pb_source
begin

lemma varint32_eof_ok:
  assumes h: "holds st (varint_bytes n @ rest)" and n: "n < 2 ^ 32"
  obtains st' where "pb_decode_varint32_eof st = ((Some (word_of_nat n), False), st')" "leaves st st' rest"
proof (cases "n < 128")
  case True
  then have "holds st (word_of_nat n # rest)" using h by (simp add: varint_bytes_unfold)
  from readbyte_ok [OF this] obtain st1 where s1: "pb_readbyte st = (Some (word_of_nat n), st1)" "leaves st st1 rest" .
  have "unat (word_of_nat n :: byte) = n" using True by (intro byte_word_of_nat) simp
  then have "ucast (word_of_nat n :: byte) = (word_of_nat n :: u32)" by (metis of_nat_unat)
  then show thesis using that s1 top_bit(2) [OF True] by (simp add: pb_decode_varint32_eof_def)
next
  case False
  let ?b = "word_of_nat (n mod 128 + 128) :: byte"
  have m: "n mod 128 < 128" by simp
  have "holds st (?b # (varint_bytes (n div 128) @ rest))" using h False by (simp add: varint_bytes_unfold)
  from readbyte_ok [OF this] obtain st1 where s1: "pb_readbyte st = (Some ?b, st1)"
    "leaves st st1 (varint_bytes (n div 128) @ rest)" .
  have e: "n mod 128 + n div 128 * 2 ^ 7 = n" by simp
  obtain st2 j c where s2: "varint32_loop st1 (word_of_nat (n mod 128)) (word_of_nat 7) =
      (Some (word_of_nat n, word_of_nat (j + 7), c), st2)" "leaves st1 st2 rest" "j < 32" "unat c * 2 ^ j < 2 ^ 32"
    using varint32_loop_ok [OF leaves_holds [OF s1(2)], of "n mod 128" 7] n unfolding e by auto
  have "ucast (?b AND 0x7f) = (word_of_nat (n mod 128) :: u32)" by (rule ucast_low_bits [OF low_bits(1) [OF m]])
  then have l: "varint32_loop st1 (ucast (?b AND 0x7f)) 7 = (Some (word_of_nat n, word_of_nat (j + 7), c), st2)" using s2(1) by simp
  have "c AND 0x70 = 0" if "(word_of_nat (j + 7) :: byte) = 35"
  proof -
    have "unat (word_of_nat (j + 7) :: byte) = j + 7" using s2(3) by (intro byte_word_of_nat) simp
    then have "j = 28" using that by simp
    then show ?thesis using s2(4) and_0x70 by simp
  qed
  then have "pb_decode_varint32_eof st = ((Some (word_of_nat n), False), st2)"
    using s1(1) l top_bit(1) [OF m] by (auto simp: pb_decode_varint32_eof_def)
  then show thesis using that leaves_trans [OF s1(2) s2(2)] by blast
qed

lemma varint32_ok:
  assumes "holds st (varint_bytes n @ rest)" and "n < 2 ^ 32"
  obtains st' where "pb_decode_varint32 st = (Some (word_of_nat n), st')" "leaves st st' rest"
proof -
  from varint32_eof_ok [OF assms] obtain st' where
    "pb_decode_varint32_eof st = ((Some (word_of_nat n), False), st')" "leaves st st' rest" .
  then show thesis using that by (simp add: pb_decode_varint32_def)
qed

lemma svarint_ok:
  assumes "holds st (varint_bytes (unat (if v <s 0 then NOT (push_bit 1 v) else push_bit 1 v)) @ rest)"
  obtains st' where "pb_decode_svarint st = (Some v, st')" "leaves st st' rest"
proof -
  from varint_ok [OF assms] obtain st' where
    "pb_decode_varint st = (Some (if v <s 0 then NOT (push_bit 1 v) else push_bit 1 v), st')" "leaves st st' rest" .
  then show thesis using that zigzag [OF refl, of v] by (simp add: pb_decode_svarint_def)
qed

lemma tag_ok:
  assumes "holds st (varint_bytes (unat n * 8 + unat wt) @ rest)" and "unat wt < 8" "n \<noteq> 0" "unat n < 2 ^ 29"
  obtains st' where
    "pb_decode_tag st = (\<lparr>tg_ok = True, tg_wire_type = wt, tg_tag = n, tg_eof = False\<rparr>, st')" "leaves st st' rest"
proof -
  let ?t = "unat n * 8 + unat wt"
  have l: "?t < 2 ^ 32" using assms(2,4) by simp
  from varint32_eof_ok [OF assms(1) l] obtain st' where
    s: "pb_decode_varint32_eof st = ((Some (word_of_nat ?t), False), st')" "leaves st st' rest" .
  have "drop_bit 3 (word_of_nat ?t :: u32) = n" using tag_split(2) [OF assms(2,4)] .
  then have "(word_of_nat ?t :: u32) \<noteq> 0" using assms(3) by (metis drop_bit_of_0)
  then show thesis using s that tag_split [OF assms(2,4)] by (simp add: pb_decode_tag_def)
qed

end


definition fixed32_le :: "u32 \<Rightarrow> byte list" where
  "fixed32_le v = [ucast (v AND 0xff), ucast (drop_bit 8 v AND 0xff), ucast (drop_bit 16 v AND 0xff), ucast (drop_bit 24 v AND 0xff)]"

definition fixed64_le :: "u64 \<Rightarrow> byte list" where
  "fixed64_le v =
     [ucast (v AND 0xff), ucast (drop_bit 8 v AND 0xff), ucast (drop_bit 16 v AND 0xff), ucast (drop_bit 24 v AND 0xff),
      ucast (drop_bit 32 v AND 0xff), ucast (drop_bit 40 v AND 0xff), ucast (drop_bit 48 v AND 0xff), ucast (drop_bit 56 v AND 0xff)]"

lemma fixed_le_length [simp]: "length (fixed32_le v) = 4" "length (fixed64_le w) = 8"
  by (simp_all add: fixed32_le_def fixed64_le_def)

context pb_sink
begin

lemma emits_fixed32: "emits (\<lambda>st. pb_encode_fixed32 st v) (fixed32_le v)"
  unfolding pb_encode_fixed32_def fixed32_le_def [symmetric] using emits_write [of "fixed32_le v"] by simp

lemma emits_fixed64: "emits (\<lambda>st. pb_encode_fixed64 st v) (fixed64_le v)"
  unfolding pb_encode_fixed64_def fixed64_le_def [symmetric] using emits_write [of "fixed64_le v"] by simp

end

context pb_source
begin

lemma fixed32_ok:
  assumes "holds st (fixed32_le v @ rest)"
  obtains st' where "pb_decode_fixed32 st = (Some v, st')" "leaves st st' rest"
proof -
  from read_ok [OF assms] obtain st' where s: "pb_read st False 4 = (Some (fixed32_le v), st')" "leaves st st' rest" by auto
  then have "pb_decode_fixed32 st = (Some v, st')"
    using fixed32_bytes [of v] by (simp add: pb_decode_fixed32_def fixed32_le_def)
  then show thesis using that s by blast
qed

lemma fixed64_ok:
  assumes "holds st (fixed64_le v @ rest)"
  obtains st' where "pb_decode_fixed64 st = (Some v, st')" "leaves st st' rest"
proof -
  from read_ok [OF assms] obtain st' where s: "pb_read st False 8 = (Some (fixed64_le v), st')" "leaves st st' rest" by auto
  then have "pb_decode_fixed64 st = (Some v, st')"
    using fixed64_bytes [of v] by (simp add: pb_decode_fixed64_def fixed64_le_def)
  then show thesis using that s by blast
qed

lemma read_1_ok:
  assumes "holds st (b # bs)"
  obtains st' where "pb_read st False 1 = (Some [b], st')" "leaves st st' bs"
  using read_ok [of st "[b]" bs] assms that by auto

lemma skip_varint_ok:
  "holds st (varint_bytes n @ rest) \<Longrightarrow> \<exists>st'. pb_skip_varint st = (True, st') \<and> leaves st st' rest"
proof (induction n arbitrary: st rule: varint_bytes.induct)
  case (1 n)
  show ?case
  proof (cases "n < 128")
    case True
    then have "holds st (word_of_nat n # rest)" using 1(2) by (simp add: varint_bytes_unfold)
    from read_1_ok [OF this] obtain st1 where "pb_read st False 1 = (Some [word_of_nat n], st1)" "leaves st st1 rest" .
    then show ?thesis using top_bit(2) [OF True] by (subst pb_skip_varint.simps) simp
  next
    case False
    let ?b = "word_of_nat (n mod 128 + 128) :: byte"
    have m: "n mod 128 < 128" by simp
    have "holds st (?b # (varint_bytes (n div 128) @ rest))" using 1(2) False by (simp add: varint_bytes_unfold)
    from read_1_ok [OF this] obtain st1 where s1: "pb_read st False 1 = (Some [?b], st1)"
      "leaves st st1 (varint_bytes (n div 128) @ rest)" .
    then have "pb_skip_varint st = pb_skip_varint st1" using top_bit(1) [OF m] by (subst pb_skip_varint.simps) simp
    then show ?thesis using 1(1) [OF False leaves_holds [OF s1(2)]] leaves_trans [OF s1(2)] by auto
  qed
qed

lemma skip_string_ok:
  assumes "holds st (varint_bytes (length bs) @ bs @ rest)" and "length bs < 2 ^ 32"
  obtains st' where "pb_skip_string st = (True, st')" "leaves st st' rest"
proof -
  from varint32_ok [OF assms] obtain st1 where s1: "pb_decode_varint32 st = (Some (word_of_nat (length bs)), st1)"
    "leaves st st1 (bs @ rest)" .
  have "unat (word_of_nat (length bs) :: u32) = length bs" using assms(2) by (simp add: unat_word_of_nat)
  moreover from skip_ok [OF leaves_holds [OF s1(2)]] obtain r st2 where
    "pb_read st1 True (length bs) = (Some r, st2)" "leaves st1 st2 rest" .
  ultimately show thesis using that s1 leaves_trans by (auto simp: pb_skip_string_def)
qed

lemma substream_ok:
  assumes "holds st (varint_bytes (length bs) @ bs @ rest)" and "length bs < 2 ^ 32"
  obtains sub st1 where "pb_make_string_substream st = (Some sub, st1)" "holds sub bs" "is_errmsg sub = is_errmsg st"
    "\<forall>sub' bs'. leaves sub sub' bs' \<longrightarrow>
      (\<exists>st2 sub2. pb_close_string_substream st1 sub' = (True, st2, sub2) \<and> leaves st st2 rest)"
proof -
  from varint32_ok [OF assms] obtain st0 where s0: "pb_decode_varint32 st = (Some (word_of_nat (length bs)), st0)"
    "leaves st st0 (bs @ rest)" .
  have n: "unat (word_of_nat (length bs) :: u32) = length bs" using assms(2) by (simp add: unat_word_of_nat)
  have h0: "good st0" "is_bytes_left st0 = length bs + length rest" "take (length bs + length rest) (avail st0) = bs @ rest"
    using s0(2) by (auto simp: leaves_def holds_def)
  let ?sub = "st0\<lparr>is_bytes_left := length bs\<rparr>" and ?st1 = "st0\<lparr>is_bytes_left := length rest\<rparr>"
  have mk: "pb_make_string_substream st = (Some ?sub, ?st1)" using s0(1) h0(2) n by (simp add: pb_make_string_substream_def)
  have b: "take (length bs) (avail st0) = bs" using arg_cong [OF h0(3), of "take (length bs)"] by (simp add: min_def)
  have r: "take (length rest) (drop (length bs) (avail st0)) = rest"
    using arg_cong [OF h0(3), of "drop (length bs)"] by (simp add: drop_take)
  have hs: "holds ?sub bs" using h0 b by (simp add: holds_def)
  have cl: "\<exists>st2 sub2. pb_close_string_substream ?st1 sub' = (True, st2, sub2) \<and> leaves st st2 rest" if l: "leaves ?sub sub' bs'" for sub' bs'
  proof -
    have "holds sub' (bs' @ [])" using l by auto
    from skip_ok [OF this] obtain r' sub2 where k: "pb_read sub' True (length bs') = (Some r', sub2)" "leaves sub' sub2 []" .
    have l2: "leaves ?sub sub2 []" using leaves_trans [OF l k(2)] .
    let ?st2 = "?st1\<lparr>is_source := is_source sub2, is_state := is_state sub2, is_errmsg := is_errmsg sub2\<rparr>"
    have "is_bytes_left sub' = length bs'" using l by (simp add: leaves_def holds_def)
    then have "pb_close_string_substream ?st1 sub' = (True, ?st2, sub2)"
      using k(1) by (cases "bs' = []") (auto simp: pb_close_string_substream_def pb_read_def Let_def)
    moreover have "avail ?st2 = avail sub2 \<and> good ?st2 = good sub2"
      using state_only [of ?st2 sub2] l2 by (simp add: leaves_def)
    then have "leaves st ?st2 rest"
      using l2 s0(2) r h0(2) by (auto simp: leaves_def holds_def add.commute)
    ultimately show ?thesis by blast
  qed
  have "is_errmsg ?sub = is_errmsg st" using s0(2) by (simp add: leaves_def)
  then show thesis using that [OF mk hs] cl by blast
qed

end


end
