(* ===== verification/PbEncode.thy ===== *)
theory PbEncode
  imports PbIter PbCodec
begin

unbundle bit_operations_syntax

text \<open>
  The message encoder of nanopb (\<^verbatim>\<open>pb_encode.c\<close>). The memory that holds a message is a function from
  addresses to bytes, little-endian as on every Apple platform; it is only read, and the buffer of the
  output stream is not part of it. A pointer to descriptors is resolved by the table \<open>w_fields\<close>, since
  descriptors are constant data and may refer to each other in cycles. The functions which a message refers to
  by address, its callbacks and the encoders of its extensions, are parameters.

  The result of a function that may follow bad descriptors is an option: \<open>None\<close> where the C code reads
  behind an array of descriptors or behind the table of encoders, or does not return. The nesting of
  messages is bounded by the first argument of \<open>pb_encode\<close>.
\<close>

section \<open>Memory\<close>

type_synonym memory = "addr \<Rightarrow> byte"

definition mem_bytes :: "memory \<Rightarrow> addr \<Rightarrow> nat \<Rightarrow> byte list" where
  "mem_bytes m a n = map (\<lambda>i. m (a + word_of_nat i)) [0..<n]"

fun le_nat :: "byte list \<Rightarrow> nat" where
  "le_nat [] = 0"
| "le_nat (b # bs) = unat b + 256 * le_nat bs"

definition load16 :: "memory \<Rightarrow> addr \<Rightarrow> u16" where "load16 m a = word_of_nat (le_nat (mem_bytes m a 2))"
definition load32 :: "memory \<Rightarrow> addr \<Rightarrow> u32" where "load32 m a = word_of_nat (le_nat (mem_bytes m a 4))"
definition load64 :: "memory \<Rightarrow> addr \<Rightarrow> u64" where "load64 m a = word_of_nat (le_nat (mem_bytes m a 8))"

lemma length_mem_bytes [simp]: "length (mem_bytes m a n) = n"
  by (simp add: mem_bytes_def)

text \<open>Memory, descriptors and user functions. A callback field gives its function the descriptor and the
  address of its argument, an extension type the address of the extension.\<close>

record 's pb_world =
  w_mem :: memory
  w_fields :: "addr \<Rightarrow> pb_field list"
  w_encode :: "addr \<Rightarrow> 's pb_ostream \<Rightarrow> pb_field \<Rightarrow> addr \<Rightarrow> bool \<times> 's pb_ostream"
  w_ext_encode :: "addr \<Rightarrow> 's pb_ostream \<Rightarrow> addr \<Rightarrow> bool \<times> 's pb_ostream"

text \<open>\<open>if (!f) return false;\<close> followed by the rest.\<close>

definition and_then :: "(bool \<times> 's) option \<Rightarrow> ('s \<Rightarrow> (bool \<times> 's) option) \<Rightarrow> (bool \<times> 's) option" where
  "and_then r g = do { (ok, s) \<leftarrow> r; if ok then g s else Some (False, s) }"

section \<open>The encoders of the field types\<close>

definition safe_read_bool :: "memory \<Rightarrow> addr \<Rightarrow> bool" where
  "safe_read_bool m p = (m p \<noteq> 0)"

definition pb_encode_tag_for_field :: "'s pb_ostream \<Rightarrow> pb_field \<Rightarrow> bool \<times> 's pb_ostream" where
  "pb_encode_tag_for_field st field =
     (let lt = PB_LTYPE (pf_type field)
      in if lt = PB_LTYPE_BOOL \<or> lt = PB_LTYPE_VARINT \<or> lt = PB_LTYPE_UVARINT \<or> lt = PB_LTYPE_SVARINT
         then pb_encode_tag st PB_WT_VARINT (pf_tag field)
         else if lt = PB_LTYPE_FIXED32 then pb_encode_tag st PB_WT_32BIT (pf_tag field)
         else if lt = PB_LTYPE_FIXED64 then pb_encode_tag st PB_WT_64BIT (pf_tag field)
         else if lt = PB_LTYPE_BYTES \<or> lt = PB_LTYPE_STRING \<or> lt = PB_LTYPE_SUBMESSAGE \<or>
                 lt = PB_LTYPE_FIXED_LENGTH_BYTES
         then pb_encode_tag st PB_WT_STRING (pf_tag field)
         else os_error st ''invalid field type'')"

definition pb_enc_bool :: "memory \<Rightarrow> 's pb_ostream \<Rightarrow> pb_field \<Rightarrow> addr \<Rightarrow> bool \<times> 's pb_ostream" where
  "pb_enc_bool m st field src = pb_encode_varint st (if safe_read_bool m src then 1 else 0)"

definition pb_enc_varint :: "memory \<Rightarrow> 's pb_ostream \<Rightarrow> pb_field \<Rightarrow> addr \<Rightarrow> bool \<times> 's pb_ostream" where
  "pb_enc_varint m st field src =
     (if pf_data_size field = 1 then pb_encode_varint st (scast (m src))
      else if pf_data_size field = 2 then pb_encode_varint st (scast (load16 m src))
      else if pf_data_size field = 4 then pb_encode_varint st (scast (load32 m src))
      else if pf_data_size field = 8 then pb_encode_varint st (load64 m src)
      else os_error st ''invalid data_size'')"

definition pb_enc_uvarint :: "memory \<Rightarrow> 's pb_ostream \<Rightarrow> pb_field \<Rightarrow> addr \<Rightarrow> bool \<times> 's pb_ostream" where
  "pb_enc_uvarint m st field src =
     (if pf_data_size field = 1 then pb_encode_varint st (ucast (m src))
      else if pf_data_size field = 2 then pb_encode_varint st (ucast (load16 m src))
      else if pf_data_size field = 4 then pb_encode_varint st (ucast (load32 m src))
      else if pf_data_size field = 8 then pb_encode_varint st (load64 m src)
      else os_error st ''invalid data_size'')"

definition pb_enc_svarint :: "memory \<Rightarrow> 's pb_ostream \<Rightarrow> pb_field \<Rightarrow> addr \<Rightarrow> bool \<times> 's pb_ostream" where
  "pb_enc_svarint m st field src =
     (if pf_data_size field = 1 then pb_encode_svarint st (scast (m src))
      else if pf_data_size field = 2 then pb_encode_svarint st (scast (load16 m src))
      else if pf_data_size field = 4 then pb_encode_svarint st (scast (load32 m src))
      else if pf_data_size field = 8 then pb_encode_svarint st (load64 m src)
      else os_error st ''invalid data_size'')"

definition pb_enc_fixed32 :: "memory \<Rightarrow> 's pb_ostream \<Rightarrow> pb_field \<Rightarrow> addr \<Rightarrow> bool \<times> 's pb_ostream" where
  "pb_enc_fixed32 m st field src = pb_encode_fixed32 st (load32 m src)"

definition pb_enc_fixed64 :: "memory \<Rightarrow> 's pb_ostream \<Rightarrow> pb_field \<Rightarrow> addr \<Rightarrow> bool \<times> 's pb_ostream" where
  "pb_enc_fixed64 m st field src = pb_encode_fixed64 st (load64 m src)"

text \<open>A \<open>pb_bytes_array_t\<close> has its size in the first four bytes.\<close>

definition pb_enc_bytes :: "memory \<Rightarrow> 's pb_ostream \<Rightarrow> pb_field \<Rightarrow> addr \<Rightarrow> bool \<times> 's pb_ostream" where
  "pb_enc_bytes m st field src =
     (if src = 0 then pb_encode_string st [] 0
      else
        let sz = load32 m src
        in if PB_ATYPE (pf_type field) = PB_ATYPE_STATIC \<and> ucast sz > (ucast (pf_data_size field) - 4 :: u64)
           then os_error st ''bytes size exceeded''
           else pb_encode_string st (mem_bytes m (src + 4) (unat sz)) (unat sz))"

function string_loop :: "memory \<Rightarrow> u64 \<Rightarrow> u64 \<Rightarrow> addr \<Rightarrow> u64" where
  "string_loop m sz max_size p =
     (if sz < max_size \<and> m p \<noteq> 0 then string_loop m (sz + 1) max_size (p + 1) else sz)"
  by pat_completeness auto
termination
proof (relation "measure (\<lambda>(m, sz, max_size, p). unat max_size - unat sz)")
  fix m :: memory and sz max_size :: u64 and p :: addr
  assume "sz < max_size \<and> m p \<noteq> 0"
  then have less: "unat sz < unat max_size" by (simp add: word_less_nat_alt)
  then have "unat sz + unat (1 :: u64) < 2 ^ LENGTH(64)" using unat_less_power [of max_size] by simp
  then have "unat (sz + 1) = unat sz + 1" using unat_add_lem [of sz 1] by simp
  with less show "((m, sz + 1, max_size, p + 1), (m, sz, max_size, p)) \<in> measure (\<lambda>(m, sz, max_size, p). unat max_size - unat sz)"
    by simp
qed simp

declare string_loop.simps [simp del]

definition pb_enc_string :: "memory \<Rightarrow> 's pb_ostream \<Rightarrow> pb_field \<Rightarrow> addr \<Rightarrow> bool \<times> 's pb_ostream" where
  "pb_enc_string m st field src =
     (let max_size = (if PB_ATYPE (pf_type field) = PB_ATYPE_POINTER then 0xffffffffffffffff
                      else ucast (pf_data_size field));
          sz = (if src = 0 then 0 else string_loop m 0 max_size src)
      in pb_encode_string st (mem_bytes m src (unat sz)) (unat sz))"

definition pb_enc_fixed_length_bytes :: "memory \<Rightarrow> 's pb_ostream \<Rightarrow> pb_field \<Rightarrow> addr \<Rightarrow> bool \<times> 's pb_ostream" where
  "pb_enc_fixed_length_bytes m st field src =
     pb_encode_string st (mem_bytes m src (unat (pf_data_size field))) (unat (pf_data_size field))"

text \<open>The encoder of messages is the argument of the functions that call it.\<close>

type_synonym 's pb_encode_fun = "'s pb_ostream \<Rightarrow> pb_field list \<Rightarrow> addr \<Rightarrow> (bool \<times> 's pb_ostream) option"

definition pb_encode_submessage ::
    "'s pb_encode_fun \<Rightarrow> 's pb_ostream \<Rightarrow> pb_field list \<Rightarrow> addr \<Rightarrow> (bool \<times> 's pb_ostream) option" where
  "pb_encode_submessage enc st fs src_struct = do {
     (ok, substream) \<leftarrow> enc (PB_OSTREAM_SIZING (os_state st)) fs src_struct;
     if \<not> ok then Some (False, st\<lparr>os_errmsg := os_errmsg substream\<rparr>)
     else
       let sz = os_bytes_written substream
       in and_then (Some (pb_encode_varint st (word_of_nat sz))) (\<lambda>st1.
            if os_callback st1 = None then Some (pb_write st1 [] sz)
            else if size_add (os_bytes_written st1) sz > os_max_size st1 then Some (os_error st1 ''stream full'')
            else do {
              (status, sub) \<leftarrow>
                enc \<lparr>os_callback = os_callback st1, os_state = os_state st1, os_max_size = sz, os_bytes_written = 0,
                     os_errmsg = None\<rparr> fs src_struct;
              let st2 = st1\<lparr>os_bytes_written := size_add (os_bytes_written st1) (os_bytes_written sub),
                            os_state := os_state sub, os_errmsg := os_errmsg sub\<rparr>;
              if os_bytes_written sub \<noteq> sz then Some (os_error st2 ''submsg size changed'')
              else Some (status, st2)
            })
   }"

definition pb_enc_submessage ::
    "'s pb_encode_fun \<Rightarrow> 's pb_world \<Rightarrow> 's pb_ostream \<Rightarrow> pb_field \<Rightarrow> addr \<Rightarrow> (bool \<times> 's pb_ostream) option" where
  "pb_enc_submessage enc w st field src =
     (if pf_ptr field = 0 then Some (os_error st ''invalid field descriptor'')
      else pb_encode_submessage enc st (w_fields w (pf_ptr field)) src)"

text \<open>The entry of the table at an index; a call of the null pointer and a read behind the table are \<open>None\<close>.\<close>

definition PB_ENCODERS ::
    "'s pb_encode_fun \<Rightarrow> 's pb_world \<Rightarrow> byte \<Rightarrow> 's pb_ostream \<Rightarrow> pb_field \<Rightarrow> addr \<Rightarrow> (bool \<times> 's pb_ostream) option" where
  "PB_ENCODERS enc w lt st field src =
     (let m = w_mem w
      in if lt = PB_LTYPE_BOOL then Some (pb_enc_bool m st field src)
         else if lt = PB_LTYPE_VARINT then Some (pb_enc_varint m st field src)
         else if lt = PB_LTYPE_UVARINT then Some (pb_enc_uvarint m st field src)
         else if lt = PB_LTYPE_SVARINT then Some (pb_enc_svarint m st field src)
         else if lt = PB_LTYPE_FIXED32 then Some (pb_enc_fixed32 m st field src)
         else if lt = PB_LTYPE_FIXED64 then Some (pb_enc_fixed64 m st field src)
         else if lt = PB_LTYPE_BYTES then Some (pb_enc_bytes m st field src)
         else if lt = PB_LTYPE_STRING then Some (pb_enc_string m st field src)
         else if lt = PB_LTYPE_SUBMESSAGE then pb_enc_submessage enc w st field src
         else if lt = PB_LTYPE_FIXED_LENGTH_BYTES then Some (pb_enc_fixed_length_bytes m st field src)
         else None)"

section \<open>Arrays\<close>

fun packed_loop ::
    "('s pb_ostream \<Rightarrow> pb_field \<Rightarrow> addr \<Rightarrow> (bool \<times> 's pb_ostream) option) \<Rightarrow> pb_field \<Rightarrow> nat \<Rightarrow> 's pb_ostream \<Rightarrow> addr \<Rightarrow>
     (bool \<times> 's pb_ostream) option" where
  "packed_loop func field 0 st p = Some (True, st)"
| "packed_loop func field (Suc n) st p =
     and_then (func st field p) (\<lambda>st1. packed_loop func field n st1 (p + ucast (pf_data_size field)))"

fun unpacked_loop ::
    "memory \<Rightarrow> ('s pb_ostream \<Rightarrow> pb_field \<Rightarrow> addr \<Rightarrow> (bool \<times> 's pb_ostream) option) \<Rightarrow> pb_field \<Rightarrow> nat \<Rightarrow> 's pb_ostream \<Rightarrow> addr \<Rightarrow>
     (bool \<times> 's pb_ostream) option" where
  "unpacked_loop m func field 0 st p = Some (True, st)"
| "unpacked_loop m func field (Suc n) st p =
     and_then (Some (pb_encode_tag_for_field st field)) (\<lambda>st1.
       and_then (if PB_ATYPE (pf_type field) = PB_ATYPE_POINTER \<and>
                    (PB_LTYPE (pf_type field) = PB_LTYPE_STRING \<or> PB_LTYPE (pf_type field) = PB_LTYPE_BYTES)
                 then func st1 field (load64 m p) else func st1 field p) (\<lambda>st2.
         unpacked_loop m func field n st2 (p + ucast (pf_data_size field))))"

definition encode_array ::
    "memory \<Rightarrow> ('s pb_ostream \<Rightarrow> pb_field \<Rightarrow> addr \<Rightarrow> (bool \<times> 's pb_ostream) option) \<Rightarrow> 's pb_ostream \<Rightarrow> pb_field \<Rightarrow> addr \<Rightarrow>
     u32 \<Rightarrow> (bool \<times> 's pb_ostream) option" where
  "encode_array m func st field pData count =
     (if count = 0 then Some (True, st)
      else if PB_ATYPE (pf_type field) \<noteq> PB_ATYPE_POINTER \<and> count > pf_array_size field
      then Some (os_error st ''array max size exceeded'')
      else if PB_LTYPE (pf_type field) \<le> PB_LTYPE_LAST_PACKABLE then
        and_then (Some (pb_encode_tag st PB_WT_STRING (pf_tag field))) (\<lambda>st1. do {
          (ok, sz) \<leftarrow>
            (if PB_LTYPE (pf_type field) = PB_LTYPE_FIXED32 then Some (True, 4 * unat count)
             else if PB_LTYPE (pf_type field) = PB_LTYPE_FIXED64 then Some (True, 8 * unat count)
             else map_option (\<lambda>(ok, sizestream). (ok, os_bytes_written sizestream))
                    (packed_loop func field (unat count) (PB_OSTREAM_SIZING (os_state st1)) pData));
          if \<not> ok then Some (False, st1)
          else and_then (Some (pb_encode_varint st1 (word_of_nat sz))) (\<lambda>st2.
                 if os_callback st2 = None then Some (pb_write st2 [] sz)
                 else packed_loop func field (unat count) st2 pData)
        })
      else unpacked_loop m func field (unat count) st pData)"

section \<open>Fields\<close>

text \<open>\<open>pb_check_proto3_default_value\<close>; its first argument bounds the nesting of submessages.\<close>

fun pb_check_proto3_default_value :: "nat \<Rightarrow> 's pb_world \<Rightarrow> pb_field \<Rightarrow> addr \<Rightarrow> bool option" where
  "pb_check_proto3_default_value 0 w field pData = None"
| "pb_check_proto3_default_value (Suc n) w field pData =
     (let type = pf_type field; m = w_mem w; pSize = pData + scast (pf_size_offset field)
      in if PB_HTYPE type = PB_HTYPE_REQUIRED then Some False
         else if PB_HTYPE type = PB_HTYPE_REPEATED \<and> pf_size_offset field \<noteq> 0 then Some (load32 m pSize = 0)
         else if PB_HTYPE type = PB_HTYPE_REPEATED \<and> PB_ATYPE type = PB_ATYPE_STATIC then Some False
         else if PB_HTYPE type = PB_HTYPE_ONEOF then Some (load32 m pSize = 0)
         else if PB_HTYPE type = PB_HTYPE_OPTIONAL \<and> pf_size_offset field \<noteq> 0 then Some (\<not> safe_read_bool m pSize)
         else if PB_ATYPE type = PB_ATYPE_STATIC \<and> PB_LTYPE type = PB_LTYPE_BYTES then Some (load32 m pData = 0)
         else if PB_ATYPE type = PB_ATYPE_STATIC \<and> PB_LTYPE type = PB_LTYPE_STRING then Some (m pData = 0)
         else if PB_ATYPE type = PB_ATYPE_STATIC \<and> PB_LTYPE type = PB_LTYPE_FIXED_LENGTH_BYTES
         then Some (pf_data_size field = 0)
         else if PB_ATYPE type = PB_ATYPE_STATIC \<and> PB_LTYPE type = PB_LTYPE_SUBMESSAGE
         then do {
           (nonempty, it) \<leftarrow> pb_field_iter_begin (w_fields w (pf_ptr field)) pData;
           if nonempty
           then map_option fst
                  (iter_loop
                     (\<lambda>it _. do {
                        f \<leftarrow> field_at (pi_start it) (pi_pos it);
                        dflt \<leftarrow> pb_check_proto3_default_value n w f (pi_pData it);
                        Some (dflt, ())
                      }) it ())
           else Some True
         }
         else if PB_ATYPE type = PB_ATYPE_POINTER \<and> PB_LTYPE type > PB_LTYPE_LAST_PACKABLE
         then Some (load64 m pData = 0)
         else Some (list_all (\<lambda>c. c = 0) (mem_bytes m pData (unat (pf_data_size field)))))"

definition encode_basic_field ::
    "nat \<Rightarrow> 's pb_encode_fun \<Rightarrow> 's pb_world \<Rightarrow> 's pb_ostream \<Rightarrow> pb_field \<Rightarrow> addr \<Rightarrow> (bool \<times> 's pb_ostream) option" where
  "encode_basic_field n enc w st field pData =
     (let type = pf_type field; m = w_mem w; func = PB_ENCODERS enc w (PB_LTYPE type)
      in if PB_LTYPE type > PB_LTYPE_FIXED_LENGTH_BYTES then None
         else do {
           implicit_has \<leftarrow>
             (if pf_size_offset field \<noteq> 0 then Some False
              else if PB_HTYPE type = PB_HTYPE_OPTIONAL
              then map_option Not (pb_check_proto3_default_value n w field pData)
              else Some True);
           let pSize = pData + scast (pf_size_offset field);
           let pData1 = (if PB_ATYPE type = PB_ATYPE_POINTER then load64 m pData else pData);
           let implicit_has1 = (if PB_ATYPE type = PB_ATYPE_POINTER then pData1 \<noteq> 0 else implicit_has);
           let tag_and_value = and_then (Some (pb_encode_tag_for_field st field)) (\<lambda>st1. func st1 field pData1);
           if PB_HTYPE type = PB_HTYPE_REQUIRED
           then (if pData1 = 0 then Some (os_error st ''missing required field'') else tag_and_value)
           else if PB_HTYPE type = PB_HTYPE_OPTIONAL
           then (if if pf_size_offset field \<noteq> 0 then safe_read_bool m pSize else implicit_has1
                 then tag_and_value else Some (True, st))
           else if PB_HTYPE type = PB_HTYPE_REPEATED
           then encode_array m func st field pData1
                  (if pf_size_offset field \<noteq> 0 then load32 m pSize else pf_array_size field)
           else if pf_size_offset field = 0 then None
           else if load32 m pSize = pf_tag field then tag_and_value
           else Some (True, st)
         })"

text \<open>A \<open>pb_callback_t\<close> is the pointer to the function and, behind it, the argument.\<close>

definition encode_callback_field :: "'s pb_world \<Rightarrow> 's pb_ostream \<Rightarrow> pb_field \<Rightarrow> addr \<Rightarrow> bool \<times> 's pb_ostream" where
  "encode_callback_field w st field pData =
     (let encode = load64 (w_mem w) pData
      in if encode \<noteq> 0
         then (case w_encode w encode st field (pData + 8) of
                 (True, st1) \<Rightarrow> (True, st1)
               | (False, st1) \<Rightarrow> os_error st1 ''callback error'')
         else (True, st))"

definition encode_field ::
    "nat \<Rightarrow> 's pb_encode_fun \<Rightarrow> 's pb_world \<Rightarrow> 's pb_ostream \<Rightarrow> pb_field \<Rightarrow> addr \<Rightarrow> (bool \<times> 's pb_ostream) option" where
  "encode_field n enc w st field pData =
     (let at = PB_ATYPE (pf_type field)
      in if at = PB_ATYPE_STATIC \<or> at = PB_ATYPE_POINTER then encode_basic_field n enc w st field pData
         else if at = PB_ATYPE_CALLBACK then Some (encode_callback_field w st field pData)
         else Some (os_error st ''invalid field type''))"

text \<open>A \<open>pb_extension_t\<close> holds the pointers \<open>type\<close>, \<open>dest\<close> and \<open>next\<close>; a \<open>pb_extension_type_t\<close> the pointers
  \<open>decode\<close>, \<open>encode\<close> and \<open>arg\<close>.\<close>

definition default_extension_encoder ::
    "nat \<Rightarrow> 's pb_encode_fun \<Rightarrow> 's pb_world \<Rightarrow> 's pb_ostream \<Rightarrow> addr \<Rightarrow> (bool \<times> 's pb_ostream) option" where
  "default_extension_encoder n enc w st extension = do {
     field \<leftarrow> field_at (w_fields w (load64 (w_mem w) (load64 (w_mem w) extension + 16))) 0;
     if PB_ATYPE (pf_type field) = PB_ATYPE_POINTER
     then encode_field n enc w st field (extension + 8)
     else encode_field n enc w st field (load64 (w_mem w) (extension + 8))
   }"

partial_function (option) extension_loop ::
    "('s pb_ostream \<Rightarrow> addr \<Rightarrow> (bool \<times> 's pb_ostream) option) \<Rightarrow> memory \<Rightarrow> 's pb_ostream \<Rightarrow> addr \<Rightarrow>
     (bool \<times> 's pb_ostream) option" where
  "extension_loop step m st extension =
     (if extension = 0 then Some (True, st)
      else do {
        (ok, st1) \<leftarrow> step st extension;
        if ok then extension_loop step m st1 (load64 m (extension + 16)) else Some (False, st1)
      })"

definition encode_extension_field ::
    "nat \<Rightarrow> 's pb_encode_fun \<Rightarrow> 's pb_world \<Rightarrow> 's pb_ostream \<Rightarrow> pb_field \<Rightarrow> addr \<Rightarrow> (bool \<times> 's pb_ostream) option" where
  "encode_extension_field n enc w st field pData =
     extension_loop
       (\<lambda>st extension.
          let encode = load64 (w_mem w) (load64 (w_mem w) extension + 8)
          in if encode \<noteq> 0 then Some (w_ext_encode w encode st extension)
             else default_extension_encoder n enc w st extension)
       (w_mem w) st (load64 (w_mem w) pData)"

section \<open>Messages\<close>

fun pb_encode :: "nat \<Rightarrow> 's pb_world \<Rightarrow> 's pb_ostream \<Rightarrow> pb_field list \<Rightarrow> addr \<Rightarrow> (bool \<times> 's pb_ostream) option" where
  "pb_encode 0 w st fs src_struct = None"
| "pb_encode (Suc n) w st fs src_struct = do {
     (nonempty, it) \<leftarrow> pb_field_iter_begin fs src_struct;
     if \<not> nonempty then Some (True, st)
     else iter_loop
            (\<lambda>it st. do {
               f \<leftarrow> field_at (pi_start it) (pi_pos it);
               if PB_LTYPE (pf_type f) = PB_LTYPE_EXTENSION
               then encode_extension_field n (pb_encode n w) w st f (pi_pData it)
               else encode_field n (pb_encode n w) w st f (pi_pData it)
             }) it st
   }"

definition pb_encode_delimited ::
    "nat \<Rightarrow> 's pb_world \<Rightarrow> 's pb_ostream \<Rightarrow> pb_field list \<Rightarrow> addr \<Rightarrow> (bool \<times> 's pb_ostream) option" where
  "pb_encode_delimited n w st fs src_struct = pb_encode_submessage (pb_encode n w) st fs src_struct"

definition pb_encode_nullterminated ::
    "nat \<Rightarrow> 's pb_world \<Rightarrow> 's pb_ostream \<Rightarrow> pb_field list \<Rightarrow> addr \<Rightarrow> (bool \<times> 's pb_ostream) option" where
  "pb_encode_nullterminated n w st fs src_struct =
     and_then (pb_encode n w st fs src_struct) (\<lambda>st1. Some (pb_write st1 [0] 1))"

definition pb_get_encoded_size :: "nat \<Rightarrow> 's pb_world \<Rightarrow> 's \<Rightarrow> pb_field list \<Rightarrow> addr \<Rightarrow> nat option option" where
  "pb_get_encoded_size n w s fs src_struct = do {
     (ok, stream) \<leftarrow> pb_encode n w (PB_OSTREAM_SIZING s) fs src_struct;
     Some (if ok then Some (os_bytes_written stream) else None)
   }"

text \<open>A pass of the loop over the fields, at a field of a well-formed descriptor.\<close>

lemma iter_loop_step:
  assumes "fields_ok fs" "i < nfields fs"
  shows "iter_loop body (iter_at fs a i) s =
    and_then (body (iter_at fs a i) s)
      (\<lambda>s1. if Suc i < nfields fs then iter_loop body (iter_at fs a (Suc i)) s1 else Some (True, s1))"
proof -
  have "Suc i < nfields fs \<Longrightarrow> Suc i mod nfields fs = Suc i" by simp
  then show ?thesis
    by (subst iter_loop.simps) (cases "body (iter_at fs a i) s"; auto simp: iter_next_ok [OF assms] and_then_def)
qed

end
