(* ===== verification/PbDecode.thy ===== *)
theory PbDecode
  imports PbEncode
begin

unbundle bit_operations_syntax

text \<open>
  The message decoder of nanopb (\<^verbatim>\<open>pb_decode.c\<close>, built with \<open>PB_ENABLE_MALLOC\<close>), on the memory of
  \<open>PbEncode\<close>, which it writes. \<open>realloc\<close>, \<open>free\<close> and the functions a message refers to by address are
  parameters; the allocator has a state of its own. What a stream callback leaves in the buffer when it fails
  is not modelled: a failed read writes nothing. As in the encoder, \<open>None\<close> is the result where the C code
  reads behind an array of descriptors or behind the table of decoders, calls a null pointer, divides
  by zero, or does not return; the nesting of messages is bounded by an argument.
\<close>

section \<open>Memory, allocation and loops\<close>

fun store_bytes :: "memory \<Rightarrow> addr \<Rightarrow> byte list \<Rightarrow> memory" where
  "store_bytes m a [] = m"
| "store_bytes m a (b # bs) = store_bytes (m(a := b)) (a + 1) bs"

text \<open>The store: memory, the state of the allocator, and the local variable \<open>fixed_count_size\<close> of
  \<open>pb_decode_noinit\<close>, to which the iterator may point.\<close>

record 'h pb_store =
  sr_mem :: memory
  sr_heap :: 'h
  sr_fixed_count_size :: u32

definition put :: "addr \<Rightarrow> byte list \<Rightarrow> 'h pb_store \<Rightarrow> 'h pb_store" where
  "put a bs sr = sr\<lparr>sr_mem := store_bytes (sr_mem sr) a bs\<rparr>"

type_synonym ('s, 'h) dstate = "'s pb_istream \<times> 'h pb_store"

record ('s, 'h) pb_dworld =
  dw_fields :: "addr \<Rightarrow> pb_field list"
  dw_realloc :: "'h \<Rightarrow> memory \<Rightarrow> addr \<Rightarrow> u64 \<Rightarrow> addr \<times> memory \<times> 'h"
  dw_free :: "'h \<Rightarrow> addr \<Rightarrow> 'h"
  dw_decode :: "addr \<Rightarrow> ('s, 'h) dstate \<Rightarrow> pb_field \<Rightarrow> addr \<Rightarrow> bool \<times> ('s, 'h) dstate"
  dw_ext_decode :: "addr \<Rightarrow> ('s, 'h) dstate \<Rightarrow> addr \<Rightarrow> u32 \<Rightarrow> u32 \<Rightarrow> bool \<times> ('s, 'h) dstate"

definition dec_error :: "string \<Rightarrow> ('s, 'h) dstate \<Rightarrow> bool \<times> ('s, 'h) dstate" where
  "dec_error msg s = (False, (is_set_error msg (fst s), snd s))"

definition pb_free :: "('s, 'h) pb_dworld \<Rightarrow> addr \<Rightarrow> 'h pb_store \<Rightarrow> 'h pb_store" where
  "pb_free w p sr = sr\<lparr>sr_heap := dw_free w (sr_heap sr) p\<rparr>"

text \<open>A loop whose body may continue, break, or return from the function.\<close>

datatype 'r step = Continue | Break | Return 'r

partial_function (option) c_loop ::
    "('a \<Rightarrow> bool) \<Rightarrow> ('a \<Rightarrow> ('r step \<times> 'a) option) \<Rightarrow> 'a \<Rightarrow> ('r option \<times> 'a) option" where
  "c_loop cond body s =
     (if cond s
      then do {
        (x, s1) \<leftarrow> body s;
        case x of Continue \<Rightarrow> c_loop cond body s1 | Break \<Rightarrow> Some (None, s1) | Return r \<Rightarrow> Some (Some r, s1)
      }
      else Some (None, s))"

declare c_loop.simps [code] find_loop.simps [code] iter_loop.simps [code]

section \<open>Scalar fields\<close>

definition pb_dec_bool :: "('s, 'h) dstate \<Rightarrow> pb_field \<Rightarrow> addr \<Rightarrow> bool \<times> ('s, 'h) dstate" where
  "pb_dec_bool s field dest =
     (case pb_decode_varint32 (fst s) of
        (None, st1) \<Rightarrow> (False, (st1, snd s))
      | (Some v, st1) \<Rightarrow> (True, (st1, put dest [if v \<noteq> 0 then 1 else 0] (snd s))))"

definition le16 :: "u16 \<Rightarrow> byte list" where
  "le16 v = [ucast (v AND 0xff), ucast (drop_bit 8 v AND 0xff)]"

text \<open>The assignment to a field of the given size, the value read back from it widened again, and the
  comparison with the value that was meant.\<close>

definition store_signed :: "('s, 'h) dstate \<Rightarrow> pb_field \<Rightarrow> addr \<Rightarrow> u64 \<Rightarrow> bool \<times> ('s, 'h) dstate" where
  "store_signed s field dest svalue =
     (let check = (\<lambda>clamped s1. if clamped \<noteq> svalue then dec_error ''integer too large'' s1 else (True, s1))
      in if pf_data_size field = 8 then check svalue (fst s, put dest (fixed64_le svalue) (snd s))
         else if pf_data_size field = 4
         then check (scast (ucast svalue :: u32)) (fst s, put dest (fixed32_le (ucast svalue)) (snd s))
         else if pf_data_size field = 2
         then check (scast (ucast svalue :: u16)) (fst s, put dest (le16 (ucast svalue)) (snd s))
         else if pf_data_size field = 1
         then check (scast (ucast svalue :: byte)) (fst s, put dest [ucast svalue] (snd s))
         else dec_error ''invalid data_size'' s)"

definition store_unsigned :: "('s, 'h) dstate \<Rightarrow> pb_field \<Rightarrow> addr \<Rightarrow> u64 \<Rightarrow> bool \<times> ('s, 'h) dstate" where
  "store_unsigned s field dest v =
     (let check = (\<lambda>clamped s1. if clamped \<noteq> v then dec_error ''integer too large'' s1 else (True, s1))
      in if pf_data_size field = 8 then check v (fst s, put dest (fixed64_le v) (snd s))
         else if pf_data_size field = 4
         then check (ucast (ucast v :: u32)) (fst s, put dest (fixed32_le (ucast v)) (snd s))
         else if pf_data_size field = 2
         then check (ucast (ucast v :: u16)) (fst s, put dest (le16 (ucast v)) (snd s))
         else if pf_data_size field = 1
         then check (ucast (ucast v :: byte)) (fst s, put dest [ucast v] (snd s))
         else dec_error ''invalid data_size'' s)"

definition pb_dec_varint :: "('s, 'h) dstate \<Rightarrow> pb_field \<Rightarrow> addr \<Rightarrow> bool \<times> ('s, 'h) dstate" where
  "pb_dec_varint s field dest =
     (case pb_decode_varint (fst s) of
        (None, st1) \<Rightarrow> (False, (st1, snd s))
      | (Some v, st1) \<Rightarrow>
          store_signed (st1, snd s) field dest (if pf_data_size field = 8 then v else scast (ucast v :: u32)))"

definition pb_dec_uvarint :: "('s, 'h) dstate \<Rightarrow> pb_field \<Rightarrow> addr \<Rightarrow> bool \<times> ('s, 'h) dstate" where
  "pb_dec_uvarint s field dest =
     (case pb_decode_varint (fst s) of
        (None, st1) \<Rightarrow> (False, (st1, snd s))
      | (Some v, st1) \<Rightarrow> store_unsigned (st1, snd s) field dest v)"

definition pb_dec_svarint :: "('s, 'h) dstate \<Rightarrow> pb_field \<Rightarrow> addr \<Rightarrow> bool \<times> ('s, 'h) dstate" where
  "pb_dec_svarint s field dest =
     (case pb_decode_svarint (fst s) of
        (None, st1) \<Rightarrow> (False, (st1, snd s))
      | (Some v, st1) \<Rightarrow> store_signed (st1, snd s) field dest v)"

definition pb_dec_fixed32 :: "('s, 'h) dstate \<Rightarrow> pb_field \<Rightarrow> addr \<Rightarrow> bool \<times> ('s, 'h) dstate" where
  "pb_dec_fixed32 s field dest =
     (case pb_decode_fixed32 (fst s) of
        (None, st1) \<Rightarrow> (False, (st1, snd s))
      | (Some v, st1) \<Rightarrow> (True, (st1, put dest (fixed32_le v) (snd s))))"

definition pb_dec_fixed64 :: "('s, 'h) dstate \<Rightarrow> pb_field \<Rightarrow> addr \<Rightarrow> bool \<times> ('s, 'h) dstate" where
  "pb_dec_fixed64 s field dest =
     (case pb_decode_fixed64 (fst s) of
        (None, st1) \<Rightarrow> (False, (st1, snd s))
      | (Some v, st1) \<Rightarrow> (True, (st1, put dest (fixed64_le v) (snd s))))"

section \<open>Strings\<close>

text \<open>\<open>pb_read\<close> into memory.\<close>

definition read_to :: "('s, 'h) dstate \<Rightarrow> addr \<Rightarrow> nat \<Rightarrow> bool \<times> ('s, 'h) dstate" where
  "read_to s dest count =
     (case pb_read (fst s) False count of
        (None, st1) \<Rightarrow> (False, (st1, snd s))
      | (Some bytes, st1) \<Rightarrow> (True, (st1, put dest bytes (snd s))))"

definition allocate_field :: "('s, 'h) pb_dworld \<Rightarrow> ('s, 'h) dstate \<Rightarrow> addr \<Rightarrow> u64 \<Rightarrow> u64 \<Rightarrow> bool \<times> ('s, 'h) dstate" where
  "allocate_field w s pData data_size array_size =
     (let ptr = load64 (sr_mem (snd s)) pData
      in if data_size = 0 \<or> array_size = 0 then dec_error ''invalid size'' s
         else if (data_size \<ge> 0x100000000 \<or> array_size \<ge> 0x100000000) \<and> 0xffffffffffffffff div array_size < data_size
         then dec_error ''size too large'' s
         else (case dw_realloc w (sr_heap (snd s)) (sr_mem (snd s)) ptr (array_size * data_size) of
                 (ptr1, m1, h1) \<Rightarrow>
                   let s1 = (fst s, (snd s)\<lparr>sr_mem := m1, sr_heap := h1\<rparr>)
                   in if ptr1 = 0 then dec_error ''realloc failed'' s1
                      else (True, (fst s1, put pData (fixed64_le ptr1) (snd s1)))))"

definition pb_dec_bytes :: "('s, 'h) pb_dworld \<Rightarrow> ('s, 'h) dstate \<Rightarrow> pb_field \<Rightarrow> addr \<Rightarrow> bool \<times> ('s, 'h) dstate" where
  "pb_dec_bytes w s field dest =
     (case pb_decode_varint32 (fst s) of
        (None, st1) \<Rightarrow> (False, (st1, snd s))
      | (Some sz, st1) \<Rightarrow>
          let s1 = (st1, snd s); alloc_size = ucast sz + 4 :: u64;
              fill = (\<lambda>bdest s2. read_to (fst s2, put bdest (fixed32_le sz) (snd s2)) (bdest + 4) (unat sz))
          in if ucast sz > alloc_size then dec_error ''size too large'' s1
             else if PB_ATYPE (pf_type field) = PB_ATYPE_POINTER
             then if is_bytes_left st1 < unat sz then dec_error ''end-of-stream'' s1
                  else (case allocate_field w s1 dest alloc_size 1 of
                          (False, s2) \<Rightarrow> (False, s2)
                        | (True, s2) \<Rightarrow> fill (load64 (sr_mem (snd s2)) dest) s2)
             else if alloc_size > ucast (pf_data_size field) then dec_error ''bytes overflow'' s1
             else fill dest s1)"

definition pb_dec_string :: "('s, 'h) pb_dworld \<Rightarrow> ('s, 'h) dstate \<Rightarrow> pb_field \<Rightarrow> addr \<Rightarrow> bool \<times> ('s, 'h) dstate" where
  "pb_dec_string w s field dest =
     (case pb_decode_varint32 (fst s) of
        (None, st1) \<Rightarrow> (False, (st1, snd s))
      | (Some sz, st1) \<Rightarrow>
          let s1 = (st1, snd s); alloc_size = ucast (sz + 1) :: u64;
              fill = (\<lambda>dest s2. case read_to s2 dest (unat sz) of
                        (status, s3) \<Rightarrow> (status, (fst s3, put (dest + ucast sz) [0] (snd s3))))
          in if alloc_size < ucast sz then dec_error ''size too large'' s1
             else if PB_ATYPE (pf_type field) = PB_ATYPE_POINTER
             then if is_bytes_left st1 < unat sz then dec_error ''end-of-stream'' s1
                  else (case allocate_field w s1 dest alloc_size 1 of
                          (False, s2) \<Rightarrow> (False, s2)
                        | (True, s2) \<Rightarrow> fill (load64 (sr_mem (snd s2)) dest) s2)
             else if alloc_size > ucast (pf_data_size field) then dec_error ''string overflow'' s1
             else fill dest s1)"

definition pb_dec_fixed_length_bytes :: "('s, 'h) dstate \<Rightarrow> pb_field \<Rightarrow> addr \<Rightarrow> bool \<times> ('s, 'h) dstate" where
  "pb_dec_fixed_length_bytes s field dest =
     (case pb_decode_varint32 (fst s) of
        (None, st1) \<Rightarrow> (False, (st1, snd s))
      | (Some sz, st1) \<Rightarrow>
          if sz = 0 then (True, (st1, put dest (replicate (unat (pf_data_size field)) 0) (snd s)))
          else if sz \<noteq> pf_data_size field then dec_error ''incorrect fixed length bytes size'' (st1, snd s)
          else read_to (st1, snd s) dest (unat (pf_data_size field)))"

text \<open>\<open>pb_decode\<close> and \<open>pb_decode_noinit\<close> are arguments of the functions that call them.\<close>

type_synonym ('s, 'h) decode_fun = "('s, 'h) dstate \<Rightarrow> pb_field list \<Rightarrow> addr \<Rightarrow> (bool \<times> ('s, 'h) dstate) option"

text \<open>Run a decoder on the substream of a string field and close it.\<close>

definition with_substream ::
    "(('s, 'h) dstate \<Rightarrow> (bool \<times> ('s, 'h) dstate) option) \<Rightarrow> ('s, 'h) dstate \<Rightarrow> (bool \<times> ('s, 'h) dstate) option" where
  "with_substream dec s =
     (case pb_make_string_substream (fst s) of
        (None, st1) \<Rightarrow> Some (False, (st1, snd s))
      | (Some sub, st1) \<Rightarrow> do {
          (status, (sub1, sr1)) \<leftarrow> dec (sub, snd s);
          Some (case pb_close_string_substream st1 sub1 of (closed, st2, _) \<Rightarrow> (closed \<and> status, (st2, sr1)))
        })"

definition pb_dec_submessage ::
    "('s, 'h) decode_fun \<Rightarrow> ('s, 'h) decode_fun \<Rightarrow> ('s, 'h) pb_dworld \<Rightarrow> ('s, 'h) dstate \<Rightarrow> pb_field \<Rightarrow> addr \<Rightarrow>
     (bool \<times> ('s, 'h) dstate) option" where
  "pb_dec_submessage decode noinit w s field dest =
     (if pf_ptr field = 0
      then (case pb_make_string_substream (fst s) of
              (None, st1) \<Rightarrow> Some (False, (st1, snd s))
            | (Some _, st1) \<Rightarrow> Some (dec_error ''invalid field descriptor'' (st1, snd s)))
      else with_substream
             (\<lambda>sub. if PB_HTYPE (pf_type field) = PB_HTYPE_REPEATED
                    then decode sub (dw_fields w (pf_ptr field)) dest
                    else noinit sub (dw_fields w (pf_ptr field)) dest) s)"

definition PB_DECODERS ::
    "('s, 'h) decode_fun \<Rightarrow> ('s, 'h) decode_fun \<Rightarrow> ('s, 'h) pb_dworld \<Rightarrow> byte \<Rightarrow> ('s, 'h) dstate \<Rightarrow> pb_field \<Rightarrow> addr \<Rightarrow>
     (bool \<times> ('s, 'h) dstate) option" where
  "PB_DECODERS decode noinit w lt s field dest =
     (if lt = PB_LTYPE_BOOL then Some (pb_dec_bool s field dest)
      else if lt = PB_LTYPE_VARINT then Some (pb_dec_varint s field dest)
      else if lt = PB_LTYPE_UVARINT then Some (pb_dec_uvarint s field dest)
      else if lt = PB_LTYPE_SVARINT then Some (pb_dec_svarint s field dest)
      else if lt = PB_LTYPE_FIXED32 then Some (pb_dec_fixed32 s field dest)
      else if lt = PB_LTYPE_FIXED64 then Some (pb_dec_fixed64 s field dest)
      else if lt = PB_LTYPE_BYTES then Some (pb_dec_bytes w s field dest)
      else if lt = PB_LTYPE_STRING then Some (pb_dec_string w s field dest)
      else if lt = PB_LTYPE_SUBMESSAGE then pb_dec_submessage decode noinit w s field dest
      else if lt = PB_LTYPE_FIXED_LENGTH_BYTES then Some (pb_dec_fixed_length_bytes s field dest)
      else None)"

section \<open>Extensions, defaults and release\<close>

text \<open>A \<open>pb_extension_t\<close>: \<open>type\<close> at 0, \<open>dest\<close> at 8, \<open>next\<close> at 16, \<open>found\<close> at 24.\<close>

definition iter_from_extension :: "('s, 'h) pb_dworld \<Rightarrow> memory \<Rightarrow> addr \<Rightarrow> pb_field_iter option" where
  "iter_from_extension w m extension = do {
     let fs = dw_fields w (load64 m (load64 m extension + 16));
     field \<leftarrow> field_at fs 0;
     (_, it) \<leftarrow> pb_field_iter_begin fs (load64 m (extension + 8));
     Some (it\<lparr>pi_pData := (if PB_ATYPE (pf_type field) = PB_ATYPE_POINTER then extension + 8 else load64 m (extension + 8)),
              pi_pSize := extension + 24\<rparr>)
   }"

text \<open>\<open>pb_field_set_to_default\<close> and \<open>pb_message_set_to_defaults\<close> call each other.\<close>

definition message_each ::
    "(pb_field_iter \<Rightarrow> 'a \<Rightarrow> 'a option) \<Rightarrow> pb_field list \<Rightarrow> addr \<Rightarrow> 'a \<Rightarrow> 'a option" where
  "message_each step fs d sr = do {
     (nonempty, it) \<leftarrow> pb_field_iter_begin fs d;
     if nonempty
     then map_option snd (iter_loop (\<lambda>it sr. map_option (Pair True) (step it sr)) it sr)
     else Some sr
   }"

fun pb_field_set_to_default ::
    "nat \<Rightarrow> ('s, 'h) pb_dworld \<Rightarrow> pb_field_iter \<Rightarrow> 'h pb_store \<Rightarrow> 'h pb_store option" where
  "pb_field_set_to_default 0 w it sr = None"
| "pb_field_set_to_default (Suc n) w it sr = do {
     f \<leftarrow> field_at (pi_start it) (pi_pos it);
     let type = pf_type f;
     if PB_LTYPE type = PB_LTYPE_EXTENSION
     then map_option (\<lambda>(_, (_, sr1)). sr1)
            (c_loop (\<lambda>(ext, sr). ext \<noteq> 0)
               (\<lambda>(ext, sr). do {
                  let sr1 = put (ext + 24) [0] sr;
                  it1 \<leftarrow> iter_from_extension w (sr_mem sr1) ext;
                  sr2 \<leftarrow> pb_field_set_to_default n w it1 sr1;
                  Some (Continue :: unit step, (load64 (sr_mem sr2) (ext + 16), sr2))
                })
               (load64 (sr_mem sr) (pi_pData it), sr))
     else if PB_ATYPE type = PB_ATYPE_STATIC
     then
       if PB_HTYPE type = PB_HTYPE_REPEATED \<or> PB_HTYPE type = PB_HTYPE_ONEOF
       then Some (put (pi_pSize it) (fixed32_le 0) sr)
       else
         let sr1 = (if PB_HTYPE type = PB_HTYPE_OPTIONAL \<and> pi_pSize it \<noteq> pi_pData it then put (pi_pSize it) [0] sr else sr)
         in if PB_LTYPE type = PB_LTYPE_SUBMESSAGE
            then message_each (pb_field_set_to_default n w) (dw_fields w (pf_ptr f)) (pi_pData it) sr1
            else if pf_ptr f \<noteq> 0
            then Some (put (pi_pData it) (mem_bytes (sr_mem sr1) (pf_ptr f) (unat (pf_data_size f))) sr1)
            else Some (put (pi_pData it) (replicate (unat (pf_data_size f)) 0) sr1)
     else if PB_ATYPE type = PB_ATYPE_POINTER
     then
       let sr1 = put (pi_pData it) (fixed64_le 0) sr
       in Some (if PB_HTYPE type = PB_HTYPE_REPEATED \<or> PB_HTYPE type = PB_HTYPE_ONEOF
                then put (pi_pSize it) (fixed32_le 0) sr1 else sr1)
     else Some sr
   }"

definition pb_message_set_to_defaults ::
    "nat \<Rightarrow> ('s, 'h) pb_dworld \<Rightarrow> pb_field list \<Rightarrow> addr \<Rightarrow> 'h pb_store \<Rightarrow> 'h pb_store option" where
  "pb_message_set_to_defaults n w fs d sr = message_each (pb_field_set_to_default n w) fs d sr"

text \<open>\<open>pb_release\<close> of the elements of an array of messages, and of the entries of an array of pointers.\<close>

definition release_message ::
    "(pb_field_iter \<Rightarrow> 'a \<Rightarrow> 'a option) \<Rightarrow> pb_field list \<Rightarrow> addr \<Rightarrow> 'a \<Rightarrow> 'a option" where
  "release_message step fs d sr = (if d = 0 then Some sr else message_each step fs d sr)"

fun release_items :: "(addr \<Rightarrow> 'a \<Rightarrow> 'a option) \<Rightarrow> u32 \<Rightarrow> nat \<Rightarrow> addr \<Rightarrow> 'a \<Rightarrow> 'a option" where
  "release_items step data_size 0 pItem sr = Some sr"
| "release_items step data_size (Suc count) pItem sr = do {
     sr1 \<leftarrow> step pItem sr;
     release_items step data_size count (pItem + ucast data_size) sr1
   }"

fun free_entries :: "('s, 'h) pb_dworld \<Rightarrow> nat \<Rightarrow> addr \<Rightarrow> 'h pb_store \<Rightarrow> 'h pb_store" where
  "free_entries w 0 pItem sr = sr"
| "free_entries w (Suc count) pItem sr =
     free_entries w count (pItem + 8) (put pItem (fixed64_le 0) (pb_free w (load64 (sr_mem sr) pItem) sr))"

fun pb_release_single_field ::
    "nat \<Rightarrow> ('s, 'h) pb_dworld \<Rightarrow> pb_field_iter \<Rightarrow> 'h pb_store \<Rightarrow> 'h pb_store option" where
  "pb_release_single_field 0 w it sr = None"
| "pb_release_single_field (Suc n) w it sr = do {
     f \<leftarrow> field_at (pi_start it) (pi_pos it);
     let type = pf_type f;
     if PB_HTYPE type = PB_HTYPE_ONEOF \<and> load32 (sr_mem sr) (pi_pSize it) \<noteq> pf_tag f then Some sr
     else do {
       sr1 \<leftarrow>
         (if PB_LTYPE type = PB_LTYPE_EXTENSION
          then map_option (\<lambda>(_, (_, sr1)). sr1)
                 (c_loop (\<lambda>(ext, sr). ext \<noteq> 0)
                    (\<lambda>(ext, sr). do {
                       it1 \<leftarrow> iter_from_extension w (sr_mem sr) ext;
                       sr2 \<leftarrow> pb_release_single_field n w it1 sr;
                       Some (Continue :: unit step, (load64 (sr_mem sr2) (ext + 16), sr2))
                     })
                    (load64 (sr_mem sr) (pi_pData it), sr))
          else if PB_LTYPE type = PB_LTYPE_SUBMESSAGE \<and> PB_ATYPE type \<noteq> PB_ATYPE_CALLBACK
          then
            let pItem = (if PB_ATYPE type = PB_ATYPE_POINTER then load64 (sr_mem sr) (pi_pData it) else pi_pData it);
                count = (if PB_HTYPE type \<noteq> PB_HTYPE_REPEATED then 1
                         else let c = (if PB_ATYPE type = PB_ATYPE_STATIC \<and> pi_pSize it = pi_pData it then pf_array_size f
                                       else load32 (sr_mem sr) (pi_pSize it))
                              in if PB_ATYPE type = PB_ATYPE_STATIC \<and> c > pf_array_size f then pf_array_size f else c)
            in if pItem \<noteq> 0
               then release_items (release_message (pb_release_single_field n w) (dw_fields w (pf_ptr f)))
                      (pf_data_size f) (unat count) pItem sr
               else Some sr
          else Some sr);
       if PB_ATYPE type = PB_ATYPE_POINTER
       then
         let sr2 = (if PB_HTYPE type = PB_HTYPE_REPEATED \<and>
                       (PB_LTYPE type = PB_LTYPE_STRING \<or> PB_LTYPE type = PB_LTYPE_BYTES)
                    then free_entries w (unat (load32 (sr_mem sr1) (pi_pSize it))) (load64 (sr_mem sr1) (pi_pData it)) sr1
                    else sr1);
             sr3 = (if PB_HTYPE type = PB_HTYPE_REPEATED then put (pi_pSize it) (fixed32_le 0) sr2 else sr2)
         in Some (put (pi_pData it) (fixed64_le 0) (pb_free w (load64 (sr_mem sr3) (pi_pData it)) sr3))
       else Some sr1
     }
   }"

definition pb_release ::
    "nat \<Rightarrow> ('s, 'h) pb_dworld \<Rightarrow> pb_field list \<Rightarrow> addr \<Rightarrow> 'h pb_store \<Rightarrow> 'h pb_store option" where
  "pb_release n w fs d sr = release_message (pb_release_single_field n w) fs d sr"

definition pb_release_union_field ::
    "nat \<Rightarrow> ('s, 'h) pb_dworld \<Rightarrow> ('s, 'h) dstate \<Rightarrow> pb_field_iter \<Rightarrow> (bool \<times> ('s, 'h) dstate \<times> pb_field_iter) option" where
  "pb_release_union_field n w s it = do {
     f \<leftarrow> field_at (pi_start it) (pi_pos it);
     let old_tag = load32 (sr_mem (snd s)) (pi_pSize it);
     let new_tag = pf_tag f;
     if old_tag = 0 \<or> old_tag = new_tag then Some (True, s, it)
     else do {
       (found, it1) \<leftarrow> pb_field_iter_find it old_tag;
       if \<not> found then Some (False, snd (dec_error ''invalid union tag'' s), it1)
       else do {
         sr1 \<leftarrow> pb_release_single_field n w it1 (snd s);
         (found2, it2) \<leftarrow> pb_field_iter_find it1 new_tag;
         if \<not> found2 then Some (False, snd (dec_error ''iterator error'' (fst s, sr1)), it2)
         else do {
           g \<leftarrow> field_at (pi_start it2) (pi_pos it2);
           let sr2 = (if PB_ATYPE (pf_type g) = PB_ATYPE_POINTER then put (pi_pData it2) (fixed64_le 0) sr1 else sr1);
           Some (True, (fst s, sr2), it2)
         }
       }
     }
   }"

section \<open>Fields\<close>

text \<open>The count of an array: at \<open>pSize\<close>, or in the local variable of \<open>pb_decode_noinit\<close> when the iterator has been
  made to point there (\<open>local\<close>).\<close>

definition get_count :: "bool \<Rightarrow> pb_field_iter \<Rightarrow> 'h pb_store \<Rightarrow> u32" where
  "get_count local it sr = (if local then sr_fixed_count_size sr else load32 (sr_mem sr) (pi_pSize it))"

definition set_count :: "bool \<Rightarrow> pb_field_iter \<Rightarrow> u32 \<Rightarrow> 'h pb_store \<Rightarrow> 'h pb_store" where
  "set_count local it c sr = (if local then sr\<lparr>sr_fixed_count_size := c\<rparr> else put (pi_pSize it) (fixed32_le c) sr)"

definition static_packed_step ::
    "(('s, 'h) dstate \<Rightarrow> pb_field \<Rightarrow> addr \<Rightarrow> (bool \<times> ('s, 'h) dstate) option) \<Rightarrow> bool \<Rightarrow> pb_field_iter \<Rightarrow> pb_field \<Rightarrow>
     ('s, 'h) dstate \<Rightarrow> (unit step \<times> ('s, 'h) dstate) option" where
  "static_packed_step func local it f s = do {
     let c = get_count local it (snd s);
     (ok, s1) \<leftarrow> func s f (pi_pData it + ucast (pf_data_size f * c));
     if \<not> ok then Some (Return (), s1)
     else Some (Continue, (fst s1, set_count local it (get_count local it (snd s1) + 1) (snd s1)))
   }"

text \<open>The loop over a packed array returns \<open>Some ()\<close> when it was left because an element failed.\<close>

definition decode_static_packed ::
    "(('s, 'h) dstate \<Rightarrow> pb_field \<Rightarrow> addr \<Rightarrow> (bool \<times> ('s, 'h) dstate) option) \<Rightarrow> bool \<Rightarrow> pb_field_iter \<Rightarrow> pb_field \<Rightarrow>
     ('s, 'h) dstate \<Rightarrow> (bool \<times> ('s, 'h) dstate) option" where
  "decode_static_packed func local it f s =
     (case pb_make_string_substream (fst s) of
        (None, st1) \<Rightarrow> Some (False, (st1, snd s))
      | (Some sub, st1) \<Rightarrow> do {
          (failed, (sub1, sr1)) \<leftarrow>
            c_loop (\<lambda>(sub, sr). is_bytes_left sub > 0 \<and> get_count local it sr < pf_array_size f)
              (static_packed_step func local it f) (sub, snd s);
          if is_bytes_left sub1 \<noteq> 0 then Some (dec_error ''array overflow'' (st1, sr1))
          else Some (case pb_close_string_substream st1 sub1 of
                       (closed, st2, _) \<Rightarrow> (closed \<and> failed = None, (st2, sr1)))
        })"

definition decode_static_field ::
    "nat \<Rightarrow> ('s, 'h) decode_fun \<Rightarrow> ('s, 'h) decode_fun \<Rightarrow> ('s, 'h) pb_dworld \<Rightarrow> ('s, 'h) dstate \<Rightarrow> u32 \<Rightarrow> bool \<Rightarrow>
     pb_field_iter \<Rightarrow> (bool \<times> ('s, 'h) dstate) option" where
  "decode_static_field n decode noinit w s wire_type local it = do {
     f \<leftarrow> field_at (pi_start it) (pi_pos it);
     let type = pf_type f;
     let func = PB_DECODERS decode noinit w (PB_LTYPE type);
     if PB_LTYPE type > PB_LTYPE_FIXED_LENGTH_BYTES then None
     else if PB_HTYPE type = PB_HTYPE_REQUIRED then func s f (pi_pData it)
     else if PB_HTYPE type = PB_HTYPE_OPTIONAL
     then func (fst s, if pi_pSize it \<noteq> pi_pData it then put (pi_pSize it) [1] (snd s) else snd s) f (pi_pData it)
     else if PB_HTYPE type = PB_HTYPE_REPEATED
     then
       if wire_type = PB_WT_STRING \<and> PB_LTYPE type \<le> PB_LTYPE_LAST_PACKABLE
       then decode_static_packed func local it f s
       else
         let c = get_count local it (snd s); s1 = (fst s, set_count local it (c + 1) (snd s))
         in if c \<ge> pf_array_size f then Some (dec_error ''array overflow'' s1)
            else func s1 f (pi_pData it + ucast (pf_data_size f * c))
     else do {
       sr1 \<leftarrow>
         (if PB_LTYPE type = PB_LTYPE_SUBMESSAGE \<and> load32 (sr_mem (snd s)) (pi_pSize it) \<noteq> pf_tag f
          then pb_message_set_to_defaults n w (dw_fields w (pf_ptr f)) (pi_pData it)
                 (put (pi_pData it) (replicate (unat (pf_data_size f)) 0) (snd s))
          else Some (snd s));
       func (fst s, put (pi_pSize it) (fixed32_le (pf_tag f)) sr1) f (pi_pData it)
     }
   }"

definition initialize_pointer_field ::
    "nat \<Rightarrow> ('s, 'h) pb_dworld \<Rightarrow> addr \<Rightarrow> pb_field \<Rightarrow> 'h pb_store \<Rightarrow> 'h pb_store option" where
  "initialize_pointer_field n w pItem f sr =
     (if PB_LTYPE (pf_type f) = PB_LTYPE_STRING \<or> PB_LTYPE (pf_type f) = PB_LTYPE_BYTES
      then Some (put pItem (fixed64_le 0) sr)
      else if PB_LTYPE (pf_type f) = PB_LTYPE_SUBMESSAGE
      then pb_message_set_to_defaults n w (dw_fields w (pf_ptr f)) pItem
             (put pItem (replicate (unat (pf_data_size f)) 0) sr)
      else Some sr)"

text \<open>The state of the loop over a packed array by pointer: the substream and the store, the parent stream, which
  gets one of the messages, and the number of entries allocated. Leaving the loop by \<open>Return\<close> is
  \<open>status = false\<close>.\<close>

definition pointer_packed_step ::
    "nat \<Rightarrow> ('s, 'h) pb_dworld \<Rightarrow> (('s, 'h) dstate \<Rightarrow> pb_field \<Rightarrow> addr \<Rightarrow> (bool \<times> ('s, 'h) dstate) option) \<Rightarrow> pb_field_iter \<Rightarrow>
     pb_field \<Rightarrow> ('s, 'h) dstate \<times> 's pb_istream \<times> u64 \<Rightarrow> (unit step \<times> ('s, 'h) dstate \<times> 's pb_istream \<times> u64) option" where
  "pointer_packed_step n w func it f x =
     (case x of (s, parent, allocated_size) \<Rightarrow>
        let c = load32 (sr_mem (snd s)) (pi_pSize it)
        in if c = PB_SIZE_MAX then Some (Return (), (s, parent\<lparr>is_errmsg := Some ''too many array entries''\<rparr>, allocated_size))
           else if ucast c + 1 > allocated_size \<and> pf_data_size f = 0 then None
           else
             let grow = ucast c + 1 > allocated_size;
                 remain = (word_of_nat (is_bytes_left (fst s)) - 1) div ucast (pf_data_size f) + 1;
                 allocated1 = (if \<not> grow then allocated_size
                               else if remain < 0xffffffff - allocated_size then allocated_size + remain else allocated_size + 1);
                 (ok, s1) = (if grow then allocate_field w s (pi_pData it) (ucast (pf_data_size f)) allocated1 else (True, s))
             in if \<not> ok then Some (Return (), (s1, parent, allocated1))
                else
                  let pItem = load64 (sr_mem (snd s1)) (pi_pData it) + ucast (pf_data_size f * c)
                  in if pItem = 0 then Some (Return (), (s1, parent, allocated1))
                     else do {
                       sr2 \<leftarrow> initialize_pointer_field n w pItem f (snd s1);
                       (ok2, s3) \<leftarrow> func (fst s1, sr2) f pItem;
                       if \<not> ok2 then Some (Return (), (s3, parent, allocated1))
                       else Some (Continue, ((fst s3, put (pi_pSize it) (fixed32_le (load32 (sr_mem (snd s3)) (pi_pSize it) + 1)) (snd s3)),
                              parent, allocated1))
                     })"

definition decode_pointer_packed ::
    "nat \<Rightarrow> ('s, 'h) pb_dworld \<Rightarrow> (('s, 'h) dstate \<Rightarrow> pb_field \<Rightarrow> addr \<Rightarrow> (bool \<times> ('s, 'h) dstate) option) \<Rightarrow> pb_field_iter \<Rightarrow>
     pb_field \<Rightarrow> ('s, 'h) dstate \<Rightarrow> (bool \<times> ('s, 'h) dstate) option" where
  "decode_pointer_packed n w func it f s =
     (case pb_make_string_substream (fst s) of
        (None, st1) \<Rightarrow> Some (False, (st1, snd s))
      | (Some sub, st1) \<Rightarrow> do {
          (failed, ((sub1, sr1), parent, _)) \<leftarrow>
            c_loop (\<lambda>(s, _). is_bytes_left (fst s) \<noteq> 0) (pointer_packed_step n w func it f)
              ((sub, snd s), st1, ucast (load32 (sr_mem (snd s)) (pi_pSize it)));
          Some (case pb_close_string_substream parent sub1 of
                  (closed, st2, _) \<Rightarrow> (closed \<and> failed = None, (st2, sr1)))
        })"

definition decode_pointer_field ::
    "nat \<Rightarrow> ('s, 'h) decode_fun \<Rightarrow> ('s, 'h) decode_fun \<Rightarrow> ('s, 'h) pb_dworld \<Rightarrow> ('s, 'h) dstate \<Rightarrow> u32 \<Rightarrow>
     pb_field_iter \<Rightarrow> (bool \<times> ('s, 'h) dstate) option" where
  "decode_pointer_field n decode noinit w s wire_type it = do {
     f \<leftarrow> field_at (pi_start it) (pi_pos it);
     let type = pf_type f;
     let func = PB_DECODERS decode noinit w (PB_LTYPE type);
     if PB_LTYPE type > PB_LTYPE_FIXED_LENGTH_BYTES then None
     else if PB_HTYPE type \<noteq> PB_HTYPE_REPEATED
     then do {
       sr1 \<leftarrow> (if PB_LTYPE type = PB_LTYPE_SUBMESSAGE \<and> load64 (sr_mem (snd s)) (pi_pData it) \<noteq> 0
              then pb_release_single_field n w it (snd s) else Some (snd s));
       let s2 = (fst s, if PB_HTYPE type = PB_HTYPE_ONEOF then put (pi_pSize it) (fixed32_le (pf_tag f)) sr1 else sr1);
       if PB_LTYPE type = PB_LTYPE_STRING \<or> PB_LTYPE type = PB_LTYPE_BYTES then func s2 f (pi_pData it)
       else and_then (Some (allocate_field w s2 (pi_pData it) (ucast (pf_data_size f)) 1)) (\<lambda>s3. do {
              sr4 \<leftarrow> initialize_pointer_field n w (load64 (sr_mem (snd s3)) (pi_pData it)) f (snd s3);
              func (fst s3, sr4) f (load64 (sr_mem sr4) (pi_pData it))
            })
     }
     else if wire_type = PB_WT_STRING \<and> PB_LTYPE type \<le> PB_LTYPE_LAST_PACKABLE
     then decode_pointer_packed n w func it f s
     else
       let c = load32 (sr_mem (snd s)) (pi_pSize it)
       in if c = PB_SIZE_MAX then Some (dec_error ''too many array entries'' s)
          else and_then (Some (allocate_field w s (pi_pData it) (ucast (pf_data_size f)) (ucast (c + 1)))) (\<lambda>s1. do {
                 let pItem = load64 (sr_mem (snd s1)) (pi_pData it) + ucast (pf_data_size f * c);
                 sr2 \<leftarrow> initialize_pointer_field n w pItem f (put (pi_pSize it) (fixed32_le (c + 1)) (snd s1));
                 func (fst s1, sr2) f pItem
               })
   }"

text \<open>A \<open>pb_callback_t\<close>: the function at 0, the argument at 8. In the scalar case the callback reads a copy of the value.\<close>

definition decode_callback_field ::
    "('s, 'h) pb_dworld \<Rightarrow> ('s, 'h) dstate \<Rightarrow> u32 \<Rightarrow> pb_field_iter \<Rightarrow> (bool \<times> ('s, 'h) dstate) option" where
  "decode_callback_field w s wire_type it = do {
     f \<leftarrow> field_at (pi_start it) (pi_pos it);
     let pCallback = pi_pData it;
     let decode = load64 (sr_mem (snd s)) pCallback;
     if pCallback = 0 \<or> decode = 0
     then Some (case pb_skip_field (fst s) wire_type of (ok, st1) \<Rightarrow> (ok, (st1, snd s)))
     else if wire_type = PB_WT_STRING
     then (case pb_make_string_substream (fst s) of
             (None, st1) \<Rightarrow> Some (False, (st1, snd s))
           | (Some sub, st1) \<Rightarrow> do {
               (r, (_, (sub1, sr1))) \<leftarrow>
                 c_loop (\<lambda>(first, (sub, _)). first \<or> is_bytes_left sub \<noteq> 0)
                   (\<lambda>(_, (sub, sr)).
                      case dw_decode w (load64 (sr_mem sr) pCallback) (sub, sr) f (pCallback + 8) of
                        (ok, s1) \<Rightarrow> Some (if ok then Continue else Return (), (False, s1)))
                   (True, (sub, snd s));
               if r \<noteq> None then Some (dec_error ''callback failed'' (st1, sr1))
               else Some (case pb_close_string_substream st1 sub1 of (closed, st2, _) \<Rightarrow> (closed, (st2, sr1)))
             })
     else (case read_raw_value (fst s) wire_type 10 of
             (None, st1) \<Rightarrow> Some (False, (st1, snd s))
           | (Some bytes, st1) \<Rightarrow>
               let sub = st1\<lparr>is_callback := None, is_source := bytes, is_bytes_left := length bytes, is_errmsg := None\<rparr>
               in Some (case dw_decode w decode (sub, snd s) f (pCallback + 8) of (ok, (_, sr1)) \<Rightarrow> (ok, (st1, sr1))))
   }"

definition decode_field ::
    "nat \<Rightarrow> ('s, 'h) decode_fun \<Rightarrow> ('s, 'h) decode_fun \<Rightarrow> ('s, 'h) pb_dworld \<Rightarrow> ('s, 'h) dstate \<Rightarrow> u32 \<Rightarrow> bool \<Rightarrow>
     pb_field_iter \<Rightarrow> (bool \<times> ('s, 'h) dstate \<times> pb_field_iter) option" where
  "decode_field n decode noinit w s wire_type local it = do {
     f \<leftarrow> field_at (pi_start it) (pi_pos it);
     (ok, s1, it1) \<leftarrow> (if PB_HTYPE (pf_type f) = PB_HTYPE_ONEOF then pb_release_union_field n w s it else Some (True, s, it));
     if \<not> ok then Some (False, s1, it1)
     else do {
       g \<leftarrow> field_at (pi_start it1) (pi_pos it1);
       let at = PB_ATYPE (pf_type g);
       (ok2, s2) \<leftarrow>
         (if at = PB_ATYPE_STATIC then decode_static_field n decode noinit w s1 wire_type local it1
          else if at = PB_ATYPE_POINTER then decode_pointer_field n decode noinit w s1 wire_type it1
          else if at = PB_ATYPE_CALLBACK then decode_callback_field w s1 wire_type it1
          else Some (dec_error ''invalid field type'' s1));
       Some (ok2, s2, it1)
     }
   }"

definition default_extension_decoder ::
    "nat \<Rightarrow> ('s, 'h) decode_fun \<Rightarrow> ('s, 'h) decode_fun \<Rightarrow> ('s, 'h) pb_dworld \<Rightarrow> ('s, 'h) dstate \<Rightarrow> addr \<Rightarrow> u32 \<Rightarrow> u32 \<Rightarrow>
     (bool \<times> ('s, 'h) dstate) option" where
  "default_extension_decoder n decode noinit w s extension tag wire_type = do {
     let m = sr_mem (snd s);
     field \<leftarrow> field_at (dw_fields w (load64 m (load64 m extension + 16))) 0;
     if pf_tag field \<noteq> tag then Some (True, s)
     else do {
       it \<leftarrow> iter_from_extension w m extension;
       (ok, s1, _) \<leftarrow> decode_field n decode noinit w (fst s, put (extension + 24) [1] (snd s)) wire_type False it;
       Some (ok, s1)
     }
   }"

definition decode_extension ::
    "nat \<Rightarrow> ('s, 'h) decode_fun \<Rightarrow> ('s, 'h) decode_fun \<Rightarrow> ('s, 'h) pb_dworld \<Rightarrow> ('s, 'h) dstate \<Rightarrow> u32 \<Rightarrow> u32 \<Rightarrow>
     pb_field_iter \<Rightarrow> (bool \<times> ('s, 'h) dstate) option" where
  "decode_extension n decode noinit w s tag wire_type it = do {
     let pos = is_bytes_left (fst s);
     (r, (_, s1)) \<leftarrow>
       c_loop (\<lambda>(extension, s). extension \<noteq> 0 \<and> pos = is_bytes_left (fst s))
         (\<lambda>(extension, s). do {
            let dec = load64 (sr_mem (snd s)) (load64 (sr_mem (snd s)) extension);
            (ok, s1) \<leftarrow> (if dec \<noteq> 0 then Some (dw_ext_decode w dec s extension tag wire_type)
                       else default_extension_decoder n decode noinit w s extension tag wire_type);
            Some (if ok then Continue else Return (), (load64 (sr_mem (snd s1)) (extension + 16), s1))
          })
         (load64 (sr_mem (snd s)) (pi_pData it), s);
     Some (r = None, s1)
   }"

section \<open>Messages\<close>

text \<open>\<open>fields_seen\<close>, two words with a bit for each of the first 64 required fields.\<close>

definition mark_required :: "u32 \<Rightarrow> u32 list \<Rightarrow> u32 list" where
  "mark_required index seen =
     (if index < 64
      then seen[unat (drop_bit 5 index) := seen ! unat (drop_bit 5 index) OR push_bit (unat (index AND 31)) 1]
      else seen)"

definition check_required :: "u32 \<Rightarrow> u32 list \<Rightarrow> bool" where
  "check_required count seen =
     (let n = (if count > 64 then 64 else count)
      in list_all (\<lambda>i. seen ! i = 0xffffffff) [0..<unat (drop_bit 5 n)] \<and>
         (n AND 31 \<noteq> 0 \<longrightarrow> seen ! unat (drop_bit 5 n) = drop_bit (32 - unat (n AND 31)) 0xffffffff))"

text \<open>The number of required fields, by seeking to the end of the descriptors.\<close>

definition count_required :: "pb_field_iter \<Rightarrow> (u32 \<times> pb_field_iter) option" where
  "count_required it = do {
     (_, (it1, (req_field_count, last_type))) \<leftarrow>
       c_loop (\<lambda>_. True)
         (\<lambda>(it, _). do {
            f \<leftarrow> field_at (pi_start it) (pi_pos it);
            (again, it1) \<leftarrow> pb_field_iter_next it;
            Some (if again then Continue else (Break :: unit step), (it1, (pi_required_field_index it, pf_type f)))
          })
         (it, (0, 0));
     f \<leftarrow> field_at (pi_start it1) (pi_pos it1);
     Some (if PB_HTYPE last_type = PB_HTYPE_REQUIRED \<and> pf_tag f \<noteq> 0 then req_field_count + 1 else req_field_count, it1)
   }"

text \<open>The local variables of \<open>pb_decode_noinit\<close>. \<open>ni_local\<close> says that \<open>iter.pSize\<close> points to \<open>fixed_count_size\<close>, which lasts
  until the iterator moves.\<close>

record ('s, 'h) noinit_state =
  ni_state :: "('s, 'h) dstate"
  ni_iter :: pb_field_iter
  ni_local :: bool
  ni_fields_seen :: "u32 list"
  ni_extension_range_start :: u32
  ni_fixed_count_field :: "nat option"

definition noinit_skip ::
    "('s, 'h) noinit_state \<Rightarrow> u32 \<Rightarrow> (bool step \<times> ('s, 'h) noinit_state) option" where
  "noinit_skip ni wire_type =
     (case pb_skip_field (fst (ni_state ni)) wire_type of
        (ok, st1) \<Rightarrow> Some (if ok then Continue else Return False, ni\<lparr>ni_state := (st1, snd (ni_state ni))\<rparr>))"

text \<open>No field has the tag.\<close>

definition noinit_unknown ::
    "nat \<Rightarrow> ('s, 'h) decode_fun \<Rightarrow> ('s, 'h) decode_fun \<Rightarrow> ('s, 'h) pb_dworld \<Rightarrow> ('s, 'h) noinit_state \<Rightarrow> u32 \<Rightarrow> u32 \<Rightarrow>
     (bool step \<times> ('s, 'h) noinit_state) option" where
  "noinit_unknown n decode noinit w ni tag wire_type =
     (if tag \<ge> ni_extension_range_start ni
      then do {
        (found, it1) \<leftarrow> find_extension_field (ni_iter ni);
        f \<leftarrow> field_at (pi_start it1) (pi_pos it1);
        let range = (if \<not> found then 0xffffffff else pf_tag f);
        let ni1 = ni\<lparr>ni_iter := it1, ni_local := False, ni_extension_range_start := range\<rparr>;
        if tag \<ge> range
        then do {
          let pos = is_bytes_left (fst (ni_state ni1));
          (ok, s1) \<leftarrow> decode_extension n decode noinit w (ni_state ni1) tag wire_type it1;
          let ni2 = ni1\<lparr>ni_state := s1\<rparr>;
          if \<not> ok then Some (Return False, ni2)
          else if pos \<noteq> is_bytes_left (fst s1) then Some (Continue, ni2)
          else noinit_skip ni2 wire_type
        }
        else noinit_skip ni1 wire_type
      }
      else noinit_skip ni wire_type)"

text \<open>A field has the tag, and the iterator points to it.\<close>

definition noinit_found ::
    "nat \<Rightarrow> ('s, 'h) decode_fun \<Rightarrow> ('s, 'h) decode_fun \<Rightarrow> ('s, 'h) pb_dworld \<Rightarrow> ('s, 'h) noinit_state \<Rightarrow> u32 \<Rightarrow>
     (bool step \<times> ('s, 'h) noinit_state) option" where
  "noinit_found n decode noinit w ni wire_type = do {
     let it = ni_iter ni;
     f \<leftarrow> field_at (pi_start it) (pi_pos it);
     let fixed = (PB_HTYPE (pf_type f) = PB_HTYPE_REPEATED \<and> \<not> ni_local ni \<and> pi_pSize it = pi_pData it);
     let sr = snd (ni_state ni);
     if fixed \<and> ni_fixed_count_field ni \<noteq> Some (pi_pos it) \<and> ni_fixed_count_field ni \<noteq> None \<and>
        sr_fixed_count_size sr \<noteq> pf_array_size (pi_start it ! the (ni_fixed_count_field ni))
     then Some (Return False, ni\<lparr>ni_state := snd (dec_error ''wrong size for fixed count field'' (ni_state ni))\<rparr>)
     else do {
       let ni1 = (if fixed \<and> ni_fixed_count_field ni \<noteq> Some (pi_pos it)
                  then ni\<lparr>ni_fixed_count_field := Some (pi_pos it), ni_state := (fst (ni_state ni), sr\<lparr>sr_fixed_count_size := 0\<rparr>)\<rparr>
                  else ni);
       let local = (ni_local ni \<or> fixed);
       let seen = (if PB_HTYPE (pf_type f) = PB_HTYPE_REQUIRED
                   then mark_required (pi_required_field_index it) (ni_fields_seen ni1) else ni_fields_seen ni1);
       (ok, s2, it2) \<leftarrow> decode_field n decode noinit w (ni_state ni1) wire_type local it;
       Some (if ok then Continue else Return False,
             ni1\<lparr>ni_state := s2, ni_iter := it2, ni_local := local, ni_fields_seen := seen\<rparr>)
     }
   }"

definition noinit_step ::
    "nat \<Rightarrow> ('s, 'h) decode_fun \<Rightarrow> ('s, 'h) decode_fun \<Rightarrow> ('s, 'h) pb_dworld \<Rightarrow> ('s, 'h) noinit_state \<Rightarrow>
     (bool step \<times> ('s, 'h) noinit_state) option" where
  "noinit_step n decode noinit w ni =
     (case pb_decode_tag (fst (ni_state ni)) of (tg, st1) \<Rightarrow>
        let ni1 = ni\<lparr>ni_state := (st1, snd (ni_state ni))\<rparr>
        in if \<not> tg_ok tg then Some (if tg_eof tg then Break else Return False, ni1)
           else do {
             (found, it1) \<leftarrow> pb_field_iter_find (ni_iter ni1) (tg_tag tg);
             let ni2 = ni1\<lparr>ni_iter := it1, ni_local := ni_local ni1 \<and> found \<and> pi_pos it1 = pi_pos (ni_iter ni1)\<rparr>;
             if \<not> found then noinit_unknown n decode noinit w ni2 (tg_tag tg) (tg_wire_type tg)
             else noinit_found n decode noinit w ni2 (tg_wire_type tg)
           })"

definition noinit_finish :: "('s, 'h) noinit_state \<Rightarrow> (bool \<times> ('s, 'h) dstate) option" where
  "noinit_finish ni =
     (if ni_fixed_count_field ni \<noteq> None \<and>
         sr_fixed_count_size (snd (ni_state ni)) \<noteq> pf_array_size (pi_start (ni_iter ni) ! the (ni_fixed_count_field ni))
      then Some (dec_error ''wrong size for fixed count field'' (ni_state ni))
      else do {
        (req_field_count, _) \<leftarrow> count_required (ni_iter ni);
        if check_required req_field_count (ni_fields_seen ni) then Some (True, ni_state ni)
        else Some (dec_error ''missing required field'' (ni_state ni))
      })"

text \<open>\<open>pb_decode\<close> over a given \<open>pb_decode_noinit\<close>.\<close>

definition decode_with ::
    "nat \<Rightarrow> ('s, 'h) decode_fun \<Rightarrow> ('s, 'h) pb_dworld \<Rightarrow> ('s, 'h) decode_fun" where
  "decode_with n noinit w s fs d = do {
     sr1 \<leftarrow> pb_message_set_to_defaults n w fs d (snd s);
     (status, s2) \<leftarrow> noinit (fst s, sr1) fs d;
     if status then Some (True, s2)
     else do { sr3 \<leftarrow> pb_release n w fs d (snd s2); Some (False, (fst s2, sr3)) }
   }"

fun pb_decode_noinit :: "nat \<Rightarrow> ('s, 'h) pb_dworld \<Rightarrow> ('s, 'h) decode_fun" where
  "pb_decode_noinit 0 w s fs d = None"
| "pb_decode_noinit (Suc n) w s fs d = do {
     (_, it) \<leftarrow> pb_field_iter_begin fs d;
     let ni = \<lparr>ni_state = (fst s, (snd s)\<lparr>sr_fixed_count_size := 0\<rparr>), ni_iter = it, ni_local = False, ni_fields_seen = [0, 0],
               ni_extension_range_start = 0, ni_fixed_count_field = None\<rparr>;
     (r, ni1) \<leftarrow> c_loop (\<lambda>ni. is_bytes_left (fst (ni_state ni)) \<noteq> 0)
                 (noinit_step (Suc n) (decode_with n (pb_decode_noinit n w) w) (pb_decode_noinit n w) w) ni;
     (ok, s2) \<leftarrow> (case r of Some b \<Rightarrow> Some (b, ni_state ni1) | None \<Rightarrow> noinit_finish ni1);
     Some (ok, (fst s2, (snd s2)\<lparr>sr_fixed_count_size := sr_fixed_count_size (snd s)\<rparr>))
   }"

definition pb_decode :: "nat \<Rightarrow> ('s, 'h) pb_dworld \<Rightarrow> ('s, 'h) decode_fun" where
  "pb_decode n w = decode_with n (pb_decode_noinit n w) w"

definition pb_decode_delimited_noinit :: "nat \<Rightarrow> ('s, 'h) pb_dworld \<Rightarrow> ('s, 'h) decode_fun" where
  "pb_decode_delimited_noinit n w s fs d = with_substream (\<lambda>sub. pb_decode_noinit n w sub fs d) s"

definition pb_decode_delimited :: "nat \<Rightarrow> ('s, 'h) pb_dworld \<Rightarrow> ('s, 'h) decode_fun" where
  "pb_decode_delimited n w s fs d = with_substream (\<lambda>sub. pb_decode n w sub fs d) s"

definition pb_decode_nullterminated :: "nat \<Rightarrow> ('s, 'h) pb_dworld \<Rightarrow> ('s, 'h) decode_fun" where
  "pb_decode_nullterminated n w s fs d = pb_decode n w s fs d"

end
