(* ===== verification/PbMessage.thy ===== *)
theory PbMessage
  imports PbEncode
begin

unbundle bit_operations_syntax

text \<open>
  What nanopb's message encoder writes. \<open>message_bytes\<close> gives the bytes of a message as a function of the
  memory and the descriptors: no streams, no sizing passes, no substreams. \<open>pb_encode\<close> refines it on every
  stream: the bytes are written if they fit, an error is reported if they do not or if the message
  is in error, and a sizing stream counts them.
\<close>

section \<open>Encodings\<close>

text \<open>\<open>None\<close> stands for a message whose encoding is not determined, \<open>Some None\<close> for one in error.\<close>

type_synonym encoding = "byte list option option"

definition enc_ok :: "byte list \<Rightarrow> encoding" where
  "enc_ok bs = Some (Some bs)"

definition enc_seq :: "encoding \<Rightarrow> encoding \<Rightarrow> encoding" where
  "enc_seq e1 e2 =
     (case e1 of
        Some (Some bs1) \<Rightarrow> (case e2 of Some (Some bs2) \<Rightarrow> Some (Some (bs1 @ bs2)) | r \<Rightarrow> r)
      | r \<Rightarrow> r)"

fun enc_concat :: "encoding list \<Rightarrow> encoding" where
  "enc_concat [] = enc_ok []"
| "enc_concat (e # es) = enc_seq e (enc_concat es)"

definition delimited :: "byte list \<Rightarrow> byte list" where
  "delimited bs = varint_bytes (length bs) @ bs"

section \<open>Values\<close>

text \<open>The wire type of a field, and the integer stored in a field of one, two, four or eight bytes.\<close>

definition field_wire_type :: "pb_field \<Rightarrow> u32 option" where
  "field_wire_type f =
     (let lt = PB_LTYPE (pf_type f)
      in if lt \<in> {PB_LTYPE_BOOL, PB_LTYPE_VARINT, PB_LTYPE_UVARINT, PB_LTYPE_SVARINT} then Some PB_WT_VARINT
         else if lt = PB_LTYPE_FIXED32 then Some PB_WT_32BIT
         else if lt = PB_LTYPE_FIXED64 then Some PB_WT_64BIT
         else if lt \<in> {PB_LTYPE_BYTES, PB_LTYPE_STRING, PB_LTYPE_SUBMESSAGE, PB_LTYPE_FIXED_LENGTH_BYTES}
         then Some PB_WT_STRING
         else None)"

definition tag_bytes :: "u32 \<Rightarrow> u32 \<Rightarrow> byte list" where
  "tag_bytes wt tag = varint_bytes (unat tag * 8 + unat wt)"

definition tag_encoding :: "pb_field \<Rightarrow> encoding" where
  "tag_encoding f = Some (map_option (\<lambda>wt. tag_bytes wt (pf_tag f)) (field_wire_type f))"

definition int_value :: "bool \<Rightarrow> memory \<Rightarrow> pb_field \<Rightarrow> addr \<Rightarrow> u64 option" where
  "int_value sext m f a =
     (if pf_data_size f = 1 then Some (if sext then scast (m a) else ucast (m a))
      else if pf_data_size f = 2 then Some (if sext then scast (load16 m a) else ucast (load16 m a))
      else if pf_data_size f = 4 then Some (if sext then scast (load32 m a) else ucast (load32 m a))
      else if pf_data_size f = 8 then Some (load64 m a)
      else None)"

definition zigzag_word :: "u64 \<Rightarrow> u64" where
  "zigzag_word v = (if v <s 0 then NOT (push_bit 1 v) else push_bit 1 v)"

definition string_size :: "memory \<Rightarrow> pb_field \<Rightarrow> addr \<Rightarrow> nat" where
  "string_size m f a =
     (if a = 0 then 0
      else unat (string_loop m 0 (if PB_ATYPE (pf_type f) = PB_ATYPE_POINTER then 0xffffffffffffffff
                                  else ucast (pf_data_size f)) a))"

definition submessage_encoding :: "encoding \<Rightarrow> encoding" where
  "submessage_encoding e =
     (case e of
        Some (Some bs) \<Rightarrow> if int (length bs) < 2 ^ 32 then enc_ok (delimited bs) else None
      | r \<Rightarrow> r)"

text \<open>The encoding of submessages is the argument \<open>sub\<close>.\<close>

definition value_encoding :: "(pb_field list \<Rightarrow> addr \<Rightarrow> encoding) \<Rightarrow> 's pb_world \<Rightarrow> pb_field \<Rightarrow> addr \<Rightarrow> encoding" where
  "value_encoding sub w f a =
     (let lt = PB_LTYPE (pf_type f); m = w_mem w
      in if lt = PB_LTYPE_BOOL then enc_ok [if m a = 0 then 0 else 1]
         else if lt = PB_LTYPE_VARINT then Some (map_option (\<lambda>v. varint_bytes (unat v)) (int_value True m f a))
         else if lt = PB_LTYPE_UVARINT then Some (map_option (\<lambda>v. varint_bytes (unat v)) (int_value False m f a))
         else if lt = PB_LTYPE_SVARINT then Some (map_option (\<lambda>v. varint_bytes (unat (zigzag_word v))) (int_value True m f a))
         else if lt = PB_LTYPE_FIXED32 then enc_ok (mem_bytes m a 4)
         else if lt = PB_LTYPE_FIXED64 then enc_ok (mem_bytes m a 8)
         else if lt = PB_LTYPE_BYTES then
           (if a = 0 then enc_ok (delimited [])
            else if PB_ATYPE (pf_type f) = PB_ATYPE_STATIC \<and> ucast (load32 m a) > (ucast (pf_data_size f) - 4 :: u64)
            then Some None
            else enc_ok (delimited (mem_bytes m (a + 4) (unat (load32 m a)))))
         else if lt = PB_LTYPE_STRING then enc_ok (delimited (mem_bytes m a (string_size m f a)))
         else if lt = PB_LTYPE_SUBMESSAGE then
           (if pf_ptr f = 0 then Some None else submessage_encoding (sub (w_fields w (pf_ptr f)) a))
         else if lt = PB_LTYPE_FIXED_LENGTH_BYTES then enc_ok (delimited (mem_bytes m a (unat (pf_data_size f))))
         else None)"

section \<open>Fields and messages\<close>

definition elements :: "pb_field \<Rightarrow> addr \<Rightarrow> nat \<Rightarrow> addr list" where
  "elements f a n = map (\<lambda>i. a + word_of_nat i * ucast (pf_data_size f)) [0..<n]"

text \<open>Arrays of numbers are packed into one length-delimited value; the elements of other arrays are
  fields of their own. The elements of an array of strings or byte strings by pointer are pointers.\<close>

definition array_encoding ::
    "(pb_field list \<Rightarrow> addr \<Rightarrow> encoding) \<Rightarrow> 's pb_world \<Rightarrow> pb_field \<Rightarrow> addr \<Rightarrow> u32 \<Rightarrow> encoding" where
  "array_encoding sub w f a count =
     (if count = 0 then enc_ok []
      else if PB_ATYPE (pf_type f) \<noteq> PB_ATYPE_POINTER \<and> count > pf_array_size f then Some None
      else if PB_LTYPE (pf_type f) \<le> PB_LTYPE_LAST_PACKABLE then
        enc_seq (enc_ok (tag_bytes PB_WT_STRING (pf_tag f)))
          (submessage_encoding (enc_concat (map (value_encoding sub w f) (elements f a (unat count)))))
      else
        let target = (if PB_ATYPE (pf_type f) = PB_ATYPE_POINTER \<and>
                         (PB_LTYPE (pf_type f) = PB_LTYPE_STRING \<or> PB_LTYPE (pf_type f) = PB_LTYPE_BYTES)
                      then load64 (w_mem w) else (\<lambda>p. p))
        in enc_concat (map (\<lambda>p. enc_seq (tag_encoding f) (value_encoding sub w f (target p))) (elements f a (unat count))))"

text \<open>Whether a field is present: by its flag, its pointer, or, without either, by being different
  from its default value.\<close>

definition field_encoding ::
    "nat \<Rightarrow> (pb_field list \<Rightarrow> addr \<Rightarrow> encoding) \<Rightarrow> 's pb_world \<Rightarrow> pb_field \<Rightarrow> addr \<Rightarrow> encoding" where
  "field_encoding n sub w f p =
     (let m = w_mem w; ht = PB_HTYPE (pf_type f); pointer = (PB_ATYPE (pf_type f) = PB_ATYPE_POINTER);
          flagged = (pf_size_offset f \<noteq> 0);
          pSize = p + scast (pf_size_offset f);
          a = (if pointer then load64 m p else p);
          present = enc_seq (tag_encoding f) (value_encoding sub w f a)
      in if PB_LTYPE (pf_type f) > PB_LTYPE_FIXED_LENGTH_BYTES then None
         else if ht = PB_HTYPE_REQUIRED then (if a = 0 then Some None else present)
         else if ht = PB_HTYPE_REPEATED
         then array_encoding sub w f a (if flagged then load32 m pSize else pf_array_size f)
         else if ht = PB_HTYPE_ONEOF
         then (if \<not> flagged then None else if load32 m pSize = pf_tag f then present else enc_ok [])
         else if flagged then (if safe_read_bool m pSize then present else enc_ok [])
         else (case pb_check_proto3_default_value n w f p of
                 None \<Rightarrow> None
               | Some dflt \<Rightarrow> if (if pointer then a \<noteq> 0 else \<not> dflt) then present else enc_ok []))"

text \<open>What the user's functions write is given by two further functions.\<close>

definition any_field_encoding ::
    "nat \<Rightarrow> (pb_field list \<Rightarrow> addr \<Rightarrow> encoding) \<Rightarrow> (addr \<Rightarrow> pb_field \<Rightarrow> addr \<Rightarrow> byte list option) \<Rightarrow> 's pb_world \<Rightarrow>
     pb_field \<Rightarrow> addr \<Rightarrow> encoding" where
  "any_field_encoding n sub user w f p =
     (let at = PB_ATYPE (pf_type f)
      in if at = PB_ATYPE_STATIC \<or> at = PB_ATYPE_POINTER then field_encoding n sub w f p
         else if at = PB_ATYPE_CALLBACK
         then (let encode = load64 (w_mem w) p in if encode \<noteq> 0 then Some (user encode f (p + 8)) else enc_ok [])
         else Some None)"

fun extension_chain :: "nat \<Rightarrow> memory \<Rightarrow> addr \<Rightarrow> addr list option" where
  "extension_chain n m e =
     (if e = 0 then Some []
      else (case n of
              0 \<Rightarrow> None
            | Suc k \<Rightarrow> map_option (Cons e) (extension_chain k m (load64 m (e + 16)))))"

definition extension_encoding ::
    "nat \<Rightarrow> (pb_field list \<Rightarrow> addr \<Rightarrow> encoding) \<Rightarrow> (addr \<Rightarrow> pb_field \<Rightarrow> addr \<Rightarrow> byte list option) \<Rightarrow>
     (addr \<Rightarrow> addr \<Rightarrow> byte list option) \<Rightarrow> 's pb_world \<Rightarrow> addr \<Rightarrow> encoding" where
  "extension_encoding n sub user ext w e =
     (let m = w_mem w; encode = load64 m (load64 m e + 8)
      in if encode \<noteq> 0 then Some (ext encode e)
         else (case field_at (w_fields w (load64 m (load64 m e + 16))) 0 of
                 None \<Rightarrow> None
               | Some f \<Rightarrow>
                   any_field_encoding n sub user w f
                     (if PB_ATYPE (pf_type f) = PB_ATYPE_POINTER then e + 8 else load64 m (e + 8))))"

text \<open>The first argument bounds the nesting of messages and the length of the chains of extensions.\<close>

fun message_bytes ::
    "nat \<Rightarrow> (addr \<Rightarrow> pb_field \<Rightarrow> addr \<Rightarrow> byte list option) \<Rightarrow> (addr \<Rightarrow> addr \<Rightarrow> byte list option) \<Rightarrow> 's pb_world \<Rightarrow>
     pb_field list \<Rightarrow> addr \<Rightarrow> encoding" where
  "message_bytes 0 user ext w fs a = None"
| "message_bytes (Suc n) user ext w fs a =
     (if \<not> fields_ok fs then None
      else enc_concat
        (map (\<lambda>i.
           let f = fs ! i; p = fst (place fs a i)
           in if PB_LTYPE (pf_type f) = PB_LTYPE_EXTENSION
              then (case extension_chain n (w_mem w) (load64 (w_mem w) p) of
                      None \<Rightarrow> None
                    | Some es \<Rightarrow> enc_concat (map (extension_encoding n (message_bytes n user ext w) user ext w) es))
              else any_field_encoding n (message_bytes n user ext w) user w f p)
         [0..<nfields fs]))"

declare extension_chain.simps [simp del]

section \<open>Streams that meet an encoding\<close>

text \<open>
  \<open>pb_encode_submessage\<close> adds the size of the submessage to the number of bytes written without a check for
  overflow. With submessages below \<open>2 ^ 32\<close> bytes, all that a decoder accepts, it is right on every stream
  that leaves that much room below the end of \<open>size_t\<close>.
\<close>

locale pb_message_sink = pb_sink +
  assumes below: "limit + 2 ^ 32 \<le> SIZE_BOUND"
begin

text \<open>The streams an encoder is run on: a sink, or a sizing stream.\<close>

definition runs :: "'a pb_ostream \<Rightarrow> bool" where
  "runs st \<longleftrightarrow> sinks st \<or> (os_callback st = None \<and> os_bytes_written st < SIZE_BOUND)"

definition meets :: "('a pb_ostream \<Rightarrow> (bool \<times> 'a pb_ostream) option) \<Rightarrow> encoding \<Rightarrow> bool" where
  "meets enc e \<longleftrightarrow>
     (case e of
        None \<Rightarrow> True
      | Some None \<Rightarrow> (\<forall>st. runs st \<longrightarrow> (\<exists>st'. enc st = Some (False, st')))
      | Some (Some bs) \<Rightarrow> (\<forall>st. runs st \<longrightarrow> enc st \<noteq> None) \<and> emits (\<lambda>st. the (enc st)) bs)"

lemma emits_runs:
  assumes "emits enc bs" "runs st" "enc st = (True, st')"
  shows "runs st'"
proof (cases "sinks st")
  case True
  then have "os_bytes_written st + length bs \<le> os_max_size st"
    using emits_full [OF assms(1) True] assms(3) by fastforce
  from emits_fits [OF assms(1) True this] assms(3) show ?thesis by (auto simp: runs_def)
next
  case False
  then have "os_callback st = None" "os_bytes_written st < SIZE_BOUND" using assms(2) by (auto simp: runs_def)
  from emits_sizing [OF assms(1) this] this assms(3) size_add_less show ?thesis by (auto simp: runs_def)
qed

lemma emits_cong:
  assumes "\<And>st. runs st \<Longrightarrow> e st = e' st" and "emits e bs"
  shows "emits e' bs"
  using assms unfolding emits_def runs_def by (metis (no_types, lifting))

lemma meets_emits: "emits e bs \<Longrightarrow> meets (\<lambda>st. Some (e st)) (enc_ok bs)"
  by (simp add: meets_def enc_ok_def)

lemma meets_error: "meets (\<lambda>st. Some (os_error st msg)) (Some None)"
  by (simp add: meets_def os_error_def)

lemma meets_None: "meets enc None"
  by (simp add: meets_def)

lemma meets_nothing: "meets (\<lambda>st. Some (True, st)) (enc_ok [])"
  by (auto simp: meets_def enc_ok_def emits_def sinks_def size_add_def)

lemma meets_seq:
  assumes e1: "meets e1 r1" and e2: "meets e2 r2"
  shows "meets (\<lambda>st. and_then (e1 st) e2) (enc_seq r1 r2)"
proof -
  consider "r1 = None" | "r1 = Some None" | bs1 where "r1 = Some (Some bs1)" by (metis option.exhaust)
  then show ?thesis
  proof cases
    case 2
    then have "\<exists>st'. and_then (e1 st) e2 = Some (False, st')" if "runs st" for st
      using e1 that by (fastforce simp: meets_def and_then_def)
    then show ?thesis using 2 by (simp add: meets_def enc_seq_def)
  next
    case 3
    then have s1: "\<forall>st. runs st \<longrightarrow> e1 st \<noteq> None" and em1: "emits (\<lambda>st. the (e1 st)) bs1"
      using e1 by (simp_all add: meets_def)
    have step: "\<exists>st'. e1 st = Some (False, st') \<or> (e1 st = Some (True, st') \<and> runs st')" if st: "runs st" for st
    proof -
      obtain ok st' where r: "e1 st = Some (ok, st')" using s1 st by fastforce
      then show ?thesis using emits_runs [OF em1 st, of st'] by (cases ok) auto
    qed
    consider "r2 = None" | "r2 = Some None" | bs2 where "r2 = Some (Some bs2)" by (metis option.exhaust)
    then show ?thesis
    proof cases
      case 1
      then show ?thesis using 3 by (simp add: enc_seq_def meets_None)
    next
      case 2
      then have f: "\<exists>st'. e2 st = Some (False, st')" if "runs st" for st using e2 that by (simp add: meets_def)
      have "\<exists>st'. and_then (e1 st) e2 = Some (False, st')" if "runs st" for st
        using step [OF that] f by (auto simp: and_then_def)
      then show ?thesis using 2 3 by (simp add: meets_def enc_seq_def)
    next
      case r2: 3
      then have s2: "\<forall>st. runs st \<longrightarrow> e2 st \<noteq> None" and em2: "emits (\<lambda>st. the (e2 st)) bs2"
        using e2 by (simp_all add: meets_def)
      have "and_then (e1 st) e2 \<noteq> None" if "runs st" for st
        using step [OF that] s2 by (auto simp: and_then_def)
      moreover have "emits (\<lambda>st. the (and_then (e1 st) e2)) (bs1 @ bs2)"
        by (rule emits_cong [OF _ emits_seq [OF em1 em2]]) (use step in \<open>fastforce simp: and_then_def\<close>)
      ultimately show ?thesis using 3 r2 by (simp add: meets_def enc_seq_def)
    qed
  qed (simp add: enc_seq_def meets_None)
qed

lemma meets_cong: "(\<And>st. runs st \<Longrightarrow> e st = e' st) \<Longrightarrow> meets e r \<Longrightarrow> meets e' r"
  using emits_cong [of "\<lambda>st. the (e st)" "\<lambda>st. the (e' st)"] unfolding meets_def
  by (auto split: option.splits)

end

section \<open>The encoders of values\<close>

lemma PB_HTYPE_cases: "PB_HTYPE x \<in> {PB_HTYPE_REQUIRED, PB_HTYPE_OPTIONAL, PB_HTYPE_REPEATED, PB_HTYPE_ONEOF}"
proof -
  have "x AND 0x30 = (if bit x 4 then 0x10 else 0) OR (if bit x 5 then 0x20 else 0)"
  proof (rule bit_word_eqI)
    fix k assume "k < LENGTH(8)"
    then have "k = 0 \<or> k = 1 \<or> k = 2 \<or> k = 3 \<or> k = 4 \<or> k = 5 \<or> k = 6 \<or> k = 7" by auto
    then show "bit (x AND 0x30) k = bit ((if bit x 4 then 0x10 else 0) OR (if bit x 5 then 0x20 else 0) :: byte) k"
      by (elim disjE) (simp_all add: bit_simps)
  qed
  then show ?thesis by (simp add: PB_HTYPE_def)
qed

text \<open>Little-endian memory is what the fixed-width encoders write.\<close>

lemma le_nat_less: "le_nat bs < 256 ^ length bs"
proof (induction bs)
  case (Cons b bs)
  have b: "unat b < 256" using unat_less_power [of b] by simp
  have "u + 256 * v < 256 * p" if "u < 256" "v < p" for u v p :: nat using that by linarith
  from this [OF b Cons.IH] show ?case by simp
qed simp

lemma le_nat_drop: "le_nat bs div 256 ^ k = le_nat (drop k bs)"
proof (induction k arbitrary: bs)
  case (Suc k)
  show ?case
  proof (cases bs)
    case (Cons b cs)
    have "(unat b + 256 * le_nat cs) div 256 = le_nat cs" using unat_less_power [of b] by simp
    then show ?thesis using Suc.IH [of cs] Cons by (simp add: div_mult2_eq)
  qed simp
qed simp

lemma le_nat_byte:
  assumes "k < length bs" "length bs * 8 = LENGTH('a::len)"
  shows "ucast (drop_bit (8 * k) (word_of_nat (le_nat bs) :: 'a word)) = bs ! k"
proof (rule word_eqI_unat)
  have "(2 :: nat) ^ LENGTH('a) = (2 ^ 8) ^ length bs"
    unfolding assms(2) [symmetric] by (simp only: power_mult [symmetric] mult.commute)
  then have "unat (word_of_nat (le_nat bs) :: 'a word) = le_nat bs" using le_nat_less [of bs] by (simp add: unat_word_of_nat)
  moreover have "(2 :: nat) ^ (8 * k) = 256 ^ k" by (simp add: power_mult)
  ultimately have "unat (drop_bit (8 * k) (word_of_nat (le_nat bs) :: 'a word)) = le_nat (drop k bs)"
    by (simp add: unat_drop_bit le_nat_drop)
  moreover obtain cs where "drop k bs = bs ! k # cs" using assms(1) by (metis Cons_nth_drop_Suc)
  ultimately show "unat (ucast (drop_bit (8 * k) (word_of_nat (le_nat bs) :: 'a word)) :: byte) = unat (bs ! k)"
    using unat_less_power [of "bs ! k"] by (simp add: unat_ucast_mod)
qed

lemma fixed32_le_load: "fixed32_le (load32 m a) = mem_bytes m a 4"
proof (rule nth_equalityI)
  fix i assume "i < length (fixed32_le (load32 m a))"
  then have "i = 0 \<or> i = 1 \<or> i = 2 \<or> i = 3" by auto
  then show "fixed32_le (load32 m a) ! i = mem_bytes m a 4 ! i"
    using le_nat_byte [of i "mem_bytes m a 4", where 'a = 32]
    by (elim disjE) (simp_all add: fixed32_le_def load32_def byte_of_word)
qed simp

lemma fixed64_le_load: "fixed64_le (load64 m a) = mem_bytes m a 8"
proof (rule nth_equalityI)
  fix i assume "i < length (fixed64_le (load64 m a))"
  then have "i = 0 \<or> i = 1 \<or> i = 2 \<or> i = 3 \<or> i = 4 \<or> i = 5 \<or> i = 6 \<or> i = 7" by auto
  then show "fixed64_le (load64 m a) ! i = mem_bytes m a 8 ! i"
    using le_nat_byte [of i "mem_bytes m a 8", where 'a = 64]
    by (elim disjE) (simp_all add: fixed64_le_def load64_def byte_of_word)
qed simp

context pb_message_sink
begin

lemma emits_tag_bytes: "unat wt < 8 \<Longrightarrow> emits (\<lambda>st. pb_encode_tag st wt n) (tag_bytes wt n)"
  using emits_tag [of wt n] by (simp add: tag_word tag_bytes_def)

lemma emits_delimited: "length bs < SIZE_BOUND \<Longrightarrow> emits (\<lambda>st. pb_encode_string st bs (length bs)) (delimited bs)"
  unfolding delimited_def by (rule emits_string)

lemma meets_tag: "meets (\<lambda>st. Some (pb_encode_tag_for_field st f)) (tag_encoding f)"
  unfolding tag_encoding_def field_wire_type_def pb_encode_tag_for_field_def
  by (auto simp: Let_def enc_ok_def [symmetric] intro!: meets_emits emits_tag_bytes meets_error)

lemma meets_varint:
  "meets (\<lambda>st. Some (pb_enc_varint m st f a)) (Some (map_option (\<lambda>v. varint_bytes (unat v)) (int_value True m f a)))"
  unfolding pb_enc_varint_def int_value_def
  by (auto simp: enc_ok_def [symmetric] intro!: meets_emits emits_varint meets_error)

lemma meets_uvarint:
  "meets (\<lambda>st. Some (pb_enc_uvarint m st f a)) (Some (map_option (\<lambda>v. varint_bytes (unat v)) (int_value False m f a)))"
  unfolding pb_enc_uvarint_def int_value_def
  by (auto simp: enc_ok_def [symmetric] intro!: meets_emits emits_varint meets_error)

lemma emits_zigzag: "emits (\<lambda>st. pb_encode_svarint st v) (varint_bytes (unat (zigzag_word v)))"
  unfolding zigzag_word_def by (rule emits_svarint)

lemma meets_svarint:
  "meets (\<lambda>st. Some (pb_enc_svarint m st f a))
     (Some (map_option (\<lambda>v. varint_bytes (unat (zigzag_word v))) (int_value True m f a)))"
  unfolding pb_enc_svarint_def int_value_def
  by (auto simp: enc_ok_def [symmetric] intro!: meets_emits emits_zigzag meets_error)

lemma emits_mem_string: "n < SIZE_BOUND \<Longrightarrow> emits (\<lambda>st. pb_encode_string st (mem_bytes m a n) n) (delimited (mem_bytes m a n))"
  using emits_delimited [of "mem_bytes m a n"] by simp

lemma meets_bytes:
  "meets (\<lambda>st. Some (pb_enc_bytes m st f a))
     (if a = 0 then enc_ok (delimited [])
      else if PB_ATYPE (pf_type f) = PB_ATYPE_STATIC \<and> ucast (load32 m a) > (ucast (pf_data_size f) - 4 :: u64)
      then Some None
      else enc_ok (delimited (mem_bytes m (a + 4) (unat (load32 m a)))))"
proof -
  have "unat (load32 m a) < SIZE_BOUND" using unat_less_power [of "load32 m a"] by simp
  then show ?thesis
    unfolding pb_enc_bytes_def Let_def using emits_delimited [of "[]"]
    by (auto intro!: meets_emits emits_mem_string meets_error)
qed

lemma meets_string: "meets (\<lambda>st. Some (pb_enc_string m st f a)) (enc_ok (delimited (mem_bytes m a (string_size m f a))))"
proof -
  have "string_size m f a < SIZE_BOUND"
    unfolding string_size_def using unat_less_power [where 'a = 64] by simp
  from emits_mem_string [OF this, of m a]
  have "emits (\<lambda>st. pb_enc_string m st f a) (delimited (mem_bytes m a (string_size m f a)))"
    by (simp add: pb_enc_string_def string_size_def Let_def if_distrib [of unat] cong: if_cong)
  then show ?thesis by (rule meets_emits)
qed

lemma meets_fixed_length:
  "meets (\<lambda>st. Some (pb_enc_fixed_length_bytes m st f a)) (enc_ok (delimited (mem_bytes m a (unat (pf_data_size f)))))"
  using unat_less_power [of "pf_data_size f"] unfolding pb_enc_fixed_length_bytes_def
  by (intro meets_emits emits_mem_string) simp

lemma meets_fixed32: "meets (\<lambda>st. Some (pb_enc_fixed32 m st f a)) (enc_ok (mem_bytes m a 4))"
  using emits_fixed32 [of "load32 m a"] by (intro meets_emits) (simp add: pb_enc_fixed32_def fixed32_le_load)

lemma meets_fixed64: "meets (\<lambda>st. Some (pb_enc_fixed64 m st f a)) (enc_ok (mem_bytes m a 8))"
  using emits_fixed64 [of "load64 m a"] by (intro meets_emits) (simp add: pb_enc_fixed64_def fixed64_le_load)

lemma meets_bool: "meets (\<lambda>st. Some (pb_enc_bool m st f a)) (enc_ok [if m a = 0 then 0 else 1])"
  using emits_varint [of "if m a = 0 then 0 else 1"]
  by (intro meets_emits) (auto simp: pb_enc_bool_def safe_read_bool_def varint_bytes.simps split: if_splits)

text \<open>A sizing pass, its result as the length, and the substream that must fill exactly that length.\<close>

lemma meets_sizing:
  assumes "meets enc (Some (Some bs))" "length bs < 2 ^ 32"
  shows "enc (PB_OSTREAM_SIZING s) = Some (True, (PB_OSTREAM_SIZING s)\<lparr>os_bytes_written := length bs\<rparr>)"
proof -
  let ?st = "PB_OSTREAM_SIZING s"
  have st: "os_callback ?st = None" "os_bytes_written ?st < SIZE_BOUND" by (simp_all add: PB_OSTREAM_SIZING_def)
  then have "enc ?st \<noteq> None" and em: "emits (\<lambda>st. the (enc st)) bs" using assms(1) by (auto simp: meets_def runs_def)
  moreover have "size_add 0 (length bs) = length bs" using assms(2) by (simp add: size_add_def)
  ultimately show ?thesis using emits_sizing [OF em st] by (auto simp: PB_OSTREAM_SIZING_def)
qed

text \<open>What follows the length of a submessage.\<close>

definition submessage_body ::
    "('a pb_ostream \<Rightarrow> (bool \<times> 'a pb_ostream) option) \<Rightarrow> nat \<Rightarrow> 'a pb_ostream \<Rightarrow> (bool \<times> 'a pb_ostream) option" where
  "submessage_body enc sz st1 =
     (if os_callback st1 = None then Some (pb_write st1 [] sz)
      else if size_add (os_bytes_written st1) sz > os_max_size st1 then Some (os_error st1 ''stream full'')
      else do {
        (status, sub) \<leftarrow>
          enc \<lparr>os_callback = os_callback st1, os_state = os_state st1, os_max_size = sz, os_bytes_written = 0,
               os_errmsg = None\<rparr>;
        let st2 = st1\<lparr>os_bytes_written := size_add (os_bytes_written st1) (os_bytes_written sub),
                      os_state := os_state sub, os_errmsg := os_errmsg sub\<rparr>;
        if os_bytes_written sub \<noteq> sz then Some (os_error st2 ''submsg size changed'')
        else Some (status, st2)
      })"

lemma submessage_body_fits:
  assumes enc: "meets enc (Some (Some bs))" and len: "length bs < 2 ^ 32"
    and st: "sinks st" "os_bytes_written st + length bs \<le> os_max_size st"
  shows "\<exists>st'. submessage_body enc (length bs) st = Some (True, st') \<and> sinks st' \<and>
    out (os_state st') = out (os_state st) @ bs \<and> room (os_state st') = room (os_state st) - length bs \<and>
    os_bytes_written st' = os_bytes_written st + length bs \<and> os_max_size st' = os_max_size st \<and> os_errmsg st' = None"
proof -
  let ?sub = "\<lparr>os_callback = os_callback st, os_state = os_state st, os_max_size = length bs, os_bytes_written = 0,
               os_errmsg = None\<rparr>"
  have small: "os_bytes_written st + length bs < SIZE_BOUND" and lim: "length bs \<le> limit"
    using st limit unfolding sinks_def by linarith+
  have "length bs \<le> room (os_state st)" using st unfolding sinks_def by linarith
  then have sub: "sinks ?sub" using st(1) lim by (simp add: sinks_def)
  then have "enc ?sub \<noteq> None" and em: "emits (\<lambda>st. the (enc st)) bs"
    using enc by (auto simp: meets_def runs_def)
  from emits_fits [OF em sub] obtain sub' where s: "the (enc ?sub) = (True, sub')"
    "out (os_state sub') = out (os_state st) @ bs" "room (os_state sub') = room (os_state st) - length bs"
    "os_bytes_written sub' = length bs" "os_errmsg sub' = None" by auto
  then have e: "enc ?sub = Some (True, sub')" using \<open>enc ?sub \<noteq> None\<close> by auto
  have cb: "os_callback st = Some cb" using st(1) by (simp add: sinks_def)
  have "os_max_size st - (os_bytes_written st + length bs) \<le> room (os_state sub')"
    using st s(3) unfolding sinks_def by linarith
  then show ?thesis
    using st e s cb size_add_small [OF small] by (simp add: submessage_body_def sinks_def Let_def)
qed

lemma meets_submessage_body:
  assumes enc: "meets enc (Some (Some bs))" and len: "length bs < 2 ^ 32"
  shows "meets (submessage_body enc (length bs)) (enc_ok bs)"
proof -
  have full: "\<exists>st'. submessage_body enc (length bs) st = Some (False, st')"
    if "sinks st" "os_bytes_written st + length bs > os_max_size st" for st
  proof -
    have "os_bytes_written st + length bs < SIZE_BOUND" using that len below unfolding sinks_def by linarith
    then show ?thesis using that by (simp add: submessage_body_def sinks_def size_add_small os_error_def)
  qed
  have sizing: "submessage_body enc (length bs) st =
      Some (True, st\<lparr>os_bytes_written := size_add (os_bytes_written st) (length bs)\<rparr>)"
    if "os_callback st = None" for st
    using that by (simp add: submessage_body_def pb_write_def)
  have "submessage_body enc (length bs) st \<noteq> None" if "runs st" for st
  proof (cases "sinks st \<and> os_bytes_written st + length bs \<le> os_max_size st")
    case True
    then show ?thesis using submessage_body_fits [OF enc len, of st] by auto
  next
    case False
    then show ?thesis using that full [of st] sizing [of st] by (auto simp: runs_def not_le)
  qed
  moreover have "emits (\<lambda>st. the (submessage_body enc (length bs) st)) bs"
    unfolding emits_def
  proof (intro conjI allI impI, goal_cases)
    case (1 st)
    then show ?case using submessage_body_fits [OF enc len, of st] by fastforce
  next
    case (2 st)
    then show ?case using full [of st] by auto
  next
    case (3 st)
    then show ?case using sizing [of st] by simp
  qed
  ultimately show ?thesis by (simp add: meets_def enc_ok_def)
qed

lemma emits_length:
  assumes "length bs < 2 ^ 32"
  shows "emits (\<lambda>st. pb_encode_varint st (word_of_nat (length bs))) (varint_bytes (length bs))"
proof -
  have "unat (word_of_nat (length bs) :: u64) = length bs" using assms by (simp add: unat_word_of_nat)
  then show ?thesis using emits_varint [of "word_of_nat (length bs)"] by simp
qed

lemma meets_submessage:
  assumes "meets (\<lambda>st. enc st fs a) e"
  shows "meets (\<lambda>st. pb_encode_submessage enc st fs a) (submessage_encoding e)"
proof -
  consider "e = None" | "e = Some None" | bs where "e = Some (Some bs)" by (metis option.exhaust)
  then show ?thesis
  proof cases
    case 1
    then show ?thesis by (simp add: submessage_encoding_def meets_None)
  next
    case 2
    have "runs (PB_OSTREAM_SIZING s)" for s by (simp add: runs_def PB_OSTREAM_SIZING_def)
    then have "\<exists>sub. enc (PB_OSTREAM_SIZING s) fs a = Some (False, sub)" for s
      using assms 2 by (simp add: meets_def)
    then have "\<forall>s. \<exists>sub. enc (PB_OSTREAM_SIZING s) fs a = Some (False, sub)" by blast
    then have "\<exists>st'. pb_encode_submessage enc st fs a = Some (False, st')" for st
      by (auto simp: pb_encode_submessage_def dest!: spec [of _ "os_state st"])
    then show ?thesis using 2 by (simp add: submessage_encoding_def meets_def)
  next
    case (3 bs)
    show ?thesis
    proof (cases "length bs < 2 ^ 32")
      case True
      have sz: "enc (PB_OSTREAM_SIZING s) fs a = Some (True, (PB_OSTREAM_SIZING s)\<lparr>os_bytes_written := length bs\<rparr>)" for s
        using assms 3 True by (intro meets_sizing) simp_all
      have "meets (\<lambda>st. and_then (Some (pb_encode_varint st (word_of_nat (length bs)))) (submessage_body (\<lambda>st. enc st fs a) (length bs)))
          (enc_seq (enc_ok (varint_bytes (length bs))) (enc_ok bs))"
        using assms 3 True by (intro meets_seq meets_emits emits_length meets_submessage_body) simp_all
      moreover have "pb_encode_submessage enc st fs a =
          and_then (Some (pb_encode_varint st (word_of_nat (length bs)))) (submessage_body (\<lambda>st. enc st fs a) (length bs))" for st
        by (simp add: pb_encode_submessage_def submessage_body_def [abs_def] sz Let_def cong: if_cong)
      ultimately show ?thesis
        using 3 True by (simp add: submessage_encoding_def enc_seq_def enc_ok_def delimited_def)
    next
      case False
      then show ?thesis using 3 by (simp add: submessage_encoding_def meets_None)
    qed
  qed
qed

lemma meets_if:
  assumes "P \<Longrightarrow> meets e1 r1" and "\<not> P \<Longrightarrow> meets e2 r2"
  shows "meets (\<lambda>st. if P then e1 st else e2 st) (if P then r1 else r2)"
  using assms by simp

lemma meets_value:
  assumes sub: "\<And>fs a. meets (\<lambda>st. enc st fs a) (sub fs a)"
  shows "meets (\<lambda>st. PB_ENCODERS enc w (PB_LTYPE (pf_type f)) st f a) (value_encoding sub w f a)"
  unfolding PB_ENCODERS_def value_encoding_def pb_enc_submessage_def Let_def
  by (intro meets_if meets_bool meets_varint meets_uvarint meets_svarint meets_fixed32 meets_fixed64 meets_bytes meets_string
      meets_error meets_submessage sub meets_fixed_length meets_None)

section \<open>The encoders of fields\<close>

lemma elements_Suc: "elements f a (Suc n) = a # elements f (a + ucast (pf_data_size f)) n"
  by (simp add: elements_def upt_conv_Cons map_Suc_upt [symmetric] algebra_simps del: upt_Suc)

lemma meets_packed_loop:
  assumes "\<And>p. meets (\<lambda>st. func st f p) (g p)"
  shows "meets (\<lambda>st. packed_loop func f n st a) (enc_concat (map g (elements f a n)))"
proof (induction n arbitrary: a)
  case 0
  then show ?case by (simp add: elements_def meets_nothing)
next
  case (Suc n)
  show ?case unfolding packed_loop.simps elements_Suc list.map enc_concat.simps
    by (intro meets_seq assms Suc)
qed

lemma meets_unpacked_loop:
  assumes "\<And>p. meets (\<lambda>st. if P then func st f (load64 m p) else func st f p) (g p)"
    and "P \<longleftrightarrow> PB_ATYPE (pf_type f) = PB_ATYPE_POINTER \<and> (PB_LTYPE (pf_type f) = PB_LTYPE_STRING \<or> PB_LTYPE (pf_type f) = PB_LTYPE_BYTES)"
  shows "meets (\<lambda>st. unpacked_loop m func f n st a) (enc_concat (map (\<lambda>p. enc_seq (tag_encoding f) (g p)) (elements f a n)))"
proof (induction n arbitrary: a)
  case 0
  then show ?case by (simp add: elements_def meets_nothing)
next
  case (Suc n)
  have assoc: "enc_seq (enc_seq x y) z = enc_seq x (enc_seq y z)" for x y z
    by (simp add: enc_seq_def split: option.split)
  show ?case unfolding unpacked_loop.simps elements_Suc list.map enc_concat.simps assoc assms(2) [symmetric]
    by (intro meets_seq assms(1) meets_tag Suc)
qed

text \<open>The packed form: a length known beforehand or from a sizing pass, and the elements.\<close>

definition packed_body ::
    "('a pb_ostream \<Rightarrow> (bool \<times> 'a pb_ostream) option) \<Rightarrow> ('a \<Rightarrow> (bool \<times> nat) option) \<Rightarrow> 'a pb_ostream \<Rightarrow>
     (bool \<times> 'a pb_ostream) option" where
  "packed_body loop size_pass st1 = do {
     (ok, sz) \<leftarrow> size_pass (os_state st1);
     if \<not> ok then Some (False, st1)
     else and_then (Some (pb_encode_varint st1 (word_of_nat sz))) (\<lambda>st2.
            if os_callback st2 = None then Some (pb_write st2 [] sz) else loop st2)
   }"

lemma meets_packed_body:
  assumes loop: "meets loop e"
    and ok: "\<And>bs s. e = Some (Some bs) \<Longrightarrow> length bs < 2 ^ 32 \<Longrightarrow> size_pass s = Some (True, length bs)"
    and err: "\<And>s. e = Some None \<Longrightarrow> \<exists>n. size_pass s = Some (False, n)"
  shows "meets (packed_body loop size_pass) (submessage_encoding e)"
proof -
  consider "e = None" | "e = Some None" | bs where "e = Some (Some bs)" by (metis option.exhaust)
  then show ?thesis
  proof cases
    case 2
    have "\<exists>st'. packed_body loop size_pass st = Some (False, st')" for st
      using err [OF 2, of "os_state st"] by (auto simp: packed_body_def)
    then show ?thesis using 2 by (simp add: submessage_encoding_def meets_def)
  next
    case (3 bs)
    show ?thesis
    proof (cases "length bs < 2 ^ 32")
      case True
      have em: "emits (\<lambda>st. the (loop st)) bs" and some: "\<forall>st. runs st \<longrightarrow> loop st \<noteq> None"
        using loop 3 by (simp_all add: meets_def)
      have "loop st = Some (pb_write st [] (length bs))" if "runs st" "os_callback st = None" for st
      proof -
        have "\<not> sinks st" using that(2) by (simp add: sinks_def)
        then have "the (loop st) = (True, st\<lparr>os_bytes_written := size_add (os_bytes_written st) (length bs)\<rparr>)"
          using that by (intro emits_sizing [OF em]) (simp_all add: runs_def)
        moreover have "loop st \<noteq> None" using some that(1) by blast
        ultimately show ?thesis using that(2) by (auto simp: pb_write_def)
      qed
      then have eq: "loop st = (if os_callback st = None then Some (pb_write st [] (length bs)) else loop st)" if "runs st" for st
        using that by (cases "os_callback st = None") (simp_all only: if_True if_False simp_thms)
      have "meets loop (enc_ok bs)" using loop 3 by (simp add: enc_ok_def)
      with eq have "meets (\<lambda>st. if os_callback st = None then Some (pb_write st [] (length bs)) else loop st) (enc_ok bs)"
        by (rule meets_cong)
      then have "meets (\<lambda>st. and_then (Some (pb_encode_varint st (word_of_nat (length bs))))
            (\<lambda>st. if os_callback st = None then Some (pb_write st [] (length bs)) else loop st))
          (enc_seq (enc_ok (varint_bytes (length bs))) (enc_ok bs))"
        using True by (intro meets_seq meets_emits emits_length)
      then show ?thesis using 3 True ok [OF 3 True]
        by (simp add: packed_body_def [abs_def] submessage_encoding_def delimited_def enc_seq_def enc_ok_def)
    next
      case False
      then show ?thesis using 3 by (simp add: submessage_encoding_def meets_None)
    qed
  qed (simp add: submessage_encoding_def meets_None)
qed

lemma enc_concat_same_length:
  assumes "\<And>p. \<exists>bs. g p = enc_ok bs \<and> length bs = k"
  shows "\<exists>bs. enc_concat (map g ps) = enc_ok bs \<and> length bs = k * length ps"
proof (induction ps)
  case (Cons p ps)
  from assms [of p] Cons show ?case by (auto simp: enc_seq_def enc_ok_def)
qed (simp add: enc_ok_def)

lemma meets_sizing_pass:
  assumes "meets loop e"
  shows "e = Some (Some bs) \<Longrightarrow> length bs < 2 ^ 32 \<Longrightarrow>
      map_option (\<lambda>(ok, sizestream). (ok, os_bytes_written sizestream)) (loop (PB_OSTREAM_SIZING s)) = Some (True, length bs)"
    and "e = Some None \<Longrightarrow>
      \<exists>n. map_option (\<lambda>(ok, sizestream). (ok, os_bytes_written sizestream)) (loop (PB_OSTREAM_SIZING s)) = Some (False, n)"
proof -
  have "runs (PB_OSTREAM_SIZING s)" by (simp add: runs_def PB_OSTREAM_SIZING_def)
  then show "\<exists>n. map_option (\<lambda>(ok, sizestream). (ok, os_bytes_written sizestream)) (loop (PB_OSTREAM_SIZING s)) = Some (False, n)"
    if "e = Some None"
    using assms that unfolding meets_def by fastforce
qed (use meets_sizing [of loop bs s] assms in simp)

lemma meets_array:
  assumes vals: "\<And>p. meets (\<lambda>st. func st f p) (value_encoding sub w f p)" and m: "m = w_mem w"
  shows "meets (\<lambda>st. encode_array m func st f a count) (array_encoding sub w f a count)"
proof -
  let ?g = "value_encoding sub w f" and ?n = "unat count" and ?lt = "PB_LTYPE (pf_type f)"
  let ?e = "enc_concat (map ?g (elements f a ?n))"
  let ?pass = "\<lambda>s. if ?lt = PB_LTYPE_FIXED32 then Some (True, 4 * ?n)
    else if ?lt = PB_LTYPE_FIXED64 then Some (True, 8 * ?n)
    else map_option (\<lambda>(ok, sizestream). (ok, os_bytes_written sizestream)) (packed_loop func f ?n (PB_OSTREAM_SIZING s) a)"
  let ?string = "PB_ATYPE (pf_type f) = PB_ATYPE_POINTER \<and> (?lt = PB_LTYPE_STRING \<or> ?lt = PB_LTYPE_BYTES)"
  have loop: "meets (\<lambda>st. packed_loop func f ?n st a) ?e" by (rule meets_packed_loop) (rule vals)
  have fix32: "?lt = PB_LTYPE_FIXED32 \<Longrightarrow> \<exists>bs. ?e = enc_ok bs \<and> length bs = 4 * ?n"
    and fix64: "?lt = PB_LTYPE_FIXED64 \<Longrightarrow> \<exists>bs. ?e = enc_ok bs \<and> length bs = 8 * ?n"
    using enc_concat_same_length [of ?g 4 "elements f a ?n"] enc_concat_same_length [of ?g 8 "elements f a ?n"]
    by (simp_all add: value_encoding_def elements_def enc_ok_def)
  have packed: "meets (packed_body (\<lambda>st. packed_loop func f ?n st a) ?pass) (submessage_encoding ?e)"
  proof (rule meets_packed_body [OF loop])
    show "?pass s = Some (True, length bs)" if "?e = Some (Some bs)" "length bs < 2 ^ 32" for s bs
      using fix32 fix64 that meets_sizing_pass(1) [OF loop that, of s] by (auto simp: enc_ok_def)
    show "\<exists>n. ?pass s = Some (False, n)" if "?e = Some None" for s
      using fix32 fix64 that meets_sizing_pass(2) [OF loop that, of s] by (auto simp: enc_ok_def)
  qed
  have unpacked: "meets (\<lambda>st. unpacked_loop m func f ?n st a)
      (enc_concat (map (\<lambda>p. enc_seq (tag_encoding f) (?g ((if ?string then load64 (w_mem w) else (\<lambda>p. p)) p))) (elements f a ?n)))"
  proof (rule meets_unpacked_loop [OF _ refl])
    have "meets (\<lambda>st. if P then func st f (load64 m p) else func st f p) (?g ((if P then load64 (w_mem w) else (\<lambda>p. p)) p))" for P p
      using vals m by (cases P) simp_all
    then show "meets (\<lambda>st. if ?string then func st f (load64 m p) else func st f p)
        (?g ((if ?string then load64 (w_mem w) else (\<lambda>p. p)) p))" for p .
  qed
  have "meets (\<lambda>st. and_then (Some (pb_encode_tag st PB_WT_STRING (pf_tag f)))
        (packed_body (\<lambda>st. packed_loop func f ?n st a) ?pass))
      (enc_seq (enc_ok (tag_bytes PB_WT_STRING (pf_tag f))) (submessage_encoding ?e))"
    by (intro meets_seq meets_emits emits_tag_bytes packed) simp
  then show ?thesis
    unfolding encode_array_def array_encoding_def packed_body_def Let_def
    by (intro meets_if meets_nothing meets_error unpacked)
qed

text \<open>A field of a message, by its presence rule.\<close>

lemma meets_basic_field:
  assumes sub: "\<And>fs a. meets (\<lambda>st. enc st fs a) (sub fs a)"
  shows "meets (\<lambda>st. encode_basic_field n enc w st f p) (field_encoding n sub w f p)"
proof -
  let ?func = "PB_ENCODERS enc w (PB_LTYPE (pf_type f))"
  have present: "meets (\<lambda>st. and_then (Some (pb_encode_tag_for_field st f)) (\<lambda>st1. ?func st1 f a))
      (enc_seq (tag_encoding f) (value_encoding sub w f a))" for a
    by (intro meets_seq meets_tag meets_value sub)
  have array: "meets (\<lambda>st. encode_array (w_mem w) ?func st f a count) (array_encoding sub w f a count)" for a count
    by (rule meets_array [OF meets_value refl]) (rule sub)
  have "PB_HTYPE (pf_type f) \<in> {PB_HTYPE_REQUIRED, PB_HTYPE_OPTIONAL, PB_HTYPE_REPEATED, PB_HTYPE_ONEOF}"
    by (rule PB_HTYPE_cases)
  then show ?thesis
    unfolding encode_basic_field_def field_encoding_def Let_def
    by (cases "pb_check_proto3_default_value n w f p"; cases "pf_size_offset f = 0")
      (auto simp: present array meets_nothing meets_error meets_None)
qed

lemma meets_callback:
  assumes "meets (\<lambda>st. Some (e st)) r"
  shows "meets (\<lambda>st. Some (case e st of (True, st1) \<Rightarrow> (True, st1) | (False, st1) \<Rightarrow> os_error st1 msg)) r"
proof -
  let ?e = "\<lambda>st. case e st of (True, st1) \<Rightarrow> (True, st1) | (False, st1) \<Rightarrow> os_error st1 msg"
  have ok: "e st = (True, st') \<Longrightarrow> ?e st = (True, st')" and err: "\<not> fst (e st) \<Longrightarrow> \<not> fst (?e st)" for st st'
    by (auto simp: os_error_def split: prod.split bool.split)
  have "emits ?e bs" if em: "emits e bs" for bs
    unfolding emits_def
  proof (intro conjI allI impI, goal_cases)
    case (1 st)
    from emits_fits [OF em 1] obtain st' where "e st = (True, st')" "sinks st'"
      "out (os_state st') = out (os_state st) @ bs" "room (os_state st') = room (os_state st) - length bs"
      "os_bytes_written st' = os_bytes_written st + length bs" "os_max_size st' = os_max_size st"
      "os_errmsg st = None \<longrightarrow> os_errmsg st' = None" .
    then show ?case using ok by (intro exI [of _ st']) simp
  next
    case (2 st)
    from err [OF emits_full [OF em 2]] show ?case .
  next
    case (3 st)
    from ok [OF emits_sizing [OF em 3]] show ?case .
  qed
  moreover have "\<exists>st'. ?e st = (False, st')" if "\<exists>st'. e st = (False, st')" for st
    using that by (auto simp: os_error_def)
  ultimately show ?thesis using assms by (auto simp: meets_def split: option.splits)
qed

lemma meets_any_field:
  assumes sub: "\<And>fs a. meets (\<lambda>st. enc st fs a) (sub fs a)"
    and user: "\<And>cb f arg. meets (\<lambda>st. Some (w_encode w cb st f arg)) (Some (user cb f arg))"
  shows "meets (\<lambda>st. encode_field n enc w st f p) (any_field_encoding n sub user w f p)"
proof -
  have "meets (\<lambda>st. Some (encode_callback_field w st f p))
      (if load64 (w_mem w) p \<noteq> 0 then Some (user (load64 (w_mem w) p) f (p + 8)) else enc_ok [])"
    unfolding encode_callback_field_def Let_def
    using meets_callback [OF user] by (simp add: meets_nothing)
  moreover have "meets (\<lambda>st. encode_basic_field n enc w st f p) (field_encoding n sub w f p)"
    by (rule meets_basic_field) (rule sub)
  ultimately show ?thesis
    unfolding encode_field_def any_field_encoding_def Let_def by (intro meets_if meets_error)
qed

lemma meets_extension_loop:
  assumes step: "\<And>e. meets (\<lambda>st. step st e) (g e)"
  shows "extension_chain n m e = Some es \<Longrightarrow> meets (\<lambda>st. extension_loop step m st e) (enc_concat (map g es))"
proof (induction n arbitrary: e es)
  case 0
  then have "e = 0" "es = []" by (simp_all add: extension_chain.simps split: if_splits)
  then show ?case by (subst extension_loop.simps) (simp add: meets_nothing)
next
  case (Suc n)
  show ?case
  proof (cases "e = 0")
    case True
    then have "es = []" using Suc.prems by (simp add: extension_chain.simps)
    then show ?thesis using True by (subst extension_loop.simps) (simp add: meets_nothing)
  next
    case False
    then obtain es' where es: "es = e # es'" "extension_chain n m (load64 m (e + 16)) = Some es'"
      using Suc.prems by (subst (asm) extension_chain.simps) auto
    have "meets (\<lambda>st. and_then (step st e) (\<lambda>st1. extension_loop step m st1 (load64 m (e + 16))))
        (enc_seq (g e) (enc_concat (map g es')))"
      by (intro meets_seq step Suc.IH es(2))
    then show ?thesis using False es(1) by (subst extension_loop.simps) (simp add: and_then_def)
  qed
qed

lemma meets_extension:
  assumes sub: "\<And>fs a. meets (\<lambda>st. enc st fs a) (sub fs a)"
    and user: "\<And>cb f arg. meets (\<lambda>st. Some (w_encode w cb st f arg)) (Some (user cb f arg))"
    and ext: "\<And>cb e. meets (\<lambda>st. Some (w_ext_encode w cb st e)) (Some (ext cb e))"
  shows "meets (\<lambda>st. let encode = load64 (w_mem w) (load64 (w_mem w) e + 8)
      in if encode \<noteq> 0 then Some (w_ext_encode w encode st e) else default_extension_encoder n enc w st e)
    (extension_encoding n sub user ext w e)"
proof -
  have field: "meets (\<lambda>st. encode_field n enc w st f p) (any_field_encoding n sub user w f p)" for f p
    by (rule meets_any_field) (rule sub, rule user)
  have "meets (\<lambda>st. default_extension_encoder n enc w st e)
      (case field_at (w_fields w (load64 (w_mem w) (load64 (w_mem w) e + 16))) 0 of
         None \<Rightarrow> None
       | Some f \<Rightarrow> any_field_encoding n sub user w f
           (if PB_ATYPE (pf_type f) = PB_ATYPE_POINTER then e + 8 else load64 (w_mem w) (e + 8)))"
    unfolding default_extension_encoder_def by (auto simp: field meets_None split: option.split)
  then show ?thesis
    unfolding extension_encoding_def Let_def by (intro meets_if ext)
qed

section \<open>Messages\<close>

lemma meets_iter_loop:
  assumes fs: "fields_ok fs" and body: "\<And>i. i < nfields fs \<Longrightarrow> meets (body (iter_at fs a i)) (g i)"
    and i: "i < nfields fs"
  shows "meets (iter_loop body (iter_at fs a i)) (enc_concat (map g [i..<nfields fs]))"
  using i
proof (induction "nfields fs - i" arbitrary: i)
  case (Suc k)
  let ?next = "\<lambda>s1. if Suc i < nfields fs then iter_loop body (iter_at fs a (Suc i)) s1 else Some (True, s1)"
  have "meets ?next (enc_concat (map g [Suc i..<nfields fs]))"
    using Suc.hyps(1) [of "Suc i"] Suc.hyps(2) by (cases "Suc i < nfields fs") (simp_all add: meets_nothing)
  then have "meets (\<lambda>s. and_then (body (iter_at fs a i) s) ?next) (enc_seq (g i) (enc_concat (map g [Suc i..<nfields fs])))"
    by (intro meets_seq body Suc.prems)
  moreover have "iter_loop body (iter_at fs a i) = (\<lambda>s. and_then (body (iter_at fs a i) s) ?next)"
    by (rule ext) (rule iter_loop_step [OF fs Suc.prems])
  moreover have "[i..<nfields fs] = i # [Suc i..<nfields fs]" using Suc.prems by (simp add: upt_conv_Cons)
  ultimately show ?case by simp
qed simp

theorem meets_message:
  assumes user: "\<And>cb f arg. meets (\<lambda>st. Some (w_encode w cb st f arg)) (Some (user cb f arg))"
    and ext: "\<And>cb e. meets (\<lambda>st. Some (w_ext_encode w cb st e)) (Some (ext cb e))"
  shows "meets (\<lambda>st. pb_encode n w st fs a) (message_bytes n user ext w fs a)"
proof (induction n arbitrary: fs a)
  case 0
  then show ?case by (simp add: meets_None)
next
  case (Suc n)
  show ?case
  proof (cases "fields_ok fs")
    case fs: True
    let ?body = "\<lambda>it st. do {
         f \<leftarrow> field_at (pi_start it) (pi_pos it);
         if PB_LTYPE (pf_type f) = PB_LTYPE_EXTENSION
         then encode_extension_field n (pb_encode n w) w st f (pi_pData it)
         else encode_field n (pb_encode n w) w st f (pi_pData it)
       }"
    let ?g = "\<lambda>i. let f = fs ! i; p = fst (place fs a i)
      in if PB_LTYPE (pf_type f) = PB_LTYPE_EXTENSION
         then (case extension_chain n (w_mem w) (load64 (w_mem w) p) of
                 None \<Rightarrow> None
               | Some es \<Rightarrow> enc_concat (map (extension_encoding n (message_bytes n user ext w) user ext w) es))
         else any_field_encoding n (message_bytes n user ext w) user w f p"
    have chain: "meets (\<lambda>st. encode_extension_field n (pb_encode n w) w st f p)
        (case extension_chain n (w_mem w) (load64 (w_mem w) p) of
           None \<Rightarrow> None
         | Some es \<Rightarrow> enc_concat (map (extension_encoding n (message_bytes n user ext w) user ext w) es))" for f p
      unfolding encode_extension_field_def
      by (auto simp: meets_None split: option.split intro!: meets_extension_loop meets_extension Suc user ext)
    have field: "meets (\<lambda>st. encode_field n (pb_encode n w) w st f p)
        (any_field_encoding n (message_bytes n user ext w) user w f p)" for f p
      by (intro meets_any_field Suc user)
    have body: "meets (?body (iter_at fs a i)) (?g i)" if "i < nfields fs" for i
      using that fs by (simp add: field_at_ok chain field Let_def)
    show ?thesis
    proof (cases "nfields fs = 0")
      case True
      then show ?thesis using fs by (simp add: iter_begin_ok meets_nothing)
    next
      case False
      then have "meets (iter_loop ?body (iter_at fs a 0)) (enc_concat (map ?g [0..<nfields fs]))"
        by (intro meets_iter_loop fs body) simp_all
      then show ?thesis using fs False by (simp add: iter_begin_ok)
    qed
  qed (simp add: meets_None)
qed

end

end
