(* ===== verification/PbDecodeSafe.thy ===== *)
theory PbDecodeSafe
  imports PbDecode PbMessage
begin

unbundle bit_operations_syntax

text \<open>
  Safety of nanopb's message decoder. For descriptors without pointers, callbacks and extensions whose fields
  fit into the structure (\<open>static_ok\<close>), decoding arbitrary input terminates and writes no byte outside the
  structure. The proof has a layer for streams (a read never lengthens a stream), one for memory (the
  bytes an operation may change) and one lemma for each function of the decoder.
\<close>

section \<open>Streams\<close>

text \<open>A stream callback never delivers more bytes than it is asked for.\<close>

definition bounded :: "'s pb_istream \<Rightarrow> bool" where
  "bounded st \<longleftrightarrow> (\<forall>cb. is_callback st = Some cb \<longrightarrow> (\<forall>s n. length (fst (fst (cb s n))) \<le> n))"

definition adv :: "'s pb_istream \<Rightarrow> 's pb_istream \<Rightarrow> bool" where
  "adv st st' \<longleftrightarrow> is_callback st' = is_callback st \<and> is_bytes_left st' \<le> is_bytes_left st"

definition adv1 :: "'s pb_istream \<Rightarrow> 's pb_istream \<Rightarrow> bool" where
  "adv1 st st' \<longleftrightarrow> is_callback st' = is_callback st \<and> is_bytes_left st' < is_bytes_left st"

lemma adv_refl [simp, intro]: "adv st st"
  by (simp add: adv_def)

lemma adv_trans: "adv a b \<Longrightarrow> adv b c \<Longrightarrow> adv a c"
  by (simp add: adv_def)

lemma adv1_adv: "adv1 a b \<Longrightarrow> adv a b"
  by (simp add: adv1_def adv_def)

lemma adv1_trans: "adv1 a b \<Longrightarrow> adv b c \<Longrightarrow> adv1 a c"
  by (simp add: adv1_def adv_def)

lemma adv_bounded: "adv a b \<Longrightarrow> bounded a \<Longrightarrow> bounded b"
  by (simp add: adv_def bounded_def)

lemma adv_set_error [simp]: "adv st (is_set_error msg st')  = adv st st'" "adv1 st (is_set_error msg st') = adv1 st st'"
  by (simp_all add: adv_def adv1_def is_set_error_def)

lemma stream_callback_adv:
  assumes "stream_callback st n = ((bytes, ok), st1)"
  shows "is_callback st1 = is_callback st" "is_bytes_left st1 = is_bytes_left st" "bounded st \<Longrightarrow> length bytes \<le> n"
proof -
  show "is_callback st1 = is_callback st" "is_bytes_left st1 = is_bytes_left st"
    using assms by (auto simp: stream_callback_def buf_read_def split: option.splits prod.splits)
  show "length bytes \<le> n" if b: "bounded st"
  proof (cases "is_callback st")
    case None
    then show ?thesis using assms by (auto simp: stream_callback_def buf_read_def)
  next
    case (Some cb)
    then have "length (fst (fst (cb (is_state st) n))) \<le> n" using b by (simp add: bounded_def)
    then show ?thesis using assms Some by (auto simp: stream_callback_def split: prod.splits)
  qed
qed

lemma readbyte_adv: "pb_readbyte st = (r, st1) \<Longrightarrow> if r = None then adv st st1 else adv1 st st1"
  by (auto simp: pb_readbyte_def adv_def adv1_def is_set_error_def dest: stream_callback_adv(1,2)
      split: if_splits prod.splits)

lemma readbyte_Some: "pb_readbyte st = (Some b, st1) \<Longrightarrow> adv1 st st1"
  using readbyte_adv by fastforce

lemma readbyte_any: "pb_readbyte st = (r, st1) \<Longrightarrow> adv st st1"
  using readbyte_adv [of st r st1] by (cases r) (auto dest: adv1_adv)

lemma read_bytes_adv:
  assumes "pb_read_bytes st n = (r, st1)"
  shows "adv st st1" "r \<noteq> None \<Longrightarrow> n > 0 \<Longrightarrow> adv1 st st1" "bounded st \<Longrightarrow> r = Some bytes \<Longrightarrow> length bytes \<le> n"
  using assms
  by (auto simp: pb_read_bytes_def adv_def adv1_def is_set_error_def dest: stream_callback_adv split: if_splits prod.splits)

lemma read_skip_adv: "pb_read_skip st n = (r, st1) \<Longrightarrow> adv st st1"
proof (induction n arbitrary: st r st1 rule: less_induct)
  case (less n)
  obtain r0 st0 where r0: "pb_read_bytes st 16 = (r0, st0)" by fastforce
  then have a: "adv st st0" by (rule read_bytes_adv)
  show ?case
  proof (cases "n > 16")
    case True
    then have "pb_read_skip st0 (n - 16) = (r, st1) \<Longrightarrow> adv st st1" using less.IH [of "n - 16" st0] a adv_trans by fastforce
    then show ?thesis using less.prems True r0 a by (cases r0) (simp_all add: pb_read_skip.simps [of st n])
  next
    case False
    then show ?thesis using less.prems read_bytes_adv(1) by (simp add: pb_read_skip.simps [of st n])
  qed
qed

lemma read_adv:
  assumes "pb_read st skip n = (r, st1)"
  shows "adv st st1" "r \<noteq> None \<Longrightarrow> n > 0 \<Longrightarrow> \<not> skip \<Longrightarrow> adv1 st st1"
    "bounded st \<Longrightarrow> \<not> skip \<Longrightarrow> r = Some bytes \<Longrightarrow> length bytes \<le> n"
  using assms by (auto simp: pb_read_def dest: read_bytes_adv read_skip_adv split: if_splits)

lemma varint32_loop_adv: "varint32_loop st x b = (r, st1) \<Longrightarrow> adv st st1"
proof (induction st arbitrary: x b rule: measure_induct_rule [where f = is_bytes_left])
  case (less st)
  obtain r0 st0 where r0: "pb_readbyte st = (r0, st0)" by fastforce
  have a: "adv st st0" using r0 by (rule readbyte_any)
  show ?case
  proof (cases r0)
    case None
    then show ?thesis using less.prems r0 a by (simp add: varint32_loop.simps [of st x b])
  next
    case (Some c)
    then have "adv1 st st0" using r0 by (simp add: readbyte_Some)
    then have "varint32_loop st0 x' b' = (r, st1) \<Longrightarrow> adv st st1" for x' b'
      using less.IH [of st0] adv_trans [OF a] by (simp add: adv1_def)
    then show ?thesis using less.prems r0 Some a
      by (auto simp: varint32_loop.simps [of st x b] Let_def split: if_splits)
  qed
qed

lemma varint32_eof_adv:
  assumes "pb_decode_varint32_eof st = ((r, eof), st1)"
  shows "adv st st1" "r \<noteq> None \<Longrightarrow> adv1 st st1"
proof -
  obtain r0 st0 where r0: "pb_readbyte st = (r0, st0)" by fastforce
  have "adv st st1 \<and> (r \<noteq> None \<longrightarrow> adv1 st st1)"
  proof (cases r0)
    case None
    then show ?thesis using assms r0 readbyte_any [OF r0] by (simp add: pb_decode_varint32_eof_def)
  next
    case (Some c)
    then have "adv1 st st0" using r0 by (simp add: readbyte_Some)
    moreover have "adv1 st st2" if "varint32_loop st0 x b = (y, st2)" for x b y st2
      using varint32_loop_adv [OF that] \<open>adv1 st st0\<close> adv1_trans by blast
    ultimately have "adv1 st st1"
      using assms r0 Some by (auto simp: pb_decode_varint32_eof_def split: if_splits prod.splits option.splits)
    then show ?thesis by (simp add: adv1_adv)
  qed
  then show "adv st st1" "r \<noteq> None \<Longrightarrow> adv1 st st1" by auto
qed

lemma varint32_adv:
  assumes "pb_decode_varint32 st = (r, st1)"
  shows "adv st st1" "r \<noteq> None \<Longrightarrow> adv1 st st1"
proof -
  obtain eof where "pb_decode_varint32_eof st = ((r, eof), st1)"
    using assms by (auto simp: pb_decode_varint32_def split: prod.splits)
  then show "adv st st1" "r \<noteq> None \<Longrightarrow> adv1 st st1" by (rule varint32_eof_adv)+
qed

lemma decode_varint_loop_adv:
  "decode_varint_loop st x b = (r, st1) \<Longrightarrow> adv st st1 \<and> (r \<noteq> None \<longrightarrow> adv1 st st1)"
proof (induction st arbitrary: x b rule: measure_induct_rule [where f = is_bytes_left])
  case (less st)
  obtain r0 st0 where r0: "pb_readbyte st = (r0, st0)" by fastforce
  show ?case
  proof (cases r0)
    case None
    then show ?thesis using less.prems r0 readbyte_any [OF r0]
      by (auto simp: decode_varint_loop.simps [of st x b] split: if_splits)
  next
    case (Some c)
    then have a: "adv1 st st0" using r0 by (simp add: readbyte_Some)
    then have "decode_varint_loop st0 x' b' = (r, st1) \<Longrightarrow> adv1 st st1" for x' b'
      using less.IH [of st0] adv1_trans [OF a] by (auto simp: adv1_def)
    then show ?thesis using less.prems r0 Some a adv1_adv
      by (auto simp: decode_varint_loop.simps [of st x b] Let_def split: if_splits)
  qed
qed

lemma varint_adv:
  assumes "pb_decode_varint st = (r, st1)"
  shows "adv st st1" "r \<noteq> None \<Longrightarrow> adv1 st st1"
  using assms decode_varint_loop_adv unfolding pb_decode_varint_def by blast+

lemma svarint_adv:
  assumes "pb_decode_svarint st = (r, st1)"
  shows "adv st st1" "r \<noteq> None \<Longrightarrow> adv1 st st1"
  using assms varint_adv [of st] unfolding pb_decode_svarint_def by (auto split: prod.splits option.splits)

lemma fixed_adv:
  shows "pb_decode_fixed32 st = (r, st1) \<Longrightarrow> adv st st1" "pb_decode_fixed32 st = (r, st1) \<Longrightarrow> r \<noteq> None \<Longrightarrow> adv1 st st1"
    and "pb_decode_fixed64 st = (r', st1) \<Longrightarrow> adv st st1" "pb_decode_fixed64 st = (r', st1) \<Longrightarrow> r' \<noteq> None \<Longrightarrow> adv1 st st1"
  using read_adv(1,2) [of st False 4] read_adv(1,2) [of st False 8]
  unfolding pb_decode_fixed32_def pb_decode_fixed64_def by (auto split: prod.splits option.splits)

lemma skip_varint_adv: "pb_skip_varint st = (r, st1) \<Longrightarrow> adv st st1"
proof (induction st rule: measure_induct_rule [where f = is_bytes_left])
  case (less st)
  obtain r0 st0 where r0: "pb_read st False 1 = (r0, st0)" by fastforce
  have a: "adv st st0" using r0 by (rule read_adv)
  have "pb_skip_varint st0 = (r, st1) \<Longrightarrow> adv st st1" if "r0 \<noteq> None"
    using less.IH [of st0] adv_trans [OF a] read_adv(2) [OF r0 that] by (simp add: adv1_def)
  then show ?case using less.prems r0 a
    by (cases r0) (auto simp: pb_skip_varint.simps [of st] split: if_splits)
qed

lemma skip_string_adv: "pb_skip_string st = (r, st1) \<Longrightarrow> adv st st1"
  unfolding pb_skip_string_def
  by (auto split: prod.splits option.splits dest!: varint32_adv(1) read_adv(1) intro: adv_trans)

lemma skip_field_adv: "pb_skip_field st wt = (r, st1) \<Longrightarrow> adv st st1"
  unfolding pb_skip_field_def
  by (auto split: prod.splits if_splits dest: skip_varint_adv skip_string_adv read_adv(1))

lemma decode_tag_adv:
  assumes "pb_decode_tag st = (tg, st1)"
  shows "adv st st1" "tg_ok tg \<Longrightarrow> adv1 st st1" "tg_ok tg \<Longrightarrow> tg_tag tg < 0xffffffff"
proof -
  obtain r eof st0 where r: "pb_decode_varint32_eof st = ((r, eof), st0)" by (metis prod.exhaust)
  show "adv st st1" "tg_ok tg \<Longrightarrow> adv1 st st1"
    using assms r varint32_eof_adv [OF r] by (auto simp: pb_decode_tag_def split: option.splits if_splits)
  have "drop_bit 3 t < (0xffffffff :: u32)" for t :: u32
    using unat_less_power [of t] by (simp add: word_less_nat_alt unat_drop_bit)
  then show "tg_ok tg \<Longrightarrow> tg_tag tg < 0xffffffff"
    using assms r by (auto simp: pb_decode_tag_def split: option.splits if_splits)
qed

lemma make_substream_adv:
  assumes "pb_make_string_substream st = (r, st1)"
  shows "adv st st1" "r = Some sub \<Longrightarrow> adv st sub"
proof -
  obtain r0 st0 where r0: "pb_decode_varint32 st = (r0, st0)" by fastforce
  then have a: "adv st st0" by (rule varint32_adv)
  show "adv st st1" "r = Some sub \<Longrightarrow> adv st sub"
    using assms r0 a by (auto simp: pb_make_string_substream_def adv_def is_set_error_def split: option.splits if_splits)
qed

lemma close_substream_adv: "pb_close_string_substream st sub = (r, st1, sub1) \<Longrightarrow> adv st' st \<Longrightarrow> adv st' st1"
  by (auto simp: pb_close_string_substream_def adv_def Let_def split: if_splits prod.splits)

section \<open>Memory\<close>

definition region :: "addr \<Rightarrow> nat \<Rightarrow> addr set" where
  "region a n = (\<lambda>i. a + word_of_nat i) ` {..<n}"

text \<open>Only bytes of \<open>R\<close> differ, and the allocator was not used.\<close>

definition only :: "addr set \<Rightarrow> 'h pb_store \<Rightarrow> 'h pb_store \<Rightarrow> bool" where
  "only R sr sr' \<longleftrightarrow> (\<forall>a. a \<notin> R \<longrightarrow> sr_mem sr' a = sr_mem sr a) \<and> sr_heap sr' = sr_heap sr"

lemma only_refl [simp, intro]: "only R sr sr"
  by (simp add: only_def)

lemma only_trans: "only R a b \<Longrightarrow> only R b c \<Longrightarrow> only R a c"
  by (simp add: only_def)

lemma only_fixed_count [simp]: "only R sr (sr'\<lparr>sr_fixed_count_size := c\<rparr>) = only R sr sr'" "only R (sr\<lparr>sr_fixed_count_size := c\<rparr>) sr' = only R sr sr'"
  by (simp_all add: only_def)

lemma region_shift:
  assumes "unat off + n \<le> sz"
  shows "region (a + off) n \<subseteq> region a sz"
proof
  fix x assume "x \<in> region (a + off) n"
  then obtain i where i: "i < n" "x = a + off + word_of_nat i" by (auto simp: region_def)
  have "off = word_of_nat (unat off)" by simp
  then have "x = a + word_of_nat (unat off + i)" using i(2) by (metis add.assoc of_nat_add)
  then show "x \<in> region a sz" unfolding region_def
    by (rule image_eqI [of _ _ "unat off + i"]) (use i(1) assms in simp)
qed

lemma region_mono: "n \<le> sz \<Longrightarrow> region a n \<subseteq> region a sz"
  using region_shift [of 0 n sz a] by simp

lemma store_bytes_outside: "x \<notin> region a (length bs) \<Longrightarrow> store_bytes m a bs x = m x"
proof (induction bs arbitrary: m a)
  case (Cons b bs)
  have "region (a + 1) (length bs) \<subseteq> region a (length (b # bs))" by (rule region_shift) simp
  then have "x \<notin> region (a + 1) (length bs)" using Cons.prems by blast
  moreover have "a \<in> region a (length (b # bs))" by (auto simp: region_def image_iff intro: bexI [of _ 0])
  then have "x \<noteq> a" using Cons.prems by blast
  ultimately show ?case using Cons.IH by simp
qed simp

lemma only_put: "region a (length bs) \<subseteq> R \<Longrightarrow> only R sr (put a bs sr)"
  using store_bytes_outside [of _ a bs] by (fastforce simp: only_def put_def)

text \<open>A result that returns, on a stream that has not grown, having changed only \<open>R\<close>.\<close>

definition safe :: "addr set \<Rightarrow> ('s, 'h) dstate \<Rightarrow> (bool \<times> ('s, 'h) dstate) option \<Rightarrow> bool" where
  "safe R s x \<longleftrightarrow> (\<exists>ok s'. x = Some (ok, s') \<and> adv (fst s) (fst s') \<and> only R (snd s) (snd s'))"

lemma safe_Some: "safe R s (Some (ok, (st, sr))) \<longleftrightarrow> adv (fst s) st \<and> only R (snd s) sr"
  by (simp add: safe_def)

lemma safe_from: "safe R s' x \<Longrightarrow> adv (fst s) (fst s') \<Longrightarrow> only R (snd s) (snd s') \<Longrightarrow> safe R s x"
  by (auto simp: safe_def intro: adv_trans only_trans)

lemma safe_error [simp]: "safe R s (Some (dec_error msg s')) \<longleftrightarrow> adv (fst s) (fst s') \<and> only R (snd s) (snd s')"
  by (auto simp: safe_def dec_error_def)

section \<open>The decoders of values\<close>

lemma read_to_safe:
  assumes "bounded (fst s)" "region a n \<subseteq> R"
  shows "safe R s (Some (read_to s a n))"
proof -
  obtain r st1 where r: "pb_read (fst s) False n = (r, st1)" by fastforce
  have "region a (length bytes) \<subseteq> R" if "r = Some bytes" for bytes
    using region_mono [OF read_adv(3) [OF r assms(1) _ that]] assms(2) by blast
  then show ?thesis using r read_adv(1) [OF r]
    by (auto simp: read_to_def safe_def only_put split: option.split)
qed

lemma dec_bool_safe: "region a 1 \<subseteq> R \<Longrightarrow> safe R s (Some (pb_dec_bool s f a))"
  by (cases "pb_decode_varint32 (fst s)")
    (auto simp: pb_dec_bool_def safe_def intro!: only_put dest: varint32_adv(1) split: option.split)

lemma dec_fixed32_safe: "region a 4 \<subseteq> R \<Longrightarrow> safe R s (Some (pb_dec_fixed32 s f a))"
  by (cases "pb_decode_fixed32 (fst s)")
    (auto simp: pb_dec_fixed32_def safe_def intro!: only_put dest: fixed_adv split: option.split)

lemma dec_fixed64_safe: "region a 8 \<subseteq> R \<Longrightarrow> safe R s (Some (pb_dec_fixed64 s f a))"
  by (cases "pb_decode_fixed64 (fst s)")
    (auto simp: pb_dec_fixed64_def safe_def intro!: only_put dest: fixed_adv split: option.split)

lemma length_le16 [simp]: "length (le16 v) = 2"
  by (simp add: le16_def)

lemma store_signed_safe: "region a (unat (pf_data_size f)) \<subseteq> R \<Longrightarrow> safe R s (Some (store_signed s f a v))"
  by (auto simp: store_signed_def safe_Some Let_def intro!: only_put)

lemma store_unsigned_safe: "region a (unat (pf_data_size f)) \<subseteq> R \<Longrightarrow> safe R s (Some (store_unsigned s f a v))"
  by (auto simp: store_unsigned_def safe_Some Let_def intro!: only_put)

lemma dec_ints_safe:
  assumes "region a (unat (pf_data_size f)) \<subseteq> R"
  shows "safe R s (Some (pb_dec_varint s f a))" "safe R s (Some (pb_dec_uvarint s f a))" "safe R s (Some (pb_dec_svarint s f a))"
proof -
  obtain r st1 where r: "pb_decode_varint (fst s) = (r, st1)" by fastforce
  obtain r' st2 where r': "pb_decode_svarint (fst s) = (r', st2)" by fastforce
  have st: "safe R s (Some (store_signed (st3, snd s) f a v)) \<and> safe R s (Some (store_unsigned (st3, snd s) f a v))"
    if "adv (fst s) st3" for st3 v
    using safe_from [OF store_signed_safe [OF assms, of "(st3, snd s)"]]
      safe_from [OF store_unsigned_safe [OF assms, of "(st3, snd s)"]] that by simp
  show "safe R s (Some (pb_dec_varint s f a))" "safe R s (Some (pb_dec_uvarint s f a))"
    using r varint_adv(1) [OF r] st by (auto simp: pb_dec_varint_def pb_dec_uvarint_def safe_Some split: option.split)
  show "safe R s (Some (pb_dec_svarint s f a))"
    using r' svarint_adv(1) [OF r'] st by (auto simp: pb_dec_svarint_def safe_Some split: option.split)
qed

text \<open>The size checks of byte strings and strings of static allocation.\<close>

lemma dec_bytes_safe:
  assumes b: "bounded (fst s)" and R: "region a (unat (pf_data_size f)) \<subseteq> R" and at: "PB_ATYPE (pf_type f) = PB_ATYPE_STATIC"
  shows "safe R s (Some (pb_dec_bytes w s f a))"
proof -
  obtain r st1 where r: "pb_decode_varint32 (fst s) = (r, st1)" by fastforce
  then have a1: "adv (fst s) st1" by (rule varint32_adv)
  show ?thesis
  proof (cases r)
    case None
    then show ?thesis using r a1 by (simp add: pb_dec_bytes_def safe_Some)
  next
    case (Some sz)
    let ?fits = "\<not> (ucast sz + 4 :: u64) > ucast (pf_data_size f)"
    have "safe R s (Some (read_to (st1, put a (fixed32_le sz) (snd s)) (a + 4) (unat sz)))" if fits: ?fits
    proof -
      have "unat (ucast sz + 4 :: u64) = unat sz + 4"
        using unat_add_lem [of "ucast sz :: u64" 4] unat_less_power [of sz] by (simp add: unat_ucast_up)
      then have len: "unat sz + 4 \<le> unat (pf_data_size f)" using fits by (simp add: word_less_nat_alt unat_ucast_up)
      have "region (a + 4) (unat sz) \<subseteq> R" using region_shift [of 4 "unat sz" "unat (pf_data_size f)" a] len R by simp
      then have "safe R (st1, put a (fixed32_le sz) (snd s)) (Some (read_to (st1, put a (fixed32_le sz) (snd s)) (a + 4) (unat sz)))"
        using adv_bounded [OF a1 b] by (intro read_to_safe) simp_all
      moreover have "only R (snd s) (put a (fixed32_le sz) (snd s))"
        using region_mono [of 4 "unat (pf_data_size f)" a] len R by (intro only_put) auto
      ultimately show ?thesis using a1 by (auto intro: safe_from)
    qed
    then show ?thesis using r a1 Some at by (simp add: pb_dec_bytes_def Let_def)
  qed
qed

lemma dec_string_safe:
  fixes s :: "('a, 'b) dstate"
  assumes b: "bounded (fst s)" and R: "region a (unat (pf_data_size f)) \<subseteq> R" and at: "PB_ATYPE (pf_type f) = PB_ATYPE_STATIC"
  shows "safe R s (Some (pb_dec_string w s f a))"
proof -
  obtain r st1 where r: "pb_decode_varint32 (fst s) = (r, st1)" by fastforce
  then have a1: "adv (fst s) st1" by (rule varint32_adv)
  show ?thesis
  proof (cases r)
    case None
    then show ?thesis using r a1 by (simp add: pb_dec_string_def safe_Some)
  next
    case (Some sz)
    let ?s1 = "(st1, snd s)"
    have "safe R s (Some (case read_to ?s1 a (unat sz) of (status, s3) \<Rightarrow> (status, (fst s3, put (a + ucast sz) [0] (snd s3)))))"
      if fits: "\<not> (ucast (sz + 1) :: u64) < ucast sz" "\<not> (ucast (sz + 1) :: u64) > ucast (pf_data_size f)"
    proof -
      have "unat sz \<le> unat (sz + 1)" using fits(1) by (simp add: word_less_nat_alt unat_ucast_up)
      then have "sz + 1 \<noteq> 0" by (cases "sz + 1 = 0") (auto simp: unat_eq_0)
      then have "unat (sz + 1) = unat sz + 1" using unatSuc [of sz] by (simp add: add.commute)
      then have len: "unat sz + 1 \<le> unat (pf_data_size f)" using fits(2) by (simp add: word_less_nat_alt unat_ucast_up)
      have "safe R ?s1 (Some (read_to ?s1 a (unat sz)))"
        using adv_bounded [OF a1 b] region_mono [of "unat sz" "unat (pf_data_size f)" a] len R by (intro read_to_safe) auto
      moreover have "region (a + ucast sz) 1 \<subseteq> R"
        using region_shift [of "ucast sz" 1 "unat (pf_data_size f)" a] len R by (simp add: unat_ucast_up)
      then have "only R sr (put (a + ucast sz) [0] sr)" for sr :: "'b pb_store" by (intro only_put) simp
      ultimately show ?thesis using a1
        by (cases "read_to ?s1 a (unat sz)") (auto simp: safe_def intro: adv_trans only_trans)
    qed
    then show ?thesis using r a1 Some at by (simp add: pb_dec_string_def Let_def)
  qed
qed

lemma dec_fixed_length_safe:
  assumes "bounded (fst s)" "region a (unat (pf_data_size f)) \<subseteq> R"
  shows "safe R s (Some (pb_dec_fixed_length_bytes s f a))"
proof -
  obtain r st1 where r: "pb_decode_varint32 (fst s) = (r, st1)" by fastforce
  then have a1: "adv (fst s) st1" by (rule varint32_adv)
  have "safe R s (Some (read_to (st1, snd s) a (unat (pf_data_size f))))"
    using safe_from [OF read_to_safe [of "(st1, snd s)", OF _ assms(2)]] adv_bounded [OF a1 assms(1)] a1 by simp
  then show ?thesis using r a1 assms(2)
    by (auto simp: pb_dec_fixed_length_bytes_def safe_Some intro!: only_put split: option.split)
qed

section \<open>Loops and substreams\<close>

lemma c_loop_rule:
  assumes step: "\<And>s. I s \<Longrightarrow> cond s \<Longrightarrow>
      \<exists>x s1. body s = Some (x, s1) \<and>
        (case x of Continue \<Rightarrow> I s1 \<and> f s1 < (f s :: nat) | Break \<Rightarrow> Q None s1 | Return r \<Rightarrow> Q (Some r) s1)"
    and stop: "\<And>s. I s \<Longrightarrow> \<not> cond s \<Longrightarrow> Q None s"
    and init: "I s"
  shows "\<exists>r s1. c_loop cond body s = Some (r, s1) \<and> Q r s1"
  using init
proof (induction s rule: measure_induct_rule [where f = f])
  case (less s)
  show ?case
  proof (cases "cond s")
    case False
    then show ?thesis using stop less.prems by (simp add: c_loop.simps [of cond body s])
  next
    case True
    from step [OF less.prems True] obtain x s1 where b: "body s = Some (x, s1)"
      and x: "case x of Continue \<Rightarrow> I s1 \<and> f s1 < f s | Break \<Rightarrow> Q None s1 | Return r \<Rightarrow> Q (Some r) s1" by blast
    show ?thesis
    proof (cases x)
      case Continue
      then show ?thesis using less.IH [of s1] x b True by (simp add: c_loop.simps [of cond body s])
    qed (use x b True in \<open>simp_all add: c_loop.simps [of cond body s]\<close>)
  qed
qed

lemma with_substream_safe:
  assumes b: "bounded (fst s)" and dec: "\<And>sub. adv (fst s) (fst sub) \<Longrightarrow> snd sub = snd s \<Longrightarrow> safe R sub (dec sub)"
  shows "safe R s (with_substream dec s)"
proof -
  obtain r st1 where r: "pb_make_string_substream (fst s) = (r, st1)" by fastforce
  have a1: "adv (fst s) st1" using r by (rule make_substream_adv)
  show ?thesis
  proof (cases r)
    case None
    then show ?thesis using r a1 by (simp add: with_substream_def safe_Some)
  next
    case (Some sub)
    have "adv (fst s) sub" using make_substream_adv(2) [OF r Some] .
    then have "safe R (sub, snd s) (dec (sub, snd s))" by (intro dec) simp_all
    then obtain ok sub1 sr1 where d: "dec (sub, snd s) = Some (ok, (sub1, sr1))" "only R (snd s) sr1"
      by (auto simp: safe_def)
    obtain c st2 sub2 where c: "pb_close_string_substream st1 sub1 = (c, st2, sub2)" by (metis prod.exhaust)
    have "adv (fst s) st2" using close_substream_adv [OF c a1] .
    then show ?thesis using r Some d c by (simp add: with_substream_def safe_Some)
  qed
qed

section \<open>Descriptors of static messages\<close>

text \<open>The offsets of a field and of its count or flag in the structure.\<close>

fun offsets :: "pb_field list \<Rightarrow> nat \<Rightarrow> u64 \<times> u64" where
  "offsets fs 0 = (ucast (pf_data_offset (fs ! 0)), ucast (pf_data_offset (fs ! 0)) + scast (pf_size_offset (fs ! 0)))"
| "offsets fs (Suc i) =
     (if same_union (fs ! i) (fs ! Suc i) then offsets fs i
      else let p = fst (offsets fs i) + storage_size (fs ! i) + ucast (pf_data_offset (fs ! Suc i))
           in (p, p + scast (pf_size_offset (fs ! Suc i))))"

lemma place_offsets: "d \<noteq> 0 \<Longrightarrow> place fs d i = (d + fst (offsets fs i), d + snd (offsets fs i))"
  by (induction i) (simp_all add: Let_def add.assoc)

definition within :: "u64 \<Rightarrow> nat \<Rightarrow> nat \<Rightarrow> bool" where
  "within off n sz \<longleftrightarrow> unat off + n \<le> sz"

definition item_count :: "pb_field \<Rightarrow> nat" where
  "item_count f = (if PB_HTYPE (pf_type f) = PB_HTYPE_REPEATED then unat (pf_array_size f) else 1)"

text \<open>A field of static allocation that fits into a structure of \<open>sz\<close> bytes, with the count or flag its kind has;
  \<open>sub\<close> says that a submessage fits into its field.\<close>

definition field_fits ::
    "(pb_field list \<Rightarrow> nat \<Rightarrow> bool) \<Rightarrow> (addr \<Rightarrow> pb_field list) \<Rightarrow> pb_field \<Rightarrow> u64 \<times> u64 \<Rightarrow> nat \<Rightarrow> bool" where
  "field_fits sub desc f off sz \<longleftrightarrow>
     PB_ATYPE (pf_type f) = PB_ATYPE_STATIC \<and> PB_LTYPE (pf_type f) \<le> PB_LTYPE_FIXED_LENGTH_BYTES \<and>
     PB_LTYPE (pf_type f) \<noteq> PB_LTYPE_EXTENSION \<and>
     within (fst off) (unat (pf_data_size f) * item_count f) sz \<and> unat (pf_data_size f) * item_count f < 2 ^ 32 \<and>
     (PB_HTYPE (pf_type f) = PB_HTYPE_OPTIONAL \<and> snd off \<noteq> fst off \<longrightarrow> within (snd off) 1 sz) \<and>
     (PB_HTYPE (pf_type f) = PB_HTYPE_REPEATED \<or> PB_HTYPE (pf_type f) = PB_HTYPE_ONEOF \<longrightarrow> within (snd off) 4 sz) \<and>
     (PB_LTYPE (pf_type f) = PB_LTYPE_BOOL \<longrightarrow> 1 \<le> unat (pf_data_size f)) \<and>
     (PB_LTYPE (pf_type f) = PB_LTYPE_FIXED32 \<longrightarrow> 4 \<le> unat (pf_data_size f)) \<and>
     (PB_LTYPE (pf_type f) = PB_LTYPE_FIXED64 \<longrightarrow> 8 \<le> unat (pf_data_size f)) \<and>
     (PB_LTYPE (pf_type f) = PB_LTYPE_SUBMESSAGE \<longrightarrow> sub (desc (pf_ptr f)) (unat (pf_data_size f)))"

fun static_ok :: "nat \<Rightarrow> (addr \<Rightarrow> pb_field list) \<Rightarrow> pb_field list \<Rightarrow> nat \<Rightarrow> bool" where
  "static_ok 0 desc fs sz = False"
| "static_ok (Suc n) desc fs sz =
     (fields_ok fs \<and> 0 < nfields fs \<and>
      list_all (\<lambda>i. field_fits (static_ok n desc) desc (fs ! i) (offsets fs i) sz) [0..<nfields fs])"

text \<open>A structure that does not contain the null pointer and does not reach the end of memory.\<close>

definition block :: "addr \<Rightarrow> nat \<Rightarrow> bool" where
  "block d sz \<longleftrightarrow> d \<noteq> 0 \<and> unat d + sz < 2 ^ 64"

lemma block_within:
  assumes "block d sz" "within off n sz"
  shows "block (d + off) n" "region (d + off) n \<subseteq> region d sz"
proof -
  have "unat d + unat off < 2 ^ LENGTH(64)" using assms by (simp add: block_def within_def)
  then have "unat (d + off) = unat d + unat off" using unat_add_lem [of d off] by simp
  moreover have "unat d \<noteq> 0" using assms(1) word_eqI_unat [of d 0] by (auto simp: block_def)
  ultimately show "block (d + off) n" using assms by (auto simp: block_def within_def)
  show "region (d + off) n \<subseteq> region d sz" using assms(2) by (intro region_shift) (simp add: within_def)
qed

text \<open>The elements of an array lie in the storage of the field.\<close>

lemma element_within:
  fixes ds c :: u32
  assumes "unat ds * k < 2 ^ 32" "unat c < k"
  shows "within (ucast (ds * c)) (unat ds) (unat ds * k)"
proof -
  have "unat ds * unat c + unat ds = unat ds * Suc (unat c)" by simp
  also have "\<dots> \<le> unat ds * k" using assms(2) by (intro mult_le_mono) simp_all
  finally have le: "unat ds * unat c + unat ds \<le> unat ds * k" .
  have "unat ds * unat c < 2 ^ LENGTH(32)" using le assms(1) by simp
  then have "unat (ds * c) = unat ds * unat c" using unat_mult_lem [of ds c] by simp
  then show ?thesis using le by (simp add: within_def unat_ucast_up)
qed

section \<open>Defaults and release\<close>

lemma static_okD:
  assumes "static_ok (Suc n) desc fs sz"
  shows "fields_ok fs" "0 < nfields fs" "i < nfields fs \<Longrightarrow> field_fits (static_ok n desc) desc (fs ! i) (offsets fs i) sz"
  using assms by (simp_all add: list_all_iff)

lemma static_ok_fields: "static_ok n desc fs sz \<Longrightarrow> fields_ok fs \<and> 0 < nfields fs"
  by (cases n) simp_all

text \<open>A loop over all fields.\<close>

lemma message_each_ok:
  assumes fs: "fields_ok fs" and P: "P sr"
    and step: "\<And>i sr. i < nfields fs \<Longrightarrow> P sr \<Longrightarrow> \<exists>sr'. step (iter_at fs d i) sr = Some sr' \<and> P sr'"
  shows "\<exists>sr'. message_each step fs d sr = Some sr' \<and> P sr'"
proof -
  let ?body = "\<lambda>it sr. map_option (Pair True) (step it sr)"
  have "\<exists>sr'. iter_loop ?body (iter_at fs d i) sr = Some (True, sr') \<and> P sr'" if "i < nfields fs" "P sr" for i sr
    using that
  proof (induction "nfields fs - i" arbitrary: i sr)
    case (Suc k)
    from step [OF Suc.prems] obtain sr1 where s: "step (iter_at fs d i) sr = Some sr1" "P sr1" by blast
    show ?case
    proof (cases "Suc i < nfields fs")
      case True
      then have "\<exists>sr'. iter_loop ?body (iter_at fs d (Suc i)) sr1 = Some (True, sr') \<and> P sr'"
        using Suc.hyps s(2) by simp
      then show ?thesis using s True iter_loop_step [OF fs Suc.prems(1), of ?body d sr] by (simp add: and_then_def)
    next
      case False
      then show ?thesis using s iter_loop_step [OF fs Suc.prems(1), of ?body d sr] by (simp add: and_then_def)
    qed
  qed simp
  from this [of 0 sr] P show ?thesis
    using iter_begin_ok [OF fs, of d] by (cases "nfields fs = 0") (auto simp: message_each_def)
qed

lemma set_to_default_only:
  assumes "static_ok n (dw_fields w) fs sz" "block d sz" "region d sz \<subseteq> R" "i < nfields fs"
  shows "\<exists>sr'. pb_field_set_to_default n w (iter_at fs d i) sr = Some sr' \<and> only R sr sr'"
  using assms
proof (induction n arbitrary: fs sz d i sr)
  case (Suc n)
  let ?f = "fs ! i" and ?off = "fst (offsets fs i)" and ?soff = "snd (offsets fs i)"
  have fit: "field_fits (static_ok n (dw_fields w)) (dw_fields w) ?f (offsets fs i) sz" and ok: "fields_ok fs"
    using static_okD [OF Suc.prems(1)] Suc.prems(4) by blast+
  have d: "d \<noteq> 0" using Suc.prems(2) by (simp add: block_def)
  have at: "field_at fs i = Some ?f" using ok Suc.prems(4) by (simp add: field_at_ok)
  have sub: "region (d + o1) k \<subseteq> R" if "within o1 k sz" for o1 k
    using block_within [OF Suc.prems(2) that] Suc.prems(3) by blast
  have ht: "PB_HTYPE (pf_type ?f) \<in> {PB_HTYPE_REQUIRED, PB_HTYPE_OPTIONAL, PB_HTYPE_REPEATED, PB_HTYPE_ONEOF}"
    by (rule PB_HTYPE_cases)
  show ?case
  proof (cases "PB_HTYPE (pf_type ?f) = PB_HTYPE_REPEATED \<or> PB_HTYPE (pf_type ?f) = PB_HTYPE_ONEOF")
    case True
    then have "region (d + ?soff) 4 \<subseteq> R" using fit by (intro sub) (auto simp: field_fits_def)
    then show ?thesis using True fit at
      by (auto simp: field_fits_def place_offsets [OF d] intro!: only_put)
  next
    case False
    then have data: "within ?off (unat (pf_data_size ?f)) sz" using fit by (auto simp: field_fits_def item_count_def)
    define sr1 where "sr1 = (if PB_HTYPE (pf_type ?f) = PB_HTYPE_OPTIONAL \<and> d + ?soff \<noteq> d + ?off then put (d + ?soff) [0] sr else sr)"
    have flag: "only R sr sr1"
    proof (cases "PB_HTYPE (pf_type ?f) = PB_HTYPE_OPTIONAL \<and> ?soff \<noteq> ?off")
      case True
      then have "region (d + ?soff) 1 \<subseteq> R" using fit by (intro sub) (simp add: field_fits_def)
      then show ?thesis using True by (auto simp: sr1_def intro!: only_put)
    qed (auto simp: sr1_def)
    have eq: "pb_field_set_to_default (Suc n) w (iter_at fs d i) sr =
        (if PB_LTYPE (pf_type ?f) = PB_LTYPE_SUBMESSAGE
         then message_each (pb_field_set_to_default n w) (dw_fields w (pf_ptr ?f)) (d + ?off) sr1
         else if pf_ptr ?f \<noteq> 0 then Some (put (d + ?off) (mem_bytes (sr_mem sr1) (pf_ptr ?f) (unat (pf_data_size ?f))) sr1)
         else Some (put (d + ?off) (replicate (unat (pf_data_size ?f)) 0) sr1))"
      using False fit at by (simp add: field_fits_def place_offsets [OF d] sr1_def Let_def)
    show ?thesis
    proof (cases "PB_LTYPE (pf_type ?f) = PB_LTYPE_SUBMESSAGE")
      case True
      let ?g = "dw_fields w (pf_ptr ?f)"
      have g: "static_ok n (dw_fields w) ?g (unat (pf_data_size ?f))" using True fit by (simp add: field_fits_def)
      have "\<exists>sr'. message_each (pb_field_set_to_default n w) ?g (d + ?off) sr1 = Some sr' \<and> only R sr1 sr'"
      proof (rule message_each_ok)
        show "fields_ok ?g" using static_ok_fields [OF g] by simp
        fix j sr2 assume "j < nfields ?g" "only R sr1 sr2"
        then show "\<exists>sr'. pb_field_set_to_default n w (iter_at ?g (d + ?off) j) sr2 = Some sr' \<and> only R sr1 sr'"
          using Suc.IH [OF g block_within(1) [OF Suc.prems(2) data] sub [OF data]] only_trans by blast
      qed simp
      then show ?thesis unfolding eq using True only_trans [OF flag] by auto
    next
      case other: False
      have "only R sr (put (d + ?off) bs sr1)" if "length bs = unat (pf_data_size ?f)" for bs
        using only_trans [OF flag only_put] sub [OF data] that by metis
      then show ?thesis unfolding eq using other by simp
    qed
  qed
qed simp

lemma set_to_defaults_only:
  assumes "static_ok n (dw_fields w) fs sz" "block d sz" "region d sz \<subseteq> R"
  shows "\<exists>sr'. pb_message_set_to_defaults n w fs d sr = Some sr' \<and> only R sr sr'"
  unfolding pb_message_set_to_defaults_def
proof (rule message_each_ok)
  fix i sr2 assume "i < nfields fs" "only R sr sr2"
  then show "\<exists>sr'. pb_field_set_to_default n w (iter_at fs d i) sr2 = Some sr' \<and> only R sr sr'"
    using set_to_default_only [OF assms] only_trans by blast
qed (use static_ok_fields [OF assms(1)] in auto)

text \<open>There is nothing to release in a static message.\<close>

lemma release_single_static:
  assumes "static_ok n (dw_fields w) fs sz" "i < nfields fs"
  shows "pb_release_single_field n w (iter_at fs d i) sr = Some sr"
  using assms
proof (induction n arbitrary: fs sz d i)
  case (Suc n)
  let ?f = "fs ! i" and ?g = "dw_fields w (pf_ptr (fs ! i))"
  have fit: "field_fits (static_ok n (dw_fields w)) (dw_fields w) ?f (offsets fs i) sz" and ok: "fields_ok fs"
    using static_okD [OF Suc.prems(1)] Suc.prems(2) by blast+
  have at: "field_at fs i = Some ?f" using ok Suc.prems(2) by (simp add: field_at_ok)
  have one: "release_message (pb_release_single_field n w) ?g p sr = Some sr"
    if "PB_LTYPE (pf_type ?f) = PB_LTYPE_SUBMESSAGE" for p
  proof -
    have g: "static_ok n (dw_fields w) ?g (unat (pf_data_size ?f))" using that fit by (simp add: field_fits_def)
    have "\<exists>sr'. message_each (pb_release_single_field n w) ?g p sr = Some sr' \<and> sr' = sr"
      using static_ok_fields [OF g] Suc.IH [OF g] by (intro message_each_ok) auto
    then show ?thesis by (simp add: release_message_def)
  qed
  have "release_items (release_message (pb_release_single_field n w) ?g) ds k p sr = Some sr"
    if "PB_LTYPE (pf_type ?f) = PB_LTYPE_SUBMESSAGE" for ds k p
    using one [OF that] by (induction k arbitrary: p) simp_all
  then show ?case using fit at by (auto simp: field_fits_def Let_def)
qed simp

lemma release_static:
  assumes "static_ok n (dw_fields w) fs sz"
  shows "pb_release n w fs d sr = Some sr"
proof -
  have "\<exists>sr'. message_each (pb_release_single_field n w) fs d sr = Some sr' \<and> sr' = sr"
    using static_ok_fields [OF assms] release_single_static [OF assms] by (intro message_each_ok) auto
  then show ?thesis by (simp add: pb_release_def release_message_def)
qed

section \<open>Fields\<close>

lemma byte_le_10:
  assumes "x \<le> (0x0A :: byte)"
  shows "x \<in> {0, 1, 2, 3, 4, 5, 6, 7, 8, 9, 10}"
proof -
  have "unat x \<le> 10" using assms by (simp add: word_le_nat_alt)
  then have "unat x \<in> {0, 1, 2, 3, 4, 5, 6, 7, 8, 9, 10}" by (simp, arith)
  then have "word_of_nat (unat x) \<in> (word_of_nat ` {0, 1, 2, 3, 4, 5, 6, 7, 8, 9, 10} :: byte set)" by (rule imageI)
  then show ?thesis by simp
qed

lemma region_le: "region a n \<subseteq> R \<Longrightarrow> k \<le> n \<Longrightarrow> region a k \<subseteq> R"
  using region_mono by blast

text \<open>What the decoder of a field relies on of the decoder of messages.\<close>

definition decodes_safely ::
    "nat \<Rightarrow> ('s, 'h) pb_dworld \<Rightarrow> addr set \<Rightarrow> ('s, 'h) decode_fun \<Rightarrow> bool" where
  "decodes_safely n w R dec \<longleftrightarrow>
     (\<forall>s g k a. static_ok n (dw_fields w) g k \<longrightarrow> block a k \<longrightarrow> region a k \<subseteq> R \<longrightarrow> bounded (fst s) \<longrightarrow> safe R s (dec s g a))"

lemma decoders_safe:
  assumes fit: "field_fits (static_ok n (dw_fields w)) (dw_fields w) f off sz"
    and a: "block a (unat (pf_data_size f))" "region a (unat (pf_data_size f)) \<subseteq> R"
    and b: "bounded (fst s)"
    and dec: "decodes_safely n w R decode" "decodes_safely n w R noinit"
  shows "safe R s (PB_DECODERS decode noinit w (PB_LTYPE (pf_type f)) s f a)"
proof -
  let ?lt = "PB_LTYPE (pf_type f)" and ?g = "dw_fields w (pf_ptr f)"
  have "?lt \<in> {0, 1, 2, 3, 4, 5, 6, 7, 8, 9, 10}" by (rule byte_le_10) (use fit in \<open>simp add: field_fits_def\<close>)
  moreover have "?lt \<noteq> 9" using fit by (simp add: field_fits_def)
  moreover have at: "PB_ATYPE (pf_type f) = PB_ATYPE_STATIC" using fit by (simp add: field_fits_def)
  moreover have "safe R s (Some (pb_dec_bool s f a))" if "?lt = 0"
    using region_le [OF a(2), of 1] that fit by (intro dec_bool_safe) (simp add: field_fits_def)
  moreover have "region a 4 \<subseteq> R" if "?lt = 4" using region_le [OF a(2)] that fit by (simp add: field_fits_def)
  moreover have "region a 8 \<subseteq> R" if "?lt = 5" using region_le [OF a(2)] that fit by (simp add: field_fits_def)
  moreover have "safe R s (pb_dec_submessage decode noinit w s f a)" if "?lt = 8"
  proof -
    have g: "static_ok n (dw_fields w) ?g (unat (pf_data_size f))" using that fit by (simp add: field_fits_def)
    have sub: "safe R sub (decode sub ?g a)" "safe R sub (noinit sub ?g a)" if "adv (fst s) (fst sub)" for sub
      using dec g a adv_bounded [OF that b] unfolding decodes_safely_def by blast+
    have "safe R s (with_substream (\<lambda>sub. if PB_HTYPE (pf_type f) = PB_HTYPE_REPEATED then decode sub ?g a else noinit sub ?g a) s)"
      using sub by (intro with_substream_safe [OF b]) simp
    moreover obtain r st1 where "pb_make_string_substream (fst s) = (r, st1)" by fastforce
    ultimately show ?thesis using make_substream_adv(1) [of "fst s" r st1]
      by (auto simp: pb_dec_submessage_def safe_Some split: option.split)
  qed
  ultimately show ?thesis
    unfolding PB_DECODERS_def
    by (auto intro: dec_ints_safe [OF a(2)] dec_fixed32_safe dec_fixed64_safe dec_bytes_safe [OF b a(2)]
        dec_string_safe [OF b a(2)] dec_fixed_length_safe [OF b a(2)])
qed

text \<open>A number takes at least a byte.\<close>

lemma store_adv1:
  "store_signed s f a v = (ok, s') \<Longrightarrow> adv1 st (fst s') = adv1 st (fst s)"
  "store_unsigned s f a v = (ok, s') \<Longrightarrow> adv1 st (fst s') = adv1 st (fst s)"
  by (auto simp: store_signed_def store_unsigned_def dec_error_def Let_def split: if_splits)

lemma decoders_progress:
  assumes "PB_DECODERS decode noinit w lt s f a = Some (True, s')" and "lt \<le> PB_LTYPE_LAST_PACKABLE"
  shows "adv1 (fst s) (fst s')"
proof -
  have "lt \<le> 0x0A" using assms(2) by (simp add: word_le_nat_alt)
  then have "lt \<in> {0, 1, 2, 3, 4, 5}" using byte_le_10 [of lt] assms(2) by auto
  then show ?thesis using assms(1)
    by (auto simp: PB_DECODERS_def pb_dec_bool_def pb_dec_varint_def pb_dec_uvarint_def pb_dec_svarint_def pb_dec_fixed32_def
        pb_dec_fixed64_def split: prod.splits option.splits
        dest!: varint32_adv(2) varint_adv(2) svarint_adv(2) fixed_adv(2,4) store_adv1)
qed

text \<open>The hypotheses on a field of a structure: it fits, and the structure lies in \<open>R\<close>.\<close>

lemma count_safe:
  assumes "field_fits sub desc (fs ! i) (offsets fs i) sz" "block d sz" "region d sz \<subseteq> R"
    and "PB_HTYPE (pf_type (fs ! i)) = PB_HTYPE_REPEATED"
  shows "only R sr (set_count local (iter_at fs d i) c sr)"
proof -
  have "within (snd (offsets fs i)) 4 sz" using assms(1,4) by (simp add: field_fits_def)
  then have "region (d + snd (offsets fs i)) 4 \<subseteq> R" using block_within(2) [OF assms(2)] assms(3) by blast
  moreover have "d \<noteq> 0" using assms(2) by (simp add: block_def)
  ultimately show ?thesis by (auto simp: set_count_def place_offsets intro!: only_put)
qed

lemma element_safe:
  assumes fit: "field_fits (static_ok n (dw_fields w)) (dw_fields w) (fs ! i) (offsets fs i) sz"
    and d: "block d sz" "region d sz \<subseteq> R"
    and dec: "decodes_safely n w R decode" "decodes_safely n w R noinit"
    and rep: "PB_HTYPE (pf_type (fs ! i)) = PB_HTYPE_REPEATED" and c: "c < pf_array_size (fs ! i)" and b: "bounded (fst s)"
  shows "safe R s (PB_DECODERS decode noinit w (PB_LTYPE (pf_type (fs ! i))) s (fs ! i)
                     (pi_pData (iter_at fs d i) + ucast (pf_data_size (fs ! i) * c)))"
proof -
  let ?f = "fs ! i" and ?k = "unat (pf_array_size (fs ! i))" and ?a = "d + fst (offsets fs i)"
  have nz: "d \<noteq> 0" using d(1) by (simp add: block_def)
  have win: "within (fst (offsets fs i)) (unat (pf_data_size ?f) * ?k) sz" and small: "unat (pf_data_size ?f) * ?k < 2 ^ 32"
    using fit rep by (simp_all add: field_fits_def item_count_def)
  note arr = block_within [OF d(1) win]
  have "unat c < ?k" using c by (simp add: word_less_nat_alt)
  note e = block_within [OF arr(1) element_within [OF small this]]
  have "region (?a + ucast (pf_data_size ?f * c)) (unat (pf_data_size ?f)) \<subseteq> R" using e(2) arr(2) d(2) by blast
  from decoders_safe [OF fit e(1) this b dec] show ?thesis by (simp add: place_offsets [OF nz])
qed

lemma packed_safe:
  assumes fit: "field_fits (static_ok n (dw_fields w)) (dw_fields w) (fs ! i) (offsets fs i) sz"
    and d: "block d sz" "region d sz \<subseteq> R" and b: "bounded (fst s)"
    and dec: "decodes_safely n w R decode" "decodes_safely n w R noinit"
    and rep: "PB_HTYPE (pf_type (fs ! i)) = PB_HTYPE_REPEATED" and lt: "PB_LTYPE (pf_type (fs ! i)) \<le> PB_LTYPE_LAST_PACKABLE"
  shows "safe R s (decode_static_packed (PB_DECODERS decode noinit w (PB_LTYPE (pf_type (fs ! i)))) local (iter_at fs d i) (fs ! i) s)"
proof -
  let ?f = "fs ! i" and ?it = "iter_at fs d i"
  let ?func = "PB_DECODERS decode noinit w (PB_LTYPE (pf_type ?f))"
  note elem = element_safe [OF fit d dec rep]
  obtain r st1 where r: "pb_make_string_substream (fst s) = (r, st1)" by fastforce
  have a1: "adv (fst s) st1" using r by (rule make_substream_adv)
  show ?thesis
  proof (cases r)
    case None
    then show ?thesis using r a1 by (simp add: decode_static_packed_def safe_Some)
  next
    case (Some sub)
    let ?I = "\<lambda>x. adv (fst s) (fst x) \<and> only R (snd s) (snd x)"
    have "\<exists>failed x. c_loop (\<lambda>(sub, sr). is_bytes_left sub > 0 \<and> get_count local ?it sr < pf_array_size ?f)
        (static_packed_step ?func local ?it ?f) (sub, snd s) = Some (failed, x) \<and> ?I x"
    proof (rule c_loop_rule [where I = ?I and f = "\<lambda>x. is_bytes_left (fst x)"])
      fix x assume I: "?I x" and "case x of (sub, sr) \<Rightarrow> is_bytes_left sub > 0 \<and> get_count local ?it sr < pf_array_size ?f"
      then have c: "get_count local ?it (snd x) < pf_array_size ?f" by auto
      have "bounded (fst x)" using adv_bounded b I by blast
      from elem [OF c this] obtain ok x1 where e: "?func x ?f (pi_pData ?it + ucast (pf_data_size ?f * get_count local ?it (snd x))) = Some (ok, x1)"
        "adv (fst x) (fst x1)" "only R (snd x) (snd x1)" by (auto simp: safe_def)
      have I1: "?I x1" using I e adv_trans only_trans by blast
      have "only R (snd s) (set_count local ?it (get_count local ?it (snd x1) + 1) (snd x1))"
        using I1 only_trans count_safe [OF fit d rep] by blast
      then show "\<exists>y x2. static_packed_step ?func local ?it ?f x = Some (y, x2) \<and>
          (case y of Continue \<Rightarrow> ?I x2 \<and> is_bytes_left (fst x2) < is_bytes_left (fst x) | Break \<Rightarrow> ?I x2 | Return r \<Rightarrow> ?I x2)"
      proof (cases ok)
        case True
        then have "adv1 (fst x) (fst x1)" using e(1) by (intro decoders_progress [OF _ lt]) simp
        then have "is_bytes_left (fst x1) < is_bytes_left (fst x)" by (simp add: adv1_def)
        then show ?thesis using e(1) I1 True \<open>only R (snd s) (set_count _ _ _ _)\<close> by (simp add: static_packed_step_def)
      qed (use e(1) I1 in \<open>simp add: static_packed_step_def\<close>)
    qed (use make_substream_adv(2) [OF r Some] in auto)
    then obtain failed sub1 sr1 where l: "c_loop (\<lambda>(sub, sr). is_bytes_left sub > 0 \<and> get_count local ?it sr < pf_array_size ?f)
        (static_packed_step ?func local ?it ?f) (sub, snd s) = Some (failed, (sub1, sr1))" "only R (snd s) sr1" by auto
    obtain c st2 sub2 where c: "pb_close_string_substream st1 sub1 = (c, st2, sub2)" by (metis prod.exhaust)
    have "adv (fst s) st2" using close_substream_adv [OF c a1] .
    then show ?thesis using r Some l c a1 by (simp add: decode_static_packed_def safe_Some)
  qed
qed

end
