(* ===== verification/PbDecodeMsg.thy ===== *)
theory PbDecodeMsg
  imports PbDecodeSafe
begin

text \<open>
  Safety of the message decoder, continued: one field of a message, the release of a union, the loop over the
  input, and the induction on the nesting of messages. It closes with \<open>decode_with_safe\<close>: \<open>pb_decode\<close> of a
  static message terminates on any input and changes only the bytes of the structure.
\<close>

section \<open>One field\<close>

lemma field_fits_mono:
  assumes "field_fits sub desc f off sz" and "\<And>g k. sub g k \<Longrightarrow> sub' g k"
  shows "field_fits sub' desc f off sz"
  using assms by (auto simp: field_fits_def)

lemma static_ok_Suc: "static_ok n desc fs sz \<Longrightarrow> static_ok (Suc n) desc fs sz"
proof (induction n arbitrary: fs sz)
  case (Suc n)
  have "field_fits (static_ok (Suc n) desc) desc (fs ! i) (offsets fs i) sz" if "i < nfields fs" for i
    using field_fits_mono [OF static_okD(3) [OF Suc.prems that]] Suc.IH by blast
  then show ?case using static_okD(1,2) [OF Suc.prems] unfolding static_ok.simps(2) [of "Suc n"] by (auto simp: list_all_iff)
qed simp

lemma static_field_safe:
  fixes s :: "('s, 'h) dstate"
  assumes ok: "static_ok (Suc n) (dw_fields w) fs sz" and i: "i < nfields fs"
    and d: "block d sz" "region d sz \<subseteq> R" and b: "bounded (fst s)"
    and dec: "decodes_safely n w R decode" "decodes_safely n w R noinit"
  shows "safe R s (decode_static_field (Suc n) decode noinit w s wt local (iter_at fs d i))"
proof -
  let ?f = "fs ! i" and ?off = "fst (offsets fs i)" and ?soff = "snd (offsets fs i)" and ?it = "iter_at fs d i"
  let ?func = "PB_DECODERS decode noinit w (PB_LTYPE (pf_type ?f))"
  have fit: "field_fits (static_ok n (dw_fields w)) (dw_fields w) ?f (offsets fs i) sz" and fs: "fields_ok fs"
    using static_okD [OF ok] i by blast+
  have nz: "d \<noteq> 0" using d(1) by (simp add: block_def)
  have at: "field_at fs i = Some ?f" using fs i by (simp add: field_at_ok)
  have lt: "\<not> PB_LTYPE (pf_type ?f) > PB_LTYPE_FIXED_LENGTH_BYTES" using fit by (simp add: field_fits_def not_less)
  have sub: "region (d + o1) k \<subseteq> R" if "within o1 k sz" for o1 k
    using block_within [OF d(1) that] d(2) by blast
  consider (single) "PB_HTYPE (pf_type ?f) = PB_HTYPE_REQUIRED \<or> PB_HTYPE (pf_type ?f) = PB_HTYPE_OPTIONAL"
    | (rep) "PB_HTYPE (pf_type ?f) = PB_HTYPE_REPEATED" | (oneof) "PB_HTYPE (pf_type ?f) = PB_HTYPE_ONEOF"
    using PB_HTYPE_cases [of "pf_type ?f"] by blast
  then show ?thesis
  proof cases
    case single
    then have win: "within ?off (unat (pf_data_size ?f)) sz" using fit by (auto simp: field_fits_def item_count_def)
    have func: "safe R x (?func x ?f (d + ?off))" if "bounded (fst x)" for x
      using decoders_safe [OF fit block_within(1) [OF d(1) win] sub [OF win] that dec] .
    have flag: "only R sr (put (d + ?soff) [1] sr)" if "PB_HTYPE (pf_type ?f) = PB_HTYPE_OPTIONAL" "?soff \<noteq> ?off" for sr :: "'h pb_store"
      using that fit sub [of ?soff 1] by (intro only_put) (simp add: field_fits_def)
    have "safe R s (?func (fst s, put (d + ?soff) [1] (snd s)) ?f (d + ?off))"
      if "PB_HTYPE (pf_type ?f) = PB_HTYPE_OPTIONAL" "?soff \<noteq> ?off"
      using safe_from [OF func [of "(fst s, put (d + ?soff) [1] (snd s))"]] b flag [OF that] by simp
    then show ?thesis using single func [OF b] at lt
      by (auto simp: decode_static_field_def Let_def place_offsets [OF nz])
  next
    case rep
    show ?thesis
    proof (cases "wt = PB_WT_STRING \<and> PB_LTYPE (pf_type ?f) \<le> PB_LTYPE_LAST_PACKABLE")
      case True
      then show ?thesis using packed_safe [OF fit d b dec rep] rep at lt by (simp add: decode_static_field_def Let_def)
    next
      case False
      let ?c = "get_count local ?it (snd s)" and ?s1 = "(fst s, set_count local ?it (get_count local ?it (snd s) + 1) (snd s))"
      have cnt: "only R (snd s) (snd ?s1)" using count_safe [OF fit d rep] by simp
      have "safe R s (?func ?s1 ?f (pi_pData ?it + ucast (pf_data_size ?f * ?c)))" if "\<not> ?c \<ge> pf_array_size ?f"
      proof -
        have "safe R ?s1 (?func ?s1 ?f (pi_pData ?it + ucast (pf_data_size ?f * ?c)))"
          using element_safe [OF fit d dec rep] that b by simp
        then show ?thesis by (rule safe_from [OF _ _ cnt]) simp
      qed
      then show ?thesis using False rep at lt cnt by (auto simp: decode_static_field_def Let_def)
    qed
  next
    case oneof
    then have win: "within ?off (unat (pf_data_size ?f)) sz" using fit by (auto simp: field_fits_def item_count_def)
    have tag: "only R sr (put (d + ?soff) (fixed32_le c) sr)" for sr :: "'h pb_store" and c
      using oneof fit sub [of ?soff 4] by (intro only_put) (simp add: field_fits_def)
    let ?sr0 = "put (d + ?off) (replicate (unat (pf_data_size ?f)) 0) (snd s)"
    let ?dflt = "pb_message_set_to_defaults (Suc n) w (dw_fields w (pf_ptr ?f)) (d + ?off) ?sr0"
    have z: "only R (snd s) ?sr0" using sub [OF win] by (intro only_put) simp
    have dflt: "\<exists>sr1. ?dflt = Some sr1 \<and> only R (snd s) sr1" if "PB_LTYPE (pf_type ?f) = PB_LTYPE_SUBMESSAGE"
    proof -
      have "static_ok (Suc n) (dw_fields w) (dw_fields w (pf_ptr ?f)) (unat (pf_data_size ?f))"
        using that fit by (intro static_ok_Suc) (simp add: field_fits_def)
      from set_to_defaults_only [OF this block_within(1) [OF d(1) win] sub [OF win], of ?sr0] show ?thesis
        using only_trans [OF z] by blast
    qed
    have func: "safe R s (?func (fst s, put (d + ?soff) (fixed32_le c) sr1) ?f (d + ?off))" if "only R (snd s) sr1" for sr1 c
      using safe_from [OF decoders_safe [OF fit block_within(1) [OF d(1) win] sub [OF win], of "(fst s, put (d + ?soff) (fixed32_le c) sr1)"]]
        b dec only_trans [OF that tag] by simp
    have "\<exists>sr1. (if PB_LTYPE (pf_type ?f) = PB_LTYPE_SUBMESSAGE \<and> load32 (sr_mem (snd s)) (d + ?soff) \<noteq> pf_tag ?f
        then ?dflt else Some (snd s)) = Some sr1 \<and> only R (snd s) sr1" (is "\<exists>sr1. ?x = Some sr1 \<and> _")
      using dflt by simp
    then obtain sr1 where x: "?x = Some sr1" "only R (snd s) sr1" by blast
    have "decode_static_field (Suc n) decode noinit w s wt local ?it =
        Option.bind ?x (\<lambda>sr1. ?func (fst s, put (d + ?soff) (fixed32_le (pf_tag ?f)) sr1) ?f (d + ?off))"
      using oneof at lt by (simp add: decode_static_field_def Let_def place_offsets [OF nz])
    then show ?thesis using func [OF x(2)] by (simp add: x(1))
  qed
qed

lemma iter_find_ok:
  assumes "fields_ok fs" "i < nfields fs"
  shows "\<exists>found k. find_loop wanted i (iter_at fs d i) = Some (found, iter_at fs d k) \<and> k < nfields fs \<and>
           (found \<longrightarrow> wanted (fs ! k)) \<and> (\<not> found \<longrightarrow> k = i)"
proof (cases "find_from wanted fs i")
  case None
  then show ?thesis using find_ok [OF assms, of wanted d] assms(2) by auto
next
  case (Some j)
  then have "find (\<lambda>j. wanted (fs ! j)) (map (\<lambda>k. (i + k) mod nfields fs) [0..<nfields fs]) = Some j" by (simp add: find_from_def)
  then have j: "wanted (fs ! j)" "j \<in> set (map (\<lambda>k. (i + k) mod nfields fs) [0..<nfields fs])"
    by (metis find_Some_iff, metis find_Some_iff nth_mem)
  then have "j < nfields fs" using assms(2) by auto
  moreover have "find_loop wanted i (iter_at fs d i) = Some (True, iter_at fs d j)" using find_ok [OF assms] Some by simp
  ultimately show ?thesis using j(1) by blast
qed

lemma union_safe:
  assumes ok: "static_ok n (dw_fields w) fs sz" and i: "i < nfields fs"
  shows "\<exists>ok s' k. pb_release_union_field n w s (iter_at fs d i) = Some (ok, s', iter_at fs d k) \<and> k < nfields fs \<and>
           adv (fst s) (fst s') \<and> snd s' = snd s"
proof -
  have fs: "fields_ok fs" using static_ok_fields [OF ok] by simp
  have at: "field_at fs k = Some (fs ! k)" if "k < nfields fs" for k using fs that by (simp add: field_at_ok)
  have st: "PB_ATYPE (pf_type (fs ! k)) = 0" if "k < nfields fs" for k
    using ok that by (cases n) (auto simp: list_all_iff field_fits_def)
  let ?old = "load32 (sr_mem (snd s)) (pi_pSize (iter_at fs d i))" and ?new = "pf_tag (fs ! i)"
  obtain found k where k: "pb_field_iter_find (iter_at fs d i) ?old = Some (found, iter_at fs d k)" "k < nfields fs"
    using iter_find_ok [OF fs i] unfolding pb_field_iter_find_def iter_at_sel by blast
  obtain found2 l where l: "pb_field_iter_find (iter_at fs d k) ?new = Some (found2, iter_at fs d l)" "l < nfields fs"
    using iter_find_ok [OF fs k(2)] unfolding pb_field_iter_find_def iter_at_sel by blast
  show ?thesis
  proof (cases "?old = 0 \<or> ?old = ?new")
    case True
    then have "pb_release_union_field n w s (iter_at fs d i) = Some (True, s, iter_at fs d i)"
      using at [OF i] by (auto simp: pb_release_union_field_def)
    then show ?thesis using i by blast
  next
    case False
    note rel = release_single_static [OF ok k(2), of d "snd s"]
    have "pb_release_union_field n w s (iter_at fs d i) =
        (if \<not> found then Some (False, snd (dec_error ''invalid union tag'' s), iter_at fs d k)
         else if \<not> found2 then Some (False, snd (dec_error ''iterator error'' s), iter_at fs d l)
         else Some (True, s, iter_at fs d l))"
      using False k l at [OF i] at [OF l(2)] st [OF l(2)] rel by (simp add: pb_release_union_field_def)
    moreover have "adv (fst s) (fst (snd (dec_error msg s))) \<and> snd (snd (dec_error msg s)) = snd s" for msg
      by (simp add: dec_error_def)
    ultimately show ?thesis using k(2) l(2) by (cases found; cases found2) auto
  qed
qed

lemma decode_field_safe:
  assumes ok: "static_ok (Suc n) (dw_fields w) fs sz" and i: "i < nfields fs"
    and d: "block d sz" "region d sz \<subseteq> R" and b: "bounded (fst s)"
    and dec: "decodes_safely n w R decode" "decodes_safely n w R noinit"
  shows "\<exists>ok s' k. decode_field (Suc n) decode noinit w s wt local (iter_at fs d i) = Some (ok, s', iter_at fs d k) \<and>
           k < nfields fs \<and> adv (fst s) (fst s') \<and> only R (snd s) (snd s')"
proof -
  have fs: "fields_ok fs" using static_ok_fields [OF ok] by simp
  have at: "field_at fs k = Some (fs ! k)" if "k < nfields fs" for k using fs that by (simp add: field_at_ok)
  obtain ok1 s1 k where k: "(if PB_HTYPE (pf_type (fs ! i)) = PB_HTYPE_ONEOF
        then pb_release_union_field (Suc n) w s (iter_at fs d i) else Some (True, s, iter_at fs d i)) = Some (ok1, s1, iter_at fs d k)"
    "k < nfields fs" "adv (fst s) (fst s1)" "snd s1 = snd s"
    using union_safe [OF ok i, of s d] i by (cases "PB_HTYPE (pf_type (fs ! i)) = PB_HTYPE_ONEOF") auto
  have "safe R s1 (decode_static_field (Suc n) decode noinit w s1 wt local (iter_at fs d k))"
    using adv_bounded [OF k(3) b] by (intro static_field_safe [OF ok k(2) d _ dec])
  then obtain ok2 s2 where s2: "decode_static_field (Suc n) decode noinit w s1 wt local (iter_at fs d k) = Some (ok2, s2)"
    "adv (fst s) (fst s2)" "only R (snd s) (snd s2)"
    using k(4) by (auto simp: safe_def dest: adv_trans [OF k(3)])
  have "PB_ATYPE (pf_type (fs ! k)) = 0" using static_okD(3) [OF ok k(2)] by (simp add: field_fits_def)
  then have "decode_field (Suc n) decode noinit w s wt local (iter_at fs d i) =
      (if ok1 then Some (ok2, s2, iter_at fs d k) else Some (False, s1, iter_at fs d k))"
    using s2(1) at [OF i] at [OF k(2)] by (simp add: decode_field_def k(1) Let_def)
  moreover have "adv (fst s) (fst s1)" "only R (snd s) (snd s1)" using k(3,4) by simp_all
  ultimately show ?thesis using s2(2,3) k(2) by (cases ok1) (simp_all only: if_True if_False, blast+)
qed

section \<open>Messages\<close>

text \<open>The invariant of the loop over the fields in the input.\<close>

definition noinit_inv :: "pb_field list \<Rightarrow> addr \<Rightarrow> addr set \<Rightarrow> ('s, 'h) dstate \<Rightarrow> ('s, 'h) noinit_state \<Rightarrow> bool" where
  "noinit_inv fs d R s ni \<longleftrightarrow>
     (\<exists>i. i < nfields fs \<and> ni_iter ni = iter_at fs d i) \<and>
     adv (fst s) (fst (ni_state ni)) \<and> only R (snd s) (snd (ni_state ni))"

definition step_safe ::
    "pb_field list \<Rightarrow> addr \<Rightarrow> addr set \<Rightarrow> ('s, 'h) dstate \<Rightarrow> (bool step \<times> ('s, 'h) noinit_state) option \<Rightarrow> bool" where
  "step_safe fs d R s x \<longleftrightarrow> (\<exists>y ni. x = Some (y, ni) \<and> noinit_inv fs d R s ni)"

lemma step_safe_Some [simp]: "step_safe fs d R s (Some (y, ni)) = noinit_inv fs d R s ni"
  by (simp add: step_safe_def)

lemma noinit_inv_mono: "noinit_inv fs d R s ni \<Longrightarrow> adv (fst s0) (fst s) \<Longrightarrow> only R (snd s0) (snd s) \<Longrightarrow> noinit_inv fs d R s0 ni"
  by (auto simp: noinit_inv_def intro: adv_trans only_trans)

lemma skip_step_safe:
  assumes "i < nfields fs" "ni_iter ni = iter_at fs d i"
  shows "step_safe fs d R (ni_state ni) (noinit_skip ni wt)"
  using assms skip_field_adv by (auto simp: noinit_skip_def noinit_inv_def split: prod.split)

lemma unknown_step_safe:
  assumes ok: "static_ok (Suc n) (dw_fields w) fs sz" and i: "i < nfields fs" "ni_iter ni = iter_at fs d i"
    and tag: "tag < 0xffffffff"
  shows "step_safe fs d R (ni_state ni) (noinit_unknown m decode noinit w ni tag wt)"
proof -
  have fs: "fields_ok fs" using static_ok_fields [OF ok] by simp
  have noext: "PB_LTYPE (pf_type (fs ! k)) \<noteq> 9" if "k < nfields fs" for k
    using static_okD(3) [OF ok that] by (simp add: field_fits_def)
  have "find_extension_field (iter_at fs d i) = Some (False, iter_at fs d i)"
    using iter_find_ok [OF fs i(1), of "\<lambda>f. PB_LTYPE (pf_type f) = PB_LTYPE_EXTENSION" d] noext
    by (auto simp: find_extension_field_def)
  moreover have "field_at fs i = Some (fs ! i)" using fs i by (simp add: field_at_ok)
  moreover let ?ni = "ni\<lparr>ni_iter := iter_at fs d i, ni_local := False, ni_extension_range_start := 0xffffffff\<rparr>"
  have "step_safe fs d R (ni_state ni) (noinit_skip ?ni wt)"
    using skip_step_safe [of i fs ?ni] i by simp
  ultimately show ?thesis
    using tag i skip_step_safe [OF i] by (auto simp: noinit_unknown_def Let_def)
qed

lemma found_step_safe:
  assumes ok: "static_ok (Suc n) (dw_fields w) fs sz" and i: "i < nfields fs" "ni_iter ni = iter_at fs d i"
    and d: "block d sz" "region d sz \<subseteq> R" and b: "bounded (fst (ni_state ni))"
    and dec: "decodes_safely n w R decode" "decodes_safely n w R noinit"
  shows "step_safe fs d R (ni_state ni) (noinit_found (Suc n) decode noinit w ni wt)"
proof -
  have at: "field_at fs i = Some (fs ! i)" using static_ok_fields [OF ok] i by (simp add: field_at_ok)
  have field: "\<exists>ok' s' k. decode_field (Suc n) decode noinit w (fst (ni_state ni), sr) wt local (iter_at fs d i) =
      Some (ok', s', iter_at fs d k) \<and> k < nfields fs \<and> adv (fst (ni_state ni)) (fst s') \<and> only R (snd (ni_state ni)) (snd s')"
    if "only R (snd (ni_state ni)) sr" for sr local
    using decode_field_safe [OF ok i(1) d _ dec, of "(fst (ni_state ni), sr)" wt local] b only_trans [OF that] by fastforce
  let ?f = "fs ! i" and ?sr = "snd (ni_state ni)" and ?fixed_field = "ni_fixed_count_field ni"
  define fixed where "fixed = (PB_HTYPE (pf_type ?f) = PB_HTYPE_REPEATED \<and> \<not> ni_local ni \<and> snd (place fs d i) = fst (place fs d i))"
  define bad where "bad = (fixed \<and> ?fixed_field \<noteq> Some i \<and> ?fixed_field \<noteq> None \<and>
      sr_fixed_count_size ?sr \<noteq> pf_array_size (fs ! the ?fixed_field))"
  define ni1 where "ni1 = (if fixed \<and> ?fixed_field \<noteq> Some i
      then ni\<lparr>ni_fixed_count_field := Some i, ni_state := (fst (ni_state ni), ?sr\<lparr>sr_fixed_count_size := 0\<rparr>)\<rparr> else ni)"
  define seen where "seen = (if PB_HTYPE (pf_type ?f) = PB_HTYPE_REQUIRED
      then mark_required (pi_required_field_index (iter_at fs d i)) (ni_fields_seen ni1) else ni_fields_seen ni1)"
  have eq: "noinit_found (Suc n) decode noinit w ni wt =
      (if bad then Some (Return False, ni\<lparr>ni_state := snd (dec_error ''wrong size for fixed count field'' (ni_state ni))\<rparr>)
       else do {
         (ok, s2, it2) \<leftarrow> decode_field (Suc n) decode noinit w (ni_state ni1) wt (ni_local ni \<or> fixed) (iter_at fs d i);
         Some (if ok then Continue else Return False,
               ni1\<lparr>ni_state := s2, ni_iter := it2, ni_local := ni_local ni \<or> fixed, ni_fields_seen := seen\<rparr>)
       })"
    unfolding noinit_found_def i(2) iter_at_sel at Let_def Option.bind.simps bad_def fixed_def [symmetric] ni1_def seen_def by simp
  show ?thesis
  proof (cases bad)
    case True
    then show ?thesis using i by (auto simp: eq noinit_inv_def dec_error_def)
  next
    case False
    have "ni_state ni1 = (fst (ni_state ni), snd (ni_state ni1))" "only R ?sr (snd (ni_state ni1))"
      by (simp_all add: ni1_def)
    with field obtain ok' s' k where s': "decode_field (Suc n) decode noinit w (ni_state ni1) wt (ni_local ni \<or> fixed) (iter_at fs d i) =
        Some (ok', s', iter_at fs d k)" "k < nfields fs" "adv (fst (ni_state ni)) (fst s')" "only R ?sr (snd s')" by metis
    then show ?thesis using False by (auto simp: eq noinit_inv_def)
  qed
qed

lemma noinit_step_safe:
  assumes ok: "static_ok (Suc n) (dw_fields w) fs sz" and d: "block d sz" "region d sz \<subseteq> R"
    and b: "bounded (fst (ni_state ni))" and dec: "decodes_safely n w R decode" "decodes_safely n w R noinit"
    and i: "i < nfields fs" "ni_iter ni = iter_at fs d i"
  shows "\<exists>y ni1. noinit_step (Suc n) decode noinit w ni = Some (y, ni1) \<and> noinit_inv fs d R (ni_state ni) ni1 \<and>
           (y = Continue \<longrightarrow> is_bytes_left (fst (ni_state ni1)) < is_bytes_left (fst (ni_state ni)))"
proof -
  obtain tg st1 where tg: "pb_decode_tag (fst (ni_state ni)) = (tg, st1)" by fastforce
  note a = decode_tag_adv [OF tg]
  let ?ni1 = "ni\<lparr>ni_state := (st1, snd (ni_state ni))\<rparr>"
  show ?thesis
  proof (cases "tg_ok tg")
    case False
    then show ?thesis using tg a(1) i by (auto simp: noinit_step_def noinit_inv_def)
  next
    case True
    have fs: "fields_ok fs" using static_ok_fields [OF ok] by simp
    obtain found k where k: "pb_field_iter_find (iter_at fs d i) (tg_tag tg) = Some (found, iter_at fs d k)" "k < nfields fs"
      using iter_find_ok [OF fs i(1)] unfolding pb_field_iter_find_def iter_at_sel by blast
    define ni2 where "ni2 = ?ni1\<lparr>ni_iter := iter_at fs d k, ni_local := ni_local ni \<and> found \<and> k = i\<rparr>"
    then have ni2: "ni_iter ni2 = iter_at fs d k" "ni_state ni2 = (st1, snd (ni_state ni))" by simp_all
    have b1: "bounded st1" using adv_bounded [OF a(1) b] .
    have "step_safe fs d R (ni_state ni2) (if \<not> found then noinit_unknown (Suc n) decode noinit w ni2 (tg_tag tg) (tg_wire_type tg)
        else noinit_found (Suc n) decode noinit w ni2 (tg_wire_type tg))"
      using unknown_step_safe [OF ok k(2) ni2(1) a(3) [OF True]] found_step_safe [OF ok k(2) ni2(1) d _ dec] b1 ni2(2) by simp
    moreover have "noinit_step (Suc n) decode noinit w ni =
        (if \<not> found then noinit_unknown (Suc n) decode noinit w ni2 (tg_tag tg) (tg_wire_type tg)
         else noinit_found (Suc n) decode noinit w ni2 (tg_wire_type tg))"
      using True tg k i by (simp add: noinit_step_def Let_def ni2_def)
    ultimately obtain y ni1 where y: "noinit_step (Suc n) decode noinit w ni = Some (y, ni1)"
      "noinit_inv fs d R (st1, snd (ni_state ni)) ni1" unfolding ni2(2) step_safe_def by auto
    have "adv1 (fst (ni_state ni)) (fst (ni_state ni1))" using adv1_trans [OF a(2) [OF True]] y(2) by (simp add: noinit_inv_def)
    moreover have "noinit_inv fs d R (ni_state ni) ni1" using noinit_inv_mono [OF y(2)] a(1) by simp
    ultimately show ?thesis using y(1) by (simp add: adv1_def)
  qed
qed

text \<open>The count of the required fields, as \<open>noinit_finish\<close> takes it.\<close>

lemma count_required_ok:
  assumes fs: "fields_ok fs" and i: "i < nfields fs"
  shows "count_required (iter_at fs d i) = Some (word_of_nat (required_before fs (nfields fs)), iter_at fs d 0)"
proof -
  let ?n = "nfields fs" and ?l = "nfields fs - 1"
  let ?Q = "\<lambda>x. fst x = iter_at fs d 0 \<and> snd x = (word_of_nat (required_before fs ?l), pf_type (fs ! ?l))"
  let ?body = "\<lambda>(it, _ :: u32 \<times> byte). do {
       f \<leftarrow> field_at (pi_start it) (pi_pos it);
       (again, it1) \<leftarrow> pb_field_iter_next it;
       Some (if again then Continue else (Break :: unit step), (it1, (pi_required_field_index it, pf_type f)))
     }"
  have "\<exists>r x. c_loop (\<lambda>_. True) ?body (iter_at fs d i, (0, 0)) = Some (r, x) \<and> ?Q x"
  proof (rule c_loop_rule [where I = "\<lambda>x. \<exists>j. j < ?n \<and> fst x = iter_at fs d j" and f = "\<lambda>x. ?n - pi_pos (fst x)"])
    fix x :: "pb_field_iter \<times> u32 \<times> byte" assume "\<exists>j. j < ?n \<and> fst x = iter_at fs d j"
    then obtain j c where j: "j < ?n" "x = (iter_at fs d j, c)" by (cases x) auto
    have at: "field_at fs j = Some (fs ! j)" using fs j(1) by (simp add: field_at_ok)
    have body: "?body x = Some (if Suc j < ?n then Continue else Break,
        (iter_at fs d (Suc j mod ?n), (pi_required_field_index (iter_at fs d j), pf_type (fs ! j))))"
      using iter_next_ok [OF fs j(1), of d] at by (simp add: j(2))
    show "\<exists>y x1. ?body x = Some (y, x1) \<and> (case y of
        Continue \<Rightarrow> (\<exists>j. j < ?n \<and> fst x1 = iter_at fs d j) \<and> ?n - pi_pos (fst x1) < ?n - pi_pos (fst x)
      | Break \<Rightarrow> ?Q x1 | Return r \<Rightarrow> ?Q x1)"
    proof (cases "Suc j < ?n")
      case True
      then show ?thesis unfolding body using j by auto
    next
      case False
      then have Sj: "Suc j = ?n" using j(1) by simp
      then have "j = ?l" "Suc j mod ?n = 0" by (arith, metis mod_self)
      then show ?thesis unfolding body using False by (auto simp: iter_at_def)
    qed
  qed (use i in auto)
  then obtain r where r: "c_loop (\<lambda>_. True) ?body (iter_at fs d i, (0, 0)) =
      Some (r, (iter_at fs d 0, (word_of_nat (required_before fs ?l), pf_type (fs ! ?l))))" by auto
  have n: "?n = Suc ?l" using i by simp
  have "required_before fs ?n = required_before fs ?l + (if PB_HTYPE (pf_type (fs ! ?l)) = PB_HTYPE_REQUIRED then 1 else 0)"
    using i fs by (subst n) (rule required_before_Suc, simp add: fields_ok_length)
  moreover have "field_at fs 0 = Some (fs ! 0)" "pf_tag (fs ! 0) \<noteq> 0"
    using fs i fields_ok_tag(1) [OF fs, of 0] by (simp_all add: field_at_ok)
  ultimately show ?thesis by (simp add: count_required_def r)
qed

lemma finish_safe:
  assumes "fields_ok fs" "i < nfields fs" "ni_iter ni = iter_at fs d i"
  shows "safe R (ni_state ni) (noinit_finish ni)"
  using count_required_ok [OF assms(1,2), of d] assms(3) by (auto simp: noinit_finish_def) (auto simp: safe_def)

lemma noinit_safe: "decodes_safely n w R (pb_decode_noinit n w)"
  and decode_with_safe: "decodes_safely n w R (decode_with n (pb_decode_noinit n w) w)"
proof (induction n)
  case 0
  show "decodes_safely 0 w R (pb_decode_noinit 0 w)" "decodes_safely 0 w R (decode_with 0 (pb_decode_noinit 0 w) w)"
    by (simp_all add: decodes_safely_def)
next
  case (Suc n)
  show noinit: "decodes_safely (Suc n) w R (pb_decode_noinit (Suc n) w)"
    unfolding decodes_safely_def
  proof (intro allI impI)
    fix s :: "('a, 'b) dstate" and fs k d
    assume ok: "static_ok (Suc n) (dw_fields w) fs k" and d: "block d k" "region d k \<subseteq> R" and b: "bounded (fst s)"
    have fs: "fields_ok fs" "0 < nfields fs" using static_okD [OF ok] by blast+
    define ni where "ni = \<lparr>ni_state = (fst s, (snd s)\<lparr>sr_fixed_count_size := 0\<rparr>), ni_iter = iter_at fs d 0, ni_local = False,
        ni_fields_seen = [0, 0], ni_extension_range_start = 0, ni_fixed_count_field = None\<rparr>"
    let ?step = "noinit_step (Suc n) (decode_with n (pb_decode_noinit n w) w) (pb_decode_noinit n w) w"
    have "\<exists>r ni1. c_loop (\<lambda>ni. is_bytes_left (fst (ni_state ni)) \<noteq> 0) ?step ni = Some (r, ni1) \<and> noinit_inv fs d R s ni1"
    proof (rule c_loop_rule [where I = "noinit_inv fs d R s" and f = "\<lambda>ni. is_bytes_left (fst (ni_state ni))"])
      fix ni assume I: "noinit_inv fs d R s ni"
      then obtain i where i: "i < nfields fs" "ni_iter ni = iter_at fs d i" by (auto simp: noinit_inv_def)
      have b1: "bounded (fst (ni_state ni))" using I adv_bounded b by (auto simp: noinit_inv_def)
      from noinit_step_safe [OF ok d b1 Suc(2) Suc(1) i] obtain y ni1 where y: "?step ni = Some (y, ni1)"
        "noinit_inv fs d R (ni_state ni) ni1"
        "y = Continue \<longrightarrow> is_bytes_left (fst (ni_state ni1)) < is_bytes_left (fst (ni_state ni))" by blast
      have "adv (fst s) (fst (ni_state ni))" "only R (snd s) (snd (ni_state ni))" using I by (simp_all add: noinit_inv_def)
      then have "noinit_inv fs d R s ni1" by (rule noinit_inv_mono [OF y(2)])
      then show "\<exists>y ni1. ?step ni = Some (y, ni1) \<and> (case y of
          Continue \<Rightarrow> noinit_inv fs d R s ni1 \<and> is_bytes_left (fst (ni_state ni1)) < is_bytes_left (fst (ni_state ni))
        | Break \<Rightarrow> noinit_inv fs d R s ni1 | Return r \<Rightarrow> noinit_inv fs d R s ni1)"
        using y(1,3) by (auto split: step.split)
    qed (use fs in \<open>auto simp: ni_def noinit_inv_def\<close>)
    then obtain r ni1 where r: "c_loop (\<lambda>ni. is_bytes_left (fst (ni_state ni)) \<noteq> 0) ?step ni = Some (r, ni1)"
      and I: "noinit_inv fs d R s ni1" by blast
    obtain i where i: "i < nfields fs" "ni_iter ni1 = iter_at fs d i" using I by (auto simp: noinit_inv_def)
    have "safe R (ni_state ni1) (case r of Some b \<Rightarrow> Some (b, ni_state ni1) | None \<Rightarrow> noinit_finish ni1)"
      using finish_safe [OF fs(1) i] by (cases r; cases "ni_state ni1") (simp_all add: safe_Some)
    then obtain ok' s2 where s2: "(case r of Some b \<Rightarrow> Some (b, ni_state ni1) | None \<Rightarrow> noinit_finish ni1) = Some (ok', s2)"
      "adv (fst (ni_state ni1)) (fst s2)" "only R (snd (ni_state ni1)) (snd s2)" by (auto simp: safe_def)
    have "adv (fst s) (fst s2)" "only R (snd s) (snd s2)" using s2(2,3) I adv_trans only_trans unfolding noinit_inv_def by blast+
    moreover have "pb_decode_noinit (Suc n) w s fs d =
        Some (ok', (fst s2, (snd s2)\<lparr>sr_fixed_count_size := sr_fixed_count_size (snd s)\<rparr>))"
      using r s2(1) iter_begin_ok [OF fs(1), of d] by (simp add: ni_def Let_def)
    ultimately show "safe R s (pb_decode_noinit (Suc n) w s fs d)" by (simp add: safe_Some)
  qed
  show "decodes_safely (Suc n) w R (decode_with (Suc n) (pb_decode_noinit (Suc n) w) w)"
    unfolding decodes_safely_def
  proof (intro allI impI)
    fix s :: "('a, 'b) dstate" and fs k d
    assume ok: "static_ok (Suc n) (dw_fields w) fs k" and d: "block d k" "region d k \<subseteq> R" and b: "bounded (fst s)"
    obtain sr1 where sr1: "pb_message_set_to_defaults (Suc n) w fs d (snd s) = Some sr1" "only R (snd s) sr1"
      using set_to_defaults_only [OF ok d] by blast
    have "safe R (fst s, sr1) (pb_decode_noinit (Suc n) w (fst s, sr1) fs d)"
      using noinit ok d b by (simp add: decodes_safely_def del: pb_decode_noinit.simps static_ok.simps)
    then obtain ok' s2 where s2: "pb_decode_noinit (Suc n) w (fst s, sr1) fs d = Some (ok', s2)"
      "adv (fst s) (fst s2)" "only R (snd s) (snd s2)" using only_trans [OF sr1(2)] by (auto simp: safe_def)
    show "safe R s (decode_with (Suc n) (pb_decode_noinit (Suc n) w) w s fs d)"
      unfolding decode_with_def using sr1 s2 release_static [OF ok]
      by (cases s2) (simp add: safe_Some del: pb_decode_noinit.simps)
  qed
qed

end
