(* ===== verification/PbFields.thy ===== *)
theory PbFields
  imports PbCodec
begin

unbundle bit_operations_syntax

text \<open>
  Fields on the wire, written and read with nanopb's encoders and decoders, and the properties of the
  wire format: round trips, skipping, substreams, bounds, and the overflows that the varint decoders miss.
\<close>

section \<open>Fields\<close>

text \<open>
  A field of a message on the wire: its number, and a value of one of the four wire types. The client
  below writes and reads fields with the functions of the library, the way generated code does.
\<close>

datatype wire_value = WVarint u64 | WFixed64 u64 | WString "byte list" | WFixed32 u32

fun value_type :: "wire_value \<Rightarrow> u32" where
  "value_type (WVarint v) = PB_WT_VARINT"
| "value_type (WFixed64 v) = PB_WT_64BIT"
| "value_type (WString bs) = PB_WT_STRING"
| "value_type (WFixed32 v) = PB_WT_32BIT"

fun value_bytes :: "wire_value \<Rightarrow> byte list" where
  "value_bytes (WVarint v) = varint_bytes (unat v)"
| "value_bytes (WFixed64 v) = fixed64_le v"
| "value_bytes (WString bs) = varint_bytes (length bs) @ bs"
| "value_bytes (WFixed32 v) = fixed32_le v"

fun encode_value :: "wire_value \<Rightarrow> 's pb_ostream \<Rightarrow> bool \<times> 's pb_ostream" where
  "encode_value (WVarint v) st = pb_encode_varint st v"
| "encode_value (WFixed64 v) st = pb_encode_fixed64 st v"
| "encode_value (WString bs) st = pb_encode_string st bs (length bs)"
| "encode_value (WFixed32 v) st = pb_encode_fixed32 st v"

definition encode_wire_field :: "u32 \<times> wire_value \<Rightarrow> 's pb_ostream \<Rightarrow> bool \<times> 's pb_ostream" where
  "encode_wire_field f st =
     (case pb_encode_tag st (value_type (snd f)) (fst f) of
        (False, st1) \<Rightarrow> (False, st1)
      | (True, st1) \<Rightarrow> encode_value (snd f) st1)"

fun encode_wire :: "(u32 \<times> wire_value) list \<Rightarrow> 's pb_ostream \<Rightarrow> bool \<times> 's pb_ostream" where
  "encode_wire [] st = (True, st)"
| "encode_wire (f # fs) st =
     (case encode_wire_field f st of (False, st1) \<Rightarrow> (False, st1) | (True, st1) \<Rightarrow> encode_wire fs st1)"

definition decode_value :: "u32 \<Rightarrow> 's pb_istream \<Rightarrow> wire_value option \<times> 's pb_istream" where
  "decode_value wt st =
     (if wt = PB_WT_VARINT then (case pb_decode_varint st of (r, st1) \<Rightarrow> (map_option WVarint r, st1))
      else if wt = PB_WT_64BIT then (case pb_decode_fixed64 st of (r, st1) \<Rightarrow> (map_option WFixed64 r, st1))
      else if wt = PB_WT_STRING then
        (case pb_decode_varint32 st of
           (None, st1) \<Rightarrow> (None, st1)
         | (Some len, st1) \<Rightarrow> (case pb_read st1 False (unat len) of (r, st2) \<Rightarrow> (map_option WString r, st2)))
      else if wt = PB_WT_32BIT then (case pb_decode_fixed32 st of (r, st1) \<Rightarrow> (map_option WFixed32 r, st1))
      else (None, st))"

text \<open>Reading \<open>n\<close> fields, of which those that \<open>want\<close> refuses are skipped.\<close>

fun decode_wire :: "(u32 \<Rightarrow> bool) \<Rightarrow> nat \<Rightarrow> 's pb_istream \<Rightarrow> (u32 \<times> wire_value) list option \<times> 's pb_istream" where
  "decode_wire want 0 st = (Some [], st)"
| "decode_wire want (Suc n) st =
     (case pb_decode_tag st of
        (t, st1) \<Rightarrow>
          if \<not> tg_ok t then (None, st1)
          else if want (tg_tag t) then
            (case decode_value (tg_wire_type t) st1 of
               (None, st2) \<Rightarrow> (None, st2)
             | (Some v, st2) \<Rightarrow>
                 (case decode_wire want n st2 of (r, st3) \<Rightarrow> (map_option ((#) (tg_tag t, v)) r, st3)))
          else (case pb_skip_field st1 (tg_wire_type t) of
                  (ok, st2) \<Rightarrow> if ok then decode_wire want n st2 else (None, st2)))"

definition field_ok :: "u32 \<times> wire_value \<Rightarrow> bool" where
  "field_ok f \<longleftrightarrow> fst f \<noteq> 0 \<and> unat (fst f) < 2 ^ 29 \<and> (case snd f of WString bs \<Rightarrow> length bs < 2 ^ 32 | _ \<Rightarrow> True)"

definition field_bytes :: "u32 \<times> wire_value \<Rightarrow> byte list" where
  "field_bytes f = varint_bytes (unat (fst f) * 8 + unat (value_type (snd f))) @ value_bytes (snd f)"

lemma encode_value_fun:
  "encode_value (WVarint v) = (\<lambda>st. pb_encode_varint st v)"
  "encode_value (WFixed64 w) = (\<lambda>st. pb_encode_fixed64 st w)"
  "encode_value (WString bs) = (\<lambda>st. pb_encode_string st bs (length bs))"
  "encode_value (WFixed32 u) = (\<lambda>st. pb_encode_fixed32 st u)"
  by (rule ext, simp)+

lemma value_type_less: "unat (value_type v) < 8"
  by (cases v) simp_all

context pb_sink
begin

lemma emits_value: "field_ok (n, v) \<Longrightarrow> emits (encode_value v) (value_bytes v)"
proof (cases v)
  case (WString bs)
  assume "field_ok (n, v)"
  then have "length bs < SIZE_BOUND" using WString by (simp add: field_ok_def)
  then show ?thesis using emits_string [of bs] WString by (simp add: encode_value_fun)
qed (use emits_varint emits_fixed64 emits_fixed32 in \<open>simp_all add: encode_value_fun\<close>)

lemma emits_field: "field_ok f \<Longrightarrow> emits (encode_wire_field f) (field_bytes f)"
proof -
  assume "field_ok f"
  then have v: "emits (encode_value (snd f)) (value_bytes (snd f))" using emits_value [of "fst f" "snd f"] by simp
  show ?thesis
    using emits_seq [OF emits_tag [of "value_type (snd f)" "fst f"] v] tag_word [OF value_type_less, of "fst f" "snd f"]
    by (simp add: encode_wire_field_def [abs_def] field_bytes_def)
qed

lemma emits_wire: "\<forall>f \<in> set fs. field_ok f \<Longrightarrow> emits (encode_wire fs) (concat (map field_bytes fs))"
proof (induction fs)
  case Nil
  have "encode_wire [] = (\<lambda>st. (True, st))" by (rule ext) simp
  then show ?case by (auto simp: emits_def sinks_def size_add_def)
next
  case (Cons f fs)
  have "encode_wire (f # fs) = (\<lambda>st. case encode_wire_field f st of (False, st1) \<Rightarrow> (False, st1) | (True, st1) \<Rightarrow> encode_wire fs st1)"
    by (rule ext) simp
  then show ?case using emits_seq [OF emits_field [of f] Cons.IH] Cons.prems by simp
qed

end

context pb_source
begin

lemma value_ok:
  assumes "holds st (value_bytes v @ rest)" and "field_ok (n, v)"
  obtains st' where "decode_value (value_type v) st = (Some v, st')" "leaves st st' rest"
proof (cases v)
  case (WVarint x)
  then have "holds st (varint_bytes (unat x) @ rest)" using assms(1) by simp
  from varint_ok [OF this] obtain st' where "pb_decode_varint st = (Some x, st')" "leaves st st' rest" .
  then show thesis using that WVarint by (simp add: decode_value_def)
next
  case (WFixed64 x)
  then have "holds st (fixed64_le x @ rest)" using assms(1) by simp
  from fixed64_ok [OF this] obtain st' where "pb_decode_fixed64 st = (Some x, st')" "leaves st st' rest" .
  then show thesis using that WFixed64 by (simp add: decode_value_def)
next
  case (WFixed32 x)
  then have "holds st (fixed32_le x @ rest)" using assms(1) by simp
  from fixed32_ok [OF this] obtain st' where "pb_decode_fixed32 st = (Some x, st')" "leaves st st' rest" .
  then show thesis using that WFixed32 by (simp add: decode_value_def)
next
  case (WString bs)
  have l: "length bs < 2 ^ 32" using assms(2) WString by (simp add: field_ok_def)
  have "holds st (varint_bytes (length bs) @ bs @ rest)" using assms(1) WString by simp
  from varint32_ok [OF this l] obtain st1 where s1: "pb_decode_varint32 st = (Some (word_of_nat (length bs)), st1)"
    "leaves st st1 (bs @ rest)" .
  have "unat (word_of_nat (length bs) :: u32) = length bs" using l by (simp add: unat_word_of_nat)
  moreover from read_ok [OF leaves_holds [OF s1(2)]] obtain st2 where
    "pb_read st1 False (length bs) = (Some bs, st2)" "leaves st1 st2 rest" .
  ultimately show thesis using that [OF _ leaves_trans [OF s1(2)]] s1(1) WString by (simp add: decode_value_def)
qed

lemma skip_value_ok:
  assumes "holds st (value_bytes v @ rest)" and "field_ok (n, v)"
  obtains st' where "pb_skip_field st (value_type v) = (True, st')" "leaves st st' rest"
proof (cases v)
  case (WVarint x)
  then have "holds st (varint_bytes (unat x) @ rest)" using assms(1) by simp
  from skip_varint_ok [OF this] obtain st' where "pb_skip_varint st = (True, st')" "leaves st st' rest" by blast
  then show thesis using that WVarint by (simp add: pb_skip_field_def)
next
  case (WFixed64 x)
  then have "holds st (fixed64_le x @ rest)" using assms by simp
  from skip_ok [OF this] obtain r st' where "pb_read st True 8 = (Some r, st')" "leaves st st' rest" by auto
  then show thesis using that WFixed64 by (simp add: pb_skip_field_def)
next
  case (WFixed32 x)
  then have "holds st (fixed32_le x @ rest)" using assms by simp
  from skip_ok [OF this] obtain r st' where "pb_read st True 4 = (Some r, st')" "leaves st st' rest" by auto
  then show thesis using that WFixed32 by (simp add: pb_skip_field_def)
next
  case (WString bs)
  have l: "length bs < 2 ^ 32" using assms(2) WString by (simp add: field_ok_def)
  have "holds st (varint_bytes (length bs) @ bs @ rest)" using assms(1) WString by simp
  from skip_string_ok [OF this l] obtain st' where "pb_skip_string st = (True, st')" "leaves st st' rest" .
  then show thesis using that WString by (simp add: pb_skip_field_def)
qed

lemma decode_wire_ok:
  "holds st (concat (map field_bytes fs) @ rest) \<Longrightarrow> \<forall>f \<in> set fs. field_ok f \<Longrightarrow>
   \<exists>st'. decode_wire want (length fs) st = (Some (filter (\<lambda>f. want (fst f)) fs), st') \<and> leaves st st' rest"
proof (induction fs arbitrary: st)
  case Nil
  then show ?case by (simp add: leaves_refl)
next
  case (Cons f fs)
  obtain n v where f: "f = (n, v)" by fastforce
  have ok: "field_ok (n, v)" "n \<noteq> 0" "unat n < 2 ^ 29" using Cons.prems(2) f by (auto simp: field_ok_def)
  have oks: "\<forall>f \<in> set fs. field_ok f" using Cons.prems(2) by simp
  let ?rest = "concat (map field_bytes fs) @ rest"
  have "holds st (varint_bytes (unat n * 8 + unat (value_type v)) @ (value_bytes v @ ?rest))"
    using Cons.prems(1) f by (simp add: field_bytes_def [of "(n, v)"])
  from tag_ok [OF this value_type_less ok(2,3)] obtain st1 where
    s1: "pb_decode_tag st = (\<lparr>tg_ok = True, tg_wire_type = value_type v, tg_tag = n, tg_eof = False\<rparr>, st1)"
      "leaves st st1 (value_bytes v @ ?rest)" .
  show ?case
  proof (cases "want n")
    case True
    from value_ok [OF leaves_holds [OF s1(2)] ok(1)] obtain st2 where
      s2: "decode_value (value_type v) st1 = (Some v, st2)" "leaves st1 st2 ?rest" .
    from Cons.IH [OF leaves_holds [OF s2(2)] oks] obtain st3 where
      s3: "decode_wire want (length fs) st2 = (Some (filter (\<lambda>f. want (fst f)) fs), st3)" "leaves st2 st3 rest" by blast
    have "leaves st st3 rest" using leaves_trans [OF s1(2) leaves_trans [OF s2(2) s3(2)]] .
    then show ?thesis using s1(1) s2(1) s3(1) f True by simp
  next
    case False
    from skip_value_ok [OF leaves_holds [OF s1(2)] ok(1)] obtain st2 where
      s2: "pb_skip_field st1 (value_type v) = (True, st2)" "leaves st1 st2 ?rest" .
    from Cons.IH [OF leaves_holds [OF s2(2)] oks] obtain st3 where
      s3: "decode_wire want (length fs) st2 = (Some (filter (\<lambda>f. want (fst f)) fs), st3)" "leaves st2 st3 rest" by blast
    have "leaves st st3 rest" using leaves_trans [OF s1(2) leaves_trans [OF s2(2) s3(2)]] .
    then show ?thesis using s1(1) s2(1) s3(1) f False by simp
  qed
qed

lemma tag_eof:
  assumes "holds st []"
  shows "tg_ok (fst (pb_decode_tag st)) = False \<and> tg_eof (fst (pb_decode_tag st))"
  using assms by (simp add: pb_decode_tag_def pb_decode_varint32_eof_def readbyte_eof is_set_error_def holds_def)

end


section \<open>Properties\<close>

lemma buffer_sinks:
  "sz \<le> length mem \<Longrightarrow> sz < SIZE_BOUND \<Longrightarrow> buf.sinks (pb_ostream_from_buffer mem sz)"
  unfolding buf.sinks_def by (simp add: pb_ostream_from_buffer_def SIZE_T_MAX_def)

lemma buffer_holds: "n \<le> length mem \<Longrightarrow> src.holds (pb_istream_from_buffer mem n) (take n mem)"
  by (simp add: src.holds_def pb_istream_from_buffer_def)

text \<open>What an encoder leaves in a buffer is what a stream over that buffer holds.\<close>

lemma encode_buffer:
  assumes "buf.emits enc bs" and "length bs \<le> sz" "sz \<le> length mem" "sz < SIZE_BOUND"
  obtains st where "enc (pb_ostream_from_buffer mem sz) = (True, st)" "os_bytes_written st = length bs"
    "src.holds (pb_istream_from_buffer (fst (os_state st)) (os_bytes_written st)) bs" "os_errmsg st = None"
proof -
  let ?st = "pb_ostream_from_buffer mem sz"
  have fits: "os_bytes_written ?st + length bs \<le> os_max_size ?st" using assms(2) by (simp add: pb_ostream_from_buffer_def)
  from buf.emits_fits [OF assms(1) buffer_sinks [OF assms(3,4)] fits] obtain st where
    s: "enc ?st = (True, st)" "buf.sinks st"
      "(case os_state st of (mem, pos) \<Rightarrow> take pos mem) = (case os_state ?st of (mem, pos) \<Rightarrow> take pos mem) @ bs"
      "os_bytes_written st = os_bytes_written ?st + length bs" "os_errmsg ?st = None \<longrightarrow> os_errmsg st = None" .
  obtain mem' pos where m: "os_state st = (mem', pos)" by fastforce
  have out: "take pos mem' = bs" using s(3) m by (simp add: pb_ostream_from_buffer_def)
  then have "length bs \<le> length mem'" by (metis length_take min.cobounded1)
  moreover have "take (length bs) mem' = bs" using out by (metis append_eq_conv_conj append_take_drop_id)
  ultimately show thesis using that [OF s(1)] s(4,5) m buffer_holds [of "length bs" mem'] by (simp add: pb_ostream_from_buffer_def)
qed

text \<open>
  C28. Protobuf fields survive the wire. Any list of fields with numbers from 1 to \<open>2 ^ 29 - 1\<close> and values of
  the four wire types, written with nanopb's encoders into a buffer that is large enough, fills exactly
  the announced number of bytes, the number that a sizing stream counts; and nanopb's decoders,
  reading the buffer back, return the same fields, skipping those that are not wanted, and report the
  end of the message where it is.
\<close>

theorem pb_fields_roundtrip:
  assumes "\<forall>f \<in> set fs. field_ok f" and "length (concat (map field_bytes fs)) \<le> sz" "sz \<le> length mem" "sz < SIZE_BOUND"
  shows "\<exists>st st'. encode_wire fs (pb_ostream_from_buffer mem sz) = (True, st) \<and>
    encode_wire fs (PB_OSTREAM_SIZING ([] :: byte list, 0 :: nat)) =
      (True, (PB_OSTREAM_SIZING ([] :: byte list, 0 :: nat))\<lparr>os_bytes_written := os_bytes_written st\<rparr>) \<and>
    decode_wire want (length fs) (pb_istream_from_buffer (fst (os_state st)) (os_bytes_written st)) =
      (Some (filter (\<lambda>f. want (fst f)) fs), st') \<and>
    is_bytes_left st' = 0 \<and> is_errmsg st' = None \<and> tg_eof (fst (pb_decode_tag st'))"
proof -
  note em = buf.emits_wire [OF assms(1)]
  from encode_buffer [OF em assms(2-4)] obtain st where
    s: "encode_wire fs (pb_ostream_from_buffer mem sz) = (True, st)" "os_bytes_written st = length (concat (map field_bytes fs))"
      "src.holds (pb_istream_from_buffer (fst (os_state st)) (os_bytes_written st)) (concat (map field_bytes fs))" .
  have sizing: "encode_wire fs (PB_OSTREAM_SIZING ([] :: byte list, 0 :: nat)) =
      (True, (PB_OSTREAM_SIZING ([] :: byte list, 0 :: nat))\<lparr>os_bytes_written := os_bytes_written st\<rparr>)"
    using buf.emits_sizing [OF em, of "PB_OSTREAM_SIZING ([] :: byte list, 0 :: nat)"] size_add_small [of 0] assms(2,4) s(2)
    by (simp add: PB_OSTREAM_SIZING_def)
  have "src.holds (pb_istream_from_buffer (fst (os_state st)) (os_bytes_written st)) (concat (map field_bytes fs) @ [])"
    using s(3) by simp
  from src.decode_wire_ok [OF this assms(1), of want] obtain st' where
    d: "decode_wire want (length fs) (pb_istream_from_buffer (fst (os_state st)) (os_bytes_written st)) =
        (Some (filter (\<lambda>f. want (fst f)) fs), st')"
      "src.leaves (pb_istream_from_buffer (fst (os_state st)) (os_bytes_written st)) st' []" by blast
  have "is_bytes_left st' = 0" "is_errmsg st' = None"
    using d(2) by (simp_all add: src.leaves_def src.holds_def pb_istream_from_buffer_def)
  then show ?thesis using s(1) sizing d(1) src.tag_eof [OF src.leaves_holds [OF d(2)]] by blast
qed

text \<open>
  C30. The decoders rely on nothing but the documented contract of a stream's callback: over any callback
  that serves the bytes it has in order, a message is read as from a buffer, and not one byte past its
  end is asked for.
\<close>

theorem pb_decode_any_source:
  assumes contract: "\<And>s n. n \<le> length (remaining s) \<Longrightarrow>
      \<exists>s'. f s n = ((take n (remaining s), True), s') \<and> remaining s' = drop n (remaining s)"
    and fields: "\<forall>x \<in> set fs. field_ok x"
    and st: "is_callback st = Some f" "is_bytes_left st = length (concat (map field_bytes fs))"
      "remaining (is_state st) = concat (map field_bytes fs) @ beyond"
  shows "\<exists>st'. decode_wire want (length fs) st = (Some (filter (\<lambda>x. want (fst x)) fs), st') \<and>
    remaining (is_state st') = beyond \<and> is_bytes_left st' = 0"
proof -
  have loc: "pb_source (\<lambda>st. is_callback st = Some f) (\<lambda>st. remaining (is_state st))"
    by (rule callback_source) (rule contract)
  let ?good = "\<lambda>st. is_callback st = Some f" and ?avail = "\<lambda>st. remaining (is_state st)"
  have "pb_source.holds ?good ?avail st (concat (map field_bytes fs) @ [])"
    using st by (simp add: pb_source.holds_def [OF loc])
  from pb_source.decode_wire_ok [OF loc this fields, of want] obtain st' where
    "decode_wire want (length fs) st = (Some (filter (\<lambda>x. want (fst x)) fs), st')"
    "pb_source.leaves ?good ?avail st st' []" by blast
  then show ?thesis
    using st by (intro exI [of _ st']) (simp add: pb_source.leaves_def [OF loc] pb_source.holds_def [OF loc])
qed

text \<open>
  Signed integers survive the zigzag encoding, over their whole 64-bit range.
\<close>

lemma pb_svarint_roundtrip:
  assumes "10 \<le> length mem" "length mem < SIZE_BOUND"
  shows "\<exists>st. pb_encode_svarint (pb_ostream_from_buffer mem (length mem)) v = (True, st) \<and>
    fst (pb_decode_svarint (pb_istream_from_buffer (fst (os_state st)) (os_bytes_written st))) = Some v"
proof -
  let ?z = "if v <s 0 then NOT (push_bit 1 v) else push_bit 1 v"
  have "unat ?z < 128 ^ Suc 9" using unat_less_power [of ?z] by simp
  then have "length (varint_bytes (unat ?z)) \<le> length mem" using varint_bytes_length [of "unat ?z" 9] assms(1) by simp
  from encode_buffer [OF buf.emits_svarint this order_refl assms(2)] obtain st where
    s: "pb_encode_svarint (pb_ostream_from_buffer mem (length mem)) v = (True, st)"
      "src.holds (pb_istream_from_buffer (fst (os_state st)) (os_bytes_written st)) (varint_bytes (unat ?z))" .
  then have "src.holds (pb_istream_from_buffer (fst (os_state st)) (os_bytes_written st)) (varint_bytes (unat ?z) @ [])" by simp
  from src.svarint_ok [OF this] obtain st' where
    "pb_decode_svarint (pb_istream_from_buffer (fst (os_state st)) (os_bytes_written st)) = (Some v, st')" .
  then show ?thesis using s(1) by auto
qed

text \<open>
  C31. A substream confines its reader: it holds the string and nothing else, and whatever part of it the
  reader has consumed, closing it leaves the parent right behind the string.
\<close>

theorem pb_substream_confines:
  assumes "length bs < 2 ^ 32" and "buf = varint_bytes (length bs) @ bs @ rest"
  shows "\<exists>sub st1. pb_make_string_substream (pb_istream_from_buffer buf (length buf)) = (Some sub, st1) \<and>
    is_bytes_left sub = length bs \<and> fst (pb_read sub False (length bs + 1)) = None \<and>
    (\<forall>n \<le> length bs. \<exists>sub' st2 sub2. pb_read sub False n = (Some (take n bs), sub') \<and>
       pb_close_string_substream st1 sub' = (True, st2, sub2) \<and>
       is_bytes_left st2 = length rest \<and> is_source st2 = rest \<and> is_errmsg st2 = None)"
proof -
  let ?st = "pb_istream_from_buffer buf (length buf)"
  have h: "src.holds ?st (varint_bytes (length bs) @ bs @ rest)" using buffer_holds [of "length buf" buf] assms(2) by simp
  from src.substream_ok [OF h assms(1)] obtain sub st1 where s: "pb_make_string_substream ?st = (Some sub, st1)"
    "src.holds sub bs" "is_errmsg sub = is_errmsg ?st" and close: "\<forall>sub' bs'. src.leaves sub sub' bs' \<longrightarrow>
      (\<exists>st2 sub2. pb_close_string_substream st1 sub' = (True, st2, sub2) \<and> src.leaves ?st st2 rest)" .
  have short: "fst (pb_read sub False (length bs + 1)) = None" using src.read_short [OF s(2), of "length bs + 1"] by simp
  have "\<exists>sub' st2 sub2. pb_read sub False n = (Some (take n bs), sub') \<and>
       pb_close_string_substream st1 sub' = (True, st2, sub2) \<and>
       is_bytes_left st2 = length rest \<and> is_source st2 = rest \<and> is_errmsg st2 = None" if "n \<le> length bs" for n
  proof -
    have "src.holds sub (take n bs @ drop n bs)" using s(2) by simp
    from src.read_ok [OF this] that obtain sub' where r: "pb_read sub False n = (Some (take n bs), sub')"
      "src.leaves sub sub' (drop n bs)" by auto
    from close r(2) obtain st2 sub2 where "pb_close_string_substream st1 sub' = (True, st2, sub2)" "src.leaves ?st st2 rest" by blast
    then show ?thesis
      using r(1) assms(2) by (auto simp: src.leaves_def src.holds_def pb_istream_from_buffer_def)
  qed
  then show ?thesis using s short by (auto simp: src.holds_def)
qed

text \<open>
  C32. Writing to a buffer stream stays inside the buffer: after any sequence of writes, some of which may
  have failed, the memory behind the announced size is untouched and the count is within it.
\<close>

definition buffer_inv :: "byte list \<Rightarrow> nat \<Rightarrow> (byte list \<times> nat) pb_ostream \<Rightarrow> bool" where
  "buffer_inv mem sz st \<longleftrightarrow> os_callback st = Some buf_write \<and> os_max_size st = sz \<and> snd (os_state st) = os_bytes_written st \<and>
     os_bytes_written st \<le> sz \<and> length (fst (os_state st)) = length mem \<and> drop sz (fst (os_state st)) = drop sz mem"

lemma buffer_inv_write:
  assumes inv: "buffer_inv mem sz st" and sz: "sz \<le> length mem" "sz < SIZE_BOUND" and w: "length w < SIZE_BOUND"
  shows "buffer_inv mem sz (snd (pb_write st w (length w)))"
proof (cases "w = [] \<or> size_add (os_bytes_written st) (length w) < os_bytes_written st \<or> size_add (os_bytes_written st) (length w) > sz")
  case True
  then show ?thesis using inv by (auto simp: pb_write_def os_error_def buffer_inv_def)
next
  case False
  obtain m where m: "os_state st = (m, os_bytes_written st)" using inv by (cases "os_state st") (simp add: buffer_inv_def)
  have "os_bytes_written st + length w < SIZE_BOUND"
    using size_add_overflow [of "os_bytes_written st" "length w"] False inv sz w by (auto simp: buffer_inv_def)
  then have a: "size_add (os_bytes_written st) (length w) = os_bytes_written st + length w" by (rule size_add_small)
  then have fit: "os_bytes_written st + length w \<le> sz" using False by simp
  let ?m = "take (os_bytes_written st) m @ w @ drop (os_bytes_written st + length w) m"
  have "length ?m = length mem" "drop sz ?m = drop sz mem"
    using inv fit sz m by (auto simp: buffer_inv_def)
  then show ?thesis using inv False m a fit by (simp add: pb_write_def buf_write_def buffer_inv_def)
qed

theorem pb_write_in_bounds:
  assumes "sz \<le> length mem" "sz < SIZE_BOUND" and "\<forall>w \<in> set ws. length w < SIZE_BOUND"
    and "st = foldl (\<lambda>st w. snd (pb_write st w (length w))) (pb_ostream_from_buffer mem sz) ws"
  shows "length (fst (os_state st)) = length mem \<and> drop sz (fst (os_state st)) = drop sz mem \<and> os_bytes_written st \<le> sz"
proof -
  have "buffer_inv mem sz (foldl (\<lambda>st w. snd (pb_write st w (length w))) st0 ws)" if "buffer_inv mem sz st0" for st0
    using that assms(3)
  proof (induction ws arbitrary: st0)
    case (Cons w ws)
    have "buffer_inv mem sz (snd (pb_write st0 w (length w)))"
      by (rule buffer_inv_write [OF Cons.prems(1) assms(1,2)]) (use Cons.prems(2) in simp)
    then show ?case using Cons.IH Cons.prems(2) by simp
  qed simp
  moreover have "buffer_inv mem sz (pb_ostream_from_buffer mem sz)" by (simp add: buffer_inv_def pb_ostream_from_buffer_def)
  ultimately show ?thesis using assms(4) by (simp add: buffer_inv_def)
qed

text \<open>
  Three ways in which the varint decoders accept what they should refuse. The 32-bit decoder counts
  bits in an octet, which wraps after 37 bytes, so that a padded encoding of a number above \<open>2 ^ 64\<close> is
  read as 24; it drops bits 32 to 34 when the encoding goes on; and the 64-bit decoder drops the bits
  above 63 of the tenth byte.
\<close>

lemma pb_varint_overflow_missed:
  "fst (pb_decode_varint32 (pb_istream_from_buffer (replicate 37 0x80 @ [0x03]) 38)) = Some 24 \<and>
   fst (pb_decode_varint32 (pb_istream_from_buffer [0x81, 0x80, 0x80, 0x80, 0xf0, 0x00] 6)) = Some 1 \<and>
   fst (pb_decode_varint (pb_istream_from_buffer (replicate 9 0x80 @ [0x7e]) 10)) = Some 0"
  by code_simp

theorem pb_fields_roundtrip_witness:
  "\<exists>st. encode_wire [(1, WVarint 300), (2, WString [104, 105])] (pb_ostream_from_buffer (replicate 20 0) 20) = (True, st)"
proof -
  have "\<forall>f \<in> set [(1, WVarint 300), (2, WString [104, 105])]. field_ok f" by (simp add: field_ok_def)
  moreover have "length (concat (map field_bytes [(1, WVarint 300), (2, WString [104, 105])])) \<le> 20"
    by (simp add: field_bytes_def varint_bytes.simps)
  ultimately show ?thesis
    using pb_fields_roundtrip [of "[(1, WVarint 300), (2, WString [104, 105])]" 20 "replicate 20 0" "\<lambda>_. True"] by auto
qed

text \<open>A callback that keeps its contract: it reads from a list of bytes.\<close>

definition list_callback :: "byte list \<Rightarrow> nat \<Rightarrow> (byte list \<times> bool) \<times> byte list" where
  "list_callback s n = ((take n s, n \<le> length s), drop n s)"

theorem pb_decode_any_source_witness:
  "\<exists>st'. decode_wire (\<lambda>_. True) 1 \<lparr>is_callback = Some list_callback, is_source = [], is_state = [8, 1, 99], is_bytes_left = 2,
      is_errmsg = None\<rparr> = (Some [(1, WVarint 1)], st') \<and> is_state st' = [99]"
proof -
  have b: "field_bytes (1, WVarint 1) = [8, 1]" and f: "\<forall>x \<in> set [(1, WVarint 1)]. field_ok x"
    by (simp add: field_bytes_def varint_bytes.simps, simp add: field_ok_def)
  let ?st = "\<lparr>is_callback = Some list_callback, is_source = [], is_state = [8, 1, 99], is_bytes_left = 2, is_errmsg = None\<rparr>"
  have c: "\<exists>s'. list_callback s n = ((take n s, True), s') \<and> s' = drop n s" if "n \<le> length s" for s n
    using that by (simp add: list_callback_def)
  show ?thesis
    using pb_decode_any_source [of "\<lambda>s. s" list_callback "[(1, WVarint 1)]" ?st "[99]" "\<lambda>_. True", OF c f] by (auto simp: b)
qed

lemma pb_svarint_roundtrip_witness:
  "\<exists>st. pb_encode_svarint (pb_ostream_from_buffer (replicate 10 0) 10) (- 5) = (True, st)"
  using pb_svarint_roundtrip [of "replicate 10 0" "- 5"] by auto

theorem pb_substream_confines_witness:
  "\<exists>sub st1. pb_make_string_substream (pb_istream_from_buffer [2, 104, 105, 7] 4) = (Some sub, st1) \<and> is_bytes_left sub = 2"
proof -
  have e: "[2, 104, 105, 7] = varint_bytes (length [104, 105 :: byte]) @ [104, 105] @ [7]" by code_simp
  have l: "length [104, 105 :: byte] < 2 ^ 32" by simp
  from pb_substream_confines [OF l e] obtain sub st1 where
    "pb_make_string_substream (pb_istream_from_buffer [2, 104, 105, 7] (length [2, 104, 105, 7 :: byte])) = (Some sub, st1)"
    "is_bytes_left sub = length [104, 105 :: byte]" by blast
  then show ?thesis by (intro exI [of _ sub] exI [of _ st1]) (simp add: numeral_eq_Suc)
qed

theorem pb_write_in_bounds_witness:
  "drop 1 (fst (os_state (foldl (\<lambda>st w. snd (pb_write st w (length w))) (pb_ostream_from_buffer [0, 9] 1) [[1], [2, 3]]))) = [9]"
  using pb_write_in_bounds [of 1 "[0, 9]" "[[1], [2, 3]]", OF _ _ _ refl] by simp


end
