(* ===== verification/PbMessageProps.thy ===== *)
theory PbMessageProps
  imports PbMessage PbFields
begin

text \<open>
  The properties of nanopb's field iterator and message encoder, on buffers: \<open>pb_encode\<close> writes exactly the
  bytes of the message or reports an error, \<open>pb_get_encoded_size\<close> predicts their number, and a delimited
  message is what the decoder's substream holds.
\<close>

definition MESSAGE_LIMIT :: nat where
  "MESSAGE_LIMIT = 2 ^ 64 - 2 ^ 32"

interpretation msg: pb_message_sink buf_write "\<lambda>(mem, pos). take pos mem" "\<lambda>(mem, pos). length mem - pos" MESSAGE_LIMIT
proof
  show "MESSAGE_LIMIT < SIZE_BOUND" "MESSAGE_LIMIT + 2 ^ 32 \<le> SIZE_BOUND" by (simp_all add: MESSAGE_LIMIT_def)
qed (rule buf_write_takes)

text \<open>What the user functions of a world are assumed to do: write the bytes that \<open>user\<close> and \<open>ext\<close> say, each
  time they are called, or report an error.\<close>

definition user_ok ::
    "(addr \<Rightarrow> pb_field \<Rightarrow> addr \<Rightarrow> byte list option) \<Rightarrow> (addr \<Rightarrow> addr \<Rightarrow> byte list option) \<Rightarrow> (byte list \<times> nat) pb_world \<Rightarrow> bool" where
  "user_ok user ext w \<longleftrightarrow>
     (\<forall>cb f arg. msg.meets (\<lambda>st. Some (w_encode w cb st f arg)) (Some (user cb f arg))) \<and>
     (\<forall>cb e. msg.meets (\<lambda>st. Some (w_ext_encode w cb st e)) (Some (ext cb e)))"

lemma user_ok_meets: "user_ok user ext w \<Longrightarrow> msg.meets (\<lambda>st. pb_encode n w st fs a) (message_bytes n user ext w fs a)"
  by (intro msg.meets_message) (simp_all add: user_ok_def)

lemma message_buffer_sinks:
  "sz \<le> length mem \<Longrightarrow> sz \<le> MESSAGE_LIMIT \<Longrightarrow> msg.sinks (pb_ostream_from_buffer mem sz)"
  by (simp add: msg.sinks_def pb_ostream_from_buffer_def)

text \<open>An encoder that meets an encoding, run on a buffer.\<close>

lemma meets_buffer:
  assumes "msg.meets enc (Some r)" and sz: "sz \<le> length mem" "sz \<le> MESSAGE_LIMIT"
  shows "\<exists>ok st. enc (pb_ostream_from_buffer mem sz) = Some (ok, st) \<and>
    (ok \<longleftrightarrow> (\<exists>bs. r = Some bs \<and> length bs \<le> sz)) \<and>
    (ok \<longrightarrow> os_bytes_written st = length (the r) \<and> length (the r) \<le> length (fst (os_state st)) \<and>
       take (length (the r)) (fst (os_state st)) = the r)"
proof -
  let ?st = "pb_ostream_from_buffer mem sz"
  have s: "msg.sinks ?st" using sz by (rule message_buffer_sinks)
  then have runs: "msg.runs ?st" by (simp add: msg.runs_def)
  show ?thesis
  proof (cases r)
    case None
    then show ?thesis using assms(1) runs by (fastforce simp: msg.meets_def)
  next
    case (Some bs)
    then obtain ok st where e: "enc ?st = Some (ok, st)" and em: "msg.emits (\<lambda>st. the (enc st)) bs"
      using assms(1) runs by (fastforce simp: msg.meets_def)
    show ?thesis
    proof (cases "length bs \<le> sz")
      case True
      then have "os_bytes_written ?st + length bs \<le> os_max_size ?st" by (simp add: pb_ostream_from_buffer_def)
      from msg.emits_fits [OF em s this] e have ok: "ok"
        and out: "(case os_state st of (mem, pos) \<Rightarrow> take pos mem) = (case os_state ?st of (mem, pos) \<Rightarrow> take pos mem) @ bs"
        and written: "os_bytes_written st = length bs"
        by (auto simp: pb_ostream_from_buffer_def)
      obtain mem' pos where m: "os_state st = (mem', pos)" by fastforce
      have t: "take pos mem' = bs" using out m by (simp add: pb_ostream_from_buffer_def)
      then have "length bs \<le> length mem'" by (metis length_take min.cobounded1)
      moreover have "take (length bs) mem' = bs" using t by (metis append_eq_conv_conj append_take_drop_id)
      ultimately show ?thesis using e ok written m Some True by auto
    next
      case False
      then have "os_bytes_written ?st + length bs > os_max_size ?st" by (simp add: pb_ostream_from_buffer_def)
      from msg.emits_full [OF em s this] e show ?thesis using Some False by auto
    qed
  qed
qed

section \<open>Properties\<close>

text \<open>
  C27. The field iterator. On every well-formed descriptor it starts at the first field, steps through the
  fields in order and wraps around, never reading behind the terminator; at each field its data pointer is
  where the layout puts the field, whatever mixture of arrays, pointers and unions came before, and its
  index of required fields is their number so far. The searches for a tag and for the extension field
  terminate from every position, find the first match in cyclic order, and otherwise come back to
  where they were.
\<close>

theorem pb_field_iter_correct:
  assumes "fields_ok fs" and "i < nfields fs"
  shows "pb_field_iter_begin fs d = Some (True, iter_at fs d 0) \<and>
    pb_field_iter_next (iter_at fs d i) = Some (Suc i < nfields fs, iter_at fs d (Suc i mod nfields fs)) \<and>
    pb_field_iter_find (iter_at fs d i) tag =
      (case find_from (\<lambda>f. pf_tag f = tag \<and> PB_LTYPE (pf_type f) \<noteq> PB_LTYPE_EXTENSION) fs i of
         Some j \<Rightarrow> Some (True, iter_at fs d j) | None \<Rightarrow> Some (False, iter_at fs d i)) \<and>
    find_extension_field (iter_at fs d i) =
      (case find_from (\<lambda>f. PB_LTYPE (pf_type f) = PB_LTYPE_EXTENSION) fs i of
         Some j \<Rightarrow> Some (True, iter_at fs d j) | None \<Rightarrow> Some (False, iter_at fs d i))"
  using assms find_ok [OF assms]
  by (simp add: iter_begin_ok iter_next_ok pb_field_iter_find_def find_extension_field_def)

text \<open>
  C23. The message encoder refines the encoding of messages. If the encoding is determined, with nesting up
  to the depth given, \<open>pb_encode\<close> returns on every buffer: with success exactly if the message is valid and
  its bytes fit, and then the buffer starts with these bytes and the count is exact. This includes
  nested messages with their two passes, packed arrays, unions, optional fields with and without flags,
  extensions and the fields written by user functions.
\<close>

theorem pb_encode_refines:
  assumes "user_ok user ext w" and "message_bytes n user ext w fs a = Some r"
    and "sz \<le> length mem" and "sz \<le> MESSAGE_LIMIT"
  shows "\<exists>ok st. pb_encode n w (pb_ostream_from_buffer mem sz) fs a = Some (ok, st) \<and>
    (ok \<longleftrightarrow> (\<exists>bs. r = Some bs \<and> length bs \<le> sz)) \<and>
    (ok \<longrightarrow> os_bytes_written st = length (the r) \<and> length (the r) \<le> length (fst (os_state st)) \<and>
       take (length (the r)) (fst (os_state st)) = the r)"
  using user_ok_meets [OF assms(1), of n fs a] assms(2-4) by (intro meets_buffer) simp_all

text \<open>
  C24. The predicted size. \<open>pb_get_encoded_size\<close> returns the number of bytes of a valid message, and a buffer
  of that size is enough, while no smaller one is.
\<close>

theorem pb_get_encoded_size_exact:
  assumes "user_ok user ext w" and "message_bytes n user ext w fs a = Some (Some bs)" and "length bs < 2 ^ 32"
    and "sz \<le> length mem" and "sz < 2 ^ 32"
  shows "pb_get_encoded_size n w s fs a = Some (Some (length bs)) \<and>
    map_option fst (pb_encode n w (pb_ostream_from_buffer mem sz) fs a) = Some (length bs \<le> sz)"
proof
  have m: "msg.meets (\<lambda>st. pb_encode n w st fs a) (Some (Some bs))" using user_ok_meets [OF assms(1)] assms(2) by metis
  from msg.meets_sizing [OF this assms(3), of s]
  show "pb_get_encoded_size n w s fs a = Some (Some (length bs))" by (simp add: pb_get_encoded_size_def)
  have "sz \<le> MESSAGE_LIMIT" using assms(5) by (simp add: MESSAGE_LIMIT_def)
  from meets_buffer [OF m assms(4) this]
  show "map_option fst (pb_encode n w (pb_ostream_from_buffer mem sz) fs a) = Some (length bs \<le> sz)" by auto
qed

text \<open>
  C25. Delimited messages cross the wire. What \<open>pb_encode_delimited\<close> writes into a buffer, the decoder's
  \<open>pb_make_string_substream\<close> opens again: the substream holds the bytes of the message and nothing else,
  and closing it leaves the stream at its end.
\<close>

theorem pb_delimited_roundtrip:
  assumes "user_ok user ext w" and "message_bytes n user ext w fs a = Some (Some bs)" and "length bs < 2 ^ 31"
    and "length bs + 5 \<le> length mem" and "length mem \<le> MESSAGE_LIMIT"
  shows "\<exists>st sub rest. pb_encode_delimited n w (pb_ostream_from_buffer mem (length mem)) fs a = Some (True, st) \<and>
    pb_make_string_substream (pb_istream_from_buffer (fst (os_state st)) (os_bytes_written st)) = (Some sub, rest) \<and>
    is_bytes_left sub = length bs \<and> take (length bs) (is_source sub) = bs \<and>
    (\<exists>st2 sub2. pb_close_string_substream rest sub = (True, st2, sub2) \<and> is_bytes_left st2 = 0 \<and> is_errmsg st2 = None)"
proof -
  have "msg.meets (\<lambda>st. pb_encode n w st fs a) (Some (Some bs))" using user_ok_meets [OF assms(1)] assms(2) by metis
  from msg.meets_submessage [of "pb_encode n w", OF this]
  have m: "msg.meets (\<lambda>st. pb_encode_delimited n w st fs a) (Some (Some (delimited bs)))"
    using assms(3) by (simp add: pb_encode_delimited_def submessage_encoding_def enc_ok_def)
  have len: "length (delimited bs) \<le> length mem"
    using varint_bytes_length [of "length bs" 4] assms(3,4) by (simp add: delimited_def)
  from meets_buffer [OF m order_refl assms(5)] len obtain st where
    e: "pb_encode_delimited n w (pb_ostream_from_buffer mem (length mem)) fs a = Some (True, st)"
      "os_bytes_written st = length (delimited bs)" "length (delimited bs) \<le> length (fst (os_state st))"
      "take (length (delimited bs)) (fst (os_state st)) = delimited bs" by auto
  let ?in = "pb_istream_from_buffer (fst (os_state st)) (os_bytes_written st)"
  have h: "src.holds ?in (varint_bytes (length bs) @ bs @ [])"
    using buffer_holds [of "length (delimited bs)" "fst (os_state st)"] e by (simp add: delimited_def)
  from assms(3) have l: "length bs < 2 ^ 32" by simp
  from src.substream_ok [OF h l] obtain sub rest where s: "pb_make_string_substream ?in = (Some sub, rest)" "src.holds sub bs"
    and "is_errmsg sub = is_errmsg ?in" and close: "\<forall>sub' bs'. src.leaves sub sub' bs' \<longrightarrow>
      (\<exists>st2 sub2. pb_close_string_substream rest sub' = (True, st2, sub2) \<and> src.leaves ?in st2 [])" .
  from close src.leaves_refl [OF s(2)] obtain st2 sub2 where "pb_close_string_substream rest sub = (True, st2, sub2)"
    "src.leaves ?in st2 []" by blast
  then show ?thesis using e(1) s
    by (auto simp: src.leaves_def src.holds_def pb_istream_from_buffer_def)
qed

section \<open>Witnesses\<close>

text \<open>A message with a number, a nested message and a field written by a user function.\<close>

definition example_memory :: memory where
  "example_memory a =
     (if 0x1000 \<le> a \<and> a < 0x1010 then [0x2c, 1, 0, 0, 1, 0, 0, 0, 0, 0x40, 0, 0, 0, 0, 0, 0] ! unat (a - 0x1000) else 0)"

definition example_fields :: "pb_field list" where
  "example_fields =
     [\<lparr>pf_tag = 1, pf_type = 0x02, pf_data_offset = 0, pf_size_offset = 0, pf_data_size = 4, pf_array_size = 0, pf_ptr = 0\<rparr>,
      \<lparr>pf_tag = 2, pf_type = 0x08, pf_data_offset = 0, pf_size_offset = 0, pf_data_size = 1, pf_array_size = 0, pf_ptr = 0x2000\<rparr>,
      \<lparr>pf_tag = 3, pf_type = 0x42, pf_data_offset = 3, pf_size_offset = 0, pf_data_size = 16, pf_array_size = 0, pf_ptr = 0\<rparr>,
      \<lparr>pf_tag = 0, pf_type = 0, pf_data_offset = 0, pf_size_offset = 0, pf_data_size = 0, pf_array_size = 0, pf_ptr = 0\<rparr>]"

definition example_nested :: "pb_field list" where
  "example_nested =
     [\<lparr>pf_tag = 1, pf_type = 0x00, pf_data_offset = 0, pf_size_offset = 0, pf_data_size = 1, pf_array_size = 0, pf_ptr = 0\<rparr>,
      \<lparr>pf_tag = 0, pf_type = 0, pf_data_offset = 0, pf_size_offset = 0, pf_data_size = 0, pf_array_size = 0, pf_ptr = 0\<rparr>]"

definition example_world :: "(byte list \<times> nat) pb_world" where
  "example_world =
     \<lparr>w_mem = example_memory, w_fields = (\<lambda>p. if p = 0x2000 then example_nested else []),
      w_encode = (\<lambda>cb st f arg. pb_encode_varint st 7), w_ext_encode = (\<lambda>cb st e. pb_encode_varint st 9)\<rparr>"

lemma example_user_ok: "user_ok (\<lambda>cb f arg. Some [7]) (\<lambda>cb e. Some [9]) example_world"
  using msg.meets_emits [OF msg.emits_varint [of 7]] msg.meets_emits [OF msg.emits_varint [of 9]]
  by (simp add: user_ok_def example_world_def enc_ok_def varint_bytes.simps)

lemma example_bytes:
  "message_bytes 2 (\<lambda>cb f arg. Some [7]) (\<lambda>cb e. Some [9]) example_world example_fields 0x1000 =
     Some (Some [0x08, 0xac, 0x02, 0x12, 0x02, 0x08, 0x01, 0x07])"
  by code_simp

theorem pb_field_iter_correct_witness:
  "pb_field_iter_find (iter_at example_fields 0x1000 2) 2 = Some (True, iter_at example_fields 0x1000 1)"
proof -
  have f: "fields_ok example_fields" "2 < nfields example_fields"
    "find_from (\<lambda>f. pf_tag f = 2 \<and> PB_LTYPE (pf_type f) \<noteq> PB_LTYPE_EXTENSION) example_fields 2 = Some 1"
    by code_simp+
  then show ?thesis using pb_field_iter_correct [OF f(1,2), of "0x1000" 2] by simp
qed

theorem pb_encode_refines_witness:
  "\<exists>st. pb_encode 2 example_world (pb_ostream_from_buffer (replicate 8 0) 8) example_fields 0x1000 = Some (True, st) \<and>
    take 8 (fst (os_state st)) = [0x08, 0xac, 0x02, 0x12, 0x02, 0x08, 0x01, 0x07]"
proof -
  have len: "length [0x08, 0xac, 0x02, 0x12, 0x02, 0x08, 0x01, 0x07 :: byte] = 8" by simp
  show ?thesis
    using pb_encode_refines [OF example_user_ok example_bytes, of 8 "replicate 8 0", unfolded option.sel len length_replicate]
    by (auto simp: MESSAGE_LIMIT_def)
qed

theorem pb_get_encoded_size_exact_witness:
  "pb_get_encoded_size 2 example_world ([], 0) example_fields 0x1000 = Some (Some 8) \<and>
    map_option fst (pb_encode 2 example_world (pb_ostream_from_buffer (replicate 9 0) 7) example_fields 0x1000) = Some False"
  using pb_get_encoded_size_exact [OF example_user_ok example_bytes, of 7 "replicate 9 0" "([], 0)"] by simp

theorem pb_delimited_roundtrip_witness:
  "\<exists>st sub rest. pb_encode_delimited 2 example_world (pb_ostream_from_buffer (replicate 13 0) 13) example_fields 0x1000 = Some (True, st) \<and>
    pb_make_string_substream (pb_istream_from_buffer (fst (os_state st)) (os_bytes_written st)) = (Some sub, rest) \<and>
    is_bytes_left sub = 8"
proof -
  have len: "length [0x08, 0xac, 0x02, 0x12, 0x02, 0x08, 0x01, 0x07 :: byte] = 8" by simp
  show ?thesis
    using pb_delimited_roundtrip [OF example_user_ok example_bytes, of "replicate 13 0", unfolded len length_replicate]
    by (auto simp: MESSAGE_LIMIT_def)
qed

end
