(* ===== verification/PbDecodeProps.thy ===== *)
theory PbDecodeProps
  imports PbDecodeMsg PbMessageProps
begin

unbundle bit_operations_syntax

text \<open>
  The properties of nanopb's message decoder: safety on arbitrary input, the check of the required fields,
  and the round trip of scalar fields through encoder and decoder.
\<close>

section \<open>Scalars\<close>

lemma store_bytes_at:
  assumes "length bs + k < 2 ^ 64"
  shows "store_bytes (m :: memory) (a + word_of_nat (Suc k)) bs a = m a"
  using assms
proof (induction bs arbitrary: k m)
  case (Cons b bs)
  have "word_of_nat (Suc k) \<noteq> (0 :: u64)"
    using Cons.prems by (simp add: word_of_nat_eq_0_iff del: of_nat_Suc) (auto dest: dvd_imp_le)
  then have "a + word_of_nat (Suc k) \<noteq> a" by simp
  moreover have next_byte: "a + word_of_nat (Suc k) + 1 = a + word_of_nat (Suc (Suc k))" by simp
  ultimately show ?case unfolding store_bytes.simps next_byte
    using Cons.IH [of "Suc k"] Cons.prems by (simp del: of_nat_Suc)
qed simp

lemma mem_store_bytes:
  assumes "length bs < 2 ^ 64"
  shows "mem_bytes (store_bytes m b bs) b (length bs) = bs"
  using assms
proof (induction bs arbitrary: m b)
  case (Cons x bs)
  have "mem_bytes m' b (Suc n) = m' b # mem_bytes m' (b + 1) n" for m' n
    by (simp add: mem_bytes_def map_upt_Suc add.assoc del: upt_Suc)
  moreover have "store_bytes (m(b := x)) (b + 1) bs b = x"
    using store_bytes_at [of bs 0 "m(b := x)" b] Cons.prems by simp
  ultimately show ?case using Cons by simp
qed (simp add: mem_bytes_def)

lemma le16_load: "le16 (load16 m a) = mem_bytes m a 2"
  unfolding le16_def load16_def byte_of_word
  using le_nat_byte [of 0 "mem_bytes m a 2", where 'a = 16] le_nat_byte [of 1 "mem_bytes m a 2", where 'a = 16]
  by (simp add: mem_bytes_def upt_rec)

text \<open>The integer in a field of 1, 2, 4 or 8 bytes.\<close>

definition load_signed :: "memory \<Rightarrow> addr \<Rightarrow> u32 \<Rightarrow> u64" where
  "load_signed m a sz = (if sz = 1 then scast (m a) else if sz = 2 then scast (load16 m a)
     else if sz = 4 then scast (load32 m a) else load64 m a)"

definition load_unsigned :: "memory \<Rightarrow> addr \<Rightarrow> u32 \<Rightarrow> u64" where
  "load_unsigned m a sz = (if sz = 1 then ucast (m a) else if sz = 2 then ucast (load16 m a)
     else if sz = 4 then ucast (load32 m a) else load64 m a)"

definition integer_size :: "u32 \<Rightarrow> bool" where
  "integer_size sz \<longleftrightarrow> sz = 1 \<or> sz = 2 \<or> sz = 4 \<or> sz = 8"

lemma mem_bytes_1: "mem_bytes m a (Suc 0) = [m a]"
  by (simp add: mem_bytes_def)

lemma narrow:
  assumes "LENGTH('a::len) \<le> LENGTH('b::len)"
  shows "ucast (scast (x :: 'a word) :: 'b word) = x" "ucast (ucast x :: 'b word) = x"
proof -
  have "min (LENGTH('a) - 1) n = n" if "n < LENGTH('a)" for n using that by simp
  then show "ucast (scast x :: 'b word) = x" using assms by (intro bit_word_eqI) (auto simp: bit_simps)
  show "ucast (ucast x :: 'b word) = x" using assms by (intro bit_word_eqI) (auto simp: bit_simps)
qed

lemma widen:
  assumes "LENGTH('a::len) \<le> 32"
  shows "scast (ucast (scast (x :: 'a word) :: u64) :: u32) = (scast x :: u64)"
proof (rule bit_word_eqI)
  fix n
  have "min (LENGTH('a) - 1) (min 31 n) = min (LENGTH('a) - 1) n" using assms by auto
  then show "bit (scast (ucast (scast x :: u64) :: u32) :: u64) n = bit (scast x :: u64) n"
    by (auto simp: bit_simps)
qed

lemma store_signed_load:
  assumes "integer_size (pf_data_size f)"
  shows "store_signed s f b (load_signed m a (pf_data_size f)) =
           (True, (fst s, put b (mem_bytes m a (unat (pf_data_size f))) (snd s)))"
  using assms
  by (auto simp: integer_size_def store_signed_def load_signed_def narrow mem_bytes_1 le16_load fixed32_le_load fixed64_le_load)

lemma store_unsigned_load:
  assumes "integer_size (pf_data_size f)"
  shows "store_unsigned s f b (load_unsigned m a (pf_data_size f)) =
           (True, (fst s, put b (mem_bytes m a (unat (pf_data_size f))) (snd s)))"
  using assms
  by (auto simp: integer_size_def store_unsigned_def load_unsigned_def narrow mem_bytes_1 le16_load fixed32_le_load fixed64_le_load)

lemma load_signed_32:
  assumes "integer_size sz" "sz \<noteq> 8"
  shows "scast (ucast (load_signed m a sz) :: u32) = load_signed m a sz"
  using assms by (auto simp: integer_size_def load_signed_def widen)

text \<open>The fields of scalar types, with the sizes and contents they can have.\<close>

definition scalar_field :: "memory \<Rightarrow> addr \<Rightarrow> pb_field \<Rightarrow> bool" where
  "scalar_field m a f \<longleftrightarrow>
     (let lt = PB_LTYPE (pf_type f)
      in lt \<le> PB_LTYPE_LAST_PACKABLE \<and> integer_size (pf_data_size f) \<and>
         (lt = PB_LTYPE_BOOL \<longrightarrow> pf_data_size f = 1 \<and> (m a = 0 \<or> m a = 1)) \<and>
         (lt = PB_LTYPE_FIXED32 \<longrightarrow> pf_data_size f = 4) \<and> (lt = PB_LTYPE_FIXED64 \<longrightarrow> pf_data_size f = 8))"

text \<open>An encoder and a decoder that carry the bytes of a field across a stream.\<close>

definition carries ::
    "((byte list \<times> nat) pb_ostream \<Rightarrow> (bool \<times> (byte list \<times> nat) pb_ostream) option) \<Rightarrow>
     (('s, 'h) dstate \<Rightarrow> (bool \<times> ('s, 'h) dstate) option) \<Rightarrow> byte list \<Rightarrow> addr \<Rightarrow> bool" where
  "carries enc dec bytes b \<longleftrightarrow>
     (\<exists>e bs. (\<forall>st. enc st = Some (e st)) \<and> buf.emits e bs \<and> length bs \<le> 10 \<and>
       (\<forall>st sr. src.holds st (bs @ []) \<longrightarrow> (\<exists>st'. dec (st, sr) = Some (True, (st', put b bytes sr)) \<and> src.leaves st st' [])))"

lemma carriesI:
  assumes "\<And>st. enc st = Some (e st)" and "buf.emits e bs" and "length bs \<le> 10"
    and "\<And>st sr. src.holds st (bs @ []) \<Longrightarrow> \<exists>st'. dec (st, sr) = Some (True, (st', put b bytes sr)) \<and> src.leaves st st' []"
  shows "carries enc dec bytes b"
  unfolding carries_def using assms by (intro exI [of _ e] exI [of _ bs]) simp

lemma varint_short: "length (varint_bytes (unat v)) \<le> 10" for v :: u64
  using unat_less_power [of v] varint_bytes_length [of "unat v" 9] by simp

lemma carries_varint:
  fixes dec :: "('s, 'h) dstate \<Rightarrow> (bool \<times> ('s, 'h) dstate) option"
  assumes enc: "\<And>st. enc st = Some (pb_encode_varint st v)"
    and dec: "\<And>st st' sr. pb_decode_varint st = (Some v, st') \<Longrightarrow> dec (st, sr) = Some (True, (st', put b bytes sr))"
  shows "carries enc dec bytes b"
proof (rule carriesI [OF enc buf.emits_varint varint_short])
  fix st :: "'s pb_istream" and sr :: "'h pb_store" assume h: "src.holds st (varint_bytes (unat v) @ [])"
  from src.varint_ok [OF h] obtain st' where "pb_decode_varint st = (Some v, st')" "src.leaves st st' []" .
  then show "\<exists>st'. dec (st, sr) = Some (True, (st', put b bytes sr)) \<and> src.leaves st st' []" using dec by blast
qed

lemma carries_varint32:
  fixes dec :: "('s, 'h) dstate \<Rightarrow> (bool \<times> ('s, 'h) dstate) option"
  assumes enc: "\<And>st. enc st = Some (pb_encode_varint st v)"
    and dec: "\<And>st st' sr. pb_decode_varint32 st = (Some (ucast v), st') \<Longrightarrow> dec (st, sr) = Some (True, (st', put b bytes sr))"
    and small: "unat v < 2 ^ 32"
  shows "carries enc dec bytes b"
proof (rule carriesI [OF enc buf.emits_varint varint_short])
  fix st :: "'s pb_istream" and sr :: "'h pb_store" assume h: "src.holds st (varint_bytes (unat v) @ [])"
  from src.varint32_ok [OF h small] obtain st' where "pb_decode_varint32 st = (Some (ucast v), st')" "src.leaves st st' []" by auto
  then show "\<exists>st'. dec (st, sr) = Some (True, (st', put b bytes sr)) \<and> src.leaves st st' []" using dec by blast
qed

lemma carries_svarint:
  fixes dec :: "('s, 'h) dstate \<Rightarrow> (bool \<times> ('s, 'h) dstate) option"
  assumes enc: "\<And>st. enc st = Some (pb_encode_svarint st v)"
    and dec: "\<And>st st' sr. pb_decode_svarint st = (Some v, st') \<Longrightarrow> dec (st, sr) = Some (True, (st', put b bytes sr))"
  shows "carries enc dec bytes b"
proof (rule carriesI [OF enc buf.emits_svarint varint_short])
  fix st :: "'s pb_istream" and sr :: "'h pb_store" assume h: "src.holds st (varint_bytes (unat (if v <s 0 then NOT (push_bit 1 v) else push_bit 1 v)) @ [])"
  from src.svarint_ok [OF h] obtain st' where "pb_decode_svarint st = (Some v, st')" "src.leaves st st' []" .
  then show "\<exists>st'. dec (st, sr) = Some (True, (st', put b bytes sr)) \<and> src.leaves st st' []" using dec by blast
qed

lemma carries_fixed32:
  fixes dec :: "('s, 'h) dstate \<Rightarrow> (bool \<times> ('s, 'h) dstate) option"
  assumes enc: "\<And>st. enc st = Some (pb_encode_fixed32 st v)"
    and dec: "\<And>st st' sr. pb_decode_fixed32 st = (Some v, st') \<Longrightarrow> dec (st, sr) = Some (True, (st', put b bytes sr))"
  shows "carries enc dec bytes b"
proof (rule carriesI [OF enc buf.emits_fixed32 _])
  fix st :: "'s pb_istream" and sr :: "'h pb_store" assume h: "src.holds st (fixed32_le v @ [])"
  from src.fixed32_ok [OF h] obtain st' where "pb_decode_fixed32 st = (Some v, st')" "src.leaves st st' []" .
  then show "\<exists>st'. dec (st, sr) = Some (True, (st', put b bytes sr)) \<and> src.leaves st st' []" using dec by blast
qed simp

lemma carries_fixed64:
  fixes dec :: "('s, 'h) dstate \<Rightarrow> (bool \<times> ('s, 'h) dstate) option"
  assumes enc: "\<And>st. enc st = Some (pb_encode_fixed64 st v)"
    and dec: "\<And>st st' sr. pb_decode_fixed64 st = (Some v, st') \<Longrightarrow> dec (st, sr) = Some (True, (st', put b bytes sr))"
  shows "carries enc dec bytes b"
proof (rule carriesI [OF enc buf.emits_fixed64 _])
  fix st :: "'s pb_istream" and sr :: "'h pb_store" assume h: "src.holds st (fixed64_le v @ [])"
  from src.fixed64_ok [OF h] obtain st' where "pb_decode_fixed64 st = (Some v, st')" "src.leaves st st' []" .
  then show "\<exists>st'. dec (st, sr) = Some (True, (st', put b bytes sr)) \<and> src.leaves st st' []" using dec by blast
qed simp

lemma scalar_carries:
  fixes decode :: "('s, 'h) decode_fun"
  assumes "scalar_field (w_mem w) a f"
  shows "carries (\<lambda>st. PB_ENCODERS enc w (PB_LTYPE (pf_type f)) st f a)
    (\<lambda>s. PB_DECODERS decode noinit dw (PB_LTYPE (pf_type f)) s f b) (mem_bytes (w_mem w) a (unat (pf_data_size f))) b"
proof -
  let ?lt = "PB_LTYPE (pf_type f)" and ?m = "w_mem w" and ?sz = "pf_data_size f"
  have ok: "?lt \<le> 0x05" "integer_size ?sz" "?lt = 0 \<Longrightarrow> ?sz = 1 \<and> (?m a = 0 \<or> ?m a = 1)" "?lt = 4 \<Longrightarrow> ?sz = 4" "?lt = 5 \<Longrightarrow> ?sz = 8"
    using assms by (simp_all add: scalar_field_def Let_def)
  have "?lt \<le> 0x0A" using ok(1) by (simp add: word_le_nat_alt)
  then have lt: "?lt \<in> {0, 1, 2, 3, 4, 5}" using byte_le_10 [of ?lt] ok(1) by auto
  consider (bool) "?lt = 0" | (varint) "?lt = 1" | (uvarint) "?lt = 2" | (svarint) "?lt = 3" | (f32) "?lt = 4" | (f64) "?lt = 5"
    using lt by blast
  then show ?thesis
  proof cases
    case bool
    then show ?thesis using ok(3) [OF bool]
      by (intro carries_varint32 [where v = "if ?m a = 0 then 0 else 1"])
        (auto simp: PB_ENCODERS_def pb_enc_bool_def safe_read_bool_def PB_DECODERS_def pb_dec_bool_def mem_bytes_1)
  next
    case varint
    then show ?thesis using ok(2) store_signed_load [OF ok(2)] load_signed_32 [OF ok(2)]
      by (intro carries_varint [where v = "load_signed ?m a ?sz"])
        (auto simp: PB_ENCODERS_def pb_enc_varint_def PB_DECODERS_def pb_dec_varint_def,
         auto simp: load_signed_def integer_size_def)
  next
    case uvarint
    then show ?thesis using ok(2) store_unsigned_load [OF ok(2)]
      by (intro carries_varint [where v = "load_unsigned ?m a ?sz"])
        (auto simp: PB_ENCODERS_def pb_enc_uvarint_def PB_DECODERS_def pb_dec_uvarint_def,
         auto simp: load_unsigned_def integer_size_def)
  next
    case svarint
    then show ?thesis using ok(2) store_signed_load [OF ok(2)]
      by (intro carries_svarint [where v = "load_signed ?m a ?sz"])
        (auto simp: PB_ENCODERS_def pb_enc_svarint_def PB_DECODERS_def pb_dec_svarint_def,
         auto simp: load_signed_def integer_size_def)
  next
    case f32
    then show ?thesis using ok(4)
      by (intro carries_fixed32 [where v = "load32 ?m a"])
        (auto simp: PB_ENCODERS_def pb_enc_fixed32_def PB_DECODERS_def pb_dec_fixed32_def fixed32_le_load)
  next
    case f64
    then show ?thesis using ok(5)
      by (intro carries_fixed64 [where v = "load64 ?m a"])
        (auto simp: PB_ENCODERS_def pb_enc_fixed64_def PB_DECODERS_def pb_dec_fixed64_def fixed64_le_load)
  qed
qed

section \<open>Required fields\<close>

text \<open>The numbers of the required fields seen, and what the final check makes of them.\<close>

definition seen_fields :: "u32 list \<Rightarrow> nat set" where
  "seen_fields seen = {k. k < 64 \<and> bit (seen ! (k div 32)) (k mod 32)}"

lemma index_split:
  fixes i :: u32
  shows "unat (drop_bit 5 i) = unat i div 32" "unat (i AND 31) = unat i mod 32"
proof -
  show "unat (drop_bit 5 i) = unat i div 32" by (simp add: unat_drop_bit)
  have "i AND 31 = take_bit 5 i" by (simp add: take_bit_eq_mask mask_eq_exp_minus_1)
  then have "unat (i AND 31) = take_bit 5 (unat i)" by (simp only: unsigned_take_bit_eq)
  then show "unat (i AND 31) = unat i mod 32" by (simp add: take_bit_nat_def)
qed

lemma mark_required_seen:
  assumes "length seen = 2"
  shows "length (mark_required i seen) = 2"
    "seen_fields (mark_required i seen) = seen_fields seen \<union> (if i < 64 then {unat i} else {})"
proof -
  show "length (mark_required i seen) = 2" using assms by (simp add: mark_required_def)
  show "seen_fields (mark_required i seen) = seen_fields seen \<union> (if i < 64 then {unat i} else {})"
  proof (cases "i < 64")
    case True
    then have i: "unat i < 64" by (simp add: word_less_nat_alt)
    have "bit (mark_required i seen ! (k div 32)) (k mod 32) \<longleftrightarrow> bit (seen ! (k div 32)) (k mod 32) \<or> k = unat i" if "k < 64" for k
    proof -
      have "k = unat i \<longleftrightarrow> k div 32 = unat i div 32 \<and> k mod 32 = unat i mod 32" by (metis div_mult_mod_eq)
      moreover have "bit (push_bit (unat i mod 32) (1 :: u32)) (k mod 32) \<longleftrightarrow> k mod 32 = unat i mod 32"
        by (auto simp: bit_simps)
      moreover have "unat i div 32 < length seen" "k div 32 < length seen" using i that assms by auto
      ultimately show ?thesis using True
        by (auto simp: mark_required_def index_split nth_list_update bit_or_iff)
    qed
    then show ?thesis using True i by (auto simp: seen_fields_def)
  qed (simp add: mark_required_def)
qed

lemma fold_mark_required:
  "length seen = 2 \<Longrightarrow> seen_fields (fold mark_required is seen) = seen_fields seen \<union> {unat i |i. i \<in> set is \<and> i < 64}"
proof (induction "is" arbitrary: seen)
  case (Cons i "is")
  then show ?case using mark_required_seen [OF Cons.prems, of i] by auto
qed simp

lemma check_required_seen:
  assumes "\<forall>k \<in> seen_fields seen. k < unat count"
  shows "check_required count seen \<longleftrightarrow> (\<forall>k < min 64 (unat count). k \<in> seen_fields seen)"
proof -
  define n where "n = min 64 (unat count)"
  have n: "unat (if count > 64 then 64 else count) = n" by (simp add: n_def word_less_nat_alt)
  let ?q = "n div 32" and ?r = "n mod 32"
  have full: "x = 0xffffffff \<longleftrightarrow> (\<forall>j < 32. bit x j)" for x :: u32
  proof -
    have "bit (0xffffffff :: u32) j" if "j < 32" for j
      using that bit_mask_iff [of 32 j, where 'a = u32] by (simp add: mask_eq_exp_minus_1)
    then show ?thesis by (auto intro!: bit_word_eqI)
  qed
  have part: "x = drop_bit (32 - ?r) 0xffffffff \<longleftrightarrow> (\<forall>j < 32. bit x j \<longleftrightarrow> j < ?r)" for x :: u32
  proof -
    have "bit (drop_bit (32 - ?r) (0xffffffff :: u32)) j \<longleftrightarrow> j < ?r" if "j < 32" for j
      using bit_mask_iff [of 32 "32 - ?r + j", where 'a = u32] that by (auto simp: bit_drop_bit_eq mask_eq_exp_minus_1)
    then show ?thesis by (auto intro!: bit_word_eqI)
  qed
  have zero: "x AND 31 = 0 \<longleftrightarrow> unat x mod 32 = 0" for x :: u32 by (metis index_split(2) unat_eq_zero)
  have c: "check_required count seen \<longleftrightarrow>
      (\<forall>i < ?q. \<forall>j < 32. bit (seen ! i) j) \<and> (?r \<noteq> 0 \<longrightarrow> (\<forall>j < 32. bit (seen ! ?q) j \<longleftrightarrow> j < ?r))"
    unfolding check_required_def Let_def zero index_split n full part by (simp add: list_all_iff atLeast0LessThan Ball_def)
  have inv: "k \<in> seen_fields seen \<Longrightarrow> k < unat count" for k using assms by blast
  let ?full = "(\<forall>i < ?q. \<forall>j < 32. bit (seen ! i) j)" and ?part = "?r \<noteq> 0 \<longrightarrow> (\<forall>j < 32. bit (seen ! ?q) j \<longleftrightarrow> j < ?r)"
  show ?thesis unfolding c n_def [symmetric]
  proof
    assume b: "?full \<and> ?part"
    show "\<forall>k < n. k \<in> seen_fields seen"
    proof (intro allI impI)
      fix k assume k: "k < n"
      have "k div 32 < ?q \<or> (k div 32 = ?q \<and> k mod 32 < ?r)"
        using k div_le_mono [of k n 32] mult_div_mod_eq [of 32 k] mult_div_mod_eq [of 32 n] by linarith
      then have "bit (seen ! (k div 32)) (k mod 32)" using b by fastforce
      then show "k \<in> seen_fields seen" using k by (simp add: seen_fields_def n_def)
    qed
  next
    assume s: "\<forall>k < n. k \<in> seen_fields seen"
    have ?full
    proof (intro allI impI)
      fix i j assume i: "i < ?q" and j: "j < (32 :: nat)"
      have "32 * i + j < n" using i j mult_div_mod_eq [of 32 n] by linarith
      then have "32 * i + j \<in> seen_fields seen" using s by blast
      then show "bit (seen ! i) j" using j by (simp add: seen_fields_def)
    qed
    moreover have ?part
    proof (intro allI impI)
      fix j assume r: "?r \<noteq> 0" and j: "j < (32 :: nat)"
      have k: "32 * ?q + j < n \<longleftrightarrow> j < ?r" by (metis add_less_cancel_left mult_div_mod_eq)
      have "n < 64" "unat count = n" using r by (auto simp: n_def min_def split: if_splits)
      then have "?q < 2" by (simp add: less_mult_imp_div_less)
      then have "32 * ?q + j < 64" using j by linarith
      then have "bit (seen ! ?q) j \<longleftrightarrow> 32 * ?q + j \<in> seen_fields seen" using j by (simp add: seen_fields_def)
      then show "bit (seen ! ?q) j \<longleftrightarrow> j < ?r" using k s inv [of "32 * ?q + j"] \<open>unat count = n\<close> by auto
    qed
    ultimately show "?full \<and> ?part" by blast
  qed
qed

lemma seen_none: "seen_fields [0, 0] = {}"
proof -
  have "[0, 0 :: u32] ! (k div 32) = 0" if "k < 64" for k
    using that less_mult_imp_div_less [of k 2 32] by (cases "k div 32") (simp_all add: less_Suc_eq)
  then show ?thesis by (auto simp: seen_fields_def)
qed

section \<open>Properties\<close>

text \<open>
  C5. The decoder is safe on arbitrary input. For a message of static fields that fit into its structure, with
  submessages, arrays, packed arrays, strings and unions, \<open>pb_decode\<close> returns whatever bytes the stream
  delivers, with success or an error: it terminates, writes no byte outside the structure, does not use the
  allocator, and leaves the stream no longer than it was.
\<close>

theorem pb_decode_static_safe:
  assumes "static_ok n (dw_fields w) fs sz" and "block d sz" and "bounded st"
  shows "\<exists>ok st' sr'. pb_decode n w (st, sr) fs d = Some (ok, (st', sr')) \<and>
    (\<forall>a. a \<notin> region d sz \<longrightarrow> sr_mem sr' a = sr_mem sr a) \<and> sr_heap sr' = sr_heap sr \<and>
    is_bytes_left st' \<le> is_bytes_left st"
proof -
  have "safe (region d sz) (st, sr) (pb_decode n w (st, sr) fs d)"
    using decode_with_safe [of n w "region d sz"] assms unfolding decodes_safely_def pb_decode_def by simp
  then show ?thesis by (auto simp: safe_def only_def adv_def)
qed

text \<open>
  C26. Required fields. When the input is finished, the bitmap that the loop has filled and the count it
  derives from the descriptors decide exactly: decoding succeeds if every required field, of the first 64, was
  seen, and reports an error otherwise.
\<close>

theorem pb_required_fields_exact:
  assumes "fields_ok fs" and "i < nfields fs" and "nfields fs < 2 ^ 32" and "ni_iter ni = iter_at fs d i"
    and "ni_fixed_count_field ni = None" and "ni_fields_seen ni = fold mark_required seen [0, 0]"
    and "\<forall>k \<in> set seen. unat k < required_before fs (nfields fs)"
  shows "noinit_finish ni =
    Some (if \<forall>k < min 64 (required_before fs (nfields fs)). word_of_nat k \<in> set seen
          then (True, ni_state ni) else dec_error ''missing required field'' (ni_state ni))"
proof -
  let ?total = "required_before fs (nfields fs)"
  have "?total \<le> nfields fs" unfolding required_before_def using length_filter_le [of _ "take (nfields fs) fs"] by (simp add: order_trans)
  then have total: "unat (word_of_nat ?total :: u32) = ?total" using assms(3) by (simp add: unat_word_of_nat)
  have seen: "seen_fields (ni_fields_seen ni) = {unat k |k. k \<in> set seen \<and> k < 64}"
    unfolding assms(6) using fold_mark_required [of "[0, 0]" seen] by (simp add: seen_none)
  have "k \<in> seen_fields (ni_fields_seen ni) \<longleftrightarrow> word_of_nat k \<in> set seen" if "k < 64" for k
  proof -
    have "unat (word_of_nat k :: u32) = k" using that by (simp add: unat_word_of_nat)
    then show ?thesis unfolding seen using that by (auto simp: word_less_nat_alt intro!: exI [of _ "word_of_nat k"])
  qed
  moreover have "\<forall>k \<in> seen_fields (ni_fields_seen ni). k < unat (word_of_nat ?total :: u32)"
    unfolding seen total using assms(7) by auto
  ultimately have "check_required (word_of_nat ?total) (ni_fields_seen ni) \<longleftrightarrow> (\<forall>k < min 64 ?total. word_of_nat k \<in> set seen)"
    using check_required_seen [of "ni_fields_seen ni" "word_of_nat ?total"] total by auto
  then show ?thesis using assms(4,5) count_required_ok [OF assms(1,2), of d] by (auto simp: noinit_finish_def)
qed

text \<open>
  C29. Scalar fields survive the wire. The bytes of a field of any scalar type and size, written by nanopb's
  table of encoders into a buffer and read back by its table of decoders, are restored exactly, at
  whatever address; the input is used up and no other memory changes.
\<close>

theorem pb_scalar_roundtrip:
  assumes "scalar_field (w_mem w) a f" and "10 \<le> length mem" and "length mem < SIZE_BOUND"
  shows "\<exists>st st' sr'. PB_ENCODERS enc w (PB_LTYPE (pf_type f)) (pb_ostream_from_buffer mem (length mem)) f a = Some (True, st) \<and>
    PB_DECODERS decode noinit dw (PB_LTYPE (pf_type f))
      (pb_istream_from_buffer (fst (os_state st)) (os_bytes_written st), sr) f b = Some (True, (st', sr')) \<and>
    mem_bytes (sr_mem sr') b (unat (pf_data_size f)) = mem_bytes (w_mem w) a (unat (pf_data_size f)) \<and>
    (\<forall>x. x \<notin> region b (unat (pf_data_size f)) \<longrightarrow> sr_mem sr' x = sr_mem sr x) \<and> is_bytes_left st' = 0"
proof -
  let ?bytes = "mem_bytes (w_mem w) a (unat (pf_data_size f))"
  obtain e bs where e: "\<And>st. PB_ENCODERS enc w (PB_LTYPE (pf_type f)) st f a = Some (e st)" "buf.emits e bs" "length bs \<le> 10"
    and dec: "\<And>st sr. src.holds st (bs @ []) \<Longrightarrow>
      \<exists>st'. PB_DECODERS decode noinit dw (PB_LTYPE (pf_type f)) (st, sr) f b = Some (True, (st', put b ?bytes sr)) \<and> src.leaves st st' []"
    using scalar_carries [OF assms(1)] unfolding carries_def by blast
  have "length bs \<le> length mem" using e(3) assms(2) by simp
  from encode_buffer [OF e(2) this order_refl assms(3)] obtain st where
    st: "e (pb_ostream_from_buffer mem (length mem)) = (True, st)"
      "src.holds (pb_istream_from_buffer (fst (os_state st)) (os_bytes_written st)) bs" .
  then have "src.holds (pb_istream_from_buffer (fst (os_state st)) (os_bytes_written st)) (bs @ [])" by simp
  from dec [OF this] obtain st' where
    st': "PB_DECODERS decode noinit dw (PB_LTYPE (pf_type f)) (pb_istream_from_buffer (fst (os_state st)) (os_bytes_written st), sr) f b =
      Some (True, (st', put b ?bytes sr))" "src.leaves (pb_istream_from_buffer (fst (os_state st)) (os_bytes_written st)) st' []" by blast
  have "length ?bytes < 2 ^ 64" using unat_less_power [of "pf_data_size f"] by simp
  from mem_store_bytes [OF this, of "sr_mem sr" b]
  have "mem_bytes (sr_mem (put b ?bytes sr)) b (unat (pf_data_size f)) = ?bytes" by (simp add: put_def)
  moreover have "only (region b (unat (pf_data_size f))) sr (put b ?bytes sr)" by (rule only_put) simp
  moreover have "is_bytes_left st' = 0" using st'(2) by (simp add: src.leaves_def src.holds_def)
  ultimately show ?thesis using e(1) st(1) st'(1) by (auto simp: only_def)
qed

section \<open>Witnesses\<close>

text \<open>A structure of 20 bytes with a number, an optional nested message and an array of two numbers.\<close>

definition static_fields :: "pb_field list" where
  "static_fields =
     [\<lparr>pf_tag = 1, pf_type = 0x02, pf_data_offset = 0, pf_size_offset = 0, pf_data_size = 4, pf_array_size = 0, pf_ptr = 0\<rparr>,
      \<lparr>pf_tag = 2, pf_type = 0x18, pf_data_offset = 1, pf_size_offset = 0xffffffff, pf_data_size = 1, pf_array_size = 0, pf_ptr = 0x2000\<rparr>,
      \<lparr>pf_tag = 3, pf_type = 0x22, pf_data_offset = 6, pf_size_offset = 0xfffffffc, pf_data_size = 4, pf_array_size = 2, pf_ptr = 0\<rparr>,
      \<lparr>pf_tag = 0, pf_type = 0, pf_data_offset = 0, pf_size_offset = 0, pf_data_size = 0, pf_array_size = 0, pf_ptr = 0\<rparr>]"

definition static_world :: "(unit, unit) pb_dworld" where
  "static_world =
     \<lparr>dw_fields = (\<lambda>p. if p = 0x2000 then example_nested else []), dw_realloc = (\<lambda>h m p n. (0, m, h)), dw_free = (\<lambda>h p. h),
      dw_decode = (\<lambda>cb s f arg. (False, s)), dw_ext_decode = (\<lambda>cb s ext tag wt. (False, s))\<rparr>"

definition zero_store :: "unit pb_store" where
  "zero_store = \<lparr>sr_mem = (\<lambda>_. 0), sr_heap = (), sr_fixed_count_size = 0\<rparr>"

lemma static_fields_ok: "static_ok 2 (dw_fields static_world) static_fields 20"
proof -
  have nested: "static_ok (Suc 0) (dw_fields static_world) example_nested (Suc 0)"
    by (simp add: example_nested_def fields_ok_def nfields_def field_fits_def within_def item_count_def
        PB_ATYPE_def PB_LTYPE_def PB_HTYPE_def)
  have world: "dw_fields static_world 0x2000 = example_nested" by (simp add: static_world_def)
  have fields: "fields_ok static_fields" "nfields static_fields = 3" by (simp_all add: static_fields_def fields_ok_def nfields_def)
  have "offsets static_fields 0 = (0, 0)" "offsets static_fields 1 = (5, 4)" "offsets static_fields 2 = (12, 8)" by code_simp+
  then have "field_fits (static_ok (Suc 0) (dw_fields static_world)) (dw_fields static_world) (static_fields ! i) (offsets static_fields i) 20"
    if "i \<in> {0, 1, 2}" for i
    using that nested world
    by (auto simp: static_fields_def field_fits_def within_def item_count_def PB_ATYPE_def PB_LTYPE_def PB_HTYPE_def
        simp del: static_ok.simps)
  then have "list_all (\<lambda>i. field_fits (static_ok (Suc 0) (dw_fields static_world)) (dw_fields static_world) (static_fields ! i)
      (offsets static_fields i) 20) [0, 1, 2]" by (simp del: offsets.simps)
  moreover have "[0..<3] = [0, 1, 2 :: nat]" by (simp add: upt_rec)
  ultimately show ?thesis using fields unfolding numeral_2_eq_2 static_ok.simps(2) [of "Suc 0"] by simp
qed

theorem pb_decode_static_safe_witness:
  "\<exists>ok st' sr'. pb_decode 2 static_world (pb_istream_from_buffer [0x1a, 0x03, 1, 2, 3] 5, zero_store) static_fields 0x1000 =
     Some (ok, (st', sr')) \<and> sr_mem sr' 0x1014 = 0"
proof -
  have ok: "static_ok 2 (dw_fields static_world) static_fields 20" "block 0x1000 20"
    by (simp_all add: static_fields_ok block_def)
  have "(0x1014 :: addr) \<notin> region 0x1000 20" by (simp add: region_def lessThan_nat_numeral lessThan_Suc)
  moreover have "bounded (pb_istream_from_buffer bs n)" for bs n by (simp add: bounded_def pb_istream_from_buffer_def)
  note pb_decode_static_safe [OF ok this, of _ _ zero_store]
  moreover have "sr_mem zero_store 0x1014 = 0" by (simp add: zero_store_def)
  ultimately show ?thesis by metis
qed

definition finish_state :: "u32 list \<Rightarrow> (unit, unit) noinit_state" where
  "finish_state seen =
     \<lparr>ni_state = (pb_istream_from_buffer [] 0, zero_store), ni_iter = iter_at static_fields 0x1000 0, ni_local = False,
      ni_fields_seen = seen, ni_extension_range_start = 0, ni_fixed_count_field = None\<rparr>"

theorem pb_required_fields_exact_witness:
  "map_option fst (noinit_finish (finish_state [1, 0])) = Some True \<and> map_option fst (noinit_finish (finish_state [0, 0])) = Some False"
proof -
  have fs: "fields_ok static_fields" "0 < nfields static_fields" "nfields static_fields < 2 ^ 32"
    "required_before static_fields (nfields static_fields) = 1"
    by (simp_all add: static_fields_def fields_ok_def nfields_def required_before_def PB_HTYPE_def)
  have seen: "fold mark_required [0] [0, 0] = [1, 0]" "fold mark_required [] [0, 0] = [0, 0]" by code_simp+
  have ni: "ni_iter (finish_state s) = iter_at static_fields 0x1000 0" "ni_fixed_count_field (finish_state s) = None"
    "ni_fields_seen (finish_state s) = s" for s by (simp_all add: finish_state_def)
  have "noinit_finish (finish_state [1, 0]) = Some (True, ni_state (finish_state [1, 0]))"
    using pb_required_fields_exact [OF fs(1-3) ni(1,2), of "[1, 0]" "[0]", unfolded seen ni(3) fs(4)] by simp
  moreover have "noinit_finish (finish_state [0, 0]) = Some (dec_error ''missing required field'' (ni_state (finish_state [0, 0])))"
    using pb_required_fields_exact [OF fs(1-3) ni(1,2), of "[0, 0]" "[]", unfolded seen ni(3) fs(4)] by (auto dest: spec [of _ 0])
  ultimately show ?thesis by (simp add: dec_error_def)
qed

theorem pb_scalar_roundtrip_witness:
  "\<exists>st st' sr'. PB_ENCODERS (pb_encode 0 example_world) example_world 2 (pb_ostream_from_buffer (replicate 10 0) 10) (hd example_fields) 0x1000 =
      Some (True, st) \<and>
    PB_DECODERS (pb_decode 0 static_world) (pb_decode_noinit 0 static_world) static_world 2
      (pb_istream_from_buffer (fst (os_state st)) (os_bytes_written st), zero_store) (hd example_fields) 0x3000 = Some (True, (st', sr')) \<and>
    mem_bytes (sr_mem sr') 0x3000 4 = [0x2c, 1, 0, 0]"
proof -
  have f: "scalar_field (w_mem example_world) 0x1000 (hd example_fields)" "PB_LTYPE (pf_type (hd example_fields)) = 2"
    "unat (pf_data_size (hd example_fields)) = 4" "mem_bytes (w_mem example_world) 0x1000 4 = [0x2c, 1, 0, 0]" by code_simp+
  show ?thesis
    using pb_scalar_roundtrip [OF f(1), of "replicate 10 0" "pb_encode 0 example_world" "pb_decode 0 static_world"
        "pb_decode_noinit 0 static_world" static_world zero_store "0x3000", unfolded f(2-4)] by auto
qed

section \<open>Divergences\<close>

text \<open>
  A repeated field of fixed count has no count in the structure; its descriptor has the size offset 0. Setting
  it to its default still writes a zero count of four bytes at \<open>pSize\<close>, which is \<open>pData\<close>: for an array of
  fewer than four bytes this runs over whatever lies behind it.
\<close>

lemma pb_fixed_count_default_overflows:
  fixes sr :: "'h pb_store"
  shows "map_option (\<lambda>sr'. sr_mem sr' 0x1002)
    (pb_message_set_to_defaults 1 w
      [\<lparr>pf_tag = 1, pf_type = 0x20, pf_data_offset = 0, pf_size_offset = 0, pf_data_size = 1, pf_array_size = 2, pf_ptr = 0\<rparr>,
       \<lparr>pf_tag = 0, pf_type = 0, pf_data_offset = 0, pf_size_offset = 0, pf_data_size = 0, pf_array_size = 0, pf_ptr = 0\<rparr>]
      0x1000 sr) = Some 0"
  by (simp add: pb_message_set_to_defaults_def message_each_def pb_field_iter_begin_def pb_field_iter_next_def
      iter_loop.simps field_at_def put_def fixed32_le_def PB_LTYPE_def PB_ATYPE_def PB_HTYPE_def Let_def)

text \<open>
  The field number 0 is invalid, but in a message without fields it is the tag of the terminator: the decoder
  takes the terminator for a required \<open>bool\<close> and writes a byte at the start of the structure.
\<close>

lemma pb_tag_zero_writes:
  "map_option (\<lambda>(ok, (_, sr)). (ok, sr_mem sr 0x1000))
     (pb_decode 1 static_world (pb_istream_from_buffer [5, 1] 2, zero_store)
       [\<lparr>pf_tag = 0, pf_type = 0, pf_data_offset = 0, pf_size_offset = 0, pf_data_size = 0, pf_array_size = 0, pf_ptr = 0\<rparr>] 0x1000) =
   Some (True, 1)"
  by code_simp

end
