(* ===== verification/Spec2Isabelle.thy ===== *)
theory Spec2Isabelle
  imports CbbError Stack Lhash Buf Base64 UvTimer ThreadpoolInv InetText PbDecodeProps
begin

text \<open>
  \<^bold>\<open>Verification of the C code of InstaClone\<close>

  The repository is an iOS application. Its own views and services are Swift; all of its C code is in the
  libraries it is linked with, under \<^verbatim>\<open>src/InStaCloneSnapKit/Pods/\<close>, and this development models
  the part of that code through which every byte of the application's traffic passes: the data structures and
  parsers of BoringSSL (\<^verbatim>\<open>BoringSSL-GRPC/src/crypto\<close>), the timers, the thread pool and the address
  parser of libuv (\<^verbatim>\<open>Libuv-gRPC/src\<close>), and nanopb (\<^verbatim>\<open>nanopb\<close>), the protocol buffers of
  Firebase. The target is a 64-bit Apple platform: \<open>size_t\<close> has 64 bits, memory is little-endian, and
  nanopb is compiled with \<open>PB_FIELD_32BIT\<close> and \<open>PB_ENABLE_MALLOC\<close>.

  \<^bold>\<open>Conventions\<close>

  A C structure is a record, a function that may fail returns an option or a pair with its status, machine
  integers are words, and a \<open>size_t\<close> that counts bytes is a natural number with its wrap-around written out
  (\<open>size_add\<close>, \<open>size_mul\<close>). \<open>malloc\<close> (a function of the size, which may refuse any size; a theorem that
  needs success assumes that it refuses none, or that the buffer is large enough), user callbacks and comparison functions are parameters, and what the
  code relies on of them is a hypothesis or the assumption of a locale. A loop is recursion with a
  termination proof, or \<open>partial_function (option)\<close> where its end depends on the data; the theorems then
  state that it returns.

  \<^bold>\<open>BoringSSL\<close>

  \<^item> \<open>Prelude\<close>: machine types, the arithmetic of \<open>size_t\<close>, big-endian numbers, shared facts on words and lists.
    \<open>Codec\<close>: locales for encoders and decoders that invert each other.
  \<^item> \<open>Mem\<close> (\<^verbatim>\<open>mem.c\<close>): allocation with a failing allocator, string and memory helpers.
  \<^item> \<open>Cbs\<close>, \<open>Der\<close>, \<open>DerInt\<close> (\<^verbatim>\<open>bytestring/cbs.c\<close>): the reader of byte strings; the DER element parser is shown
    to accept exactly the DER elements of an independent grammar; integers, booleans and bit strings.
  \<^item> \<open>Cbb\<close>, \<open>CbbSpec\<close>, \<open>CbbAsn1\<close> (\<^verbatim>\<open>bytestring/cbb.c\<close>): the builder with its chain of open children, refined to an
    abstract machine of nested byte strings; integers written are read back. \<open>Oid\<close>: object identifiers
    from text and back, with the exact language of the parser. \<open>SetOf\<close>: the elements of a SET OF are sorted, whatever
    \<open>qsort\<close> does beyond its contract, which is the locale of \<open>Qsort\<close>. \<open>CbbError\<close>: a call that cannot write
    sets the error flag, and every call after it fails; \<open>CBB_did_write\<close> and \<open>CBB_discard_child\<close>, which
    the code lets through, leave the flag set.
  \<^item> \<open>Stack\<close> (\<^verbatim>\<open>stack/stack.c\<close>): every operation, with the binary search, the sorted flag and growth;
    insertion and deletion at every index, in range or not.
  \<^item> \<open>Lhash\<close> (\<^verbatim>\<open>lhash/lhash.c\<close>): the hash table with resizing is a dictionary, for insertions,
    deletions and retrievals; iteration is modelled for callbacks that leave the table alone.
  \<^item> \<open>Buf\<close> (\<^verbatim>\<open>buf/buf.c\<close>): the growable buffer. \<open>Base64\<close> (\<^verbatim>\<open>base64/base64.c\<close> and the constant-time primitives
    of \<^verbatim>\<open>internal.h\<close>): block and streaming coders are inverse to each other, however the input is cut.

  \<^bold>\<open>libuv\<close>

  \<^item> \<open>UvHeap\<close>, \<open>UvHeapOrder\<close> (\<^verbatim>\<open>heap-inl.h\<close>): the binary heap on explicit node pointers; insertion and removal of
    any node keep shape, order and contents, and dequeuing yields the nodes in order.
  \<^item> \<open>UvTimer\<close> (\<^verbatim>\<open>timer.c\<close>, \<^verbatim>\<open>uv-common.h\<close>): timers on top of the heap, through the locale it satisfies; running
    them fires the due ones in order and starts the repeating ones again, with callbacks that leave the loop alone,
    and ends with callbacks that act on timers, as long as they make none due.
  \<^item> \<open>Threadpool\<close>, \<open>ThreadpoolInv\<close> (\<^verbatim>\<open>threadpool.c\<close>): the critical sections as steps of a transition system, any number
    of workers, any interleaving; invariants by rule induction: every request completes exactly once, no
    wake-up is lost, the counters are exact.
  \<^item> \<open>Inet\<close>, \<open>InetParse\<close>, \<open>InetText\<close> (\<^verbatim>\<open>inet.c\<close>, \<^verbatim>\<open>strscpy.c\<close>): printing and parsing of IPv4 and IPv6 addresses.

  \<^bold>\<open>nanopb\<close>

  \<^item> \<open>PbWire\<close> (\<^verbatim>\<open>pb_encode.c\<close>, \<^verbatim>\<open>pb_decode.c\<close>): streams, varints, fixed-width values, tags, strings, skipping and
    substreams. \<open>PbCodec\<close>: the locales \<open>pb_sink\<close> and \<open>pb_source\<close>, what a coder relies on of the callback of its
    stream, with the lemmas on every coder; interpreted on buffers. \<open>PbFields\<close>: lists of fields survive the wire.
  \<^item> \<open>PbIter\<close> (\<^verbatim>\<open>pb_common.c\<close>): descriptors and the field iterator against the layout they stand for.
  \<^item> \<open>PbEncode\<close> (\<^verbatim>\<open>pb_encode.c\<close>): the message encoder, on a memory of bytes. \<open>PbMessage\<close>: the encoding of a message as a
    function, and the refinement, in the locale \<open>pb_message_sink\<close>. \<open>PbMessageProps\<close>: the properties on buffers.
  \<^item> \<open>PbDecode\<close> (\<^verbatim>\<open>pb_decode.c\<close>): the message decoder, on a memory that it writes: static, pointer and callback fields,
    unions, extensions, defaults and release, the bitmap of required fields. \<open>PbDecodeSafe\<close>, \<open>PbDecodeMsg\<close>: one lemma
    for each function, from the stream up to the induction on the nesting of messages; on arbitrary input the
    decoder of a static message terminates and stays inside the structure. \<open>PbDecodeProps\<close>: the properties, with
    the exactness of the check of required fields and the round trip of scalar fields through memory.

  \<^bold>\<open>Bounds\<close>

  The nesting depth is an argument of \<open>pb_encode\<close> and of \<open>message_bytes\<close>, since messages may be linked by pointers
  without bound; a theorem about a message holds at every depth at which its encoding is
  determined. Submessages and packed arrays are below \<open>2 ^ 32\<close> bytes, all that the decoder accepts, and the
  size of an output buffer leaves that much below \<open>2 ^ 64\<close>, because the encoder does not check one addition.
  The decoder takes the depth in the same way; its safety is stated for the depth at which \<open>static_ok\<close> holds of
  the descriptors, which is every depth above their nesting. \<open>static_ok\<close> describes the messages without pointers,
  callbacks and extensions whose fields fit into their structure; arrays of fixed count must have room for the
  four bytes that their default writes. The transition system of the thread pool bounds nothing.

  \<^bold>\<open>Not modelled\<close>

  BoringSSL's ASN.1 templates, certificates, ciphers and big numbers, its TLS layer, the system-call side of libuv,
  gRPC, Abseil, LevelDB and Firebase, which are C++, and the Swift application. Of the modelled files: fork handling
  and shutdown of the thread pool, and conversions of \<open>mem.c\<close> that only call the C library. Of the decoder of
  nanopb: what a stream callback that fails leaves in the buffer it was given, and callbacks that change the stream
  beyond their own state. The fields of pointer, callback and extension type are modelled and executable, but no theorem states their
  safety, which rests on the allocator and on the callbacks of the user.
\<close>

end
